(* ===== verification/Xv6_Prelude.thy ===== *)
theory Xv6_Prelude
  imports Main "HOL-Library.Word"
begin

text \<open>
  Shared vocabulary of the development: the machine's integer types, the outcome of a kernel
  operation (value, panic, sleep, divergence) with its sequencing combinator, byte memories with
  little-endian loads and stores, and the generic lemmas on lists and words that the component
  theories use.
\<close>

unbundle bit_operations_syntax

named_theorems outcome_simps \<open>equations that run sequenced kernel operations\<close>
named_theorems layout_defs \<open>constants of param.h, memlayout.h, riscv.h and fs.h\<close>

type_synonym byte = "8 word"
type_synonym uint16 = "16 word"
type_synonym uint = "32 word"
type_synonym uint64 = "64 word"
type_synonym memory = "uint64 \<Rightarrow> byte"

section \<open>Outcomes of kernel operations\<close>

text \<open>
  A kernel operation either returns a value in a new state, calls \<^verbatim>\<open>panic(msg)\<close> (which never
  returns), goes to sleep in \<^verbatim>\<open>sched()\<close> before it has returned (with the state at that point),
  or runs forever.
\<close>

datatype ('a, 's) outcome = Ok 'a 's | Panic string | Sleep 's | Diverge

fun bindK :: "('a, 's) outcome \<Rightarrow> ('a \<Rightarrow> 's \<Rightarrow> ('b, 's) outcome) \<Rightarrow> ('b, 's) outcome" where
  "bindK (Ok x s) f = f x s"
| "bindK (Panic e) f = Panic e"
| "bindK (Sleep s) f = Sleep s"
| "bindK Diverge f = Diverge"

lemma bindK_cong [fundef_cong]:
  "m = m' \<Longrightarrow> (\<And>x s. m' = Ok x s \<Longrightarrow> f x s = g x s) \<Longrightarrow> bindK m f = bindK m' g"
  by (cases m') auto

lemma bindK_Ok_iff: "bindK m f = Ok y t \<longleftrightarrow> (\<exists>x s. m = Ok x s \<and> f x s = Ok y t)"
  by (cases m) auto

lemma bindK_assoc: "bindK (bindK m f) g = bindK m (\<lambda>x s. bindK (f x s) g)"
  by (cases m) auto

lemma bindK_Ok_right [simp]: "bindK m Ok = m"
  by (cases m) auto

definition returns :: "('a, 's) outcome \<Rightarrow> bool" where
  "returns m = (case m of Ok _ _ \<Rightarrow> True | _ \<Rightarrow> False)"

lemma returns_Ok [simp]: "returns (Ok x s)"
  by (simp add: returns_def)

lemma returns_iff: "returns m \<longleftrightarrow> (\<exists>x s. m = Ok x s)"
  by (cases m) (auto simp: returns_def)

lemmas [outcome_simps] = bindK.simps Let_def

section \<open>Little-endian words and byte lists\<close>

fun word_of_bytes :: "byte list \<Rightarrow> 'a::len word" where
  "word_of_bytes [] = 0"
| "word_of_bytes (b # bs) = ucast b OR push_bit 8 (word_of_bytes bs)"

definition bytes_of_word :: "nat \<Rightarrow> 'a::len word \<Rightarrow> byte list" where
  "bytes_of_word n w = map (\<lambda>i. ucast (drop_bit (8 * i) w)) [0..<n]"

lemma length_bytes_of_word [simp]: "length (bytes_of_word n w) = n"
  by (simp add: bytes_of_word_def)

lemma bit_word_of_bytes:
  "bit (word_of_bytes bs :: 'a::len word) k \<longleftrightarrow>
     k < LENGTH('a) \<and> k div 8 < length bs \<and> bit (bs ! (k div 8)) (k mod 8)"
proof (induction bs arbitrary: k)
  case Nil
  then show ?case by simp
next
  case (Cons b bs)
  show ?case
  proof (cases "k < 8")
    case True
    then show ?thesis
      by (auto simp: bit_or_iff bit_push_bit_iff bit_ucast_iff)
  next
    case False
    then have k: "k div 8 = Suc ((k - 8) div 8)" "k mod 8 = (k - 8) mod 8"
      by (simp_all add: le_div_geq le_mod_geq)
    have "\<not> bit b k" using False by (auto dest: bit_imp_le_length)
    with False show ?thesis
      by (auto simp: bit_or_iff bit_push_bit_iff bit_ucast_iff Cons.IH k)
  qed
qed

lemma word_of_bytes_of_word [simp]:
  fixes w :: "'a::len word"
  assumes "LENGTH('a) \<le> 8 * n"
  shows "word_of_bytes (bytes_of_word n w) = w"
proof (rule bit_word_eqI)
  fix k assume k: "k < LENGTH('a)"
  with assms have kn: "k div 8 < n" by linarith
  have "8 * (k div 8) + k mod 8 = k" by simp
  with k kn show "bit (word_of_bytes (bytes_of_word n w) :: 'a word) k = bit w k"
    by (simp add: bit_word_of_bytes bytes_of_word_def bit_ucast_iff bit_drop_bit_eq)
qed

section \<open>Byte memories\<close>

text \<open>\<open>put_bytes m a bs\<close> stores \<open>bs\<close> at addresses \<open>a\<close>, \<open>a + 1\<close>, \<open>\<dots>\<close>;
  \<open>get_bytes m a n\<close> reads \<open>n\<close> bytes from \<open>a\<close>.\<close>

definition put_bytes :: "memory \<Rightarrow> uint64 \<Rightarrow> byte list \<Rightarrow> memory" where
  "put_bytes m a bs = (\<lambda>x. if unat (x - a) < length bs then bs ! unat (x - a) else m x)"

definition get_bytes :: "memory \<Rightarrow> uint64 \<Rightarrow> nat \<Rightarrow> byte list" where
  "get_bytes m a n = map (\<lambda>i. m (a + of_nat i)) [0..<n]"

definition load64 :: "memory \<Rightarrow> uint64 \<Rightarrow> uint64" where
  "load64 m a = word_of_bytes (get_bytes m a 8)"

definition store64 :: "memory \<Rightarrow> uint64 \<Rightarrow> uint64 \<Rightarrow> memory" where
  "store64 m a v = put_bytes m a (bytes_of_word 8 v)"

lemma length_get_bytes [simp]: "length (get_bytes m a n) = n"
  by (simp add: get_bytes_def)

lemma nth_get_bytes [simp]: "i < n \<Longrightarrow> get_bytes m a n ! i = m (a + of_nat i)"
  by (simp add: get_bytes_def)

lemma get_bytes_cong:
  "(\<And>i. i < n \<Longrightarrow> m (a + of_nat i) = m' (b + of_nat i)) \<Longrightarrow> get_bytes m a n = get_bytes m' b n"
  by (simp add: get_bytes_def)

lemma put_bytes_Nil [simp]: "put_bytes m a [] = m"
  by (simp add: put_bytes_def)

lemma get_put_bytes [simp]:
  assumes "length bs = n" "n \<le> 2 ^ 64"
  shows "get_bytes (put_bytes m a bs) a n = bs"
proof (rule nth_equalityI)
  fix i assume "i < length (get_bytes (put_bytes m a bs) a n)"
  then have i: "i < n" by simp
  with assms have "unat (of_nat i :: uint64) = i"
    by (simp add: unat_of_nat take_bit_nat_eq_self)
  with i assms show "get_bytes (put_bytes m a bs) a n ! i = bs ! i"
    by (simp add: put_bytes_def)
qed (use assms in simp)

text \<open>The bytes \<open>a, \<dots>, a + n - 1\<close>, for a range that does not wrap around.\<close>

definition range_of :: "uint64 \<Rightarrow> nat \<Rightarrow> uint64 set" where
  "range_of a n = {x. unat (x - a) < n}"

lemma put_bytes_outside: "x \<notin> range_of a (length bs) \<Longrightarrow> put_bytes m a bs x = m x"
  by (simp add: put_bytes_def range_of_def)

lemma in_range_of_add: "i < n \<Longrightarrow> n \<le> 2 ^ 64 \<Longrightarrow> a + of_nat i \<in> range_of a n"
  by (simp add: range_of_def unat_of_nat take_bit_nat_eq_self)

lemma get_bytes_put_bytes_disjoint:
  assumes "range_of a n \<inter> range_of b (length bs) = {}" "n \<le> 2 ^ 64"
  shows "get_bytes (put_bytes m b bs) a n = get_bytes m a n"
  using assms by (intro get_bytes_cong put_bytes_outside) (auto dest: in_range_of_add)

lemma load64_store64_same [simp]: "load64 (store64 m a v) a = v"
  by (simp add: load64_def store64_def)

lemma load64_put_bytes_disjoint:
  assumes "range_of a 8 \<inter> range_of b (length bs) = {}"
  shows "load64 (put_bytes m b bs) a = load64 m a"
  using assms by (simp add: load64_def get_bytes_put_bytes_disjoint)

lemma load64_cong: "(\<And>x. x \<in> range_of a 8 \<Longrightarrow> m x = m' x) \<Longrightarrow> load64 m a = load64 m' a"
  unfolding load64_def
  by (intro arg_cong [where f = word_of_bytes] get_bytes_cong) (simp add: in_range_of_add)

end
