(* ===== verification/Xv6_Layout.thy ===== *)
theory Xv6_Layout
  imports Xv6_Prelude
begin

text \<open>
  The constants and address macros of \<^verbatim>\<open>kernel/param.h\<close>, \<^verbatim>\<open>kernel/memlayout.h\<close>,
  \<^verbatim>\<open>kernel/riscv.h\<close> and \<^verbatim>\<open>kernel/fs.h\<close>, and the word-level facts about page rounding, page-table
  indices and page-table entries on which the virtual-memory proofs rest.
\<close>

section \<open>param.h\<close>

definition NPROC :: nat where [layout_defs]: "NPROC = 64"
definition NCPU :: nat where [layout_defs]: "NCPU = 8"
definition NOFILE :: nat where [layout_defs]: "NOFILE = 16"
definition NFILE :: nat where [layout_defs]: "NFILE = 100"
definition NINODE :: nat where [layout_defs]: "NINODE = 50"
definition NDEV :: nat where [layout_defs]: "NDEV = 10"
definition ROOTDEV :: uint where [layout_defs]: "ROOTDEV = 1"
definition MAXARG :: nat where [layout_defs]: "MAXARG = 32"
definition MAXOPBLOCKS :: nat where [layout_defs]: "MAXOPBLOCKS = 10"
definition LOGSIZE :: nat where [layout_defs]: "LOGSIZE = MAXOPBLOCKS * 3"
definition NBUF :: nat where [layout_defs]: "NBUF = MAXOPBLOCKS * 3"
definition FSSIZE :: nat where [layout_defs]: "FSSIZE = 1000"
definition MAXPATH :: nat where [layout_defs]: "MAXPATH = 128"

section \<open>riscv.h: pages and page-table entries\<close>

definition PGSIZE :: uint64 where [layout_defs]: "PGSIZE = 4096"
definition PGSHIFT :: nat where [layout_defs]: "PGSHIFT = 12"

definition PGROUNDUP :: "uint64 \<Rightarrow> uint64" where
  "PGROUNDUP sz = (sz + PGSIZE - 1) AND NOT (PGSIZE - 1)"

definition PGROUNDDOWN :: "uint64 \<Rightarrow> uint64" where
  "PGROUNDDOWN a = a AND NOT (PGSIZE - 1)"

definition PTE_V :: uint64 where [layout_defs]: "PTE_V = 1"
definition PTE_R :: uint64 where [layout_defs]: "PTE_R = 2"
definition PTE_W :: uint64 where [layout_defs]: "PTE_W = 4"
definition PTE_X :: uint64 where [layout_defs]: "PTE_X = 8"
definition PTE_U :: uint64 where [layout_defs]: "PTE_U = 16"

definition PA2PTE :: "uint64 \<Rightarrow> uint64" where
  "PA2PTE pa = push_bit 10 (drop_bit 12 pa)"

definition PTE2PA :: "uint64 \<Rightarrow> uint64" where
  "PTE2PA pte = push_bit 12 (drop_bit 10 pte)"

definition PTE_FLAGS :: "uint64 \<Rightarrow> uint64" where
  "PTE_FLAGS pte = pte AND 0x3FF"

definition PXSHIFT :: "nat \<Rightarrow> nat" where
  "PXSHIFT level = PGSHIFT + 9 * level"

definition PX :: "nat \<Rightarrow> uint64 \<Rightarrow> uint64" where
  "PX level va = drop_bit (PXSHIFT level) va AND 0x1FF"

definition MAXVA :: uint64 where [layout_defs]: "MAXVA = 0x4000000000"

definition SATP_SV39 :: uint64 where [layout_defs]: "SATP_SV39 = 0x8000000000000000"

definition MAKE_SATP :: "uint64 \<Rightarrow> uint64" where
  "MAKE_SATP pagetable = SATP_SV39 OR drop_bit 12 pagetable"

section \<open>memlayout.h\<close>

definition UART0 :: uint64 where [layout_defs]: "UART0 = 0x10000000"
definition VIRTIO0 :: uint64 where [layout_defs]: "VIRTIO0 = 0x10001000"
definition CLINT :: uint64 where [layout_defs]: "CLINT = 0x2000000"
definition PLIC :: uint64 where [layout_defs]: "PLIC = 0x0c000000"
definition UART0_IRQ :: nat where [layout_defs]: "UART0_IRQ = 10"
definition VIRTIO0_IRQ :: nat where [layout_defs]: "VIRTIO0_IRQ = 1"
definition KERNBASE :: uint64 where [layout_defs]: "KERNBASE = 0x80000000"
definition PHYSTOP :: uint64 where [layout_defs]: "PHYSTOP = KERNBASE + 128 * 1024 * 1024"
definition TRAMPOLINE :: uint64 where [layout_defs]: "TRAMPOLINE = MAXVA - PGSIZE"
definition TRAPFRAME :: uint64 where [layout_defs]: "TRAPFRAME = TRAMPOLINE - PGSIZE"

definition KSTACK :: "nat \<Rightarrow> uint64" where
  "KSTACK p = TRAMPOLINE - of_nat ((p + 1) * 2) * PGSIZE"

section \<open>Page alignment and rounding\<close>

definition page_aligned :: "uint64 \<Rightarrow> bool" where
  "page_aligned a \<longleftrightarrow> a mod PGSIZE = 0"

lemma mask12: "(4095 :: uint64) = mask 12"
  by (simp add: mask_eq_exp_minus_1)

lemma page_aligned_take_bit: "page_aligned a \<longleftrightarrow> take_bit 12 a = 0"
  by (simp add: page_aligned_def PGSIZE_def take_bit_eq_mod)

lemma page_aligned_unat: "page_aligned a \<longleftrightarrow> 4096 dvd unat a"
proof -
  have "page_aligned a \<longleftrightarrow> unat (a mod PGSIZE) = unat (0 :: uint64)"
    unfolding page_aligned_def by (rule word_unat_eq_iff)
  then show ?thesis by (simp add: unat_mod PGSIZE_def dvd_eq_mod_eq_0)
qed

lemma PGROUNDDOWN_shift: "PGROUNDDOWN a = push_bit 12 (drop_bit 12 a)"
  unfolding PGROUNDDOWN_def PGSIZE_def
  by (rule bit_word_eqI) (auto simp: mask12 bit_and_iff bit_not_iff bit_mask_iff bit_push_bit_iff bit_drop_bit_eq)

lemma unat_PGROUNDDOWN: "unat (PGROUNDDOWN a) = unat a div 4096 * 4096"
proof -
  have "PGROUNDDOWN a + take_bit 12 a = a"
    by (simp add: PGROUNDDOWN_shift bits_ident)
  then have *: "PGROUNDDOWN a = a - take_bit 12 a"
    by (metis add_diff_cancel_right')
  have "take_bit 12 a \<le> a"
    by (simp add: word_le_nat_alt unsigned_take_bit_eq)
  then have "unat (PGROUNDDOWN a) = unat a - unat a mod 4096"
    unfolding * by (simp add: unat_sub take_bit_eq_mod unat_mod)
  then show ?thesis by (simp add: minus_mod_eq_div_mult)
qed

lemma PGROUNDDOWN_aligned [simp]: "page_aligned (PGROUNDDOWN a)"
  by (simp add: page_aligned_unat unat_PGROUNDDOWN)

lemma PGROUNDDOWN_le: "PGROUNDDOWN a \<le> a"
  by (simp add: word_le_nat_alt unat_PGROUNDDOWN)

lemma PGROUNDDOWN_id: "page_aligned a \<Longrightarrow> PGROUNDDOWN a = a"
  by (rule word_unat_eq_iff [THEN iffD2]) (simp add: page_aligned_unat unat_PGROUNDDOWN)

lemma unat_page_offset: "unat (a - PGROUNDDOWN a) = unat a mod 4096"
  using PGROUNDDOWN_le [of a] by (simp add: unat_sub unat_PGROUNDDOWN minus_div_mult_eq_mod)

lemma page_offset_less: "a - PGROUNDDOWN a < PGSIZE"
  by (simp add: word_less_nat_alt unat_page_offset PGSIZE_def)

lemma PGROUNDUP_down: "PGROUNDUP a = PGROUNDDOWN (a + 4095)"
  by (simp add: PGROUNDUP_def PGROUNDDOWN_def PGSIZE_def add.commute)

lemma PGROUNDUP_aligned [simp]: "page_aligned (PGROUNDUP a)"
  by (simp add: PGROUNDUP_down)

lemma unat_PGROUNDUP:
  assumes "unat a + 4095 < 2 ^ 64"
  shows "unat (PGROUNDUP a) = (unat a + 4095) div 4096 * 4096"
  using assms by (simp add: PGROUNDUP_down unat_PGROUNDDOWN unat_plus_if')

lemma PGROUNDUP_id: "page_aligned a \<Longrightarrow> PGROUNDUP a = a"
proof -
  assume "page_aligned a"
  then obtain k where k: "unat a = 4096 * k" by (auto simp: page_aligned_unat)
  have "unat a < 2 ^ 64" by (rule order.strict_trans2 [OF unsigned_less]) simp
  with k have "unat a + 4095 < 2 ^ 64" by simp
  then have "unat (PGROUNDUP a) = unat a" by (simp add: unat_PGROUNDUP k)
  then show ?thesis by (simp add: word_unat_eq_iff)
qed

lemma PGROUNDUP_le_aligned:
  assumes "page_aligned b" "a \<le> b"
  shows "a \<le> PGROUNDUP a" "PGROUNDUP a \<le> b"
proof -
  obtain k where k: "unat b = 4096 * k" using assms(1) by (auto simp: page_aligned_unat)
  have "unat b < 2 ^ 64" by (rule order.strict_trans2 [OF unsigned_less]) simp
  moreover have ab: "unat a \<le> unat b" using assms(2) by (simp add: word_le_nat_alt)
  ultimately have "unat a + 4095 < 2 ^ 64" using k by simp
  then have u: "unat (PGROUNDUP a) = (unat a + 4095) div 4096 * 4096" by (rule unat_PGROUNDUP)
  show "a \<le> PGROUNDUP a" using u by (simp add: word_le_nat_alt)
  show "PGROUNDUP a \<le> b" using u ab k by (simp add: word_le_nat_alt)
qed

section \<open>Page-table indices and entries\<close>

lemma mask9: "(0x1FF :: uint64) = mask 9" and mask10: "(0x3FF :: uint64) = mask 10"
  by (simp_all add: mask_eq_exp_minus_1)

lemma unat_PX: "unat (PX l va) = unat va div 2 ^ (12 + 9 * l) mod 512"
proof -
  have "unat (drop_bit (12 + 9 * l) va) = unat va div 2 ^ (12 + 9 * l)"
    unfolding unat_drop_bit_eq by (rule drop_bit_eq_div)
  then show ?thesis
    unfolding PX_def PXSHIFT_def PGSHIFT_def mask9
    by (simp only: take_bit_eq_mask [symmetric] unsigned_take_bit_eq) (simp add: take_bit_eq_mod)
qed

lemma PX_less: "unat (PX l va) < 512"
  by (simp add: unat_PX)

lemma PTE2PA_aligned [simp]: "page_aligned (PTE2PA e)"
  by (simp add: page_aligned_take_bit PTE2PA_def take_bit_push_bit)

lemma bit_small: "bit w k \<Longrightarrow> unat w < 2 ^ n \<Longrightarrow> k < n"
  for w :: "'a::len word"
  by (metis bit_take_bit_iff take_bit_nat_eq_self_iff unsigned_take_bit_eq word_unat_eq_iff)

lemma PTE2PA_PA2PTE:
  assumes "page_aligned pa" "unat f < 1024"
  shows "PTE2PA (PA2PTE pa OR f) = pa"
proof (rule bit_word_eqI)
  fix k :: nat assume k: "k < LENGTH(64)"
  have f: "\<not> bit f j" if "10 \<le> j" for j
    using bit_small [of f j 10] assms(2) that by auto
  have pa: "12 \<le> k" if "bit pa k"
    using assms(1) that unfolding page_aligned_take_bit
    by (metis bit_0_eq bit_take_bit_iff bot_apply bot_bool_def not_le)
  show "bit (PTE2PA (PA2PTE pa OR f)) k = bit pa k"
    using k f pa
    by (auto simp: PTE2PA_def PA2PTE_def bit_push_bit_iff bit_drop_bit_eq bit_or_iff)
qed

lemma PTE_FLAGS_PA2PTE:
  assumes "unat f < 1024"
  shows "PTE_FLAGS (PA2PTE pa OR f) = f"
proof (rule bit_word_eqI)
  fix k :: nat assume "k < LENGTH(64)"
  then show "bit (PTE_FLAGS (PA2PTE pa OR f)) k = bit f k"
    using bit_small [of f k 10] assms
    by (auto simp: PTE_FLAGS_def mask10 PA2PTE_def bit_push_bit_iff bit_and_iff bit_or_iff bit_mask_iff)
qed

end
