(* ===== verification/Xv6_String.thy ===== *)
theory Xv6_String
  imports Xv6_Layout
begin

text \<open>
  \<^verbatim>\<open>kernel/string.c\<close>: the C library routines of the kernel over a byte memory. Every loop is the
  source's loop, one byte at a time; the lemmas give the memory each routine leaves as one
  \<open>put_bytes\<close>, the form the callers' proofs use.
\<close>

section \<open>Definitions\<close>

function memset_loop :: "memory \<Rightarrow> uint64 \<Rightarrow> byte \<Rightarrow> nat \<Rightarrow> nat \<Rightarrow> memory" where
  "memset_loop m cdst c i n =
     (if i < n then memset_loop (m(cdst + of_nat i := c)) cdst c (Suc i) n else m)"
  by pat_completeness auto
termination by (relation "measure (\<lambda>(m, d, c, i, n). n - i)") auto

declare memset_loop.simps [simp del]

definition memset :: "memory \<Rightarrow> uint64 \<Rightarrow> uint \<Rightarrow> uint \<Rightarrow> memory" where
  "memset m dst c n = memset_loop m dst (ucast c) 0 (unat n)"

fun memcmp_loop :: "memory \<Rightarrow> uint64 \<Rightarrow> uint64 \<Rightarrow> nat \<Rightarrow> int" where
  "memcmp_loop m s1 s2 0 = 0"
| "memcmp_loop m s1 s2 (Suc n) =
     (if m s1 \<noteq> m s2 then uint (m s1) - uint (m s2) else memcmp_loop m (s1 + 1) (s2 + 1) n)"

definition memcmp :: "memory \<Rightarrow> uint64 \<Rightarrow> uint64 \<Rightarrow> uint \<Rightarrow> int" where
  "memcmp m v1 v2 n = memcmp_loop m v1 v2 (unat n)"

fun copy_forward :: "memory \<Rightarrow> uint64 \<Rightarrow> uint64 \<Rightarrow> nat \<Rightarrow> memory" where
  "copy_forward m d s 0 = m"
| "copy_forward m d s (Suc n) = copy_forward (m(d := m s)) (d + 1) (s + 1) n"

fun copy_backward :: "memory \<Rightarrow> uint64 \<Rightarrow> uint64 \<Rightarrow> nat \<Rightarrow> memory" where
  "copy_backward m d s 0 = m"
| "copy_backward m d s (Suc n) = copy_backward (m(d - 1 := m (s - 1))) (d - 1) (s - 1) n"

definition memmove :: "memory \<Rightarrow> uint64 \<Rightarrow> uint64 \<Rightarrow> uint \<Rightarrow> memory" where
  "memmove m dst src n =
     (if src < dst \<and> src + ucast n > dst
      then copy_backward m (dst + ucast n) (src + ucast n) (unat n)
      else copy_forward m dst src (unat n))"

definition memcpy :: "memory \<Rightarrow> uint64 \<Rightarrow> uint64 \<Rightarrow> uint \<Rightarrow> memory" where
  "memcpy m dst src n = memmove m dst src n"

fun strncmp_loop :: "memory \<Rightarrow> uint64 \<Rightarrow> uint64 \<Rightarrow> nat \<Rightarrow> int" where
  "strncmp_loop m p q 0 = 0"
| "strncmp_loop m p q (Suc n) =
     (if m p \<noteq> 0 \<and> m p = m q then strncmp_loop m (p + 1) (q + 1) n
      else uint (m p) - uint (m q))"

definition strncmp :: "memory \<Rightarrow> uint64 \<Rightarrow> uint64 \<Rightarrow> uint \<Rightarrow> int" where
  "strncmp m p q n = strncmp_loop m p q (unat n)"

fun zero_fill :: "memory \<Rightarrow> uint64 \<Rightarrow> nat \<Rightarrow> memory" where
  "zero_fill m s 0 = m"
| "zero_fill m s (Suc n) = zero_fill (m(s := 0)) (s + 1) n"

fun strncpy_loop :: "memory \<Rightarrow> uint64 \<Rightarrow> uint64 \<Rightarrow> nat \<Rightarrow> memory" where
  "strncpy_loop m s t 0 = m"
| "strncpy_loop m s t (Suc n) =
     (let m' = m(s := m t) in
      if m t \<noteq> 0 then strncpy_loop m' (s + 1) (t + 1) n else zero_fill m' (s + 1) n)"

text \<open>The \<^verbatim>\<open>int n\<close> of \<^verbatim>\<open>strncpy\<close> and \<^verbatim>\<open>safestrcpy\<close> is signed: a negative count copies nothing.\<close>

definition strncpy :: "memory \<Rightarrow> uint64 \<Rightarrow> uint64 \<Rightarrow> int \<Rightarrow> memory" where
  "strncpy m s t n = strncpy_loop m s t (nat n)"

fun safestrcpy_loop :: "memory \<Rightarrow> uint64 \<Rightarrow> uint64 \<Rightarrow> nat \<Rightarrow> memory" where
  "safestrcpy_loop m s t 0 = m(s := 0)"
| "safestrcpy_loop m s t (Suc n) =
     (let m' = m(s := m t) in
      if m t \<noteq> 0 then safestrcpy_loop m' (s + 1) (t + 1) n else m'(s + 1 := 0))"

definition safestrcpy :: "memory \<Rightarrow> uint64 \<Rightarrow> uint64 \<Rightarrow> int \<Rightarrow> memory" where
  "safestrcpy m s t n = (if n \<le> 0 then m else safestrcpy_loop m s t (nat (n - 1)))"

partial_function (option) strlen_loop :: "memory \<Rightarrow> uint64 \<Rightarrow> nat \<Rightarrow> nat option" where
  "strlen_loop m s n = (if m (s + of_nat n) = 0 then Some n else strlen_loop m s (Suc n))"

definition strlen :: "memory \<Rightarrow> uint64 \<Rightarrow> nat option" where
  "strlen m s = strlen_loop m s 0"

section \<open>Stores of byte lists\<close>

lemma put_bytes_Cons:
  assumes "length bs < 2 ^ 64"
  shows "put_bytes m a (b # bs) = put_bytes (m(a := b)) (a + 1) bs"
proof
  fix x
  show "put_bytes m a (b # bs) x = put_bytes (m(a := b)) (a + 1) bs x"
  proof (cases "x = a")
    case True
    have "unat (a - (a + 1)) = 2 ^ 64 - 1" by (simp add: unsigned_minus_1_eq_mask mask_eq_exp_minus_1)
    with True assms show ?thesis by (simp add: put_bytes_def)
  next
    case False
    then have "x - a \<noteq> 0" by simp
    moreover have "x - (a + 1) = x - a - 1" by simp
    ultimately have "unat (x - a) = Suc (unat (x - (a + 1)))"
      by (metis Suc_pred' unat_minus_one unat_gt_0)
    with False show ?thesis by (simp add: put_bytes_def)
  qed
qed

lemma put_bytes_snoc:
  assumes "length bs < 2 ^ 64"
  shows "put_bytes m a (bs @ [b]) = (put_bytes m a bs)(a + of_nat (length bs) := b)"
proof
  fix x
  have eq: "unat (x - a) = length bs \<longleftrightarrow> x = a + of_nat (length bs)"
  proof
    assume "unat (x - a) = length bs"
    then have "of_nat (unat (x - a)) = (of_nat (length bs) :: uint64)" by simp
    then show "x = a + of_nat (length bs)" by (simp add: algebra_simps)
  next
    assume "x = a + of_nat (length bs)"
    with assms show "unat (x - a) = length bs"
      by (simp add: unat_of_nat take_bit_nat_eq_self)
  qed
  show "put_bytes m a (bs @ [b]) x = ((put_bytes m a bs)(a + of_nat (length bs) := b)) x"
    using eq by (auto simp: put_bytes_def nth_append less_Suc_eq)
qed

lemma put_bytes_snoc_before:
  assumes "length bs < 2 ^ 64"
  shows "put_bytes (m(a + of_nat (length bs) := b)) a bs = put_bytes m a (bs @ [b])"
proof -
  have "unat (of_nat (length bs) :: uint64) = length bs"
    using assms by (simp add: unat_of_nat take_bit_nat_eq_self)
  then show ?thesis
    using put_bytes_snoc [OF assms, of m a b] by (auto simp: put_bytes_def fun_eq_iff)
qed

section \<open>memset and memmove\<close>

lemma memset_loop_eq:
  "i \<le> n \<Longrightarrow> n \<le> 2 ^ 64 \<Longrightarrow>
   memset_loop m d c i n = put_bytes m (d + of_nat i) (replicate (n - i) c)"
proof (induction m d c i n rule: memset_loop.induct)
  case (1 m d c i n)
  show ?case
  proof (cases "i < n")
    case True
    then have "replicate (n - i) c = c # replicate (n - Suc i) c"
      by (simp add: Suc_diff_Suc flip: replicate_Suc)
    moreover have "n - Suc i < 2 ^ 64" using 1(3) True by linarith
    moreover have "d + of_nat i + 1 = d + of_nat (Suc i)" by simp
    ultimately have "put_bytes m (d + of_nat i) (replicate (n - i) c)
        = put_bytes (m(d + of_nat i := c)) (d + of_nat (Suc i)) (replicate (n - Suc i) c)"
      by (simp only: put_bytes_Cons length_replicate)
    also have "\<dots> = memset_loop (m(d + of_nat i := c)) d c (Suc i) n"
      using True 1(3) by (intro 1(1) [symmetric]) auto
    finally show ?thesis using True by (simp only: memset_loop.simps [of m d c i n] if_True)
  next
    case False
    with 1 have "i = n" by simp
    then show ?thesis by (simp add: memset_loop.simps [of m d c n n])
  qed
qed

lemma memset_put_bytes: "memset m dst c n = put_bytes m dst (replicate (unat n) (ucast c))"
proof -
  have "unat n < 2 ^ 32" by (rule order.strict_trans2 [OF unsigned_less]) simp
  then show ?thesis by (simp add: memset_def memset_loop_eq)
qed

lemma copy_forward_eq:
  assumes "d = s \<or> n \<le> unat (d - s)" "n \<le> 2 ^ 64"
  shows "copy_forward m d s n = put_bytes m d (get_bytes m s n)"
  using assms
proof (induction n arbitrary: m d s)
  case 0
  then show ?case by (simp add: get_bytes_def)
next
  case (Suc n)
  have away: "s + 1 + of_nat i \<noteq> d" if "i < n" "d \<noteq> s" for i
  proof
    assume "s + 1 + of_nat i = d"
    then have "d - s = of_nat (Suc i)" by (simp add: algebra_simps)
    then have "unat (d - s) = Suc i"
      using that Suc.prems by (simp add: unat_of_nat take_bit_nat_eq_self del: of_nat_Suc)
    with that Suc.prems show False by simp
  qed
  have get: "get_bytes m s (Suc n) = m s # get_bytes (m(d := m s)) (s + 1) n"
  proof (rule nth_equalityI)
    fix i assume i: "i < length (get_bytes m s (Suc n))"
    show "get_bytes m s (Suc n) ! i = (m s # get_bytes (m(d := m s)) (s + 1) n) ! i"
    proof (cases i)
      case 0
      then show ?thesis by simp
    next
      case (Suc j)
      with i have j: "j < n" by simp
      have eq: "get_bytes m s (Suc n) ! i = m (s + 1 + of_nat j)"
        using i Suc by (simp add: add.assoc)
      show ?thesis
      proof (cases "d = s")
        case True
        have "s + 1 + of_nat j \<noteq> s"
        proof
          assume "s + 1 + of_nat j = s"
          then have "of_nat (Suc j) = (0 :: uint64)" by (simp add: algebra_simps)
          then have "unat (of_nat (Suc j) :: uint64) = 0" by (simp del: of_nat_Suc)
          with j Suc.prems show False
            by (simp add: unat_of_nat take_bit_nat_eq_self del: of_nat_Suc)
        qed
        then have "(m(d := m s)) (s + 1 + of_nat j) = m (s + 1 + of_nat j)"
          by (simp add: True)
        with Suc j eq show ?thesis by (simp only: nth_Cons_Suc nth_get_bytes)
      next
        case False
        with away [OF j] have "s + 1 + of_nat j \<noteq> d" by blast
        then have "(m(d := m s)) (s + 1 + of_nat j) = m (s + 1 + of_nat j)"
          by (rule fun_upd_other)
        with Suc j eq show ?thesis by (simp only: nth_Cons_Suc nth_get_bytes)
      qed
    qed
  qed simp
  have "d + 1 = s + 1 \<or> n \<le> unat (d + 1 - (s + 1))" using Suc.prems by auto
  then show ?case
    using Suc.prems by (simp add: Suc.IH get put_bytes_Cons del: fun_upd_apply)
qed

lemma copy_backward_eq:
  assumes "d = s \<or> n \<le> unat (s - d)" "n \<le> 2 ^ 64"
  shows "copy_backward m (d + of_nat n) (s + of_nat n) n = put_bytes m d (get_bytes m s n)"
  using assms
proof (induction n arbitrary: m)
  case 0
  then show ?case by (simp add: get_bytes_def)
next
  case (Suc n)
  let ?m = "m(d + of_nat n := m (s + of_nat n))"
  have get: "get_bytes ?m s n = get_bytes m s n"
  proof (rule get_bytes_cong)
    fix i assume i: "i < n"
    have "s + of_nat i \<noteq> d + of_nat n"
    proof
      assume "s + of_nat i = d + of_nat n"
      then have "s - d = of_nat n - of_nat i" by (simp add: algebra_simps)
      also have "\<dots> = of_nat (n - i)" using i by (simp add: of_nat_diff)
      finally have "unat (s - d) = unat (of_nat (n - i) :: uint64)" by (rule arg_cong)
      also have "\<dots> = n - i"
        using i Suc.prems unfolding unat_of_nat by (intro mod_less) simp
      finally show False using i Suc.prems by auto
    qed
    then show "?m (s + of_nat i) = m (s + of_nat i)" by simp
  qed
  have snoc: "get_bytes m s (Suc n) = get_bytes m s n @ [m (s + of_nat n)]"
    by (simp add: get_bytes_def)
  have "copy_backward m (d + of_nat (Suc n)) (s + of_nat (Suc n)) (Suc n)
      = copy_backward ?m (d + of_nat n) (s + of_nat n) n"
    by (simp add: algebra_simps)
  also have "\<dots> = put_bytes ?m d (get_bytes m s n)"
    using Suc.prems by (subst Suc.IH) (auto simp: get)
  also have "\<dots> = put_bytes m d (get_bytes m s (Suc n))"
    using put_bytes_snoc_before [of "get_bytes m s n" m d "m (s + of_nat n)"] Suc.prems
    by (simp add: snoc)
  finally show ?case .
qed

lemma memmove_put_bytes:
  assumes "unat src + unat n < 2 ^ 64" "unat dst + unat n \<le> 2 ^ 64"
  shows "memmove m dst src n = put_bytes m dst (get_bytes m src (unat n))"
proof -
  have n: "unat n < 2 ^ 32" by (rule order.strict_trans2 [OF unsigned_less]) simp
  have un: "unat (ucast n :: uint64) = unat n"
    unfolding unsigned_ucast_eq using n by (intro take_bit_nat_eq_self) simp
  have sn: "unat (src + ucast n) = unat src + unat n"
    using assms(1) un by (simp add: unat_plus_if')
  have nn: "of_nat (unat n) = (ucast n :: uint64)" by (metis un of_nat_unat ucast_id)
  show ?thesis
  proof (cases "src < dst \<and> src + ucast n > dst")
    case True
    then have "unat (src - dst) = 2 ^ 64 - (unat dst - unat src)"
      by (simp add: unat_sub_if' word_less_nat_alt word_le_nat_alt)
    then have "unat n \<le> unat (src - dst)" using assms(2) by linarith
    with True n show ?thesis
      using copy_backward_eq [of dst src "unat n" m] by (simp add: memmove_def nn)
  next
    case False
    have "dst = src \<or> unat n \<le> unat (dst - src)"
    proof (cases "src < dst")
      case True
      with False sn have "unat src + unat n \<le> unat dst" "unat (dst - src) = unat dst - unat src"
        by (simp_all add: unat_sub word_less_nat_alt word_le_nat_alt)
      then show ?thesis by linarith
    next
      case False
      then show ?thesis using assms(1)
        by (auto simp: unat_sub_if' word_less_nat_alt word_le_nat_alt word_unat_eq_iff)
    qed
    with False n show ?thesis by (auto simp: memmove_def copy_forward_eq)
  qed
qed

section \<open>C strings\<close>

text \<open>\<open>cstr m t xs\<close>: the NUL-terminated string at \<open>t\<close> is \<open>xs\<close>.\<close>

definition cstr :: "memory \<Rightarrow> uint64 \<Rightarrow> byte list \<Rightarrow> bool" where
  "cstr m t xs \<longleftrightarrow>
     0 \<notin> set xs \<and> (\<forall>i < length xs. m (t + of_nat i) = xs ! i) \<and> m (t + of_nat (length xs)) = 0"

lemma cstr_Nil [simp]: "cstr m t [] \<longleftrightarrow> m t = 0"
  by (simp add: cstr_def)

lemma cstr_Cons [simp]: "cstr m t (x # xs) \<longleftrightarrow> x \<noteq> 0 \<and> m t = x \<and> cstr m (t + 1) xs"
  by (auto simp: cstr_def less_Suc_eq_0_disj add.assoc all_conj_distrib)

lemma cstr_upd: "cstr m t xs \<Longrightarrow> s \<notin> range_of t (Suc (length xs)) \<Longrightarrow> length xs < 2 ^ 64 \<Longrightarrow>
  cstr (m(s := b)) t xs"
  using in_range_of_add [of _ "Suc (length xs)" t] by (auto simp: cstr_def)

lemma strlen_loop_cstr:
  assumes "cstr m (s + of_nat n) xs"
  shows "strlen_loop m s n = Some (n + length xs)"
  using assms
proof (induction xs arbitrary: n)
  case Nil
  then show ?case by (simp add: strlen_loop.simps)
next
  case (Cons x xs)
  then have "cstr m (s + of_nat (Suc n)) xs" by (simp add: add.assoc add.commute [of 1])
  from Cons.IH [OF this] Cons.prems show ?case by (subst strlen_loop.simps) auto
qed

lemma strlen_cstr: "cstr m s xs \<Longrightarrow> strlen m s = Some (length xs)"
  by (simp add: strlen_def strlen_loop_cstr)

lemma zero_fill_put_bytes: "n \<le> 2 ^ 64 \<Longrightarrow> zero_fill m s n = put_bytes m s (replicate n 0)"
  by (induction n arbitrary: m s) (simp_all add: put_bytes_Cons del: fun_upd_apply)

text \<open>\<open>strncpy_bytes n xs\<close>: what \<^verbatim>\<open>strncpy(s, t, n)\<close> leaves in the \<open>n\<close> bytes at \<open>s\<close> when the
  string at \<open>t\<close> is \<open>xs\<close>.\<close>

definition strncpy_bytes :: "nat \<Rightarrow> byte list \<Rightarrow> byte list" where
  "strncpy_bytes n xs = take n (xs @ replicate (n - length xs) 0)"

lemma length_strncpy_bytes [simp]: "length (strncpy_bytes n xs) = n"
  by (simp add: strncpy_bytes_def)

lemma range_of_shift:
  assumes "x \<in> range_of (a + 1) j" "Suc j \<le> 2 ^ 64"
  shows "x \<in> range_of a (Suc j)"
proof -
  define w where "w = x - (a + 1)"
  have w: "unat w < j" using assms(1) by (simp add: range_of_def w_def)
  then have "unat (w + 1) = unat w + 1" using assms(2) by (simp add: unat_plus_if')
  moreover have "x - a = w + 1" by (simp add: w_def)
  ultimately show ?thesis using w by (simp add: range_of_def)
qed

lemma range_of_Suc_notin:
  assumes "range_of s (Suc n) \<inter> range_of t (Suc k) = {}" "Suc n \<le> 2 ^ 64" "Suc k \<le> 2 ^ 64"
  shows "s \<notin> range_of (t + 1) k" "range_of (s + 1) n \<inter> range_of (t + 1) k = {}"
proof -
  have "s \<in> range_of s (Suc n)" by (simp add: range_of_def)
  with assms range_of_shift show "s \<notin> range_of (t + 1) k" by blast
  show "range_of (s + 1) n \<inter> range_of (t + 1) k = {}" using assms range_of_shift by blast
qed

lemma strncpy_loop_put_bytes:
  assumes "cstr m t xs" "range_of s n \<inter> range_of t (Suc (length xs)) = {}"
    "n \<le> 2 ^ 64" "length xs < 2 ^ 64"
  shows "strncpy_loop m s t n = put_bytes m s (strncpy_bytes n xs)"
  using assms
proof (induction n arbitrary: m s t xs)
  case 0
  then show ?case by (simp add: strncpy_bytes_def)
next
  case (Suc n)
  show ?case
  proof (cases xs)
    case Nil
    with Suc.prems show ?thesis
      by (simp add: Let_def zero_fill_put_bytes strncpy_bytes_def put_bytes_Cons del: fun_upd_apply)
  next
    case (Cons y ys)
    from range_of_Suc_notin [OF Suc.prems(2)] Suc.prems Cons
    have s: "s \<notin> range_of (t + 1) (Suc (length ys))"
      "range_of (s + 1) n \<inter> range_of (t + 1) (Suc (length ys)) = {}" by simp_all
    then have "cstr (m(s := m t)) (t + 1) ys" using Suc.prems Cons by (intro cstr_upd) auto
    then have "strncpy_loop (m(s := m t)) (s + 1) (t + 1) n
        = put_bytes (m(s := m t)) (s + 1) (strncpy_bytes n ys)"
      using s(2) Suc.prems Cons by (intro Suc.IH) (auto simp del: fun_upd_apply)
    with Cons Suc.prems show ?thesis
      by (simp add: Let_def strncpy_bytes_def put_bytes_Cons del: fun_upd_apply)
  qed
qed

lemma safestrcpy_loop_cstr:
  assumes "cstr m t xs" "range_of s (Suc n) \<inter> range_of t (Suc (length xs)) = {}"
    "Suc n < 2 ^ 64" "length xs < 2 ^ 64"
  shows "cstr (safestrcpy_loop m s t n) s (take n xs) \<and>
    (\<forall>a. a \<notin> range_of s (Suc n) \<longrightarrow> safestrcpy_loop m s t n a = m a)"
  using assms
proof (induction n arbitrary: m s t xs)
  case 0
  then show ?case by (auto simp: range_of_def)
next
  case (Suc n)
  have s_in: "s \<in> range_of s (Suc (Suc n))" "s + 1 \<in> range_of s (Suc (Suc n))"
    by (simp_all add: range_of_def)
  have sub: "a \<notin> range_of s (Suc (Suc n)) \<Longrightarrow> a \<notin> range_of (s + 1) (Suc n)" for a
    using range_of_shift [of a s "Suc n"] Suc.prems(3) by auto
  show ?case
  proof (cases xs)
    case Nil
    with Suc.prems s_in show ?thesis by (auto simp: Let_def)
  next
    case (Cons y ys)
    from range_of_Suc_notin [OF Suc.prems(2)] Suc.prems Cons
    have s: "s \<notin> range_of (t + 1) (Suc (length ys))"
      "range_of (s + 1) (Suc n) \<inter> range_of (t + 1) (Suc (length ys)) = {}" by simp_all
    let ?m = "m(s := m t)"
    have "cstr ?m (t + 1) ys" using s Suc.prems Cons by (intro cstr_upd) auto
    then have IH: "cstr (safestrcpy_loop ?m (s + 1) (t + 1) n) (s + 1) (take n ys) \<and>
       (\<forall>a. a \<notin> range_of (s + 1) (Suc n) \<longrightarrow> safestrcpy_loop ?m (s + 1) (t + 1) n a = ?m a)"
      using s(2) Suc.prems Cons by (intro Suc.IH) (auto simp del: fun_upd_apply)
    have "s \<notin> range_of (s + 1) (Suc n)"
      using Suc.prems(3) by (simp add: range_of_def unsigned_minus_1_eq_mask mask_eq_exp_minus_1)
    with IH sub s_in Cons Suc.prems show ?thesis by (auto simp: Let_def)
  qed
qed

section \<open>Comparison of character arrays\<close>

text \<open>\<open>strncmp_bytes n p q\<close> is \<^verbatim>\<open>strncmp(p, q, n)\<close> on two byte arrays held as lists; a byte past
  the end of a list is the terminating NUL.\<close>

definition head0 :: "byte list \<Rightarrow> byte" where
  "head0 xs = (case xs of [] \<Rightarrow> 0 | x # _ \<Rightarrow> x)"

fun strncmp_bytes :: "nat \<Rightarrow> byte list \<Rightarrow> byte list \<Rightarrow> int" where
  "strncmp_bytes 0 p q = 0"
| "strncmp_bytes (Suc n) p q =
     (if head0 p \<noteq> 0 \<and> head0 p = head0 q then strncmp_bytes n (tl p) (tl q)
      else uint (head0 p) - uint (head0 q))"

lemma strncmp_loop_bytes:
  "strncmp_loop m p q n = strncmp_bytes n (get_bytes m p n) (get_bytes m q n)"
proof (induction n arbitrary: p q)
  case 0
  then show ?case by simp
next
  case (Suc n)
  have "get_bytes m a (Suc n) = m a # get_bytes m (a + 1) n" for a
    by (simp add: get_bytes_def map_upt_Suc add.assoc del: upt_Suc)
  then show ?case by (simp add: Suc.IH head0_def)
qed

lemma strncmp_bytes_0_iff:
  "strncmp_bytes n p q = 0 \<longleftrightarrow>
     take n (takeWhile (\<lambda>b. b \<noteq> 0) p) = take n (takeWhile (\<lambda>b. b \<noteq> 0) q)"
proof (induction n arbitrary: p q)
  case 0
  then show ?case by simp
next
  case (Suc n)
  then show ?case
    by (cases p; cases q) (auto simp: head0_def word_uint_eq_iff)
qed

text \<open>C1. \<open>memmove\<close> copies the \<open>n\<close> bytes at the source as they were before the call to the destination and changes
  nothing else, also when the two ranges overlap in either direction.\<close>

theorem memmove_copies_overlapping:
  assumes "unat src + unat n < 2 ^ 64" "unat dst + unat n \<le> 2 ^ 64"
  shows "get_bytes (memmove m dst src n) dst (unat n) = get_bytes m src (unat n) \<and>
    (\<forall>a. a \<notin> range_of dst (unat n) \<longrightarrow> memmove m dst src n a = m a)"
proof -
  have n: "unat n \<le> 2 ^ 64" using assms(2) by simp
  have "length (get_bytes m src (unat n)) = unat n" by (simp add: get_bytes_def)
  with n show ?thesis
    by (auto simp: memmove_put_bytes [OF assms] put_bytes_outside get_put_bytes)
qed

theorem memmove_copies_overlapping_witness:
  "get_bytes (memmove (\<lambda>a. ucast a) 101 100 3) 101 3 = [100, 101, 102]
   \<and> memmove (\<lambda>a. ucast a) 101 100 3 100 = 100"
  using memmove_copies_overlapping [of 100 3 101 "\<lambda>a. ucast a"]
  by (simp add: get_bytes_def range_of_def upt_rec unsigned_minus_1_eq_mask mask_eq_exp_minus_1)

text \<open>For a source string that does not overlap the destination, \<open>strncpy\<close> leaves the string cut to \<open>n\<close> bytes
  and padded with NULs, \<open>safestrcpy\<close> leaves a terminated string cut to \<open>n - 1\<close> bytes, and both write inside the
  \<open>n\<close> bytes of the destination only.\<close>

theorem string_copies:
  assumes "cstr m t xs" "range_of s (nat n) \<inter> range_of t (Suc (length xs)) = {}"
    and "0 < n" "n < 2 ^ 31" "length xs < 2 ^ 64"
  shows "strncpy m s t n = put_bytes m s (strncpy_bytes (nat n) xs) \<and>
    cstr (safestrcpy m s t n) s (take (nat n - 1) xs) \<and>
    (\<forall>a. a \<notin> range_of s (nat n) \<longrightarrow> strncpy m s t n a = m a \<and> safestrcpy m s t n a = m a)"
proof -
  obtain k where k: "nat n = Suc k" using assms(3) by (cases "nat n") auto
  have c: "strncpy m s t n = put_bytes m s (strncpy_bytes (nat n) xs)"
    unfolding strncpy_def using assms by (intro strncpy_loop_put_bytes) auto
  have "cstr (safestrcpy_loop m s t k) s (take k xs) \<and>
    (\<forall>a. a \<notin> range_of s (Suc k) \<longrightarrow> safestrcpy_loop m s t k a = m a)"
    using assms k by (intro safestrcpy_loop_cstr) auto
  moreover have "safestrcpy m s t n = safestrcpy_loop m s t k"
    using assms(3) k by (simp add: safestrcpy_def nat_diff_distrib)
  ultimately show ?thesis using c k by (simp add: put_bytes_outside)
qed

theorem string_copies_witness:
  "strncpy (\<lambda>a. if a = 100 then 7 else 0) 200 100 4 = put_bytes (\<lambda>a. if a = 100 then 7 else 0) 200 [7, 0, 0, 0]
   \<and> cstr (safestrcpy (\<lambda>a. if a = 100 then 7 else 0) 200 100 4) 200 [7]"
proof -
  have d: "range_of 200 (nat 4) \<inter> range_of 100 (Suc (length [7::byte])) = {}"
  proof (rule equals0I)
    fix a
    assume "a \<in> range_of 200 (nat 4) \<inter> range_of 100 (Suc (length [7::byte]))"
    then have a: "unat (a - 200) < 4" "unat (a - 100) < 2" by (simp_all add: range_of_def)
    have "unat ((a - 200) + 100) = unat (a - 200) + 100" using a(1) by (subst unat_plus_if') simp
    moreover have "(a - 200) + 100 = a - 100" by simp
    ultimately show False using a(2) by simp
  qed
  have c: "cstr (\<lambda>a. if a = 100 then 7 else 0) 100 [7]" by simp
  have e: "strncpy_bytes (nat 4) [7] = [7, 0, 0, 0]" "take (nat 4 - 1) [7::byte] = [7]"
    by (simp_all add: strncpy_bytes_def numeral_3_eq_3)
  from string_copies [OF c d] show ?thesis unfolding e by simp
qed

end
