(* ===== verification/Xv6_Spinlock.thy ===== *)
theory Xv6_Spinlock
  imports Xv6_Layout
begin

text \<open>
  \<^verbatim>\<open>kernel/spinlock.c\<close> with the interrupt-enable helpers of \<^verbatim>\<open>kernel/riscv.h\<close>. The first part models
  the locks in full: the \<^verbatim>\<open>locked\<close> word and the owning cpu of every lock, and the \<^verbatim>\<open>noff\<close>,
  \<^verbatim>\<open>intena\<close> and \<^verbatim>\<open>sstatus\<close> of every cpu; a step relation interleaves the cpus. The second part is
  the view one thread of control has of the locks it holds, which the other components use; both
  satisfy the interface \<open>spin_lock\<close>.
\<close>

section \<open>Per-cpu state and locks\<close>

text \<open>The spinlocks of the kernel, by the object that contains them.\<close>

datatype lock_id =
    KmemLock | PidLock | ProcLock nat | BcacheLock | LogLock | IcacheLock | FtableLock
  | TicksLock | ConsLock | UartTxLock | VdiskLock | PrLock | PipeLock uint64
  | BufSleepLk nat | InodeSleepLk nat

definition SSTATUS_SIE :: uint64 where [layout_defs]: "SSTATUS_SIE = 2"

record cpu =
  noff :: int
  intena :: bool
  sstatus :: uint64

record spinlock =
  locked :: uint
  lk_cpu :: "nat option"

record smp =
  cpus :: "nat \<Rightarrow> cpu"
  locks :: "lock_id \<Rightarrow> spinlock"

definition intr_on :: "cpu \<Rightarrow> cpu" where
  "intr_on c = c\<lparr>sstatus := sstatus c OR SSTATUS_SIE\<rparr>"

definition intr_off :: "cpu \<Rightarrow> cpu" where
  "intr_off c = c\<lparr>sstatus := sstatus c AND NOT SSTATUS_SIE\<rparr>"

definition intr_get :: "cpu \<Rightarrow> bool" where
  "intr_get c \<longleftrightarrow> sstatus c AND SSTATUS_SIE \<noteq> 0"

definition initlock :: "lock_id \<Rightarrow> 'a smp_scheme \<Rightarrow> 'a smp_scheme" where
  "initlock l s = s\<lparr>locks := (locks s)(l := \<lparr>locked = 0, lk_cpu = None\<rparr>)\<rparr>"

definition holding :: "nat \<Rightarrow> lock_id \<Rightarrow> 'a smp_scheme \<Rightarrow> bool" where
  "holding c l s \<longleftrightarrow> locked (locks s l) \<noteq> 0 \<and> lk_cpu (locks s l) = Some c"

definition push_off_cpu :: "cpu \<Rightarrow> cpu" where
  "push_off_cpu c =
     (let old = intr_get c;
          c1 = intr_off c;
          c2 = (if noff c1 = 0 then c1\<lparr>intena := old\<rparr> else c1)
      in c2\<lparr>noff := noff c2 + 1\<rparr>)"

definition push_off :: "nat \<Rightarrow> 'a smp_scheme \<Rightarrow> 'a smp_scheme" where
  "push_off c s = s\<lparr>cpus := (cpus s)(c := push_off_cpu (cpus s c))\<rparr>"

definition pop_off_cpu :: "cpu \<Rightarrow> cpu" where
  "pop_off_cpu c =
     (let c1 = c\<lparr>noff := noff c - 1\<rparr>
      in if noff c1 = 0 \<and> intena c1 then intr_on c1 else c1)"

definition pop_off :: "nat \<Rightarrow> 'a smp_scheme \<Rightarrow> (unit, 'a smp_scheme) outcome" where
  "pop_off c s =
     (if intr_get (cpus s c) then Panic ''pop_off - interruptible''
      else if noff (cpus s c) < 1 then Panic ''pop_off''
      else Ok () (s\<lparr>cpus := (cpus s)(c := pop_off_cpu (cpus s c))\<rparr>))"

text \<open>
  \<open>acquire\<close> with the outcome of one \<^verbatim>\<open>__sync_lock_test_and_set\<close>: when another cpu has the lock the
  caller is left spinning with interrupts off, the state \<^term>\<open>Sleep\<close> carries.
\<close>

definition test_and_set :: "nat \<Rightarrow> lock_id \<Rightarrow> 'a smp_scheme \<Rightarrow> 'a smp_scheme option" where
  "test_and_set c l s =
     (if locked (locks s l) \<noteq> 0 then None
      else Some (s\<lparr>locks := (locks s)(l := \<lparr>locked = 1, lk_cpu = Some c\<rparr>)\<rparr>))"

definition acquire :: "nat \<Rightarrow> lock_id \<Rightarrow> 'a smp_scheme \<Rightarrow> (unit, 'a smp_scheme) outcome" where
  "acquire c l s =
     (let s1 = push_off c s
      in if holding c l s1 then Panic ''acquire''
         else case test_and_set c l s1 of None \<Rightarrow> Sleep s1 | Some s2 \<Rightarrow> Ok () s2)"

definition release :: "nat \<Rightarrow> lock_id \<Rightarrow> 'a smp_scheme \<Rightarrow> (unit, 'a smp_scheme) outcome" where
  "release c l s =
     (if \<not> holding c l s then Panic ''release''
      else pop_off c (s\<lparr>locks := (locks s)(l := \<lparr>locked = 0, lk_cpu = None\<rparr>)\<rparr>))"

section \<open>Interrupts and nesting\<close>

lemma SIE_bit: "bit SSTATUS_SIE n \<longleftrightarrow> n = 1"
  by (simp add: SSTATUS_SIE_def bit_2_iff) auto

lemma intr_get_bit: "intr_get c \<longleftrightarrow> bit (sstatus c) 1"
  using and_exp_eq_0_iff_not_bit [of "sstatus c" 1] by (simp add: intr_get_def SSTATUS_SIE_def)

lemma intr_get_on [simp]: "intr_get (intr_on c)"
  by (simp add: intr_get_bit intr_on_def bit_or_iff SIE_bit)

lemma intr_get_off [simp]: "\<not> intr_get (intr_off c)"
  by (simp add: intr_get_bit intr_off_def bit_and_iff bit_not_iff SIE_bit)

lemma noff_intr [simp]: "noff (intr_on c) = noff c" "noff (intr_off c) = noff c"
  "intena (intr_on c) = intena c" "intena (intr_off c) = intena c"
  by (simp_all add: intr_on_def intr_off_def)

lemma intr_get_noff [simp]: "intr_get (c\<lparr>noff := n\<rparr>) = intr_get c"
  "intr_get (c\<lparr>intena := b\<rparr>) = intr_get c"
  by (simp_all add: intr_get_def)

lemma sstatus_intr_off: "\<not> intr_get c \<Longrightarrow> sstatus (intr_off c) = sstatus c"
  by (rule bit_word_eqI) (auto simp: intr_get_bit intr_off_def bit_and_iff bit_not_iff SIE_bit)

lemma sstatus_intr_on_off:
  "intr_get c \<Longrightarrow> sstatus c' = sstatus (intr_off c) \<Longrightarrow> sstatus (intr_on c') = sstatus c"
  by (rule bit_word_eqI)
    (auto simp: intr_get_bit intr_off_def intr_on_def bit_and_iff bit_or_iff bit_not_iff SIE_bit)

text \<open>A cpu between kernel code sections: \<open>noff\<close> counts the pending \<open>push_off\<close>s, and interrupts
  are off while there is one.\<close>

definition cpu_ok :: "cpu \<Rightarrow> bool" where
  "cpu_ok c \<longleftrightarrow> 0 \<le> noff c \<and> (0 < noff c \<longrightarrow> \<not> intr_get c)"

lemma push_off_cpu_simps [simp]:
  "noff (push_off_cpu c) = noff c + 1" "\<not> intr_get (push_off_cpu c)"
  "intena (push_off_cpu c) = (if noff c = 0 then intr_get c else intena c)"
  "sstatus (push_off_cpu c) = sstatus (intr_off c)"
  by (simp_all add: push_off_cpu_def Let_def)

lemma cpu_ok_push [simp]: "cpu_ok c \<Longrightarrow> cpu_ok (push_off_cpu c)"
  by (simp add: cpu_ok_def)

fun pops :: "nat \<Rightarrow> cpu \<Rightarrow> (unit, cpu) outcome" where
  "pops 0 c = Ok () c"
| "pops (Suc n) c =
     (if intr_get c then Panic ''pop_off - interruptible''
      else if noff c < 1 then Panic ''pop_off''
      else pops n (pop_off_cpu c))"

lemma pop_push_cpu:
  assumes "cpu_ok c"
  shows "noff (pop_off_cpu (push_off_cpu c)) = noff c"
    "sstatus (pop_off_cpu (push_off_cpu c)) = sstatus c"
    "0 < noff c \<Longrightarrow> intena (pop_off_cpu (push_off_cpu c)) = intena c"
  using assms
  by (auto simp: pop_off_cpu_def cpu_ok_def Let_def sstatus_intr_off
      intro!: sstatus_intr_on_off) 

lemma pop_push_nested: "cpu_ok c \<Longrightarrow> 0 < noff c \<Longrightarrow> pop_off_cpu (push_off_cpu c) = c"
  by (rule cpu.equality) (simp_all add: pop_push_cpu)

lemma noff_pushes [simp]: "noff ((push_off_cpu ^^ n) c) = noff c + int n"
  by (induction n) simp_all

lemma cpu_ok_pushes: "cpu_ok c \<Longrightarrow> cpu_ok ((push_off_cpu ^^ n) c)"
  by (induction n) simp_all

lemma pops_pushes:
  assumes "cpu_ok c"
  shows "\<exists>c'. pops n ((push_off_cpu ^^ n) c) = Ok () c' \<and> noff c' = noff c \<and> sstatus c' = sstatus c"
proof (induction n)
  case 0
  then show ?case by simp
next
  case (Suc n)
  let ?d = "(push_off_cpu ^^ n) c"
  have ok: "cpu_ok ?d" using assms by (rule cpu_ok_pushes)
  show ?case
  proof (cases n)
    case 0
    with assms show ?thesis by (simp add: pop_push_cpu cpu_ok_def)
  next
    case (Suc k)
    have "0 \<le> noff c" using assms by (simp add: cpu_ok_def)
    then have "0 < noff ?d" using Suc by simp
    with ok have "pop_off_cpu (push_off_cpu ?d) = ?d" by (rule pop_push_nested)
    with \<open>0 \<le> noff c\<close> Suc.IH show ?thesis by simp
  qed
qed

section \<open>Several cpus\<close>

text \<open>
  The cpus run concurrently. \<open>waiting\<close> records the lock on which a cpu is spinning inside
  \<open>acquire\<close>; \<open>crit\<close> is the history of completed \<open>acquire\<close>s without a matching \<open>release\<close>. A cpu
  outside every critical section may also change its own interrupt flag.
\<close>

record smpx = smp +
  waiting :: "nat \<Rightarrow> lock_id option"
  crit :: "(nat \<times> lock_id) set"

definition smp_init :: "smpx \<Rightarrow> bool" where
  "smp_init s \<longleftrightarrow>
     (\<forall>c. noff (cpus s c) = 0) \<and> (\<forall>l. locks s l = \<lparr>locked = 0, lk_cpu = None\<rparr>) \<and>
     (\<forall>c. waiting s c = None) \<and> crit s = {}"

inductive smp_step :: "smpx \<Rightarrow> smpx \<Rightarrow> bool" where
  start: "waiting s c = None \<Longrightarrow> \<not> holding c l (push_off c s) \<Longrightarrow>
    smp_step s ((push_off c s)\<lparr>waiting := (waiting s)(c := Some l)\<rparr>)"
| spin: "waiting s c = Some l \<Longrightarrow> test_and_set c l s = None \<Longrightarrow> smp_step s s"
| take: "waiting s c = Some l \<Longrightarrow> test_and_set c l s = Some t \<Longrightarrow>
    smp_step s (t\<lparr>waiting := (waiting s)(c := None), crit := insert (c, l) (crit s)\<rparr>)"
| rel: "waiting s c = None \<Longrightarrow> release c l s = Ok () t \<Longrightarrow>
    smp_step s (t\<lparr>crit := crit s - {(c, l)}\<rparr>)"
| irq: "waiting s c = None \<Longrightarrow> noff (cpus s c) = 0 \<Longrightarrow>
    smp_step s (s\<lparr>cpus := (cpus s)(c := (cpus s c)\<lparr>sstatus := x\<rparr>)\<rparr>)"

inductive smp_reach :: "smpx \<Rightarrow> bool" where
  init: "smp_init s \<Longrightarrow> smp_reach s"
| step: "smp_reach s \<Longrightarrow> smp_step s t \<Longrightarrow> smp_reach t"

definition owned :: "smpx \<Rightarrow> nat \<Rightarrow> lock_id set" where
  "owned s c = {l. holding c l s}"

definition pending :: "smpx \<Rightarrow> nat \<Rightarrow> nat" where
  "pending s c = (case waiting s c of None \<Rightarrow> 0 | Some _ \<Rightarrow> 1)"

definition smp_inv :: "smpx \<Rightarrow> bool" where
  "smp_inv s \<longleftrightarrow>
     (\<forall>c. finite (owned s c) \<and> noff (cpus s c) = int (card (owned s c)) + int (pending s c)) \<and>
     (\<forall>c. 0 < noff (cpus s c) \<longrightarrow> \<not> intr_get (cpus s c)) \<and>
     (\<forall>l. locked (locks s l) \<noteq> 0 \<longleftrightarrow> lk_cpu (locks s l) \<noteq> None) \<and>
     (\<forall>c l. (c, l) \<in> crit s \<longleftrightarrow> holding c l s)"

lemma smp_inv_init: "smp_init s \<Longrightarrow> smp_inv s"
  by (auto simp: smp_init_def smp_inv_def owned_def holding_def pending_def)

lemma smp_invD:
  assumes "smp_inv s"
  shows "finite (owned s c)" "noff (cpus s c) = int (card (owned s c)) + int (pending s c)"
    "0 < noff (cpus s c) \<Longrightarrow> \<not> intr_get (cpus s c)"
    "locked (locks s l) \<noteq> 0 \<longleftrightarrow> lk_cpu (locks s l) \<noteq> None"
    "(c, l) \<in> crit s \<longleftrightarrow> holding c l s"
  using assms by (simp_all add: smp_inv_def)

lemma smp_inv_start:
  assumes "smp_inv s" "waiting s c = None"
  shows "smp_inv ((push_off c s)\<lparr>waiting := (waiting s)(c := Some l)\<rparr>)" (is "smp_inv ?t")
proof -
  have h: "holding d k ?t = holding d k s" for d k by (simp add: holding_def push_off_def)
  then have o: "owned ?t d = owned s d" for d by (simp add: owned_def)
  have "noff (cpus ?t d) = int (card (owned ?t d)) + int (pending ?t d)" for d
    using assms(2) smp_invD(2) [OF assms(1), of d] o by (auto simp: push_off_def pending_def)
  moreover have "0 < noff (cpus ?t d) \<Longrightarrow> \<not> intr_get (cpus ?t d)" for d
    using smp_invD(3) [OF assms(1), of d] by (auto simp: push_off_def)
  ultimately show ?thesis
    using smp_invD [OF assms(1)] h o by (simp add: smp_inv_def push_off_def)
qed

lemma smp_inv_take:
  assumes "smp_inv s" "waiting s c = Some l" "test_and_set c l s = Some t"
  shows "smp_inv (t\<lparr>waiting := (waiting s)(c := None), crit := insert (c, l) (crit s)\<rparr>)"
    (is "smp_inv ?t")
proof -
  have free: "locked (locks s l) = 0" and t: "t = s\<lparr>locks := (locks s)(l := \<lparr>locked = 1, lk_cpu = Some c\<rparr>)\<rparr>"
    using assms(3) by (auto simp: test_and_set_def split: if_splits)
  have h: "holding d k ?t = (holding d k s \<or> (d = c \<and> k = l))" for d k
    using free by (auto simp: holding_def t)
  have nl: "l \<notin> owned s d" for d using free by (simp add: owned_def holding_def)
  have o: "owned ?t d = (if d = c then insert l (owned s d) else owned s d)" for d
    using h by (auto simp: owned_def)
  have "noff (cpus ?t d) = int (card (owned ?t d)) + int (pending ?t d)" for d
    using smp_invD(1,2) [OF assms(1), of d] nl [of d] assms(2) o
    by (auto simp: t pending_def)
  moreover have "finite (owned ?t d)" for d using smp_invD(1) [OF assms(1), of d] o by auto
  ultimately show ?thesis
    using smp_invD(3-5) [OF assms(1)] h by (auto simp: smp_inv_def t)
qed

lemma smp_inv_rel:
  assumes "smp_inv s" "waiting s c = None" "release c l s = Ok () t"
  shows "smp_inv (t\<lparr>crit := crit s - {(c, l)}\<rparr>)" (is "smp_inv ?t")
proof -
  have hold: "holding c l s"
    and t: "t = s\<lparr>locks := (locks s)(l := \<lparr>locked = 0, lk_cpu = None\<rparr>),
                  cpus := (cpus s)(c := pop_off_cpu (cpus s c))\<rparr>"
    using assms(3) by (auto simp: release_def pop_off_def split: if_splits)
  have h: "holding d k ?t = (holding d k s \<and> (d, k) \<noteq> (c, l))" for d k
    using hold by (auto simp: holding_def t)
  have o: "owned ?t d = (if d = c then owned s d - {l} else owned s d)" for d
    using h by (auto simp: owned_def)
  have lin: "l \<in> owned s c" using hold by (simp add: owned_def)
  have pop: "noff (pop_off_cpu k) = noff k - 1"
    "0 < noff (pop_off_cpu k) \<Longrightarrow> intr_get (pop_off_cpu k) = intr_get k" for k
    by (auto simp: pop_off_cpu_def Let_def)
  have pos: "0 < card (owned s c)" using smp_invD(1) [OF assms(1), of c] lin card_gt_0_iff by blast
  have "noff (cpus ?t d) = int (card (owned ?t d)) + int (pending ?t d)" for d
    using smp_invD(1,2) [OF assms(1), of d] lin assms(2) o pos
    by (auto simp: t pending_def pop card_Diff_singleton of_nat_diff)
  moreover have "finite (owned ?t d)" for d using smp_invD(1) [OF assms(1), of d] o by auto
  moreover have "0 < noff (cpus ?t d) \<Longrightarrow> \<not> intr_get (cpus ?t d)" for d
    using smp_invD(3) [OF assms(1), of d] pop [of "cpus s c"] by (auto simp: t)
  ultimately show ?thesis
    using smp_invD(4,5) [OF assms(1)] h by (auto simp: smp_inv_def t)
qed

lemma smp_inv_irq:
  assumes "smp_inv s" "noff (cpus s c) = 0"
  shows "smp_inv (s\<lparr>cpus := (cpus s)(c := (cpus s c)\<lparr>sstatus := x\<rparr>)\<rparr>)" (is "smp_inv ?t")
proof -
  have h: "holding d k ?t = holding d k s" for d k by (simp add: holding_def)
  then have "owned ?t = owned s" by (auto simp: owned_def)
  moreover have "pending ?t = pending s" by (auto simp: pending_def)
  ultimately show ?thesis using assms h by (auto simp: smp_inv_def)
qed

lemma smp_inv_step: "smp_step s t \<Longrightarrow> smp_inv s \<Longrightarrow> smp_inv t"
  by (induction rule: smp_step.induct)
    (blast intro: smp_inv_start smp_inv_take smp_inv_rel smp_inv_irq)+

lemma smp_reach_inv: "smp_reach s \<Longrightarrow> smp_inv s"
  by (induction rule: smp_reach.induct) (blast intro: smp_inv_init smp_inv_step)+

section \<open>The lock interface\<close>

text \<open>
  What the code between \<open>acquire\<close> and \<open>release\<close> relies on. \<open>good\<close> is the provider's invariant;
  \<open>free l s\<close> says that no cpu holds \<open>l\<close>.
\<close>

locale spin_lock =
  fixes acq rel :: "'l \<Rightarrow> 's \<Rightarrow> (unit, 's) outcome"
    and holds free :: "'l \<Rightarrow> 's \<Rightarrow> bool"
    and good :: "'s \<Rightarrow> bool"
  assumes acq_free: "good s \<Longrightarrow> free l s \<Longrightarrow>
      \<exists>t. acq l s = Ok () t \<and> good t \<and> (\<forall>k. holds k t \<longleftrightarrow> holds k s \<or> k = l)"
    and acq_held: "good s \<Longrightarrow> holds l s \<Longrightarrow> acq l s = Panic ''acquire''"
    and rel_held: "good s \<Longrightarrow> holds l s \<Longrightarrow>
      \<exists>t. rel l s = Ok () t \<and> good t \<and> (\<forall>k. holds k t \<longleftrightarrow> holds k s \<and> k \<noteq> l)"
    and rel_not_held: "\<not> holds l s \<Longrightarrow> rel l s = Panic ''release''"
    and free_not_held: "free l s \<Longrightarrow> \<not> holds l s"
begin

text \<open>A critical section on a free lock runs, and leaves the set of held locks as it was.\<close>

lemma critical_section:
  assumes "good s" "free l s"
  shows "\<exists>t. bindK (acq l s) (\<lambda>_. rel l) = Ok () t \<and> good t \<and> (\<forall>k. holds k t = holds k s)"
proof -
  obtain t where t: "acq l s = Ok () t" "good t" "\<forall>k. holds k t \<longleftrightarrow> holds k s \<or> k = l"
    using acq_free [OF assms] by blast
  then obtain u where "rel l t = Ok () u" "good u" "\<forall>k. holds k u \<longleftrightarrow> holds k t \<and> k \<noteq> l"
    using rel_held by blast
  with t free_not_held [OF assms(2)] show ?thesis by auto
qed

lemma no_double_acquire:
  assumes "good s" "free l s"
  shows "bindK (acq l s) (\<lambda>_. acq l) = Panic ''acquire''"
  using acq_free [OF assms] acq_held by fastforce

end

definition cpu_view_ok :: "nat \<Rightarrow> 'a smp_scheme \<Rightarrow> bool" where
  "cpu_view_ok c s \<longleftrightarrow> finite {l. holding c l s} \<and>
     int (card {l. holding c l s}) \<le> noff (cpus s c) \<and>
     (0 < noff (cpus s c) \<longrightarrow> \<not> intr_get (cpus s c))"

lemma holding_push_off [simp]: "holding c l (push_off d s) = holding c l s"
  by (simp add: holding_def push_off_def)

lemma acquire_free:
  assumes "cpu_view_ok c s" "locked (locks s l) = 0"
  shows "\<exists>t. acquire c l s = Ok () t \<and> cpu_view_ok c t \<and>
    (\<forall>k. holding c k t \<longleftrightarrow> holding c k s \<or> k = l)"
proof -
  let ?t = "(push_off c s)\<lparr>locks := (locks s)(l := \<lparr>locked = 1, lk_cpu = Some c\<rparr>)\<rparr>"
  have a: "acquire c l s = Ok () ?t"
    using assms(2) by (simp add: acquire_def Let_def holding_def test_and_set_def push_off_def)
  have h: "holding c k ?t \<longleftrightarrow> holding c k s \<or> k = l" for k
    using assms(2) by (auto simp: holding_def push_off_def)
  then have "{k. holding c k ?t} = insert l {k. holding c k s}" by auto
  moreover have "l \<notin> {k. holding c k s}" using assms(2) by (simp add: holding_def)
  ultimately have "cpu_view_ok c ?t"
    using assms(1) by (simp add: cpu_view_ok_def push_off_def)
  with a h show ?thesis by blast
qed

lemma release_held:
  assumes "cpu_view_ok c s" "holding c l s"
  shows "\<exists>t. release c l s = Ok () t \<and> cpu_view_ok c t \<and>
    (\<forall>k. holding c k t \<longleftrightarrow> holding c k s \<and> k \<noteq> l)"
proof -
  let ?s = "s\<lparr>locks := (locks s)(l := \<lparr>locked = 0, lk_cpu = None\<rparr>)\<rparr>"
  let ?t = "?s\<lparr>cpus := (cpus s)(c := pop_off_cpu (cpus s c))\<rparr>"
  have fin: "finite {k. holding c k s}" and le: "int (card {k. holding c k s}) \<le> noff (cpus s c)"
    using assms(1) by (simp_all add: cpu_view_ok_def)
  have "0 < card {k. holding c k s}" using fin assms(2) card_gt_0_iff by blast
  with le have pos: "1 \<le> noff (cpus s c)" by linarith
  with assms have r: "release c l s = Ok () ?t"
    by (simp add: release_def pop_off_def cpu_view_ok_def)
  have h: "holding c k ?t \<longleftrightarrow> holding c k s \<and> k \<noteq> l" for k
    by (auto simp: holding_def)
  then have "{k. holding c k ?t} = {k. holding c k s} - {l}" by auto
  then have "int (card {k. holding c k ?t}) \<le> noff (cpus s c) - 1" "finite {k. holding c k ?t}"
    using fin le assms(2) by (simp_all add: card_Diff_singleton of_nat_diff
        \<open>0 < card {k. holding c k s}\<close> Suc_leI)
  moreover have "noff (cpus ?t c) = noff (cpus s c) - 1"
    "0 < noff (cpus ?t c) \<Longrightarrow> intr_get (cpus ?t c) = intr_get (cpus s c)"
    by (auto simp: pop_off_cpu_def Let_def)
  ultimately have "cpu_view_ok c ?t"
    using assms(1) pos by (simp add: cpu_view_ok_def)
  with r h show ?thesis by blast
qed

interpretation cpu_lock: spin_lock "acquire c" "release c" "holding c"
  "\<lambda>l s. locked (locks s l) = 0" "cpu_view_ok c" for c
proof unfold_locales
  show "cpu_view_ok c s \<Longrightarrow> holding c l s \<Longrightarrow> acquire c l s = Panic ''acquire''" for s :: "'a smp_scheme" and l
    by (simp add: acquire_def Let_def)
  show "\<not> holding c l s \<Longrightarrow> release c l s = Panic ''release''" for s :: "'a smp_scheme" and l
    by (simp add: release_def)
  show "locked (locks s l) = 0 \<Longrightarrow> \<not> holding c l s" for s :: "'a smp_scheme" and l
    by (simp add: holding_def)
qed (blast intro: acquire_free release_held)+

section \<open>The locks one thread holds\<close>

text \<open>
  The kernel's code is modelled as seen from the thread that runs it: \<open>held\<close> is the set of
  spinlocks its cpu holds. A spin on a lock another cpu holds ends with that cpu's \<open>release\<close>, so for
  the thread \<open>lock\<close> succeeds unless its own cpu has the lock, when it panics; \<open>unlock\<close> panics unless
  the lock is held.
\<close>

record kthread =
  held :: "lock_id set"

definition lock :: "lock_id \<Rightarrow> 'a kthread_scheme \<Rightarrow> (unit, 'a kthread_scheme) outcome" where
  "lock l s = (if l \<in> held s then Panic ''acquire'' else Ok () (s\<lparr>held := insert l (held s)\<rparr>))"

definition unlock :: "lock_id \<Rightarrow> 'a kthread_scheme \<Rightarrow> (unit, 'a kthread_scheme) outcome" where
  "unlock l s = (if l \<notin> held s then Panic ''release'' else Ok () (s\<lparr>held := held s - {l}\<rparr>))"

interpretation thread_lock: spin_lock lock unlock "\<lambda>l s. l \<in> held s" "\<lambda>l s. l \<notin> held s" "\<lambda>_. True"
  by unfold_locales (auto simp: lock_def unlock_def)

lemma lock_free [outcome_simps]: "l \<notin> held s \<Longrightarrow> lock l s = Ok () (s\<lparr>held := insert l (held s)\<rparr>)"
  by (simp add: lock_def)

lemma unlock_held [outcome_simps]: "l \<in> held s \<Longrightarrow> unlock l s = Ok () (s\<lparr>held := held s - {l}\<rparr>)"
  by (simp add: unlock_def)

lemma held_restore [simp]: "s\<lparr>held := held s\<rparr> = s"
  by (cases s) simp


definition demo_smp :: smpx where
  "demo_smp = \<lparr>cpus = (\<lambda>_. \<lparr>noff = 0, intena = False, sstatus = 2\<rparr>),
     locks = (\<lambda>_. \<lparr>locked = 0, lk_cpu = None\<rparr>), waiting = (\<lambda>_. None), crit = {}\<rparr>"


end
