(* ===== verification/Xv6_Kalloc.thy ===== *)
theory Xv6_Kalloc
  imports Xv6_String Xv6_Spinlock
begin

text \<open>
  \<^verbatim>\<open>kernel/kalloc.c\<close>: the physical page allocator. The free list is threaded through the free pages
  themselves, as in the code: the first eight bytes of a free page are the address of the next one.
  \<open>flist\<close> reads that list back; \<open>kmem_inv\<close> says it is acyclic and holds only pages of the managed
  range. The interface \<open>page_alloc\<close> is what the users of the allocator rely on.
\<close>

section \<open>Definitions\<close>

text \<open>The kernel's memory, \<^verbatim>\<open>kmem.freelist\<close>, and the address of the linker symbol \<^verbatim>\<open>end\<close>.\<close>

record kmem_state = kthread +
  mem :: memory
  freelist :: uint64
  sym_end :: uint64

definition kfree :: "uint64 \<Rightarrow> 'a kmem_state_scheme \<Rightarrow> (unit, 'a kmem_state_scheme) outcome" where
  "kfree pa s =
     (if pa mod PGSIZE \<noteq> 0 \<or> pa < sym_end s \<or> pa \<ge> PHYSTOP then Panic ''kfree''
      else let s1 = s\<lparr>mem := memset (mem s) pa 1 (ucast PGSIZE)\<rparr>
           in bindK (lock KmemLock s1) (\<lambda>_ s2.
              let s3 = s2\<lparr>mem := store64 (mem s2) pa (freelist s2)\<rparr>;
                  s4 = s3\<lparr>freelist := pa\<rparr>
              in unlock KmemLock s4))"

definition kalloc :: "'a kmem_state_scheme \<Rightarrow> (uint64, 'a kmem_state_scheme) outcome" where
  "kalloc s =
     bindK (lock KmemLock s) (\<lambda>_ s1.
       let r = freelist s1;
           s2 = (if r \<noteq> 0 then s1\<lparr>freelist := load64 (mem s1) r\<rparr> else s1)
       in bindK (unlock KmemLock s2) (\<lambda>_ s3.
            Ok r (if r \<noteq> 0 then s3\<lparr>mem := memset (mem s3) r 5 (ucast PGSIZE)\<rparr> else s3)))"

lemma kfree_Ok_bounds:
  "kfree pa s = Ok x t \<Longrightarrow> page_aligned pa \<and> sym_end s \<le> pa \<and> pa < PHYSTOP"
  by (auto simp: kfree_def page_aligned_def not_less not_le split: if_splits)

lemma aligned_below_PHYSTOP:
  assumes "page_aligned p" "p < PHYSTOP"
  shows "unat (p + PGSIZE) = unat p + 4096" "unat p + 4096 \<le> unat PHYSTOP"
proof -
  obtain k where k: "unat p = 4096 * k" using assms(1) by (auto simp: page_aligned_unat)
  have "unat p < unat PHYSTOP" using assms(2) by (simp add: word_less_nat_alt)
  with k show *: "unat p + 4096 \<le> unat PHYSTOP" by (simp add: PHYSTOP_def KERNBASE_def)
  then show "unat (p + PGSIZE) = unat p + 4096"
    by (simp add: unat_plus_if' PGSIZE_def PHYSTOP_def KERNBASE_def)
qed

lemma PHYSTOP_minus_less:
  assumes "page_aligned p" "p < PHYSTOP"
  shows "unat (PHYSTOP - (p + PGSIZE)) < unat (PHYSTOP - p)"
proof -
  note b = aligned_below_PHYSTOP [OF assms]
  then have "unat (PHYSTOP - (p + PGSIZE)) = unat PHYSTOP - (unat p + 4096)"
    by (subst unat_sub) (simp_all add: word_le_nat_alt)
  moreover have "unat (PHYSTOP - p) = unat PHYSTOP - unat p"
    using b by (subst unat_sub) (simp_all add: word_le_nat_alt)
  ultimately show ?thesis using b by linarith
qed

function freerange_loop :: "uint64 \<Rightarrow> uint64 \<Rightarrow> 'a kmem_state_scheme \<Rightarrow> (unit, 'a kmem_state_scheme) outcome" where
  "freerange_loop p pa_end s =
     (if p + PGSIZE \<le> pa_end
      then bindK (kfree p s) (\<lambda>_. freerange_loop (p + PGSIZE) pa_end)
      else Ok () s)"
  by pat_completeness auto
termination
  by (relation "measure (\<lambda>(p, e, s). unat (PHYSTOP - p))")
    (auto dest!: kfree_Ok_bounds intro: PHYSTOP_minus_less)

declare freerange_loop.simps [simp del]

definition freerange :: "uint64 \<Rightarrow> uint64 \<Rightarrow> 'a kmem_state_scheme \<Rightarrow> (unit, 'a kmem_state_scheme) outcome" where
  "freerange pa_start pa_end s = freerange_loop (PGROUNDUP pa_start) pa_end s"

text \<open>\<open>initlock\<close> on \<^verbatim>\<open>kmem.lock\<close> makes the lock free.\<close>

definition kinit :: "'a kmem_state_scheme \<Rightarrow> (unit, 'a kmem_state_scheme) outcome" where
  "kinit s = freerange (sym_end s) PHYSTOP (s\<lparr>held := held s - {KmemLock}\<rparr>)"

partial_function (option) count_loop :: "memory \<Rightarrow> uint64 \<Rightarrow> uint64 \<Rightarrow> uint64 option" where
  "count_loop m r freepage_num =
     (if r = 0 then Some freepage_num else count_loop m (load64 m r) (freepage_num + 1))"

definition count_free_kmem :: "'a kmem_state_scheme \<Rightarrow> (uint64, 'a kmem_state_scheme) outcome" where
  "count_free_kmem s =
     bindK (lock KmemLock s) (\<lambda>_ s1.
       case count_loop (mem s1) (freelist s1) 0 of
         None \<Rightarrow> Diverge
       | Some freepage_num \<Rightarrow> bindK (unlock KmemLock s1) (\<lambda>_. Ok (freepage_num * PGSIZE)))"

section \<open>Pages\<close>

definition page_ok :: "'a kmem_state_scheme \<Rightarrow> uint64 \<Rightarrow> bool" where
  "page_ok s p \<longleftrightarrow> page_aligned p \<and> sym_end s \<le> p \<and> p < PHYSTOP"

lemma page_ok_cong [simp]:
  "page_ok (s\<lparr>mem := m\<rparr>) p = page_ok s p" "page_ok (s\<lparr>freelist := r\<rparr>) p = page_ok s p"
  "page_ok (s\<lparr>held := h\<rparr>) p = page_ok s p"
  by (simp_all add: page_ok_def)

lemma in_page_iff:
  assumes "page_aligned p"
  shows "x \<in> range_of p 4096 \<longleftrightarrow> PGROUNDDOWN x = p"
proof -
  obtain k where k: "unat p = 4096 * k" using assms by (auto simp: page_aligned_unat)
  have u: "unat x < 2 ^ 64" "unat p < 2 ^ 64"
    by (rule order.strict_trans2 [OF unsigned_less], simp)+
  have "unat (x - p) < 4096 \<longleftrightarrow> unat x div 4096 = k"
  proof (cases "p \<le> x")
    case True
    then have "4096 * k \<le> unat x" using k by (simp add: word_le_nat_alt)
    then show ?thesis using True k by (auto simp: unat_sub word_le_nat_alt)
  next
    case False
    then have l: "unat x < 4096 * k" using k by (simp add: word_le_nat_alt)
    then have "unat (x - p) = 2 ^ 64 + unat x - 4096 * k"
      using k False by (simp add: unat_sub_if' word_le_nat_alt)
    then have "\<not> unat (x - p) < 4096" using k u l by (auto simp: algebra_simps)
    moreover have "unat x div 4096 \<noteq> k" using l by auto
    ultimately show ?thesis by simp
  qed
  then show ?thesis
    unfolding range_of_def using k by (simp add: word_unat_eq_iff unat_PGROUNDDOWN)
qed

lemma pages_disjoint:
  "page_aligned p \<Longrightarrow> page_aligned q \<Longrightarrow> p \<noteq> q \<Longrightarrow> range_of p 4096 \<inter> range_of q 4096 = {}"
  by (auto simp: in_page_iff)

lemma range_of_mono: "n \<le> k \<Longrightarrow> range_of a n \<subseteq> range_of a k"
  by (auto simp: range_of_def)

definition same_except :: "uint64 set \<Rightarrow> memory \<Rightarrow> memory \<Rightarrow> bool" where
  "same_except A m m' \<longleftrightarrow> (\<forall>x. x \<notin> A \<longrightarrow> m' x = m x)"

lemma same_except_refl [simp]: "same_except A m m"
  by (simp add: same_except_def)

lemma same_except_trans:
  "same_except A m m' \<Longrightarrow> same_except B m' m'' \<Longrightarrow> same_except (A \<union> B) m m''"
  by (simp add: same_except_def)

lemma same_except_mono: "same_except A m m' \<Longrightarrow> A \<subseteq> B \<Longrightarrow> same_except B m m'"
  by (auto simp: same_except_def)

lemma same_except_put_bytes: "range_of a (length bs) \<subseteq> A \<Longrightarrow> same_except A m (put_bytes m a bs)"
  by (auto simp: same_except_def intro: put_bytes_outside)

lemma same_except_store64: "range_of a 8 \<subseteq> A \<Longrightarrow> same_except A m (store64 m a v)"
  by (simp add: store64_def same_except_put_bytes)

lemma load64_same_except:
  "same_except A m m' \<Longrightarrow> range_of a 8 \<inter> A = {} \<Longrightarrow> load64 m' a = load64 m a"
  by (rule load64_cong) (auto simp: same_except_def)

lemma load64_other_page:
  assumes "same_except (range_of p 4096) m m'" "page_aligned p" "page_aligned q" "p \<noteq> q"
  shows "load64 m' q = load64 m q"
  using pages_disjoint [OF assms(3,2)] range_of_mono [of 8 4096 q] assms(4)
  by (intro load64_same_except [OF assms(1)]) auto

section \<open>The free list\<close>

fun flist :: "memory \<Rightarrow> uint64 \<Rightarrow> uint64 list \<Rightarrow> bool" where
  "flist m p [] \<longleftrightarrow> p = 0"
| "flist m p (q # qs) \<longleftrightarrow> p = q \<and> p \<noteq> 0 \<and> flist m (load64 m p) qs"

definition kmem_inv :: "'a kmem_state_scheme \<Rightarrow> uint64 list \<Rightarrow> bool" where
  "kmem_inv s ps \<longleftrightarrow> flist (mem s) (freelist s) ps \<and> distinct ps \<and>
     (\<forall>p \<in> set ps. page_ok s p) \<and> 0 < sym_end s \<and> KmemLock \<notin> held s"

lemma flist_frame:
  assumes "same_except (range_of p 4096) m m'" "page_aligned p" "p \<notin> set ps"
    "\<forall>q \<in> set ps. page_aligned q"
  shows "flist m' r ps = flist m r ps"
  using assms(3,4)
  by (induction ps arbitrary: r) (auto simp: load64_other_page [OF assms(1,2)])

lemma flist_unique: "flist m p ps \<Longrightarrow> flist m p qs \<Longrightarrow> ps = qs"
proof (induction ps arbitrary: p qs)
  case Nil
  then show ?case by (cases qs) auto
next
  case (Cons a ps)
  then show ?case by (cases qs) auto
qed

lemma unat_PGSIZE_uint [simp]: "unat (ucast PGSIZE :: uint) = 4096"
  by (simp add: PGSIZE_def)

definition page_fill :: "byte \<Rightarrow> byte list" where
  "page_fill b = replicate 4096 b"

lemma length_page_fill [simp]: "length (page_fill b) = 4096"
  by (simp only: page_fill_def length_replicate)

lemma memset_page: "memset m p c (ucast PGSIZE) = put_bytes m p (page_fill (ucast c))"
  by (simp only: memset_put_bytes page_fill_def unat_PGSIZE_uint)

lemma page_ok_nonzero: "0 < sym_end s \<Longrightarrow> page_ok s p \<Longrightarrow> p \<noteq> 0"
  by (auto simp: page_ok_def)

lemma kfree_state:
  assumes "page_ok s pa" "KmemLock \<notin> held s"
  shows "kfree pa s = Ok () (s\<lparr>mem := store64 (put_bytes (mem s) pa (page_fill 1)) pa (freelist s),
    freelist := pa\<rparr>)"
  using assms by (simp add: kfree_def page_ok_def page_aligned_def not_less not_le memset_page outcome_simps)

lemma kfree_ok:
  assumes inv: "kmem_inv s ps" and pa: "page_ok s pa" "pa \<notin> set ps"
  shows "\<exists>m. kfree pa s = Ok () (s\<lparr>mem := m, freelist := pa\<rparr>) \<and>
    same_except (range_of pa 4096) (mem s) m \<and> kmem_inv (s\<lparr>mem := m, freelist := pa\<rparr>) (pa # ps)"
proof -
  let ?m = "store64 (put_bytes (mem s) pa (page_fill 1)) pa (freelist s)"
  have se: "same_except (range_of pa 4096) (mem s) ?m"
  proof -
    have "same_except (range_of pa 4096) (mem s) (put_bytes (mem s) pa (page_fill 1))"
      by (rule same_except_put_bytes) simp
    moreover have "same_except (range_of pa 4096) m (store64 m pa v)" for m v
      by (rule same_except_store64, rule range_of_mono) simp
    ultimately show ?thesis
      using same_except_trans [of "range_of pa 4096" _ _ "range_of pa 4096"] by simp
  qed
  moreover have "pa \<noteq> 0" using inv pa by (auto simp: kmem_inv_def dest: page_ok_nonzero)
  moreover have "flist ?m (freelist s) ps = flist (mem s) (freelist s) ps"
    using inv pa by (intro flist_frame [OF se]) (auto simp: kmem_inv_def page_ok_def)
  ultimately show ?thesis
    using inv pa kfree_state [OF pa(1)] by (auto simp: kmem_inv_def)
qed

lemma kalloc_empty: "kmem_inv s [] \<Longrightarrow> kalloc s = Ok 0 s"
  by (simp add: kalloc_def kmem_inv_def outcome_simps)

lemma kalloc_page:
  assumes inv: "kmem_inv s (p # ps)"
  shows "\<exists>t. kalloc s = Ok p t \<and> p \<noteq> 0 \<and> kmem_inv t ps \<and>
    t = s\<lparr>freelist := load64 (mem s) p, mem := put_bytes (mem s) p (page_fill 5)\<rparr>"
proof -
  let ?t = "s\<lparr>freelist := load64 (mem s) p, mem := put_bytes (mem s) p (page_fill 5)\<rparr>"
  have p: "freelist s = p" "p \<noteq> 0" "flist (mem s) (load64 (mem s) p) ps"
    using inv by (auto simp: kmem_inv_def)
  moreover have "KmemLock \<notin> held s" using inv by (simp add: kmem_inv_def)
  ultimately have "kalloc s = Ok p ?t"
    by (simp add: kalloc_def outcome_simps memset_page)
  moreover have "flist (put_bytes (mem s) p (page_fill 5)) (load64 (mem s) p) ps"
    using inv p(3) by (subst flist_frame [of p "mem s"])
      (auto simp: kmem_inv_def page_ok_def intro: same_except_put_bytes)
  ultimately show ?thesis using inv p by (simp add: kmem_inv_def)
qed

lemma freerange_loop_ok:
  assumes "page_aligned p" "sym_end s \<le> p" "p \<le> PHYSTOP" "kmem_inv s ps" "\<forall>q \<in> set ps. q < p"
  shows "\<exists>t qs. freerange_loop p PHYSTOP s = Ok () t \<and> kmem_inv t (qs @ ps) \<and>
    sym_end t = sym_end s \<and> set qs = {q. page_aligned q \<and> p \<le> q \<and> q < PHYSTOP}"
  using assms
proof (induction p PHYSTOP s arbitrary: ps rule: freerange_loop.induct)
  case (1 p s)
  show ?case
  proof (cases "p = PHYSTOP")
    case True
    moreover have "\<not> PHYSTOP + PGSIZE \<le> PHYSTOP" by (simp add: PHYSTOP_def KERNBASE_def PGSIZE_def)
    ultimately have "freerange_loop p PHYSTOP s = Ok () s"
      by (simp add: freerange_loop.simps)
    with 1(5) True show ?thesis by (intro exI [of _ s] exI [of _ "[]"]) auto
  next
    case False
    with 1(4) have "p < PHYSTOP" by simp
    with 1(2,3) have "page_ok s p" by (simp add: page_ok_def)
    note b = aligned_below_PHYSTOP [OF 1(2) \<open>p < PHYSTOP\<close>]
    then have le: "p + PGSIZE \<le> PHYSTOP" "p < p + PGSIZE"
      by (simp_all add: word_le_nat_alt word_less_nat_alt)
    have al: "page_aligned (p + PGSIZE)"
      using 1(2) b by (simp add: page_aligned_unat)
    obtain m where m: "kfree p s = Ok () (s\<lparr>mem := m, freelist := p\<rparr>)"
      "kmem_inv (s\<lparr>mem := m, freelist := p\<rparr>) (p # ps)"
      using kfree_ok [OF 1(5) \<open>page_ok s p\<close>] 1(6) by auto
    let ?s = "s\<lparr>mem := m, freelist := p\<rparr>"
    have "\<exists>t qs. freerange_loop (p + PGSIZE) PHYSTOP ?s = Ok () t \<and> kmem_inv t (qs @ p # ps) \<and>
      sym_end t = sym_end ?s \<and> set qs = {q. page_aligned q \<and> p + PGSIZE \<le> q \<and> q < PHYSTOP}"
      by (rule 1(1) [OF le(1) m(1) al _ le(1) m(2)]) (use 1(3,6) le in auto)
    then obtain t qs where t: "freerange_loop (p + PGSIZE) PHYSTOP ?s = Ok () t"
      "kmem_inv t (qs @ p # ps)" "sym_end t = sym_end s"
      "set qs = {q. page_aligned q \<and> p + PGSIZE \<le> q \<and> q < PHYSTOP}" by auto
    have next_page: "p + PGSIZE \<le> q \<longleftrightarrow> p \<le> q \<and> p \<noteq> q" if "page_aligned q" for q
    proof -
      obtain j where "unat q = 4096 * j" using \<open>page_aligned q\<close> by (auto simp: page_aligned_unat)
      moreover obtain k where "unat p = 4096 * k" using 1(2) by (auto simp: page_aligned_unat)
      ultimately show ?thesis using b by (auto simp: word_le_nat_alt word_unat_eq_iff)
    qed
    have "set (qs @ [p]) = {q. page_aligned q \<and> p \<le> q \<and> q < PHYSTOP}"
      using t(4) next_page 1(2) \<open>p < PHYSTOP\<close> by auto
    moreover have "freerange_loop p PHYSTOP s = Ok () t"
      using le(1) m(1) t(1) by (simp add: freerange_loop.simps [of p])
    ultimately show ?thesis using t(2,3) by (intro exI [of _ t] exI [of _ "qs @ [p]"]) simp
  qed
qed

lemma count_loop_flist: "flist m r ps \<Longrightarrow> count_loop m r n = Some (n + of_nat (length ps))"
proof (induction ps arbitrary: r n)
  case Nil
  then show ?case by (subst count_loop.simps) simp
next
  case (Cons p ps)
  then show ?case by (subst count_loop.simps) (auto simp: add.assoc)
qed

lemma count_free_kmem_eq:
  assumes "kmem_inv s ps"
  shows "count_free_kmem s = Ok (of_nat (4096 * length ps)) s"
proof -
  have "flist (mem s) (freelist s) ps" "KmemLock \<notin> held s"
    using assms by (simp_all add: kmem_inv_def)
  then show ?thesis by (simp add: count_free_kmem_def outcome_simps count_loop_flist PGSIZE_def)
qed

section \<open>The allocator's interface\<close>

text \<open>\<open>pool s ps\<close> says that \<open>ps\<close> are the free pages, in the order they will be handed out.\<close>

locale page_alloc =
  fixes alloc :: "'s \<Rightarrow> ('p, 's) outcome"
    and free :: "'p \<Rightarrow> 's \<Rightarrow> (unit, 's) outcome"
    and null :: 'p
    and pool :: "'s \<Rightarrow> 'p list \<Rightarrow> bool"
    and valid :: "'s \<Rightarrow> 'p \<Rightarrow> bool"
  assumes alloc_empty: "pool s [] \<Longrightarrow> alloc s = Ok null s"
    and alloc_page: "pool s (p # ps) \<Longrightarrow> \<exists>t. alloc s = Ok p t \<and> pool t ps \<and> valid t = valid s"
    and free_page: "pool s ps \<Longrightarrow> valid s p \<Longrightarrow> p \<notin> set ps \<Longrightarrow>
      \<exists>t. free p s = Ok () t \<and> pool t (p # ps) \<and> valid t = valid s"
    and pool_valid: "pool s ps \<Longrightarrow> distinct ps \<and> (\<forall>p \<in> set ps. valid s p \<and> p \<noteq> null)"
begin

primrec alloc_n :: "nat \<Rightarrow> 's \<Rightarrow> ('p list, 's) outcome" where
  "alloc_n 0 s = Ok [] s"
| "alloc_n (Suc n) s = bindK (alloc s) (\<lambda>p s. bindK (alloc_n n s) (\<lambda>ps. Ok (p # ps)))"

primrec free_all :: "'p list \<Rightarrow> 's \<Rightarrow> (unit, 's) outcome" where
  "free_all [] s = Ok () s"
| "free_all (p # ps) s = bindK (free p s) (\<lambda>_. free_all ps)"

lemma alloc_n_ok:
  "pool s (ps @ qs) \<Longrightarrow> \<exists>t. alloc_n (length ps) s = Ok ps t \<and> pool t qs \<and> valid t = valid s"
proof (induction ps arbitrary: s)
  case (Cons p ps)
  then obtain t where t: "alloc s = Ok p t" "pool t (ps @ qs)" "valid t = valid s"
    using alloc_page [of s p "ps @ qs"] by auto
  obtain u where "alloc_n (length ps) t = Ok ps u" "pool u qs" "valid u = valid t"
    using Cons.IH [OF t(2)] by blast
  with t show ?case by simp
qed simp

lemma free_all_ok:
  "pool s qs \<Longrightarrow> distinct (ps @ qs) \<Longrightarrow> \<forall>p \<in> set ps. valid s p \<Longrightarrow>
   \<exists>t. free_all ps s = Ok () t \<and> pool t (rev ps @ qs) \<and> valid t = valid s"
proof (induction ps arbitrary: s qs)
  case (Cons p ps)
  then have "valid s p" "p \<notin> set qs" by simp_all
  with Cons.prems(1) obtain t where t: "free p s = Ok () t" "pool t (p # qs)" "valid t = valid s"
    using free_page by blast
  have "\<exists>u. free_all ps t = Ok () u \<and> pool u (rev ps @ p # qs) \<and> valid u = valid t"
    using Cons.prems t by (intro Cons.IH) simp_all
  with t show ?case by auto
qed simp

text \<open>Pages handed out are distinct, non-null and no longer in the pool; giving them back restores it.\<close>

lemma alloc_n_free_all:
  assumes "pool s (ps @ qs)"
  shows "\<exists>t u. alloc_n (length ps) s = Ok ps t \<and> pool t qs \<and> distinct ps \<and> null \<notin> set ps \<and>
    set ps \<inter> set qs = {} \<and> free_all ps t = Ok () u \<and> pool u (rev ps @ qs)"
proof -
  obtain t where t: "alloc_n (length ps) s = Ok ps t" "pool t qs" "valid t = valid s"
    using alloc_n_ok [OF assms] by blast
  moreover have "distinct (ps @ qs)" "\<forall>p \<in> set ps. valid t p" "null \<notin> set ps"
    using pool_valid [OF assms] t(3) by auto
  moreover obtain u where "free_all ps t = Ok () u" "pool u (rev ps @ qs)"
    using free_all_ok [of t qs ps] calculation by blast
  ultimately show ?thesis by auto
qed

end

interpretation kmem: page_alloc kalloc kfree 0 kmem_inv page_ok
proof
  fix s :: "'a kmem_state_scheme" and p ps
  show "kmem_inv s [] \<Longrightarrow> kalloc s = Ok 0 s" by (rule kalloc_empty)
  show "kmem_inv s (p # ps) \<Longrightarrow> \<exists>t. kalloc s = Ok p t \<and> kmem_inv t ps \<and> page_ok t = page_ok s"
    by (drule kalloc_page) (fastforce simp: fun_eq_iff)
  show "kmem_inv s ps \<Longrightarrow> page_ok s p \<Longrightarrow> p \<notin> set ps \<Longrightarrow>
    \<exists>t. kfree p s = Ok () t \<and> kmem_inv t (p # ps) \<and> page_ok t = page_ok s"
    by (drule (2) kfree_ok) (fastforce simp: fun_eq_iff)
  show "kmem_inv s ps \<Longrightarrow> distinct ps \<and> (\<forall>p \<in> set ps. page_ok s p \<and> p \<noteq> 0)"
    by (auto simp: kmem_inv_def dest: page_ok_nonzero)
qed

section \<open>Properties of the allocator\<close>

text \<open>C3. \<open>kinit\<close>, started with an empty free list, returns with every whole page between \<^verbatim>\<open>end\<close> and
  \<^verbatim>\<open>PHYSTOP\<close>, and no other page, on the list exactly once, and \<open>count_free_kmem\<close> then reports
  the bytes of those pages without changing the state.\<close>

theorem kinit_frees_managed_pages:
  assumes "freelist s = 0" "0 < sym_end s" "sym_end s \<le> PHYSTOP"
  shows "\<exists>t ps. kinit s = Ok () t \<and> kmem_inv t ps \<and>
    set ps = {p. page_aligned p \<and> sym_end s \<le> p \<and> p < PHYSTOP} \<and>
    count_free_kmem t = Ok (of_nat (4096 * card (set ps))) t"
proof -
  let ?s = "s\<lparr>held := held s - {KmemLock}\<rparr>"
  have al: "page_aligned PHYSTOP" by (simp add: page_aligned_def PHYSTOP_def KERNBASE_def PGSIZE_def)
  note up = PGROUNDUP_le_aligned [OF al assms(3)]
  have "kmem_inv ?s []" using assms by (simp add: kmem_inv_def)
  then obtain t ps where t: "freerange_loop (PGROUNDUP (sym_end s)) PHYSTOP ?s = Ok () t"
    "kmem_inv t ps" "set ps = {q. page_aligned q \<and> PGROUNDUP (sym_end s) \<le> q \<and> q < PHYSTOP}"
    using freerange_loop_ok [of "PGROUNDUP (sym_end s)" ?s "[]"] up by auto
  have "page_aligned q \<Longrightarrow> PGROUNDUP (sym_end s) \<le> q \<longleftrightarrow> sym_end s \<le> q" for q
    using up(1) PGROUNDUP_le_aligned [of q "sym_end s"] by (blast intro: order_trans)
  with t(3) have "set ps = {p. page_aligned p \<and> sym_end s \<le> p \<and> p < PHYSTOP}" by auto
  moreover have "card (set ps) = length ps"
    using t(2) by (simp add: kmem_inv_def distinct_card)
  ultimately show ?thesis
    using t(1,2) count_free_kmem_eq [OF t(2)] by (auto simp: kinit_def freerange_def)
qed

definition boot_kmem :: kmem_state where
  "boot_kmem = \<lparr>held = {}, mem = (\<lambda>_. 0), freelist = 0, sym_end = 0x80025000\<rparr>"

theorem kinit_frees_managed_pages_witness:
  "\<exists>t ps. kinit boot_kmem = Ok () t \<and> kmem_inv t ps \<and> 0x80026000 \<in> set ps \<and> 0x80024000 \<notin> set ps"
proof -
  obtain t ps where t: "kinit boot_kmem = Ok () t" "kmem_inv t ps"
    "set ps = {p. page_aligned p \<and> sym_end boot_kmem \<le> p \<and> p < PHYSTOP}"
    using kinit_frees_managed_pages [of boot_kmem]
    by (auto simp: boot_kmem_def PHYSTOP_def KERNBASE_def)
  have "0x80026000 \<in> set ps" "0x80024000 \<notin> set ps"
    unfolding t(3) by (simp_all add: boot_kmem_def PHYSTOP_def KERNBASE_def page_aligned_def PGSIZE_def)
  with t(1,2) show ?thesis by blast
qed

text \<open>C4. When the free list holds \<open>ps @ qs\<close>, \<open>length ps\<close> calls of \<open>kalloc\<close> return exactly the pages
  \<open>ps\<close>, which are distinct, not null and not among the pages still free; freeing them with
  \<open>kfree\<close> never panics and puts every one of them back.\<close>

theorem kalloc_kfree_roundtrip:
  assumes "kmem_inv s (ps @ qs)"
  shows "\<exists>t u. kmem.alloc_n (length ps) s = Ok ps t \<and> kmem_inv t qs \<and> distinct ps \<and> 0 \<notin> set ps \<and>
    set ps \<inter> set qs = {} \<and> kmem.free_all ps t = Ok () u \<and> kmem_inv u (rev ps @ qs)"
  using assms by (rule kmem.alloc_n_free_all)

definition one_free_page :: kmem_state where
  "one_free_page = \<lparr>held = {}, mem = (\<lambda>_. 0), freelist = 0x80026000, sym_end = 0x80025000\<rparr>"

lemma load64_zero [simp]: "load64 (\<lambda>_. 0) a = 0"
  by (simp add: load64_def get_bytes_def upt_rec)

theorem kalloc_kfree_roundtrip_witness:
  "kmem_inv one_free_page [0x80026000] \<and> (\<exists>t u. kalloc one_free_page = Ok 0x80026000 t \<and>
     kfree 0x80026000 t = Ok () u \<and> kmem_inv u [0x80026000])"
proof -
  have inv: "kmem_inv one_free_page [0x80026000]"
    by (simp add: kmem_inv_def one_free_page_def page_ok_def page_aligned_def PGSIZE_def PHYSTOP_def KERNBASE_def)
  moreover obtain t u where "kmem.alloc_n 1 one_free_page = Ok [0x80026000] t"
    "kmem.free_all [0x80026000] t = Ok () u" "kmem_inv u [0x80026000]"
    using kalloc_kfree_roundtrip [of one_free_page "[0x80026000]" "[]"] inv by auto
  ultimately show ?thesis by (auto simp: bindK_Ok_iff)
qed

text \<open>\<open>kfree\<close> stops the kernel with a panic exactly on the addresses that are not pages of the
  managed range, and on the ones that are it writes inside that page only.\<close>

theorem kfree_checks_page:
  assumes "KmemLock \<notin> held s"
  shows "if page_aligned pa \<and> sym_end s \<le> pa \<and> pa < PHYSTOP
    then \<exists>t. kfree pa s = Ok () t \<and> freelist t = pa \<and> load64 (mem t) pa = freelist s \<and>
           (\<forall>x. x \<notin> range_of pa 4096 \<longrightarrow> mem t x = mem s x)
    else kfree pa s = Panic ''kfree''"
proof (cases "page_ok s pa")
  case True
  have "range_of pa 8 \<subseteq> range_of pa 4096" by (rule range_of_mono) simp
  then have "x \<notin> range_of pa 4096 \<Longrightarrow>
      store64 (put_bytes (mem s) pa (page_fill 1)) pa (freelist s) x = mem s x" for x
    by (subst store64_def, subst put_bytes_outside) (auto simp: put_bytes_outside)
  with True kfree_state [OF True assms] show ?thesis by (simp add: page_ok_def)
next
  case False
  then have "kfree pa s = Panic ''kfree''"
    by (simp add: kfree_def page_ok_def page_aligned_def not_less not_le)
  with False show ?thesis by (simp add: page_ok_def)
qed

theorem kfree_checks_page_witness:
  "(\<exists>t. kfree 0x80026000 boot_kmem = Ok () t \<and> freelist t = 0x80026000) \<and>
   kfree 0x80026001 boot_kmem = Panic ''kfree'' \<and> kfree PHYSTOP boot_kmem = Panic ''kfree''"
  using kfree_checks_page [of boot_kmem "0x80026000"] kfree_checks_page [of boot_kmem "0x80026001"]
    kfree_checks_page [of boot_kmem PHYSTOP]
  by (auto simp: boot_kmem_def page_aligned_def PGSIZE_def PHYSTOP_def KERNBASE_def)

end
