(* ===== verification/Xv6_Vm.thy ===== *)
theory Xv6_Vm
  imports Xv6_Kalloc
begin

text \<open>
  \<^verbatim>\<open>kernel/vm.c\<close>: Sv39 page tables in the byte memory, three levels of pages of 512 entries, and the
  copies between user and kernel space. A kernel buffer on the other side of a copy is a list of
  bytes. The lemmas read a page table as the function \<open>vlookup\<close> from virtual addresses to leaf
  entries and a user address space as the partial function \<open>uload\<close> from virtual addresses to bytes.
\<close>

section \<open>Definitions\<close>

text \<open>\<open>satp\<close> is the register \<open>kvminithart\<close> loads; \<open>sym_etext\<close> and \<open>sym_trampoline\<close> are addresses
  the linker provides.\<close>

record vm_state = kmem_state +
  kernel_pagetable :: uint64
  sym_etext :: uint64
  sym_trampoline :: uint64
  satp :: uint64

type_synonym ('r, 'a) vm_op = "'a vm_state_scheme \<Rightarrow> ('r, 'a vm_state_scheme) outcome"

definition upd_mem :: "(memory \<Rightarrow> memory) \<Rightarrow> 'a kmem_state_scheme \<Rightarrow> 'a kmem_state_scheme" where
  "upd_mem f s = s\<lparr>mem := f (mem s)\<rparr>"

fun walk_loop :: "nat \<Rightarrow> uint64 \<Rightarrow> uint64 \<Rightarrow> bool \<Rightarrow> (uint64, 'a) vm_op" where
  "walk_loop 0 pagetable va alloc s = Ok (pagetable + 8 * PX 0 va) s"
| "walk_loop (Suc level) pagetable va alloc s =
     (let pte = pagetable + 8 * PX (Suc level) va
      in if load64 (mem s) pte AND PTE_V \<noteq> 0
         then walk_loop level (PTE2PA (load64 (mem s) pte)) va alloc s
         else if \<not> alloc then Ok 0 s
         else bindK (kalloc s) (\<lambda>page s1.
           if page = 0 then Ok 0 s1
           else let s2 = upd_mem (\<lambda>m. memset m page 0 (ucast PGSIZE)) s1;
                    s3 = upd_mem (\<lambda>m. store64 m pte (PA2PTE page OR PTE_V)) s2
                in walk_loop level page va alloc s3))"

definition walk :: "uint64 \<Rightarrow> uint64 \<Rightarrow> bool \<Rightarrow> (uint64, 'a) vm_op" where
  "walk pagetable va alloc s =
     (if va \<ge> MAXVA then Panic ''walk'' else walk_loop 2 pagetable va alloc s)"

definition walkaddr :: "uint64 \<Rightarrow> uint64 \<Rightarrow> (uint64, 'a) vm_op" where
  "walkaddr pagetable va s =
     (if va \<ge> MAXVA then Ok 0 s
      else bindK (walk pagetable va False s) (\<lambda>pte s1.
        if pte = 0 then Ok 0 s1
        else let e = load64 (mem s1) pte
             in if e AND PTE_V = 0 then Ok 0 s1
                else if e AND PTE_U = 0 then Ok 0 s1
                else Ok (PTE2PA e) s1))"

lemma walk_Ok_bound: "walk pt a al s = Ok x t \<Longrightarrow> a < MAXVA"
  by (auto simp: walk_def not_le split: if_splits)

lemma next_page_less:
  assumes "a < MAXVA"
  shows "unat MAXVA - unat (a + PGSIZE) < unat MAXVA - unat a"
proof -
  have "unat a < unat MAXVA" using assms by (simp add: word_less_nat_alt)
  then have "unat a < 0x4000000000" by (simp add: MAXVA_def)
  then have "unat (a + PGSIZE) = unat a + 4096" by (simp add: unat_plus_if' PGSIZE_def)
  with \<open>unat a < unat MAXVA\<close> show ?thesis by linarith
qed

function mappages_loop :: "uint64 \<Rightarrow> uint64 \<Rightarrow> uint64 \<Rightarrow> uint64 \<Rightarrow> uint64 \<Rightarrow> (int, 'a) vm_op" where
  "mappages_loop pagetable a last_page pa perm s =
     bindK (walk pagetable a True s) (\<lambda>pte s1.
       if pte = 0 then Ok (-1) s1
       else if load64 (mem s1) pte AND PTE_V \<noteq> 0 then Panic ''remap''
       else let s2 = upd_mem (\<lambda>m. store64 m pte (PA2PTE pa OR perm OR PTE_V)) s1
            in if a = last_page then Ok 0 s2
               else mappages_loop pagetable (a + PGSIZE) last_page (pa + PGSIZE) perm s2)"
  by pat_completeness auto
termination
  by (relation "measure (\<lambda>(pt, a, l, pa, perm, s). unat MAXVA - unat a)")
    (auto dest!: walk_Ok_bound intro: next_page_less)

declare mappages_loop.simps [simp del]

definition mappages :: "uint64 \<Rightarrow> uint64 \<Rightarrow> uint64 \<Rightarrow> uint64 \<Rightarrow> uint64 \<Rightarrow> (int, 'a) vm_op" where
  "mappages pagetable va sz pa perm s =
     mappages_loop pagetable (PGROUNDDOWN va) (PGROUNDDOWN (va + sz - 1)) pa perm s"

definition kvmmap :: "uint64 \<Rightarrow> uint64 \<Rightarrow> uint64 \<Rightarrow> uint64 \<Rightarrow> (unit, 'a) vm_op" where
  "kvmmap va pa sz perm s =
     bindK (mappages (kernel_pagetable s) va sz pa perm s) (\<lambda>r s1.
       if r \<noteq> 0 then Panic ''kvmmap'' else Ok () s1)"

definition kvminit :: "(unit, 'a) vm_op" where
  "kvminit s =
     bindK (kalloc s) (\<lambda>page s0.
     let s1 = s0\<lparr>kernel_pagetable := page\<rparr>;
         s2 = upd_mem (\<lambda>m. memset m page 0 (ucast PGSIZE)) s1
     in bindK (kvmmap UART0 UART0 PGSIZE (PTE_R OR PTE_W) s2) (\<lambda>_ s3.
        bindK (kvmmap VIRTIO0 VIRTIO0 PGSIZE (PTE_R OR PTE_W) s3) (\<lambda>_ s4.
        bindK (kvmmap CLINT CLINT 0x10000 (PTE_R OR PTE_W) s4) (\<lambda>_ s5.
        bindK (kvmmap PLIC PLIC 0x400000 (PTE_R OR PTE_W) s5) (\<lambda>_ s6.
        bindK (kvmmap KERNBASE KERNBASE (sym_etext s6 - KERNBASE) (PTE_R OR PTE_X) s6) (\<lambda>_ s7.
        bindK (kvmmap (sym_etext s7) (sym_etext s7) (PHYSTOP - sym_etext s7) (PTE_R OR PTE_W) s7) (\<lambda>_ s8.
        kvmmap TRAMPOLINE (sym_trampoline s8) PGSIZE (PTE_R OR PTE_X) s8)))))))"

definition kvminithart :: "(unit, 'a) vm_op" where
  "kvminithart s = Ok () (s\<lparr>satp := MAKE_SATP (kernel_pagetable s)\<rparr>)"

definition kvmpa :: "uint64 \<Rightarrow> (uint64, 'a) vm_op" where
  "kvmpa va s =
     (let off = va mod PGSIZE
      in bindK (walk (kernel_pagetable s) va False s) (\<lambda>pte s1.
        if pte = 0 then Panic ''kvmpa''
        else if load64 (mem s1) pte AND PTE_V = 0 then Panic ''kvmpa''
        else Ok (PTE2PA (load64 (mem s1) pte) + off) s1))"

function uvmunmap_loop :: "uint64 \<Rightarrow> uint64 \<Rightarrow> uint64 \<Rightarrow> bool \<Rightarrow> (unit, 'a) vm_op" where
  "uvmunmap_loop pagetable a limit do_free s =
     (if a < limit
      then bindK (walk pagetable a False s) (\<lambda>pte s1.
        if pte = 0 then Panic ''uvmunmap: walk''
        else let e = load64 (mem s1) pte
             in if e AND PTE_V = 0 then Panic ''uvmunmap: not mapped''
                else if PTE_FLAGS e = PTE_V then Panic ''uvmunmap: not a leaf''
                else bindK (if do_free then kfree (PTE2PA e) s1 else Ok () s1) (\<lambda>_ s2.
                  let s3 = upd_mem (\<lambda>m. store64 m pte 0) s2
                  in uvmunmap_loop pagetable (a + PGSIZE) limit do_free s3))
      else Ok () s)"
  by pat_completeness auto
termination
  by (relation "measure (\<lambda>(pt, a, l, d, s). unat MAXVA - unat a)")
    (auto dest!: walk_Ok_bound intro: next_page_less)

declare uvmunmap_loop.simps [simp del]

definition uvmunmap :: "uint64 \<Rightarrow> uint64 \<Rightarrow> uint64 \<Rightarrow> bool \<Rightarrow> (unit, 'a) vm_op" where
  "uvmunmap pagetable va npages do_free s =
     (if va mod PGSIZE \<noteq> 0 then Panic ''uvmunmap: not aligned''
      else uvmunmap_loop pagetable va (va + npages * PGSIZE) do_free s)"

definition uvmcreate :: "(uint64, 'a) vm_op" where
  "uvmcreate s =
     bindK (kalloc s) (\<lambda>pagetable s1.
       if pagetable = 0 then Ok 0 s1
       else Ok pagetable (upd_mem (\<lambda>m. memset m pagetable 0 (ucast PGSIZE)) s1))"

definition uvminit :: "uint64 \<Rightarrow> byte list \<Rightarrow> (unit, 'a) vm_op" where
  "uvminit pagetable src s =
     (if unat PGSIZE \<le> length src then Panic ''inituvm: more than a page''
      else bindK (kalloc s) (\<lambda>page s1.
        let s2 = upd_mem (\<lambda>m. memset m page 0 (ucast PGSIZE)) s1
        in bindK (mappages pagetable 0 PGSIZE page (PTE_W OR PTE_R OR PTE_X OR PTE_U) s2) (\<lambda>_ s3.
           Ok () (upd_mem (\<lambda>m. put_bytes m page src) s3))))"

text \<open>The number of pages is computed in a \<^verbatim>\<open>uint64\<close>, stored in an \<^verbatim>\<open>int\<close> and passed as a
  \<^verbatim>\<open>uint64\<close> again.\<close>

definition uvmdealloc :: "uint64 \<Rightarrow> uint64 \<Rightarrow> uint64 \<Rightarrow> (uint64, 'a) vm_op" where
  "uvmdealloc pagetable oldsz newsz s =
     (if newsz \<ge> oldsz then Ok oldsz s
      else if PGROUNDUP newsz < PGROUNDUP oldsz
      then let npages = ucast ((PGROUNDUP oldsz - PGROUNDUP newsz) div PGSIZE) :: 32 word
           in bindK (uvmunmap pagetable (PGROUNDUP newsz) (scast npages) True s) (\<lambda>_. Ok newsz)
      else Ok newsz s)"

lemma MAXVA_div: "unat MAXVA = 67108864 * 4096"
  by (simp add: MAXVA_def)

lemma PGROUNDDOWN_less_MAXVA: "PGROUNDDOWN a < MAXVA \<longleftrightarrow> a < MAXVA"
proof -
  have "unat a div 4096 * 4096 < 67108864 * 4096 \<longleftrightarrow> unat a < 67108864 * 4096" by auto
  then show ?thesis by (simp add: word_less_nat_alt unat_PGROUNDDOWN MAXVA_div)
qed

lemma mappages_Ok_bound: "mappages pt va sz pa perm s = Ok r t \<Longrightarrow> va < MAXVA"
  unfolding mappages_def
  by (subst (asm) mappages_loop.simps) (auto simp: bindK_Ok_iff PGROUNDDOWN_less_MAXVA dest!: walk_Ok_bound)

function uvmalloc_loop :: "uint64 \<Rightarrow> uint64 \<Rightarrow> uint64 \<Rightarrow> uint64 \<Rightarrow> (uint64, 'a) vm_op" where
  "uvmalloc_loop pagetable a oldsz newsz s =
     (if a < newsz
      then bindK (kalloc s) (\<lambda>page s1.
        if page = 0 then bindK (uvmdealloc pagetable a oldsz s1) (\<lambda>_. Ok 0)
        else let s2 = upd_mem (\<lambda>m. memset m page 0 (ucast PGSIZE)) s1
             in bindK (mappages pagetable a PGSIZE page (PTE_W OR PTE_X OR PTE_R OR PTE_U) s2) (\<lambda>r s3.
                if r \<noteq> 0
                then bindK (kfree page s3) (\<lambda>_ s4. bindK (uvmdealloc pagetable a oldsz s4) (\<lambda>_. Ok 0))
                else uvmalloc_loop pagetable (a + PGSIZE) oldsz newsz s3))
      else Ok newsz s)"
  by pat_completeness auto
termination
  by (relation "measure (\<lambda>(pt, a, os, ns, s). unat MAXVA - unat a)")
    (auto dest!: mappages_Ok_bound intro: next_page_less)

declare uvmalloc_loop.simps [simp del]

definition uvmalloc :: "uint64 \<Rightarrow> uint64 \<Rightarrow> uint64 \<Rightarrow> (uint64, 'a) vm_op" where
  "uvmalloc pagetable oldsz newsz s =
     (if newsz < oldsz then Ok oldsz s
      else let oldsz = PGROUNDUP oldsz in uvmalloc_loop pagetable oldsz oldsz newsz s)"

text \<open>\<open>freewalk\<close> recurses into every entry that points to a lower-level page; the first argument
  bounds the depth of the recursion, and three levels are all that \<open>walk\<close> ever builds.\<close>

fun freewalk_loop :: "(uint64 \<Rightarrow> (unit, 'a) vm_op) \<Rightarrow> uint64 \<Rightarrow> nat list \<Rightarrow> (unit, 'a) vm_op" where
  "freewalk_loop rec pagetable [] s = Ok () s"
| "freewalk_loop rec pagetable (i # is) s =
     (let pte = load64 (mem s) (pagetable + 8 * of_nat i)
      in if pte AND PTE_V \<noteq> 0 \<and> pte AND (PTE_R OR PTE_W OR PTE_X) = 0
         then bindK (rec (PTE2PA pte) s) (\<lambda>_ s1.
           freewalk_loop rec pagetable is (upd_mem (\<lambda>m. store64 m (pagetable + 8 * of_nat i) 0) s1))
         else if pte AND PTE_V \<noteq> 0 then Panic ''freewalk: leaf''
         else freewalk_loop rec pagetable is s)"

primrec freewalk :: "nat \<Rightarrow> uint64 \<Rightarrow> (unit, 'a) vm_op" where
  "freewalk 0 pagetable s = Diverge"
| "freewalk (Suc n) pagetable s =
     bindK (freewalk_loop (freewalk n) pagetable [0..<512] s) (\<lambda>_. kfree pagetable)"

definition uvmfree :: "uint64 \<Rightarrow> uint64 \<Rightarrow> (unit, 'a) vm_op" where
  "uvmfree pagetable sz s =
     bindK (if sz > 0 then uvmunmap pagetable 0 (PGROUNDUP sz div PGSIZE) True s else Ok () s) (\<lambda>_.
       freewalk 3 pagetable)"

function uvmcopy_loop :: "uint64 \<Rightarrow> uint64 \<Rightarrow> uint64 \<Rightarrow> uint64 \<Rightarrow> (int, 'a) vm_op" where
  "uvmcopy_loop old new i sz s =
     (if i < sz
      then bindK (walk old i False s) (\<lambda>pte s1.
        if pte = 0 then Panic ''uvmcopy: pte should exist''
        else let e = load64 (mem s1) pte
             in if e AND PTE_V = 0 then Panic ''uvmcopy: page not present''
                else let pa = PTE2PA e; flags = PTE_FLAGS e
                     in bindK (kalloc s1) (\<lambda>page s2.
                       if page = 0
                       then bindK (uvmunmap new 0 (i div PGSIZE) True s2) (\<lambda>_. Ok (-1))
                       else let s3 = upd_mem (\<lambda>m. memmove m page pa (ucast PGSIZE)) s2
                            in bindK (mappages new i PGSIZE page flags s3) (\<lambda>r s4.
                              if r \<noteq> 0
                              then bindK (kfree page s4) (\<lambda>_ s5.
                                bindK (uvmunmap new 0 (i div PGSIZE) True s5) (\<lambda>_. Ok (-1)))
                              else uvmcopy_loop old new (i + PGSIZE) sz s4)))
      else Ok 0 s)"
  by pat_completeness auto
termination
  by (relation "measure (\<lambda>(old, new, i, sz, s). unat MAXVA - unat i)")
    (auto dest!: walk_Ok_bound intro: next_page_less)

declare uvmcopy_loop.simps [simp del]

definition uvmcopy :: "uint64 \<Rightarrow> uint64 \<Rightarrow> uint64 \<Rightarrow> (int, 'a) vm_op" where
  "uvmcopy old new sz s = uvmcopy_loop old new 0 sz s"

definition uvmclear :: "uint64 \<Rightarrow> uint64 \<Rightarrow> (unit, 'a) vm_op" where
  "uvmclear pagetable va s =
     bindK (walk pagetable va False s) (\<lambda>pte s1.
       if pte = 0 then Panic ''uvmclear''
       else Ok () (upd_mem (\<lambda>m. store64 m pte (load64 m pte AND NOT PTE_U)) s1))"

text \<open>The bytes of the page at \<open>va\<close> from \<open>va\<close> on, at most \<open>k\<close> of them.\<close>

definition chunk :: "uint64 \<Rightarrow> nat \<Rightarrow> nat" where
  "chunk va k = (let n = PGSIZE - (va - PGROUNDDOWN va) in if unat n > k then k else unat n)"

lemma unat_page_rest: "unat (PGSIZE - (va - PGROUNDDOWN va)) = 4096 - unat va mod 4096"
  using page_offset_less [of va]
  by (subst unat_sub) (simp_all add: unat_page_offset order_less_imp_le, simp add: PGSIZE_def)

lemma chunk_eq: "chunk va k = min k (4096 - unat va mod 4096)"
  unfolding chunk_def Let_def unat_page_rest by (simp add: min_def)

lemma chunk_pos: "0 < k \<Longrightarrow> 0 < chunk va k"
  by (simp add: chunk_eq)

text \<open>\<open>copyout\<close> takes the source buffer, \<open>copyin\<close> returns the bytes it has stored at the destination
  together with the C return value.\<close>

function copyout :: "uint64 \<Rightarrow> uint64 \<Rightarrow> byte list \<Rightarrow> (int, 'a) vm_op" where
  "copyout pagetable dstva src s =
     (if src = [] then Ok 0 s
      else let va0 = PGROUNDDOWN dstva
           in bindK (walkaddr pagetable va0 s) (\<lambda>pa0 s1.
             if pa0 = 0 then Ok (-1) s1
             else let n = chunk dstva (length src);
                      s2 = upd_mem (\<lambda>m. put_bytes m (pa0 + (dstva - va0)) (take n src)) s1
                  in copyout pagetable (va0 + PGSIZE) (drop n src) s2))"
  by pat_completeness auto
termination
  by (relation "measure (\<lambda>(pt, va, src, s). length src)") (auto simp: chunk_pos)

declare copyout.simps [simp del]

function copyin :: "uint64 \<Rightarrow> uint64 \<Rightarrow> nat \<Rightarrow> (int \<times> byte list, 'a) vm_op" where
  "copyin pagetable srcva len s =
     (if len = 0 then Ok (0, []) s
      else let va0 = PGROUNDDOWN srcva
           in bindK (walkaddr pagetable va0 s) (\<lambda>pa0 s1.
             if pa0 = 0 then Ok (-1, []) s1
             else let n = chunk srcva len;
                      bs = get_bytes (mem s1) (pa0 + (srcva - va0)) n
                  in bindK (copyin pagetable (va0 + PGSIZE) (len - n) s1) (\<lambda>(r, rest).
                    Ok (r, bs @ rest))))"
  by pat_completeness auto
termination
  by (relation "measure (\<lambda>(pt, va, len, s). len)") (auto simp: chunk_pos)

declare copyin.simps [simp del]

text \<open>The inner loop of \<open>copyinstr\<close>: whether it met the NUL, and the bytes it has stored.\<close>

fun copyinstr_page :: "memory \<Rightarrow> uint64 \<Rightarrow> nat \<Rightarrow> bool \<times> byte list" where
  "copyinstr_page m p 0 = (False, [])"
| "copyinstr_page m p (Suc n) =
     (if m p = 0 then (True, [0])
      else let (got_null, bs) = copyinstr_page m (p + 1) n in (got_null, m p # bs))"

function copyinstr :: "uint64 \<Rightarrow> uint64 \<Rightarrow> nat \<Rightarrow> (int \<times> byte list, 'a) vm_op" where
  "copyinstr pagetable srcva maxlen s =
     (if maxlen = 0 then Ok (-1, []) s
      else let va0 = PGROUNDDOWN srcva
           in bindK (walkaddr pagetable va0 s) (\<lambda>pa0 s1.
             if pa0 = 0 then Ok (-1, []) s1
             else let n = chunk srcva maxlen;
                      (got_null, bs) = copyinstr_page (mem s1) (pa0 + (srcva - va0)) n
                  in if got_null then Ok (0, bs) s1
                     else bindK (copyinstr pagetable (va0 + PGSIZE) (maxlen - n) s1) (\<lambda>(r, rest).
                       Ok (r, bs @ rest))))"
  by pat_completeness auto
termination
  by (relation "measure (\<lambda>(pt, va, len, s). len)") (auto simp: chunk_pos)

declare copyinstr.simps [simp del]

end
