(* ===== verification/Xv6_VmSpec.thy ===== *)
theory Xv6_VmSpec
  imports Xv6_Vm
begin

text \<open>
  What the page-table operations of \<open>Xv6_Vm\<close> do, stated on the abstract view of a page table.
  \<open>pt_node m pt p\<close> is the page-table page a path \<open>p\<close> of indices leads to; \<open>pt_wf\<close> says that the pages
  of the tree are distinct, lie in the managed range and are not free; \<open>vlookup\<close> is the leaf entry of a
  virtual address. \<open>walk\<close> with allocation leaves \<open>vlookup\<close> unchanged, and a store to the entry it
  returns updates \<open>vlookup\<close> at that page only.
\<close>

section \<open>The tree of page-table pages\<close>

definition pt_child :: "memory \<Rightarrow> uint64 \<Rightarrow> uint64 \<Rightarrow> uint64 option" where
  "pt_child m x i =
     (let e = load64 m (x + 8 * i) in if e AND PTE_V \<noteq> 0 then Some (PTE2PA e) else None)"

fun pt_node :: "memory \<Rightarrow> uint64 \<Rightarrow> uint64 list \<Rightarrow> uint64 option" where
  "pt_node m pt [] = Some pt"
| "pt_node m pt (i # p) = Option.bind (pt_child m pt i) (\<lambda>x. pt_node m x p)"

lemma pt_node_snoc: "pt_node m pt (p @ [i]) = Option.bind (pt_node m pt p) (\<lambda>x. pt_child m x i)"
  by (induction p arbitrary: pt) (auto simp: Option.bind_assoc split: Option.bind_split)

definition pt_path :: "uint64 list \<Rightarrow> bool" where
  "pt_path p \<longleftrightarrow> length p \<le> 2 \<and> (\<forall>i \<in> set p. unat i < 512)"

lemma pt_path_snoc: "pt_path (p @ [i]) \<longleftrightarrow> length p \<le> 1 \<and> (\<forall>i \<in> set p. unat i < 512) \<and> unat i < 512"
  by (auto simp: pt_path_def)

lemma pt_path_butlast: "pt_path (p @ [i]) \<Longrightarrow> pt_path p"
  by (simp add: pt_path_def)

definition pt_wf :: "'a kmem_state_scheme \<Rightarrow> uint64 \<Rightarrow> uint64 list \<Rightarrow> bool" where
  "pt_wf s pt fl \<longleftrightarrow>
     (\<forall>p x. pt_path p \<longrightarrow> pt_node (mem s) pt p = Some x \<longrightarrow> page_ok s x \<and> x \<notin> set fl) \<and>
     (\<forall>p q x. pt_path p \<longrightarrow> pt_path q \<longrightarrow> pt_node (mem s) pt p = Some x \<longrightarrow>
        pt_node (mem s) pt q = Some x \<longrightarrow> p = q)"

lemma pt_wf_node:
  "pt_wf s pt fl \<Longrightarrow> pt_path p \<Longrightarrow> pt_node (mem s) pt p = Some x \<Longrightarrow> page_ok s x \<and> x \<notin> set fl"
  by (auto simp: pt_wf_def)

lemma pt_wf_inj:
  "pt_wf s pt fl \<Longrightarrow> pt_path p \<Longrightarrow> pt_path q \<Longrightarrow> pt_node (mem s) pt p = Some x \<Longrightarrow>
   pt_node (mem s) pt q = Some x \<Longrightarrow> p = q"
  unfolding pt_wf_def by blast

section \<open>Addresses of entries\<close>

lemma unat_8_times: "unat i < 512 \<Longrightarrow> unat (8 * i :: uint64) = 8 * unat i"
  by (simp add: unat_word_ariths)

lemma unat_entry:
  assumes "page_aligned x" "unat i < 512"
  shows "unat (x + 8 * i) = unat x + 8 * unat i" "unat x + 4096 \<le> 2 ^ 64"
proof -
  obtain k where k: "unat x = 4096 * k" using assms(1) by (auto simp: page_aligned_unat)
  have "unat x < 2 ^ 64" by (rule order.strict_trans2 [OF unsigned_less]) simp
  with k show le: "unat x + 4096 \<le> 2 ^ 64" by simp
  then show "unat (x + 8 * i) = unat x + 8 * unat i"
    using assms(2) by (simp add: unat_plus_if' unat_8_times)
qed

lemma in_entry_range:
  assumes "page_aligned x" "unat i < 512"
  shows "a \<in> range_of (x + 8 * i) 8 \<longleftrightarrow> unat x + 8 * unat i \<le> unat a \<and> unat a < unat x + 8 * unat i + 8"
proof -
  note u = unat_entry [OF assms]
  have b: "unat a < 2 ^ 64" by (rule order.strict_trans2 [OF unsigned_less]) simp
  show ?thesis
  proof (cases "x + 8 * i \<le> a")
    case True
    then show ?thesis using u by (auto simp: range_of_def unat_sub word_le_nat_alt)
  next
    case False
    then have "unat (a - (x + 8 * i)) = 2 ^ 64 + unat a - unat (x + 8 * i)"
      by (simp add: unat_sub_if' word_le_nat_alt)
    with False show ?thesis using u b assms(2) by (auto simp: range_of_def word_le_nat_alt)
  qed
qed

lemma entry_in_page:
  assumes "page_aligned x" "unat i < 512"
  shows "range_of (x + 8 * i) 8 \<subseteq> range_of x 4096"
proof
  fix a assume "a \<in> range_of (x + 8 * i) 8"
  then have "unat x \<le> unat a" "unat a < unat x + 4096"
    using assms(2) by (auto simp: in_entry_range [OF assms])
  then show "a \<in> range_of x 4096" by (simp add: range_of_def unat_sub word_le_nat_alt)
qed

lemma entries_disjoint:
  assumes "page_aligned x" "page_aligned y" "unat i < 512" "unat j < 512" "(x, i) \<noteq> (y, j)"
  shows "range_of (x + 8 * i) 8 \<inter> range_of (y + 8 * j) 8 = {}"
proof (cases "x = y")
  case True
  with assms(5) have "unat i \<noteq> unat j" by (simp add: word_unat_eq_iff)
  with True assms show ?thesis by (auto simp: in_entry_range)
next
  case False
  with pages_disjoint [OF assms(1,2)] entry_in_page assms show ?thesis by blast
qed

lemma load64_store64_entry:
  assumes "page_aligned x" "page_aligned y" "unat i < 512" "unat j < 512"
  shows "load64 (store64 m (x + 8 * i) v) (y + 8 * j) =
    (if (x, i) = (y, j) then v else load64 m (y + 8 * j))"
proof (cases "(x, i) = (y, j)")
  case True
  then show ?thesis by simp
next
  case False
  then have "range_of (y + 8 * j) 8 \<inter> range_of (x + 8 * i) (length (bytes_of_word 8 v)) = {}"
    using entries_disjoint [of y x j i] assms by auto
  then show ?thesis using False unfolding store64_def by (auto simp: load64_put_bytes_disjoint)
qed

lemma entry_nonzero:
  assumes "page_aligned x" "unat i < 512" "x \<noteq> 0"
  shows "x + 8 * i \<noteq> 0"
  using unat_entry [OF assms(1,2)] assms(3)
  by (metis add_eq_0_iff_both_eq_0 unat_0 unat_eq_0)

lemma load64_other_page_entry:
  assumes "same_except (range_of q 4096) m m'" "page_aligned q" "page_aligned x" "q \<noteq> x" "unat i < 512"
  shows "load64 m' (x + 8 * i) = load64 m (x + 8 * i)"
  using pages_disjoint [OF assms(3,2)] entry_in_page [OF assms(3,5)] assms(4)
  by (intro load64_same_except [OF assms(1)]) auto

section \<open>Leaf entries\<close>

definition vlookup :: "memory \<Rightarrow> uint64 \<Rightarrow> uint64 \<Rightarrow> uint64" where
  "vlookup m pt va =
     (case pt_node m pt [PX 2 va, PX 1 va] of None \<Rightarrow> 0 | Some x \<Rightarrow> load64 m (x + 8 * PX 0 va))"

abbreviation va_path :: "uint64 \<Rightarrow> uint64 list" where
  "va_path va \<equiv> [PX 2 va, PX 1 va]"

lemma vlookup_None: "pt_node m pt (va_path va) = None \<Longrightarrow> vlookup m pt va = 0"
  by (simp only: vlookup_def option.case)

lemma vlookup_Some: "pt_node m pt (va_path va) = Some x \<Longrightarrow> vlookup m pt va = load64 m (x + 8 * PX 0 va)"
  by (simp only: vlookup_def option.case)

lemma va_path_path [simp]: "pt_path (va_path va)" "pt_path [PX 2 va]" "pt_path []"
  by (simp_all add: pt_path_def PX_less)

lemma PX_digits:
  assumes "va < MAXVA"
  shows "unat va div 4096 = (unat (PX 2 va) * 512 + unat (PX 1 va)) * 512 + unat (PX 0 va)"
proof -
  have "unat va < 2 ^ 38" using assms by (simp add: word_less_nat_alt MAXVA_def)
  then have "unat va div 2 ^ 30 < 512" by simp
  then have p2: "unat (PX 2 va) = unat va div 2 ^ 30" by (simp add: unat_PX)
  have p1: "unat (PX 1 va) = unat va div 2 ^ 21 mod 512" by (simp add: unat_PX)
  have p0: "unat (PX 0 va) = unat va div 4096 mod 512" by (simp add: unat_PX)
  have "unat va div 2 ^ 21 = unat va div 4096 div 512" "unat va div 2 ^ 30 = unat va div 2 ^ 21 div 512"
    by (simp_all flip: div_mult2_eq)
  then show ?thesis unfolding p0 p1 p2 by simp
qed

lemma PX_eq_iff:
  assumes "va < MAXVA" "va' < MAXVA"
  shows "PX 2 va = PX 2 va' \<and> PX 1 va = PX 1 va' \<and> PX 0 va = PX 0 va' \<longleftrightarrow>
    PGROUNDDOWN va = PGROUNDDOWN va'"
proof
  assume "PX 2 va = PX 2 va' \<and> PX 1 va = PX 1 va' \<and> PX 0 va = PX 0 va'"
  then have "unat va div 4096 = unat va' div 4096" using PX_digits assms by simp
  then show "PGROUNDDOWN va = PGROUNDDOWN va'" by (simp add: word_unat_eq_iff unat_PGROUNDDOWN)
next
  assume "PGROUNDDOWN va = PGROUNDDOWN va'"
  then have eq: "unat va div 4096 = unat va' div 4096"
    using unat_PGROUNDDOWN [of va] unat_PGROUNDDOWN [of va'] by simp
  have "unat (PX l va) = unat (PX l va')" for l
    using eq by (simp add: unat_PX power_add div_mult2_eq)
  then show "PX 2 va = PX 2 va' \<and> PX 1 va = PX 1 va' \<and> PX 0 va = PX 0 va'"
    by (simp add: word_unat_eq_iff)
qed

section \<open>Linking a new page-table page\<close>

text \<open>The three writes of \<open>walk\<close> when an entry is missing: the junk fill of \<open>kalloc\<close>, the zero fill, and
  the store of the entry.\<close>

definition link_page :: "memory \<Rightarrow> uint64 \<Rightarrow> uint64 \<Rightarrow> memory" where
  "link_page m pte q =
     store64 (put_bytes (put_bytes m q (page_fill 5)) q (page_fill 0)) pte (PA2PTE q OR PTE_V)"

lemma page_aligned_ok: "page_ok s x \<Longrightarrow> page_aligned x"
  by (simp add: page_ok_def)

lemma nth_page_fill [simp]: "k < 4096 \<Longrightarrow> page_fill b ! k = b"
  by (simp only: page_fill_def nth_replicate)

lemma load64_zero_page:
  assumes "page_aligned q" "unat i < 512"
  shows "load64 (put_bytes m q (page_fill 0)) (q + 8 * i) = 0"
proof -
  have "load64 (put_bytes m q (page_fill 0)) (q + 8 * i) = load64 (\<lambda>_. 0) (q + 8 * i)"
  proof (rule load64_cong)
    fix a assume "a \<in> range_of (q + 8 * i) 8"
    then have "unat (a - q) < 4096" using entry_in_page [OF assms] by (auto simp: range_of_def)
    then show "put_bytes m q (page_fill 0) a = 0" by (simp add: put_bytes_def)
  qed
  then show ?thesis by simp
qed

lemma PTE_V_or: "(e OR PTE_V) AND PTE_V \<noteq> 0"
proof -
  have "bit ((e OR PTE_V) AND PTE_V) 0" by (simp add: PTE_V_def bit_simps)
  then show ?thesis by auto
qed

lemma PTE_V_nonzero [simp]: "PTE_V \<noteq> 0"
  by (simp add: PTE_V_def)

lemma PTE2PA_link: "page_aligned q \<Longrightarrow> PTE2PA (PA2PTE q OR PTE_V) = q"
  by (rule PTE2PA_PA2PTE) (simp_all add: PTE_V_def)

lemma load64_link_page:
  assumes "page_aligned x" "page_aligned y" "page_aligned q" "unat i < 512" "unat j < 512" "x \<noteq> q"
  shows "load64 (link_page m (x + 8 * i) q) (y + 8 * j) =
    (if (x, i) = (y, j) then PA2PTE q OR PTE_V else if y = q then 0 else load64 m (y + 8 * j))"
proof -
  have "same_except (range_of q 4096) m (put_bytes (put_bytes m q (page_fill 5)) q (page_fill 0))"
    using same_except_trans [OF same_except_put_bytes same_except_put_bytes, of q "page_fill 5" "range_of q 4096"
        q "page_fill 0" "range_of q 4096" m] by simp
  from load64_other_page_entry [OF this assms(3,2) _ assms(5)]
  have "y \<noteq> q \<Longrightarrow> load64 (put_bytes (put_bytes m q (page_fill 5)) q (page_fill 0)) (y + 8 * j)
      = load64 m (y + 8 * j)" by blast
  then show ?thesis
    using assms unfolding link_page_def by (simp add: load64_store64_entry load64_zero_page)
qed

lemma pt_node_link_page:
  assumes wf: "pt_wf s pt (q # fl)" and q: "page_ok s q"
    and p: "pt_path (p @ [i])" "pt_node (mem s) pt p = Some x" "pt_child (mem s) x i = None"
    and r: "pt_path r"
  shows "pt_node (link_page (mem s) (x + 8 * i) q) pt r =
    (if r = p @ [i] then Some q else pt_node (mem s) pt r)"
  using r
proof (induction r rule: rev_induct)
  case Nil
  then show ?case by simp
next
  case (snoc j r)
  let ?m = "link_page (mem s) (x + 8 * i) q"
  have path: "pt_path p" "pt_path r" "unat i < 512" "unat j < 512"
    using p(1) snoc.prems by (auto simp: pt_path_snoc pt_path_def)
  have x: "page_aligned x" "x \<noteq> q" using pt_wf_node [OF wf path(1) p(2)] by (auto simp: page_ok_def)
  have child: "pt_child ?m y j = (if (x, i) = (y, j) then Some q else if y = q then None else pt_child (mem s) y j)"
    if "page_aligned y" for y
    using load64_link_page [OF x(1) that page_aligned_ok [OF q] path(3,4) x(2), of "mem s"]
    by (auto simp: pt_child_def Let_def PTE_V_or PTE2PA_link page_aligned_ok [OF q])
  show ?case
  proof (cases "r = p @ [i]")
    case True
    then have "pt_node ?m pt r = Some q" using snoc.IH path(2) by simp
    moreover have "pt_node (mem s) pt (r @ [j]) = None"
      using True p by (simp add: pt_node_snoc del: append_assoc)
    ultimately show ?thesis
      using True child [OF page_aligned_ok [OF q]] x(2) by (simp add: pt_node_snoc del: append_assoc)
  next
    case False
    then have IH: "pt_node ?m pt r = pt_node (mem s) pt r" using snoc.IH path(2) by simp
    show ?thesis
    proof (cases "pt_node (mem s) pt r")
      case None
      then have "r \<noteq> p" using p(2) by auto
      with None IH show ?thesis by (simp add: pt_node_snoc)
    next
      case (Some y)
      then have y: "page_aligned y" "y \<noteq> q" using pt_wf_node [OF wf path(2)] by (auto simp: page_ok_def)
      have "y = x \<longleftrightarrow> r = p" using pt_wf_inj [OF wf path(1,2) p(2)] Some p(2) by auto
      with Some IH y child [OF y(1)] show ?thesis by (auto simp: pt_node_snoc)
    qed
  qed
qed

lemma pt_wf_link_page:
  assumes wf: "pt_wf s pt (q # fl)" and q: "page_ok s q" "q \<notin> set fl"
    and p: "pt_path (p @ [i])" "pt_node (mem s) pt p = Some x" "pt_child (mem s) x i = None"
    and t: "mem t = link_page (mem s) (x + 8 * i) q" "sym_end t = sym_end s"
  shows "pt_wf t pt fl"
proof -
  note n = pt_node_link_page [OF wf q(1) p]
  have ok: "page_ok t y = page_ok s y" for y using t(2) by (simp add: page_ok_def)
  have "pt_node (mem s) pt r \<noteq> Some q" if "pt_path r" for r
    using pt_wf_node [OF wf that] by auto
  moreover have "pt_path r \<Longrightarrow> pt_node (mem s) pt r = Some y \<Longrightarrow> page_ok s y \<and> y \<notin> set fl" for r y
    using pt_wf_node [OF wf] by auto
  moreover note pt_wf_inj [OF wf]
  ultimately show ?thesis
    unfolding pt_wf_def t(1) ok using n q by (auto split: if_splits)
qed

lemma vlookup_link_page:
  assumes wf: "pt_wf s pt (q # fl)" and q: "page_ok s q"
    and p: "pt_path (p @ [i])" "pt_node (mem s) pt p = Some x" "pt_child (mem s) x i = None"
  shows "vlookup (link_page (mem s) (x + 8 * i) q) pt va = vlookup (mem s) pt va"
proof -
  let ?m = "link_page (mem s) (x + 8 * i) q"
  have path: "pt_path p" "unat i < 512" using p(1) by (auto simp: pt_path_snoc pt_path_def)
  have x: "page_aligned x" "x \<noteq> q" using pt_wf_node [OF wf path(1) p(2)] by (auto simp: page_ok_def)
  note n = pt_node_link_page [OF wf q p va_path_path(1) [of va]]
  note l = load64_link_page [OF x(1) _ page_aligned_ok [OF q] path(2) PX_less x(2)]
  show ?thesis
  proof (cases "va_path va = p @ [i]")
    case True
    have "pt_node (mem s) pt (p @ [i]) = None" using p(2,3) by (simp add: pt_node_snoc)
    then have "vlookup (mem s) pt va = 0" by (intro vlookup_None) (simp only: True)
    moreover have "pt_node ?m pt (va_path va) = Some q" using n True by simp
    ultimately show ?thesis using l [OF page_aligned_ok [OF q]] x(2) by (simp add: vlookup_Some)
  next
    case False
    show ?thesis
    proof (cases "pt_node (mem s) pt (va_path va)")
      case None
      with False n show ?thesis by (simp only: vlookup_None if_False)
    next
      case (Some y)
      then have y: "page_aligned y" "y \<noteq> q"
        using pt_wf_node [OF wf va_path_path(1)] by (auto simp: page_ok_def)
      have "y \<noteq> x" using pt_wf_inj [OF wf path(1) va_path_path(1) p(2)] Some p(1)
        by (auto simp: pt_path_def)
      moreover have "pt_node ?m pt (va_path va) = Some y" using n False Some by (simp only: if_False)
      ultimately show ?thesis using Some l [OF y(1)] y(2) by (simp add: vlookup_Some)
    qed
  qed
qed

section \<open>Frame: writes outside the tree\<close>

definition pages :: "uint64 set \<Rightarrow> uint64 set" where
  "pages A = (\<Union>x \<in> A. range_of x 4096)"

definition pt_own :: "memory \<Rightarrow> uint64 \<Rightarrow> uint64 set" where
  "pt_own m pt = {x. \<exists>p. pt_path p \<and> pt_node m pt p = Some x}"

lemma pt_own_root [simp]: "pt \<in> pt_own m pt"
  unfolding pt_own_def by (auto intro: exI [of _ "[]"])

lemma pages_mono: "A \<subseteq> B \<Longrightarrow> pages A \<subseteq> pages B"
  by (auto simp: pages_def)

lemma pages_disjoint_sets:
  assumes "\<forall>x \<in> A. page_aligned x" "\<forall>x \<in> B. page_aligned x" "A \<inter> B = {}"
  shows "pages A \<inter> pages B = {}"
  using assms pages_disjoint unfolding pages_def by blast

lemma same_except_subset: "same_except A m m' \<Longrightarrow> A \<subseteq> B \<Longrightarrow> same_except B m m'"
  by (rule same_except_mono)

text \<open>A memory that agrees on the pages of the tree has the same tree and the same leaf entries.\<close>

lemma pt_node_frame:
  assumes own: "\<forall>x \<in> pt_own m pt. page_aligned x"
    and se: "same_except A m m'" "pages (pt_own m pt) \<inter> A = {}"
    and r: "pt_path r"
  shows "pt_node m' pt r = pt_node m pt r"
  using r
proof (induction r rule: rev_induct)
  case (snoc j r)
  then have j: "unat j < 512" and r: "pt_path r" by (auto simp: pt_path_snoc pt_path_def)
  have "pt_child m' x j = pt_child m x j" if "pt_node m pt r = Some x" for x
  proof -
    have x: "x \<in> pt_own m pt" using that r by (auto simp: pt_own_def)
    then have "range_of (x + 8 * j) 8 \<subseteq> pages (pt_own m pt)"
      using entry_in_page [OF _ j, of x] own by (auto simp: pages_def)
    then have "load64 m' (x + 8 * j) = load64 m (x + 8 * j)"
      using se(2) by (intro load64_same_except [OF se(1)]) auto
    then show ?thesis by (simp add: pt_child_def)
  qed
  then show ?case using snoc.IH [OF r] by (cases "pt_node m pt r") (simp_all add: pt_node_snoc)
qed simp

lemma vlookup_frame:
  assumes own: "\<forall>x \<in> pt_own m pt. page_aligned x"
    and se: "same_except A m m'" "pages (pt_own m pt) \<inter> A = {}"
  shows "vlookup m' pt va = vlookup m pt va"
proof (cases "pt_node m pt (va_path va)")
  case None
  then have "pt_node m' pt (va_path va) = None"
    using pt_node_frame [OF own se va_path_path(1)] by simp
  with None show ?thesis by (simp only: vlookup_None)
next
  case (Some x)
  then have n: "pt_node m' pt (va_path va) = Some x"
    using pt_node_frame [OF own se va_path_path(1)] by simp
  have x: "x \<in> pt_own m pt" unfolding pt_own_def using Some va_path_path(1) by blast
  then have "range_of (x + 8 * PX 0 va) 8 \<subseteq> pages (pt_own m pt)"
    using entry_in_page [OF _ PX_less, of x] own by (auto simp: pages_def)
  then have "load64 m' (x + 8 * PX 0 va) = load64 m (x + 8 * PX 0 va)"
    using se(2) by (intro load64_same_except [OF se(1)]) auto
  with Some n show ?thesis by (simp only: vlookup_Some)
qed

lemma pt_own_frame:
  assumes "\<forall>x \<in> pt_own m pt. page_aligned x" "same_except A m m'" "pages (pt_own m pt) \<inter> A = {}"
  shows "pt_own m' pt = pt_own m pt"
  unfolding pt_own_def using pt_node_frame [OF assms] by auto

lemma pt_wf_own: "pt_wf s pt fl \<Longrightarrow> x \<in> pt_own (mem s) pt \<Longrightarrow> page_ok s x \<and> x \<notin> set fl"
  by (auto simp: pt_own_def dest: pt_wf_node)

lemma pt_wf_own_aligned: "pt_wf s pt fl \<Longrightarrow> \<forall>x \<in> pt_own (mem s) pt. page_aligned x"
  using pt_wf_own by (blast intro: page_aligned_ok)

lemma pt_wf_frame:
  assumes wf: "pt_wf s pt fl" and se: "same_except A (mem s) (mem t)" "pages (pt_own (mem s) pt) \<inter> A = {}"
    and t: "sym_end t = sym_end s" "set fl' \<inter> pt_own (mem s) pt = {}"
  shows "pt_wf t pt fl'"
proof -
  note n = pt_node_frame [OF pt_wf_own_aligned [OF wf] se]
  have ok: "page_ok t y = page_ok s y" for y using t(1) by (simp add: page_ok_def)
  show ?thesis
    unfolding pt_wf_def ok
  proof (intro conjI allI impI)
    fix p q x
    assume p: "pt_path p" "pt_node (mem t) pt p = Some x"
    then have x: "pt_node (mem s) pt p = Some x" using n by simp
    then have "x \<in> pt_own (mem s) pt" using p(1) by (auto simp: pt_own_def)
    then show "page_ok s x" "x \<notin> set fl'" using pt_wf_own [OF wf] t(2) by auto
    assume "pt_path q" "pt_node (mem t) pt q = Some x"
    then show "p = q" using pt_wf_inj [OF wf p(1) _ x] n by simp
  qed
qed

section \<open>walk\<close>

lemma walk_noalloc:
  assumes "va < MAXVA"
  shows "walk pt va False s =
    Ok (case pt_node (mem s) pt (va_path va) of None \<Rightarrow> 0 | Some x \<Rightarrow> x + 8 * PX 0 va) s"
  using assms
  by (simp add: walk_def not_le numeral_2_eq_2 pt_child_def Let_def)

definition same_rest :: "'a kmem_state_scheme \<Rightarrow> 'a kmem_state_scheme \<Rightarrow> bool" where
  "same_rest s t \<longleftrightarrow> (\<exists>m r. t = s\<lparr>mem := m, freelist := r\<rparr>)"

lemma same_restI: "same_rest s (s\<lparr>mem := m, freelist := r\<rparr>)" "same_rest s (s\<lparr>freelist := r, mem := m\<rparr>)"
  "same_rest s (s\<lparr>mem := m\<rparr>)" "same_rest s s"
proof -
  have "s\<lparr>mem := m\<rparr> = s\<lparr>mem := m, freelist := freelist s\<rparr>" "s = s\<lparr>mem := mem s, freelist := freelist s\<rparr>"
    by (cases s, simp)+
  then show "same_rest s (s\<lparr>mem := m\<rparr>)" "same_rest s s" unfolding same_rest_def by blast+
  show "same_rest s (s\<lparr>mem := m, freelist := r\<rparr>)" unfolding same_rest_def by blast
  moreover have "s\<lparr>freelist := r, mem := m\<rparr> = s\<lparr>mem := m, freelist := r\<rparr>" by (cases s) simp
  ultimately show "same_rest s (s\<lparr>freelist := r, mem := m\<rparr>)" by (simp only:)
qed

lemma same_rest_trans:
  assumes "same_rest s t" "same_rest t u"
  shows "same_rest s u"
proof -
  obtain m r m' r' where "t = s\<lparr>mem := m, freelist := r\<rparr>" "u = t\<lparr>mem := m', freelist := r'\<rparr>"
    using assms unfolding same_rest_def by blast
  then have "u = s\<lparr>mem := m', freelist := r'\<rparr>" by simp
  then show ?thesis unfolding same_rest_def by blast
qed

lemma same_rest_fields:
  "same_rest s t \<Longrightarrow> sym_end t = sym_end s" "same_rest s t \<Longrightarrow> held t = held s"
  by (auto simp: same_rest_def)

lemma page_ok_same_rest: "same_rest s t \<Longrightarrow> page_ok t x = page_ok s x"
  by (auto simp: same_rest_def)

definition pt_grow :: "uint64 \<Rightarrow> 'a kmem_state_scheme \<Rightarrow> uint64 list \<Rightarrow> 'a kmem_state_scheme \<Rightarrow> uint64 list \<Rightarrow> bool" where
  "pt_grow pt s fl t fl' \<longleftrightarrow> kmem_inv t fl' \<and> pt_wf t pt fl' \<and> same_rest s t \<and> (\<exists>k. fl' = drop k fl) \<and>
     pt_own (mem s) pt \<subseteq> pt_own (mem t) pt \<and>
     pt_own (mem t) pt \<union> set fl' = pt_own (mem s) pt \<union> set fl \<and>
     same_except (pages (pt_own (mem s) pt \<union> set fl)) (mem s) (mem t)"

lemma pt_grow_refl: "kmem_inv s fl \<Longrightarrow> pt_wf s pt fl \<Longrightarrow> pt_grow pt s fl s fl"
  by (auto simp: pt_grow_def same_restI intro: exI [of _ 0])

lemma pt_grow_trans:
  assumes "pt_grow pt s fl t fl'" "pt_grow pt t fl' u fl''"
  shows "pt_grow pt s fl u fl''"
proof -
  have "same_except (pages (pt_own (mem s) pt \<union> set fl)) (mem s) (mem u)"
    using assms same_except_trans [of "pages (pt_own (mem s) pt \<union> set fl)" "mem s" "mem t"]
    unfolding pt_grow_def by (metis sup_idem)
  moreover obtain k l where "fl' = drop k fl" "fl'' = drop l fl'"
    using assms unfolding pt_grow_def by blast
  then have "fl'' = drop (k + l) fl" by (simp add: add.commute)
  ultimately show ?thesis
    using assms same_rest_trans unfolding pt_grow_def by blast
qed

text \<open>One level of \<open>walk\<close> with a missing entry and a free page.\<close>

lemma link_page_grow:
  fixes s :: "'a vm_state_scheme"
  assumes inv: "kmem_inv s (q # fl)" and wf: "pt_wf s pt (q # fl)"
    and p: "pt_path (p @ [i])" "pt_node (mem s) pt p = Some x" "pt_child (mem s) x i = None"
  defines "t \<equiv> s\<lparr>freelist := load64 (mem s) q, mem := link_page (mem s) (x + 8 * i) q\<rparr>"
  shows "pt_grow pt s (q # fl) t fl" "pt_node (mem t) pt (p @ [i]) = Some q"
    "vlookup (mem t) pt va = vlookup (mem s) pt va"
proof -
  have q: "page_ok s q" "q \<notin> set fl" using inv by (auto simp: kmem_inv_def)
  have i: "unat i < 512" "pt_path p" using p(1) by (auto simp: pt_path_snoc pt_path_def)
  have x: "page_ok s x" "x \<notin> set (q # fl)" using pt_wf_node [OF wf i(2) p(2)] by auto
  have own_x: "x \<in> pt_own (mem s) pt" using p(2) i(2) by (auto simp: pt_own_def)
  have m: "mem t = link_page (mem s) (x + 8 * i) q" by (simp add: t_def)
  note n = pt_node_link_page [OF wf q(1) p, folded m]
  show "pt_node (mem t) pt (p @ [i]) = Some q" using n [OF p(1)] by simp
  show "vlookup (mem t) pt va = vlookup (mem s) pt va"
    unfolding m by (rule vlookup_link_page [OF wf q(1) p])
  have se: "same_except (range_of q 4096 \<union> range_of (x + 8 * i) 8) (mem s) (mem t)"
  proof -
    let ?m = "put_bytes (put_bytes (mem s) q (page_fill 5)) q (page_fill 0)"
    have "same_except (range_of q 4096) (mem s) ?m"
      using same_except_trans [OF same_except_put_bytes same_except_put_bytes, of q "page_fill 5"
          "range_of q 4096" q "page_fill 0" "range_of q 4096" "mem s"] by simp
    from same_except_trans [OF this same_except_store64 [OF order_refl]]
    show ?thesis by (simp add: m link_page_def)
  qed
  have "flist (mem t) (freelist t) fl"
  proof -
    have "\<forall>y \<in> set fl. load64 (mem t) y = load64 (mem s) y"
    proof
      fix y assume y: "y \<in> set fl"
      then have "page_aligned y" "y \<noteq> q" "y \<noteq> x" using inv x q by (auto simp: kmem_inv_def page_ok_def)
      then show "load64 (mem t) y = load64 (mem s) y"
        using load64_link_page [of x y q i 0 "mem s"] x(1) q(1) i(1) x(2)
        by (auto simp: m dest: page_aligned_ok)
    qed
    then have "flist (mem t) r fl = flist (mem s) r fl" for r
      by (induction fl arbitrary: r) auto
    then show ?thesis using inv by (auto simp: kmem_inv_def t_def)
  qed
  then have "kmem_inv t fl" using inv by (auto simp: kmem_inv_def t_def)
  moreover have "pt_wf t pt fl" by (rule pt_wf_link_page [OF wf q p m]) (simp add: t_def)
  moreover have own: "pt_own (mem t) pt = insert q (pt_own (mem s) pt)"
  proof -
    have "pt_node (mem s) pt (p @ [i]) = None" using p(2,3) by (simp add: pt_node_snoc)
    then show ?thesis unfolding pt_own_def using n p(1) by (force split: if_splits)
  qed
  moreover have "range_of (x + 8 * i) 8 \<subseteq> range_of x 4096"
    using entry_in_page x(1) i(1) by (blast intro: page_aligned_ok)
  then have "same_except (pages (pt_own (mem s) pt \<union> set (q # fl))) (mem s) (mem t)"
    using own_x by (intro same_except_mono [OF se]) (auto simp: pages_def)
  ultimately show "pt_grow pt s (q # fl) t fl"
    by (auto simp: pt_grow_def t_def same_restI intro: exI [of _ 1])
qed

lemma link_page_eq:
  "upd_mem (\<lambda>m. store64 m pte (PA2PTE q OR PTE_V)) (upd_mem (\<lambda>m. memset m q 0 (ucast PGSIZE))
     (s\<lparr>freelist := r, mem := put_bytes (mem s) q (page_fill 5)\<rparr>)) =
   s\<lparr>freelist := r, mem := link_page (mem s) pte q\<rparr>"
  by (simp add: upd_mem_def link_page_def memset_page)

lemma walk_loop_step:
  fixes s :: "'a vm_state_scheme"
  assumes inv: "kmem_inv s fl" and wf: "pt_wf s pt fl"
    and p: "pt_path (p @ [PX (Suc l) va])" "pt_node (mem s) pt p = Some x"
  shows "walk_loop (Suc l) x va True s = Ok 0 s \<and> fl = [] \<or>
    (\<exists>t fl' y. walk_loop (Suc l) x va True s = walk_loop l y va True t \<and> pt_grow pt s fl t fl' \<and>
       length fl \<le> length fl' + 1 \<and> pt_node (mem t) pt (p @ [PX (Suc l) va]) = Some y \<and>
       (\<forall>a. vlookup (mem t) pt a = vlookup (mem s) pt a))"
proof (cases "pt_child (mem s) x (PX (Suc l) va)")
  case (Some y)
  then have "walk_loop (Suc l) x va True s = walk_loop l y va True s"
    by (auto simp: pt_child_def Let_def split: if_splits)
  moreover have "pt_node (mem s) pt (p @ [PX (Suc l) va]) = Some y" using p(2) Some by (simp add: pt_node_snoc)
  ultimately show ?thesis using pt_grow_refl [OF inv wf] by fastforce
next
  case None
  then have e: "load64 (mem s) (x + 8 * PX (Suc l) va) AND PTE_V = 0"
    by (auto simp: pt_child_def Let_def split: if_splits)
  show ?thesis
  proof (cases fl)
    case Nil
    then show ?thesis using e inv by (simp add: kalloc_empty)
  next
    case (Cons q fl')
    let ?t = "s\<lparr>freelist := load64 (mem s) q, mem := link_page (mem s) (x + 8 * PX (Suc l) va) q\<rparr>"
    have "walk_loop (Suc l) x va True s = walk_loop l q va True ?t"
      using e kalloc_page [OF inv [unfolded Cons]] by (auto simp: link_page_eq)
    then show ?thesis
      using link_page_grow [OF inv [unfolded Cons] wf [unfolded Cons] p None] Cons by fastforce
  qed
qed

lemma walk_alloc:
  fixes s :: "'a vm_state_scheme"
  assumes inv: "kmem_inv s fl" and wf: "pt_wf s pt fl" and va: "va < MAXVA"
  shows "\<exists>t fl' pte. walk pt va True s = Ok pte t \<and> pt_grow pt s fl t fl' \<and>
    (\<forall>a. vlookup (mem t) pt a = vlookup (mem s) pt a) \<and>
    (pte = 0 \<and> fl' = [] \<and> length fl < 2 \<or>
     length fl \<le> length fl' + 2 \<and> pte \<noteq> 0 \<and>
       (\<exists>x. pt_node (mem t) pt (va_path va) = Some x \<and> pte = x + 8 * PX 0 va))"
proof -
  have w: "walk pt va True s = walk_loop (Suc (Suc 0)) pt va True s"
    unfolding walk_def numeral_2_eq_2 by (rule if_not_P) (use va in \<open>simp add: not_le\<close>)
  have P: "pt_path ([] @ [PX (Suc (Suc 0)) va])" "pt_path ([PX (Suc (Suc 0)) va] @ [PX (Suc 0) va])"
    by (simp_all add: pt_path_def PX_less)
  consider "walk_loop (Suc (Suc 0)) pt va True s = Ok 0 s" "fl = []"
    | t fl' y where "walk_loop (Suc (Suc 0)) pt va True s = walk_loop (Suc 0) y va True t"
      "pt_grow pt s fl t fl'" "length fl \<le> length fl' + 1"
      "pt_node (mem t) pt ([] @ [PX (Suc (Suc 0)) va]) = Some y" "\<forall>a. vlookup (mem t) pt a = vlookup (mem s) pt a"
    using walk_loop_step [OF inv wf P(1)] by auto
  then show ?thesis
  proof cases
    case 1
    then show ?thesis using w pt_grow_refl [OF inv wf] by fastforce
  next
    case (2 t fl' y)
    have t: "kmem_inv t fl'" "pt_wf t pt fl'" using 2(2) by (simp_all add: pt_grow_def)
    from 2(4) have y: "pt_node (mem t) pt [PX (Suc (Suc 0)) va] = Some y" by simp
    consider "walk_loop (Suc 0) y va True t = Ok 0 t" "fl' = []"
      | u fl'' z where "walk_loop (Suc 0) y va True t = walk_loop 0 z va True u"
        "pt_grow pt t fl' u fl''" "length fl' \<le> length fl'' + 1"
        "pt_node (mem u) pt ([PX (Suc (Suc 0)) va] @ [PX (Suc 0) va]) = Some z"
        "\<forall>a. vlookup (mem u) pt a = vlookup (mem t) pt a"
      using walk_loop_step [OF t P(2) y] by blast
    then show ?thesis
    proof cases
      case 1
      with w 2 show ?thesis by fastforce
    next
      case (2 u fl'' z)
      have z: "pt_node (mem u) pt (va_path va) = Some z" using 2(4) by (simp add: numeral_2_eq_2)
      have "page_ok u z" "0 < sym_end u"
        using pt_wf_node [of u pt fl'', OF _ va_path_path(1) z] 2(2) by (auto simp: pt_grow_def kmem_inv_def)
      then have "z + 8 * PX 0 va \<noteq> 0"
        using entry_nonzero [OF _ PX_less] page_ok_nonzero page_aligned_ok by blast
      with z show ?thesis
        using w \<open>walk_loop (Suc (Suc 0)) pt va True s = walk_loop (Suc 0) y va True t\<close> 2
          \<open>length fl \<le> length fl' + 1\<close> \<open>\<forall>a. vlookup (mem t) pt a = vlookup (mem s) pt a\<close>
          pt_grow_trans [OF \<open>pt_grow pt s fl t fl'\<close> 2(2)]
        by (intro exI [of _ u] exI [of _ fl''] exI [of _ "z + 8 * PX 0 va"]) auto
    qed
  qed
qed

section \<open>Stores to leaf entries\<close>

lemma store_leaf:
  fixes s :: "'a vm_state_scheme" and v :: uint64
  assumes inv: "kmem_inv s fl" and wf: "pt_wf s pt fl" and va: "va < MAXVA"
    and x: "pt_node (mem s) pt (va_path va) = Some x"
  defines "t \<equiv> upd_mem (\<lambda>m. store64 m (x + 8 * PX 0 va) v) s"
  shows "pt_grow pt s fl t fl"
    "a < MAXVA \<Longrightarrow> vlookup (mem t) pt a = (if PGROUNDDOWN a = PGROUNDDOWN va then v else vlookup (mem s) pt a)"
    "pt_own (mem t) pt = pt_own (mem s) pt"
proof -
  have xo: "page_ok s x" "x \<notin> set fl" using pt_wf_node [OF wf va_path_path(1) x] by auto
  have own_x: "x \<in> pt_own (mem s) pt" unfolding pt_own_def using x va_path_path(1) by blast
  have m: "mem t = store64 (mem s) (x + 8 * PX 0 va) v" by (simp add: t_def upd_mem_def)
  note ld = load64_store64_entry [OF page_aligned_ok [OF xo(1)] _ PX_less, of _ _ "mem s" 0 va v, folded m]
  have n: "pt_node (mem t) pt r = pt_node (mem s) pt r" if "pt_path r" for r
    using that
  proof (induction r rule: rev_induct)
    case (snoc j r)
    then have j: "unat j < 512" and r: "pt_path r" "length r < 2" by (auto simp: pt_path_snoc pt_path_def)
    have "pt_child (mem t) y j = pt_child (mem s) y j" if y: "pt_node (mem s) pt r = Some y" for y
    proof -
      have "y \<noteq> x" using pt_wf_inj [OF wf r(1) va_path_path(1) y] x r(2) by auto
      moreover have "page_aligned y" using pt_wf_node [OF wf r(1) y] page_aligned_ok by blast
      ultimately show ?thesis using ld [OF _ j] by (simp add: pt_child_def)
    qed
    then show ?case using snoc.IH [OF r(1)] by (cases "pt_node (mem s) pt r") (simp_all add: pt_node_snoc)
  qed simp
  show own: "pt_own (mem t) pt = pt_own (mem s) pt" unfolding pt_own_def using n by auto
  show "vlookup (mem t) pt a = (if PGROUNDDOWN a = PGROUNDDOWN va then v else vlookup (mem s) pt a)"
    if a: "a < MAXVA"
  proof (cases "pt_node (mem s) pt (va_path a)")
    case None
    then have "va_path a \<noteq> va_path va" using x by auto
    then have "PGROUNDDOWN a \<noteq> PGROUNDDOWN va" using PX_eq_iff [OF a va] by auto
    moreover have "pt_node (mem t) pt (va_path a) = None"
      using None n [OF va_path_path(1), of a] by (rule trans [rotated])
    ultimately show ?thesis using vlookup_None [of "mem t"] vlookup_None [OF None] by simp
  next
    case (Some y)
    have y: "page_aligned y"
      using pt_wf_node [OF wf va_path_path(1) Some] by (simp add: page_ok_def)
    have "y = x \<longleftrightarrow> va_path a = va_path va"
    proof
      assume "y = x"
      then show "va_path a = va_path va"
        using pt_wf_inj [OF wf va_path_path(1) va_path_path(1) Some] x by simp
    next
      assume "va_path a = va_path va"
      then show "y = x" using Some x by simp
    qed
    then have "(x, PX 0 va) = (y, PX 0 a) \<longleftrightarrow> PGROUNDDOWN a = PGROUNDDOWN va"
      using PX_eq_iff [OF a va] by auto
    moreover have "vlookup (mem s) pt a = load64 (mem s) (y + 8 * PX 0 a)"
      "vlookup (mem t) pt a = load64 (mem t) (y + 8 * PX 0 a)"
      by (rule vlookup_Some [OF Some])
        (rule vlookup_Some [OF trans [OF n [OF va_path_path(1), of a] Some]])
    ultimately show ?thesis by (simp only: ld [OF y PX_less])
  qed
  have sub: "range_of (x + 8 * PX 0 va) 8 \<subseteq> range_of x 4096"
    by (rule entry_in_page [OF page_aligned_ok [OF xo(1)] PX_less])
  have se: "same_except (range_of x 4096) (mem s) (mem t)"
    unfolding m by (rule same_except_store64 [OF sub])
  have "flist (mem t) (freelist t) fl"
    using flist_frame [OF se page_aligned_ok [OF xo(1)] xo(2)] inv
    by (auto simp: kmem_inv_def page_ok_def t_def upd_mem_def)
  then have "kmem_inv t fl" using inv by (simp add: kmem_inv_def t_def upd_mem_def)
  moreover have "pt_wf t pt fl"
    using wf n unfolding pt_wf_def by (simp add: t_def upd_mem_def)
  moreover have "same_except (pages (pt_own (mem s) pt \<union> set fl)) (mem s) (mem t)"
    using own_x by (intro same_except_mono [OF se]) (auto simp: pages_def)
  ultimately show "pt_grow pt s fl t fl"
    using own by (auto simp: pt_grow_def t_def upd_mem_def same_restI intro: exI [of _ 0])
qed

section \<open>mappages\<close>

abbreviation vpn :: "uint64 \<Rightarrow> nat" where
  "vpn va \<equiv> unat va div 4096"

lemma PGROUNDDOWN_eq_vpn: "PGROUNDDOWN a = PGROUNDDOWN b \<longleftrightarrow> vpn a = vpn b"
  by (simp add: word_unat_eq_iff unat_PGROUNDDOWN)

lemma vpn_next:
  assumes "a < MAXVA"
  shows "vpn (a + PGSIZE) = Suc (vpn a)" "unat (a + PGSIZE) = unat a + 4096"
proof -
  have "unat a < 0x4000000000" using assms by (simp add: word_less_nat_alt MAXVA_def)
  then show "unat (a + PGSIZE) = unat a + 4096" by (simp add: unat_plus_if' PGSIZE_def)
  then show "vpn (a + PGSIZE) = Suc (vpn a)" by simp
qed

text \<open>\<open>map_range f a k pa perm\<close> is the lookup function \<open>f\<close> after mapping \<open>k\<close> pages from \<open>a\<close> on to the
  physical pages from \<open>pa\<close> on.\<close>

definition map_range :: "(uint64 \<Rightarrow> uint64) \<Rightarrow> uint64 \<Rightarrow> nat \<Rightarrow> uint64 \<Rightarrow> uint64 \<Rightarrow> uint64 \<Rightarrow> uint64" where
  "map_range f a k pa perm va =
     (if vpn a \<le> vpn va \<and> vpn va < vpn a + k
      then PA2PTE (pa + of_nat (vpn va - vpn a) * PGSIZE) OR perm OR PTE_V else f va)"

lemma map_range_0 [simp]: "map_range f a 0 pa perm = f"
  by (rule ext) (auto simp: map_range_def)

lemma map_range_Suc:
  assumes "a < MAXVA"
  shows "map_range f a (Suc k) pa perm va =
    map_range (\<lambda>b. if vpn b = vpn a then PA2PTE pa OR perm OR PTE_V else f b) (a + PGSIZE) k (pa + PGSIZE) perm va"
proof (cases "vpn va > vpn a")
  case True
  then obtain j where "vpn va = Suc (vpn a + j)" using less_iff_Suc_add by auto
  moreover have "pa + of_nat (Suc j) * PGSIZE = pa + PGSIZE + of_nat j * PGSIZE"
    by (simp add: algebra_simps)
  ultimately show ?thesis by (simp add: map_range_def vpn_next(1) [OF assms] add.assoc del: of_nat_Suc of_nat_diff)
next
  case False
  then show ?thesis by (auto simp: map_range_def vpn_next(1) [OF assms])
qed

text \<open>One round of the loop: it runs out of pages, or maps the page at \<open>a\<close> and goes on.\<close>

lemma mappages_loop_step:
  fixes s :: "'a vm_state_scheme"
  assumes inv: "kmem_inv s fl" and wf: "pt_wf s pt fl" and a: "a < MAXVA"
    and free: "vlookup (mem s) pt a AND PTE_V = 0"
  shows "(\<exists>t. mappages_loop pt a last_page pa perm s = Ok (-1) t \<and> pt_grow pt s fl t [] \<and> length fl < 2 \<and>
      (\<forall>va. vlookup (mem t) pt va = vlookup (mem s) pt va)) \<or>
    (\<exists>t fl'. mappages_loop pt a last_page pa perm s =
        (if a = last_page then Ok 0 t else mappages_loop pt (a + PGSIZE) last_page (pa + PGSIZE) perm t) \<and>
      pt_grow pt s fl t fl' \<and> length fl \<le> length fl' + 2 \<and>
      (\<forall>va < MAXVA. vlookup (mem t) pt va = map_range (vlookup (mem s) pt) a 1 pa perm va))"
proof -
  obtain t fl' pte where w: "walk pt a True s = Ok pte t" "pt_grow pt s fl t fl'"
    "\<forall>b. vlookup (mem t) pt b = vlookup (mem s) pt b"
    "pte = 0 \<and> fl' = [] \<and> length fl < 2 \<or> length fl \<le> length fl' + 2 \<and> pte \<noteq> 0 \<and>
       (\<exists>x. pt_node (mem t) pt (va_path a) = Some x \<and> pte = x + 8 * PX 0 a)"
    using walk_alloc [OF inv wf a] by blast
  show ?thesis
  proof (cases "pte = 0")
    case True
    then have "mappages_loop pt a last_page pa perm s = Ok (-1) t"
      using w(1) by (simp add: mappages_loop.simps [of pt a])
    with True w show ?thesis by blast
  next
    case False
    with w(4) obtain x where x: "pt_node (mem t) pt (va_path a) = Some x" "pte = x + 8 * PX 0 a"
      and len: "length fl \<le> length fl' + 2" by auto
    let ?v = "PA2PTE pa OR perm OR PTE_V"
    let ?u = "upd_mem (\<lambda>m. store64 m (x + 8 * PX 0 a) ?v) t"
    have t: "kmem_inv t fl'" "pt_wf t pt fl'" using w(2) by (simp_all add: pt_grow_def)
    note st = store_leaf [OF t a x(1)]
    have u: "pt_grow pt s fl ?u fl'" using pt_grow_trans [OF w(2) st(1)] .
    have "vlookup (mem ?u) pt va = map_range (vlookup (mem s) pt) a 1 pa perm va" if "va < MAXVA" for va
      using st(2) [OF that] w(3) map_range_Suc [OF a, of _ 0] by (simp add: PGROUNDDOWN_eq_vpn)
    moreover have "load64 (mem t) pte AND PTE_V = 0"
      using vlookup_Some [OF x(1)] x(2) w(3) free by simp
    then have "mappages_loop pt a last_page pa perm s =
      (if a = last_page then Ok 0 ?u else mappages_loop pt (a + PGSIZE) last_page (pa + PGSIZE) perm ?u)"
      using w(1) False x(2) by (simp add: mappages_loop.simps [of pt a])
    ultimately show ?thesis using u len by blast
  qed
qed

lemma vpn_bound: "vpn va < vpn a + n \<Longrightarrow> unat a + 4096 * n \<le> unat MAXVA \<Longrightarrow> va < MAXVA"
  by (simp add: word_less_nat_alt MAXVA_def)

lemma mappages_loop_spec:
  fixes s :: "'a vm_state_scheme"
  assumes "kmem_inv s fl" "pt_wf s pt fl" "unat a + 4096 * Suc n \<le> unat MAXVA"
    and "last_page = a + of_nat n * PGSIZE"
    and "\<And>va. vpn a \<le> vpn va \<Longrightarrow> vpn va < vpn a + Suc n \<Longrightarrow> vlookup (mem s) pt va AND PTE_V = 0"
  shows "\<exists>t fl' k. mappages_loop pt a last_page pa perm s = Ok (if k = Suc n then 0 else -1) t \<and> k \<le> Suc n \<and>
    pt_grow pt s fl t fl' \<and> (k < Suc n \<longrightarrow> fl' = []) \<and> (2 * Suc n \<le> length fl \<longrightarrow> k = Suc n) \<and>
    (k = Suc n \<longrightarrow> length fl \<le> length fl' + 2 * Suc n) \<and>
    (\<forall>va < MAXVA. vlookup (mem t) pt va = map_range (vlookup (mem s) pt) a k pa perm va)"
  using assms
proof (induction n arbitrary: a pa s fl)
  case 0
  then have a: "a < MAXVA" "a = last_page" "vlookup (mem s) pt a AND PTE_V = 0"
    by (simp_all add: word_less_nat_alt)
  show ?case
    using mappages_loop_step [OF 0(1,2) a(1,3), of last_page pa perm] a(2)
  proof (elim disjE exE conjE)
    fix t assume "mappages_loop pt a last_page pa perm s = Ok (- 1) t" "pt_grow pt s fl t []" "length fl < 2"
      "\<forall>va. vlookup (mem t) pt va = vlookup (mem s) pt va"
    then show ?thesis by (intro exI [of _ t] exI [of _ "[]"] exI [of _ 0]) simp
  next
    fix t fl' assume "mappages_loop pt a last_page pa perm s = (if a = last_page then Ok 0 t
        else mappages_loop pt (a + PGSIZE) last_page (pa + PGSIZE) perm t)" "pt_grow pt s fl t fl'" "length fl \<le> length fl' + 2"
      "\<forall>va < MAXVA. vlookup (mem t) pt va = map_range (vlookup (mem s) pt) a 1 pa perm va"
    then show ?thesis using a(2) by (intro exI [of _ t] exI [of _ fl'] exI [of _ 1]) simp
  qed
next
  case (Suc n)
  have a: "a < MAXVA" using Suc.prems(3) by (simp add: word_less_nat_alt)
  have up: "unat (a + PGSIZE) + 4096 * Suc n \<le> unat MAXVA" using Suc.prems(3) vpn_next(2) [OF a] by simp
  have "unat (of_nat (Suc n) * PGSIZE) = Suc n * 4096"
    using up by (simp add: PGSIZE_def MAXVA_def unat_word_ariths unat_of_nat)
  then have "of_nat (Suc n) * PGSIZE \<noteq> 0" by (metis Suc_not_Zero mult_eq_0_iff unat_0 zero_neq_numeral)
  then have ne: "a \<noteq> last_page" using Suc.prems(4) by simp
  have l: "last_page = (a + PGSIZE) + of_nat n * PGSIZE" using Suc.prems(4) by (simp add: algebra_simps)
  have "vlookup (mem s) pt a AND PTE_V = 0" using Suc.prems(5) [of a] by simp
  from mappages_loop_step [OF Suc.prems(1,2) a this, of last_page pa perm] show ?case
  proof (elim disjE exE conjE)
    fix t assume "mappages_loop pt a last_page pa perm s = Ok (- 1) t" "pt_grow pt s fl t []" "length fl < 2"
      "\<forall>va. vlookup (mem t) pt va = vlookup (mem s) pt va"
    then show ?thesis by (intro exI [of _ t] exI [of _ "[]"] exI [of _ 0]) simp
  next
    fix t fl'
    assume t: "mappages_loop pt a last_page pa perm s = (if a = last_page then Ok 0 t
        else mappages_loop pt (a + PGSIZE) last_page (pa + PGSIZE) perm t)"
      "pt_grow pt s fl t fl'" "length fl \<le> length fl' + 2"
      "\<forall>va < MAXVA. vlookup (mem t) pt va = map_range (vlookup (mem s) pt) a 1 pa perm va"
    have "vlookup (mem t) pt va AND PTE_V = 0"
      if "vpn (a + PGSIZE) \<le> vpn va" "vpn va < vpn (a + PGSIZE) + Suc n" for va
      using t(4) vpn_bound [OF that(2) up] Suc.prems(5) [of va] that
      by (simp add: vpn_next(1) [OF a] map_range_def)
    then obtain z fl'' k where z: "mappages_loop pt (a + PGSIZE) last_page (pa + PGSIZE) perm t
        = Ok (if k = Suc n then 0 else -1) z" "k \<le> Suc n" "pt_grow pt t fl' z fl''" "k < Suc n \<longrightarrow> fl'' = []"
      "2 * Suc n \<le> length fl' \<longrightarrow> k = Suc n" "k = Suc n \<longrightarrow> length fl' \<le> length fl'' + 2 * Suc n"
      "\<forall>va < MAXVA. vlookup (mem z) pt va = map_range (vlookup (mem t) pt) (a + PGSIZE) k (pa + PGSIZE) perm va"
      using Suc.IH [of t fl' "a + PGSIZE" "pa + PGSIZE"] t(2) up l unfolding pt_grow_def by blast
    have "vlookup (mem z) pt va = map_range (vlookup (mem s) pt) a (Suc k) pa perm va" if "va < MAXVA" for va
      using z(7) t(4) that map_range_Suc [OF a, of _ 0] unfolding map_range_Suc [OF a, of _ k]
      by (simp add: map_range_def)
    then show ?thesis
      using z t(1,3) ne pt_grow_trans [OF t(2) z(3)]
      by (intro exI [of _ z] exI [of _ fl''] exI [of _ "Suc k"]) auto
  qed
qed

section \<open>User addresses\<close>

text \<open>The page \<open>walkaddr\<close> finds for a user address, 0 when it has none, and the byte a user process
  sees at an address.\<close>

definition upage :: "memory \<Rightarrow> uint64 \<Rightarrow> uint64 \<Rightarrow> uint64" where
  "upage m pt va =
     (let e = vlookup m pt va
      in if va < MAXVA \<and> e AND PTE_V \<noteq> 0 \<and> e AND PTE_U \<noteq> 0 then PTE2PA e else 0)"

definition uload :: "memory \<Rightarrow> uint64 \<Rightarrow> uint64 \<Rightarrow> byte option" where
  "uload m pt va =
     (if upage m pt va = 0 then None else Some (m (upage m pt va + (va - PGROUNDDOWN va))))"

lemma walkaddr_upage:
  fixes s :: "'a vm_state_scheme"
  assumes "pt_wf s pt fl" "0 < sym_end s"
  shows "walkaddr pt va s = Ok (upage (mem s) pt va) s"
proof (cases "va < MAXVA")
  case False
  then show ?thesis by (simp add: walkaddr_def upage_def Let_def not_less [symmetric])
next
  case True
  show ?thesis
  proof (cases "pt_node (mem s) pt (va_path va)")
    case None
    then show ?thesis
      using True vlookup_None [OF None] walk_noalloc [OF True, of pt s] by (simp add: walkaddr_def upage_def not_le)
  next
    case (Some x)
    then have "page_ok s x" using pt_wf_node [OF assms(1) va_path_path(1) Some] by simp
    then have "x + 8 * PX 0 va \<noteq> 0"
      using entry_nonzero [OF _ PX_less] page_ok_nonzero [OF assms(2)] page_aligned_ok by blast
    moreover have "\<not> MAXVA \<le> va" using True by simp
    ultimately show ?thesis
      using True vlookup_Some [OF Some] walk_noalloc [OF True, of pt s] Some
      by (simp add: walkaddr_def upage_def Let_def)
  qed
qed

lemma PX_PGROUNDDOWN: "PX l (PGROUNDDOWN va) = PX l va"
  by (simp add: word_unat_eq_iff unat_PX unat_PGROUNDDOWN power_add div_mult2_eq)

lemma vlookup_PGROUNDDOWN: "vlookup m pt (PGROUNDDOWN va) = vlookup m pt va"
  unfolding vlookup_def by (simp only: PX_PGROUNDDOWN)

lemma upage_PGROUNDDOWN: "upage m pt (PGROUNDDOWN va) = upage m pt va"
  unfolding upage_def by (simp only: vlookup_PGROUNDDOWN PGROUNDDOWN_less_MAXVA)

lemma upage_aligned: "page_aligned (upage m pt va)"
proof -
  have "page_aligned 0" by (simp add: page_aligned_def)
  then show ?thesis by (simp add: upage_def Let_def)
qed

lemma uload_eq_None: "uload m pt va = None \<longleftrightarrow> upage m pt va = 0"
  by (simp add: uload_def)

lemma upage_same_page: "vpn va = vpn va' \<Longrightarrow> upage m pt va = upage m pt va'"
  by (metis PGROUNDDOWN_eq_vpn upage_PGROUNDDOWN)

lemma unat_add_small: "unat a + n < 2 ^ 64 \<Longrightarrow> unat (a + of_nat n :: uint64) = unat a + n"
  by (simp add: unat_plus_if' unat_of_nat)

lemma mod_4096_room: "unat (va :: uint64) + (4096 - unat va mod 4096) \<le> 2 ^ 64"
proof -
  have "unat va < 2 ^ 64" by (rule order.strict_trans2 [OF unsigned_less]) simp
  moreover have "unat va + (4096 - unat va mod 4096) = (unat va div 4096 + 1) * 4096"
  proof -
    define q r where "q = unat va div 4096" and "r = unat va mod 4096"
    then have "unat va = q * 4096 + r" "r < 4096" by simp_all
    then show ?thesis unfolding q_def [symmetric] r_def [symmetric] by simp
  qed
  moreover have "unat va div 4096 < 2 ^ 52" using calculation(1) by simp
  ultimately show ?thesis by simp
qed

lemma same_page_offset:
  assumes "unat va mod 4096 + i < 4096"
  shows "vpn (va + of_nat i) = vpn va" "(va + of_nat i) - PGROUNDDOWN (va + of_nat i) = (va - PGROUNDDOWN va) + of_nat i"
proof -
  have "i < 4096 - unat va mod 4096" using assms by simp
  then have "unat va + i < 2 ^ 64" using mod_4096_room [of va] by linarith
  then have u: "unat (va + of_nat i) = unat va + i" by (rule unat_add_small)
  have "unat va + i = 4096 * (unat va div 4096) + (unat va mod 4096 + i)" by simp
  then show v: "vpn (va + of_nat i) = vpn va" unfolding u using assms by (metis div_less div_mult_self4 add_0_right zero_neq_numeral)
  then have "PGROUNDDOWN (va + of_nat i) = PGROUNDDOWN va" by (simp add: PGROUNDDOWN_eq_vpn)
  then show "(va + of_nat i) - PGROUNDDOWN (va + of_nat i) = (va - PGROUNDDOWN va) + of_nat i" by simp
qed

lemma uload_same_page:
  assumes "unat va mod 4096 + i < 4096" "upage m pt va \<noteq> 0"
  shows "uload m pt (va + of_nat i) = Some (m (upage m pt va + (va - PGROUNDDOWN va) + of_nat i))"
  using same_page_offset [OF assms(1)] upage_same_page [of "va + of_nat i" va m pt] assms(2)
  by (simp only: uload_def if_False add.assoc)

section \<open>copyin\<close>

definition uread :: "memory \<Rightarrow> uint64 \<Rightarrow> uint64 \<Rightarrow> nat \<Rightarrow> byte list" where
  "uread m pt va n = map (\<lambda>i. the (uload m pt (va + of_nat i))) [0..<n]"

lemma uread_append:
  "uread m pt va (n + k) = uread m pt va n @ uread m pt (va + of_nat n) k"
  unfolding uread_def
  by (rule nth_equalityI) (auto simp: nth_append algebra_simps)

lemma next_page_eq: "PGROUNDDOWN va + PGSIZE = va + of_nat (4096 - unat va mod 4096)"
proof -
  have "of_nat (unat (va - PGROUNDDOWN va)) = va - PGROUNDDOWN va" by simp
  then have "va - PGROUNDDOWN va = of_nat (unat va mod 4096)" by (simp only: unat_page_offset)
  then have "PGROUNDDOWN va = va - of_nat (unat va mod 4096)" by (simp add: algebra_simps)
  moreover have "unat va mod 4096 \<le> 4096" by (simp add: less_imp_le)
  ultimately show ?thesis by (simp add: PGSIZE_def of_nat_diff del: unat_add_small)
qed

lemma uread_page:
  assumes "upage m pt va \<noteq> 0" "unat va mod 4096 + n \<le> 4096"
  shows "get_bytes m (upage m pt va + (va - PGROUNDDOWN va)) n = uread m pt va n"
    and "i < n \<Longrightarrow> uload m pt (va + of_nat i) \<noteq> None"
  using uload_same_page [OF _ assms(1)] assms(2) by (auto simp: get_bytes_def uread_def)

lemma chunk_room: "unat va mod 4096 + chunk va k \<le> 4096" "chunk va k \<le> k"
  "chunk va k < k \<Longrightarrow> chunk va k = 4096 - unat va mod 4096"
  using mod_less_divisor [of 4096 "unat va"] by (auto simp: chunk_eq min_def)

text \<open>The number of bytes from \<open>va\<close> on that are mapped for the user, at most \<open>n\<close>.\<close>

fun mapped_prefix :: "memory \<Rightarrow> uint64 \<Rightarrow> uint64 \<Rightarrow> nat \<Rightarrow> nat" where
  "mapped_prefix m pt va 0 = 0"
| "mapped_prefix m pt va (Suc n) =
     (if uload m pt va = None then 0 else Suc (mapped_prefix m pt (va + 1) n))"

lemma mapped_prefix_le: "mapped_prefix m pt va n \<le> n"
  by (induction n arbitrary: va) auto

lemma mapped_prefix_skip:
  "(\<And>i. i < n \<Longrightarrow> uload m pt (va + of_nat i) \<noteq> None) \<Longrightarrow>
   mapped_prefix m pt va (n + k) = n + mapped_prefix m pt (va + of_nat n) k"
proof (induction n arbitrary: va)
  case (Suc n)
  have "uload m pt va \<noteq> None" using Suc.prems [of 0] by simp
  moreover have "uload m pt (va + 1 + of_nat i) \<noteq> None" if "i < n" for i
    using Suc.prems [of "Suc i"] that by (simp add: algebra_simps)
  ultimately show ?case using Suc.IH [of "va + 1"] by (simp add: add.assoc)
qed simp

lemma mapped_prefix_all: "mapped_prefix m pt va n = n \<longleftrightarrow> (\<forall>i < n. uload m pt (va + of_nat i) \<noteq> None)"
proof
  assume "\<forall>i < n. uload m pt (va + of_nat i) \<noteq> None"
  then show "mapped_prefix m pt va n = n" using mapped_prefix_skip [of n m pt va 0] by simp
next
  show "mapped_prefix m pt va n = n \<Longrightarrow> \<forall>i < n. uload m pt (va + of_nat i) \<noteq> None"
  proof (induction n arbitrary: va)
    case (Suc n)
    then have "uload m pt va \<noteq> None" "mapped_prefix m pt (va + 1) n = n" by (auto split: if_splits)
    then have *: "uload m pt (va + 1 + of_nat i) \<noteq> None" if "i < n" for i
      using Suc.IH [of "va + 1"] that by blast
    show ?case
    proof (intro allI impI)
      fix i assume "i < Suc n"
      with * [of "i - 1"] \<open>uload m pt va \<noteq> None\<close> show "uload m pt (va + of_nat i) \<noteq> None"
        by (cases i) (simp_all add: add.assoc)
    qed
  qed simp
qed

lemma mapped_prefix_chunk:
  assumes "upage m pt va \<noteq> 0"
  shows "mapped_prefix m pt va k = chunk va k + mapped_prefix m pt (PGROUNDDOWN va + PGSIZE) (k - chunk va k)"
proof -
  have "mapped_prefix m pt va (chunk va k + (k - chunk va k)) =
      chunk va k + mapped_prefix m pt (va + of_nat (chunk va k)) (k - chunk va k)"
    using uread_page(2) [OF assms chunk_room(1)] by (intro mapped_prefix_skip) blast
  moreover have "chunk va k < k \<Longrightarrow> va + of_nat (chunk va k) = PGROUNDDOWN va + PGSIZE"
    using chunk_room(3) by (simp only: next_page_eq)
  ultimately show ?thesis using chunk_room(2) [of va k] by (cases "chunk va k < k") simp_all
qed

lemma uread_chunk:
  assumes "n \<le> k - chunk va k"
  shows "uread m pt va (chunk va k + n) = uread m pt va (chunk va k) @ uread m pt (PGROUNDDOWN va + PGSIZE) n"
proof (cases "n = 0")
  case False
  with assms have "chunk va k < k" by simp
  then have "va + of_nat (chunk va k) = PGROUNDDOWN va + PGSIZE"
    using chunk_room(3) by (simp only: next_page_eq)
  then show ?thesis by (simp only: uread_append)
qed (simp add: uread_def)

lemma copyin_spec:
  fixes s :: "'a vm_state_scheme"
  assumes "pt_wf s pt fl" "0 < sym_end s"
  shows "copyin pt va len s =
    (let k = mapped_prefix (mem s) pt va len in Ok (if k = len then 0 else -1, uread (mem s) pt va k) s)"
  using assms
proof (induction pt va len s rule: copyin.induct)
  case (1 pt va len s)
  note wa = walkaddr_upage [OF 1(2,3)]
  show ?case
  proof (cases "len = 0 \<or> upage (mem s) pt va = 0")
    case True
    then show ?thesis
      by (cases len) (auto simp: copyin.simps [of pt va] wa upage_PGROUNDDOWN uload_eq_None uread_def)
  next
    case False
    let ?n = "chunk va len" and ?va = "PGROUNDDOWN va + PGSIZE"
    let ?k = "mapped_prefix (mem s) pt ?va (len - ?n)"
    have IH: "copyin pt ?va (len - ?n) s =
        Ok (if ?k = len - ?n then 0 else -1, uread (mem s) pt ?va ?k) s"
      using 1(1) [of "PGROUNDDOWN va" "upage (mem s) pt va" s] False 1(2,3)
      by (simp add: wa upage_PGROUNDDOWN Let_def)
    have "copyin pt va len s = Ok (if ?k = len - ?n then 0 else -1, uread (mem s) pt va ?n @ uread (mem s) pt ?va ?k) s"
      using False uread_page(1) [OF _ chunk_room(1)]
      by (simp add: copyin.simps [of pt va] wa upage_PGROUNDDOWN IH Let_def)
    moreover have "?k = len - ?n \<longleftrightarrow> ?n + ?k = len" using chunk_room(2) [of va len] by auto
    ultimately show ?thesis
      using False uread_chunk [OF mapped_prefix_le] by (simp add: mapped_prefix_chunk Let_def)
  qed
qed

section \<open>copyout\<close>

text \<open>The page a valid leaf entry maps, whoever may access it.\<close>

definition leaf :: "memory \<Rightarrow> uint64 \<Rightarrow> uint64 \<Rightarrow> uint64 option" where
  "leaf m pt va = (let e = vlookup m pt va in if e AND PTE_V \<noteq> 0 then Some (PTE2PA e) else None)"

lemma upage_leaf: "upage m pt va \<noteq> 0 \<Longrightarrow> leaf m pt va = Some (upage m pt va)"
  by (auto simp: upage_def leaf_def Let_def split: if_splits)

text \<open>A user address space: the pages mapped below the trapframe lie in the managed range, each is
  mapped at one virtual page, none is a page-table page or a free page; nothing the user may access
  lies above.\<close>

definition uspace_wf :: "'a kmem_state_scheme \<Rightarrow> uint64 \<Rightarrow> uint64 list \<Rightarrow> bool" where
  "uspace_wf s pt fl \<longleftrightarrow> pt_wf s pt fl \<and> 0 < sym_end s \<and>
     (\<forall>va P. va < TRAPFRAME \<longrightarrow> leaf (mem s) pt va = Some P \<longrightarrow> page_ok s P \<and> P \<notin> pt_own (mem s) pt \<union> set fl) \<and>
     (\<forall>va va' P. va < TRAPFRAME \<longrightarrow> va' < TRAPFRAME \<longrightarrow> leaf (mem s) pt va = Some P \<longrightarrow>
        leaf (mem s) pt va' = Some P \<longrightarrow> vpn va = vpn va') \<and>
     (\<forall>va. upage (mem s) pt va \<noteq> 0 \<longrightarrow> va < TRAPFRAME)"

lemma uspace_wf_pt: "uspace_wf s pt fl \<Longrightarrow> pt_wf s pt fl" "uspace_wf s pt fl \<Longrightarrow> 0 < sym_end s"
  by (simp_all add: uspace_wf_def)

lemma uspace_wf_page:
  assumes "uspace_wf s pt fl" "upage (mem s) pt va \<noteq> 0"
  shows "va < TRAPFRAME" "page_ok s (upage (mem s) pt va)" "upage (mem s) pt va \<notin> pt_own (mem s) pt \<union> set fl"
  using assms upage_leaf [OF assms(2)] unfolding uspace_wf_def by blast+

lemma uspace_wf_inj:
  assumes "uspace_wf s pt fl" "upage (mem s) pt va \<noteq> 0" "upage (mem s) pt va = upage (mem s) pt va'"
  shows "vpn va = vpn va'"
  using assms upage_leaf [of "mem s" pt va] upage_leaf [of "mem s" pt va'] uspace_wf_page(1) [OF assms(1)]
  unfolding uspace_wf_def by metis

lemma uspace_wf_cong:
  assumes wf: "uspace_wf s pt fl" and t: "pt_wf t pt fl" "sym_end t = sym_end s"
    and own: "pt_own (mem t) pt = pt_own (mem s) pt" and vl: "\<And>x. vlookup (mem t) pt x = vlookup (mem s) pt x"
  shows "uspace_wf t pt fl"
proof -
  have ok: "page_ok t x = page_ok s x" for x using t(2) by (simp add: page_ok_def)
  have up: "upage (mem t) pt x = upage (mem s) pt x" "leaf (mem t) pt x = leaf (mem s) pt x" for x
    by (simp_all add: upage_def leaf_def vl)
  show ?thesis using wf t(1) unfolding uspace_wf_def up own ok t(2) by blast
qed

lemma uspace_write:
  fixes s :: "'a vm_state_scheme"
  assumes wf: "uspace_wf s pt fl" and P: "upage (mem s) pt va \<noteq> 0"
    and se: "same_except (range_of (upage (mem s) pt va) 4096) (mem s) m"
  shows "upage m pt x = upage (mem s) pt x" "vlookup m pt x = vlookup (mem s) pt x"
    "uspace_wf (s\<lparr>mem := m\<rparr>) pt fl" "pt_own m pt = pt_own (mem s) pt"
proof -
  let ?P = "upage (mem s) pt va"
  note pt = uspace_wf_pt(1) [OF wf] and al = uspace_wf_page [OF wf P]
  have "pages (pt_own (mem s) pt) \<inter> pages {?P} = {}"
    using pt_wf_own_aligned [OF pt] al by (intro pages_disjoint_sets) (auto intro: page_aligned_ok)
  then have dis: "pages (pt_own (mem s) pt) \<inter> range_of ?P 4096 = {}" by (simp add: pages_def)
  note fr = pt_wf_own_aligned [OF pt] se dis
  show vl: "vlookup m pt x = vlookup (mem s) pt x" for x by (rule vlookup_frame [OF fr])
  then show up: "upage m pt x = upage (mem s) pt x" for x by (simp add: upage_def)
  show own: "pt_own m pt = pt_own (mem s) pt" by (rule pt_own_frame [OF fr])
  have "set fl \<inter> pt_own (mem s) pt = {}" using pt_wf_own [OF pt] by blast
  with se have "pt_wf (s\<lparr>mem := m\<rparr>) pt fl" by (intro pt_wf_frame [OF pt _ dis]) simp_all
  then show "uspace_wf (s\<lparr>mem := m\<rparr>) pt fl"
    using own vl by (intro uspace_wf_cong [OF wf]) simp_all
qed

lemma uload_put_page:
  fixes s :: "'a vm_state_scheme"
  assumes wf: "uspace_wf s pt fl" and P: "upage (mem s) pt va \<noteq> 0"
    and room: "unat va mod 4096 + length bs \<le> 4096"
  defines "m \<equiv> put_bytes (mem s) (upage (mem s) pt va + (va - PGROUNDDOWN va)) bs"
  shows "same_except (range_of (upage (mem s) pt va) 4096) (mem s) m"
    "uload m pt x = (if unat (x - va) < length bs then Some (bs ! unat (x - va)) else uload (mem s) pt x)"
proof -
  let ?P = "upage (mem s) pt va" and ?o = "va - PGROUNDDOWN va"
  have al: "page_aligned ?P" by (rule upage_aligned)
  show se: "same_except (range_of ?P 4096) (mem s) m"
    unfolding m_def
  proof (rule same_except_put_bytes, rule subsetI)
    fix a assume "a \<in> range_of (?P + ?o) (length bs)"
    then have l: "unat (a - (?P + ?o)) < length bs" by (simp add: range_of_def)
    have "a - ?P = (a - (?P + ?o)) + ?o" by simp
    moreover have "unat (b + c) \<le> unat b + unat c" for b c :: uint64
      by (simp add: unat_word_ariths)
    ultimately have "unat (a - ?P) \<le> unat (a - (?P + ?o)) + unat ?o" by metis
    then have "unat (a - ?P) < 4096" using l room by (simp add: unat_page_offset)
    then show "a \<in> range_of ?P 4096" by (simp add: range_of_def)
  qed
  note up = uspace_write(1) [OF wf P se]
  show "uload m pt x = (if unat (x - va) < length bs then Some (bs ! unat (x - va)) else uload (mem s) pt x)"
  proof (cases "vpn x = vpn va")
    case True
    then have "upage (mem s) pt x = ?P" "PGROUNDDOWN x = PGROUNDDOWN va"
      by (auto intro: upage_same_page simp: PGROUNDDOWN_eq_vpn)
    then have "uload m pt x = Some (m (?P + (x - PGROUNDDOWN va)))"
      "uload (mem s) pt x = Some (mem s (?P + (x - PGROUNDDOWN va)))"
      using P by (simp_all add: uload_def up)
    moreover have "?P + (x - PGROUNDDOWN va) - (?P + ?o) = x - va" by simp
    ultimately show ?thesis by (simp only: m_def put_bytes_def if_distrib [of Some])
  next
    case False
    have "\<not> unat (x - va) < length bs"
    proof
      assume l: "unat (x - va) < length bs"
      have "x = va + of_nat (unat (x - va))" by simp
      then have "vpn x = vpn va" using same_page_offset(1) [of va "unat (x - va)"] l room by simp
      with False show False ..
    qed
    moreover have "uload m pt x = uload (mem s) pt x"
    proof (cases "upage (mem s) pt x = 0")
      case False
      let ?a = "upage (mem s) pt x + (x - PGROUNDDOWN x)"
      have "?P \<noteq> upage (mem s) pt x" using uspace_wf_inj [OF wf P] \<open>vpn x \<noteq> vpn va\<close> by metis
      moreover have "?a \<in> range_of (upage (mem s) pt x) 4096"
        using unat_page_offset [of x] by (simp add: range_of_def)
      ultimately have "?a \<notin> range_of ?P 4096"
        using pages_disjoint [OF al upage_aligned [of "mem s" pt x]] by auto
      then have "m ?a = mem s ?a" using se by (simp add: same_except_def)
      then show ?thesis by (simp add: uload_def up)
    qed (simp add: uload_def up)
    ultimately show ?thesis by simp
  qed
qed

lemma mapped_prefix_cong:
  "(\<And>x. upage m' pt x = upage m pt x) \<Longrightarrow> mapped_prefix m' pt va n = mapped_prefix m pt va n"
  by (induction n arbitrary: va) (simp_all add: uload_eq_None)

text \<open>The user memory after storing \<open>bs\<close> at \<open>va\<close>.\<close>

definition ustore :: "(uint64 \<Rightarrow> byte option) \<Rightarrow> uint64 \<Rightarrow> byte list \<Rightarrow> uint64 \<Rightarrow> byte option" where
  "ustore f va bs x = (if unat (x - va) < length bs then Some (bs ! unat (x - va)) else f x)"

lemma ustore_append:
  assumes "length bs + length cs < 2 ^ 64"
  shows "ustore (ustore f va bs) (va + of_nat (length bs)) cs x = ustore f va (bs @ cs) x"
proof (cases "unat (x - va) < length bs")
  case True
  have "\<not> unat (x - (va + of_nat (length bs))) < length cs"
  proof
    assume l: "unat (x - (va + of_nat (length bs))) < length cs"
    have "unat (of_nat (length bs) + d) = length bs + unat d" if "unat d < length cs" for d :: uint64
      using assms that by (simp add: unat_plus_if' unat_of_nat)
    moreover have "x - va = of_nat (length bs) + (x - (va + of_nat (length bs)))" by simp
    ultimately show False using True l by (metis not_add_less1)
  qed
  with True show ?thesis by (simp add: ustore_def nth_append)
next
  case False
  have "unat (of_nat (length bs) :: uint64) = length bs" using assms by (simp add: unat_of_nat)
  then have "unat (x - (va + of_nat (length bs))) = unat (x - va) - length bs"
    using False unat_sub [of "of_nat (length bs)" "x - va"] by (simp add: word_le_nat_alt diff_diff_eq)
  with False show ?thesis by (auto simp: ustore_def nth_append)
qed

lemma copyout_spec:
  fixes s :: "'a vm_state_scheme"
  assumes "uspace_wf s pt fl" "length src < 2 ^ 64"
  shows "\<exists>m. copyout pt va src s =
      Ok (if mapped_prefix (mem s) pt va (length src) = length src then 0 else -1) (s\<lparr>mem := m\<rparr>) \<and>
    uspace_wf (s\<lparr>mem := m\<rparr>) pt fl \<and>
    (\<forall>x. uload m pt x = ustore (uload (mem s) pt) va (take (mapped_prefix (mem s) pt va (length src)) src) x)"
  using assms
proof (induction pt va src s rule: copyout.induct)
  case (1 pt va src s)
  have wa: "walkaddr pt a s = Ok (upage (mem s) pt a) s" for a
    using walkaddr_upage uspace_wf_pt [OF 1(2)] by blast
  show ?case
  proof (cases "src = [] \<or> upage (mem s) pt va = 0")
    case True
    then have "copyout pt va src s = Ok (if src = [] then 0 else -1) s"
      by (auto simp: copyout.simps [of pt va] wa upage_PGROUNDDOWN)
    moreover have "mapped_prefix (mem s) pt va (length src) = 0"
      using True by (cases src) (auto simp: uload_eq_None)
    ultimately show ?thesis
      using 1(2) by (intro exI [of _ "mem s"]) (auto simp: ustore_def)
  next
    case False
    let ?n = "chunk va (length src)" and ?va = "PGROUNDDOWN va + PGSIZE"
    let ?m = "put_bytes (mem s) (upage (mem s) pt va + (va - PGROUNDDOWN va)) (take ?n src)"
    let ?k = "mapped_prefix (mem s) pt ?va (length src - ?n)"
    have len: "length (take ?n src) = ?n" using chunk_room(2) by simp
    have P: "upage (mem s) pt va \<noteq> 0" "unat va mod 4096 + length (take ?n src) \<le> 4096"
      using False chunk_room(1) by (simp_all only: len) simp
    note pu = uload_put_page [OF 1(2) P]
    note w = uspace_write [OF 1(2) P(1) pu(1)]
    have mp: "mapped_prefix ?m pt ?va (length src - ?n) = ?k" by (rule mapped_prefix_cong [OF w(1)])
    have step: "copyout pt va src s = copyout pt ?va (drop ?n src) (s\<lparr>mem := ?m\<rparr>)"
      using False by (simp add: copyout.simps [of pt va] wa upage_PGROUNDDOWN Let_def upd_mem_def)
    have "\<exists>m. copyout pt ?va (drop ?n src) (s\<lparr>mem := ?m\<rparr>) =
        Ok (if ?k = length src - ?n then 0 else -1) (s\<lparr>mem := m\<rparr>) \<and> uspace_wf (s\<lparr>mem := m\<rparr>) pt fl \<and>
        (\<forall>x. uload m pt x = ustore (uload ?m pt) ?va (take ?k (drop ?n src)) x)"
      using 1(1) [OF _ refl, of "upage (mem s) pt va" s ?n "s\<lparr>mem := ?m\<rparr>"] False w(3) 1(3)
      by (simp add: wa upage_PGROUNDDOWN upd_mem_def mp)
    then obtain m where m: "copyout pt va src s = Ok (if ?k = length src - ?n then 0 else -1) (s\<lparr>mem := m\<rparr>)"
      "uspace_wf (s\<lparr>mem := m\<rparr>) pt fl" "\<forall>x. uload m pt x = ustore (uload ?m pt) ?va (take ?k (drop ?n src)) x"
      unfolding step by blast
    have mpc: "mapped_prefix (mem s) pt va (length src) = ?n + ?k" by (rule mapped_prefix_chunk [OF P(1)])
    have "uload m pt x = ustore (uload (mem s) pt) va (take (?n + ?k) src) x" for x
    proof -
      have "uload ?m pt = ustore (uload (mem s) pt) va (take ?n src)"
        by (rule ext) (simp only: pu(2) ustore_def)
      then have "uload m pt x = ustore (ustore (uload (mem s) pt) va (take ?n src)) ?va (take ?k (drop ?n src)) x"
        using m(3) by simp
      also have "\<dots> = ustore (uload (mem s) pt) va (take ?n src @ take ?k (drop ?n src)) x"
      proof (cases "?n < length src")
        case True
        have "?va = va + of_nat ?n" unfolding chunk_room(3) [OF True] by (rule next_page_eq)
        then have "?va = va + of_nat (length (take ?n src))" unfolding len .
        moreover have "length (take ?n src) + length (take ?k (drop ?n src)) < 2 ^ 64"
          using 1(3) by simp
        ultimately show ?thesis by (simp only: ustore_append)
      next
        case False
        then show ?thesis by (simp add: ustore_def)
      qed
      finally show ?thesis by (simp only: take_add)
    qed
    moreover have "?k = length src - ?n \<longleftrightarrow> ?n + ?k = length src" using chunk_room(2) [of va "length src"] by auto
    ultimately show ?thesis using m(1,2) unfolding mpc by auto
  qed
qed

end
