(* ===== verification/Xv6_Uvm.thy ===== *)
theory Xv6_Uvm
  imports Xv6_VmSpec
begin

text \<open>
  The user-memory operations of \<^verbatim>\<open>kernel/vm.c\<close> on whole address spaces: growing (\<open>uvmalloc\<close>),
  shrinking (\<open>uvmunmap\<close>, \<open>uvmdealloc\<close>) and copying (\<open>uvmcopy\<close>), each described by what it does to
  \<open>uload\<close>, the memory the process sees, and to the free list.
\<close>

section \<open>Frame rules for address spaces\<close>

lemma TRAPFRAME_MAXVA: "va < TRAPFRAME \<Longrightarrow> va < MAXVA"
  by (simp add: word_less_nat_alt TRAPFRAME_def TRAMPOLINE_def MAXVA_def PGSIZE_def)

lemma vpn_TRAPFRAME: "vpn va = vpn va' \<Longrightarrow> va < TRAPFRAME \<longleftrightarrow> va' < TRAPFRAME"
proof -
  assume v: "vpn va = vpn va'"
  have "unat TRAPFRAME = 0x3fffffe * 4096" by (simp add: TRAPFRAME_def TRAMPOLINE_def MAXVA_def PGSIZE_def)
  then have "x < TRAPFRAME \<longleftrightarrow> vpn x < 0x3fffffe" for x
    by (simp add: word_less_nat_alt div_less_iff_less_mult)
  with v show ?thesis by simp
qed

lemma uspace_frame:
  assumes wf: "uspace_wf s pt fl"
    and se: "same_except A (mem s) (mem t)" "pages (pt_own (mem s) pt) \<inter> A = {}"
    and t: "sym_end t = sym_end s" "set fl' \<inter> pt_own (mem s) pt = {}"
    and lf: "\<forall>va P. va < TRAPFRAME \<longrightarrow> leaf (mem s) pt va = Some P \<longrightarrow> P \<notin> set fl'"
  shows "uspace_wf t pt fl'" "vlookup (mem t) pt x = vlookup (mem s) pt x"
    "pt_own (mem t) pt = pt_own (mem s) pt"
proof -
  note pt = uspace_wf_pt(1) [OF wf]
  note fr = pt_wf_own_aligned [OF pt] se
  show vl: "vlookup (mem t) pt x = vlookup (mem s) pt x" for x by (rule vlookup_frame [OF fr])
  show own: "pt_own (mem t) pt = pt_own (mem s) pt" by (rule pt_own_frame [OF fr])
  have ok: "page_ok t x = page_ok s x" for x using t(1) by (simp add: page_ok_def)
  have up: "upage (mem t) pt x = upage (mem s) pt x" "leaf (mem t) pt x = leaf (mem s) pt x" for x
    by (simp_all add: upage_def leaf_def vl)
  have "pt_wf t pt fl'" by (rule pt_wf_frame [OF pt se t])
  then show "uspace_wf t pt fl'" using wf lf unfolding uspace_wf_def up own ok t(1) by blast
qed

lemma uload_frame:
  assumes vl: "\<And>x. vlookup m' pt x = vlookup m pt x"
    and se: "same_except A m m'" "\<And>x. upage m pt x \<noteq> 0 \<Longrightarrow> range_of (upage m pt x) 4096 \<inter> A = {}"
  shows "uload m' pt x = uload m pt x"
proof -
  have up: "upage m' pt x = upage m pt x" by (simp add: upage_def vl)
  show ?thesis
  proof (cases "upage m pt x = 0")
    case False
    have "upage m pt x + (x - PGROUNDDOWN x) \<in> range_of (upage m pt x) 4096"
      using unat_page_offset [of x] by (simp add: range_of_def)
    then have "upage m pt x + (x - PGROUNDDOWN x) \<notin> A" using se(2) [OF False] by blast
    then show ?thesis using se(1) up by (simp add: uload_def same_except_def)
  qed (simp add: uload_def up)
qed

lemma uload_eqI:
  assumes "uspace_wf s pt fl" "\<And>x. vlookup (mem t) pt x = vlookup (mem s) pt x"
    "same_except (pages B) (mem s) (mem t)" "\<forall>x \<in> B. page_aligned x"
    "\<And>x. upage (mem s) pt x \<noteq> 0 \<Longrightarrow> upage (mem s) pt x \<notin> B"
  shows "uload (mem t) pt x = uload (mem s) pt x"
proof (rule uload_frame [OF assms(2,3)])
  fix x assume "upage (mem s) pt x \<noteq> 0"
  then show "range_of (upage (mem s) pt x) 4096 \<inter> pages B = {}"
    using pages_disjoint_sets [of "{upage (mem s) pt x}" B] assms(4,5) upage_aligned by (auto simp: pages_def)
qed

lemma uspace_wf_leaf:
  assumes "uspace_wf s pt fl" "va < TRAPFRAME" "leaf (mem s) pt va = Some P"
  shows "page_ok s P" "P \<notin> pt_own (mem s) pt \<union> set fl"
  using assms unfolding uspace_wf_def by blast+

lemma uspace_wf_leaf_inj:
  "uspace_wf s pt fl \<Longrightarrow> va < TRAPFRAME \<Longrightarrow> va' < TRAPFRAME \<Longrightarrow> leaf (mem s) pt va = Some P \<Longrightarrow>
   leaf (mem s) pt va' = Some P \<Longrightarrow> vpn va = vpn va'"
  unfolding uspace_wf_def by blast

section \<open>Flags of an entry\<close>

lemma PA2PTE_and_flag:
  assumes "unat f < 1024"
  shows "(PA2PTE pa OR g) AND f = g AND f"
proof (rule bit_word_eqI)
  fix k :: nat assume "k < LENGTH(64)"
  show "bit ((PA2PTE pa OR g) AND f) k = bit (g AND f) k"
    using bit_small [of f k 10] assms
    by (auto simp: PA2PTE_def bit_push_bit_iff bit_and_iff bit_or_iff)
qed

lemma flag_or_V [simp]: "(g OR PTE_V) AND PTE_U = g AND PTE_U"
  by (rule bit_word_eqI) (auto simp: PTE_V_def PTE_U_def bit_simps)

lemma or_less_1024:
  assumes "unat (g :: uint64) < 1024" "unat h < 1024"
  shows "unat (g OR h) < 1024"
proof -
  have "g = take_bit 10 g" "h = take_bit 10 h"
    using assms by (simp_all add: word_unat_eq_iff unsigned_take_bit_eq take_bit_nat_eq_self)
  then have "g OR h = take_bit 10 (g OR h)" by (metis take_bit_or)
  then have "unat (g OR h) = take_bit 10 (unat (g OR h))" by (metis unsigned_take_bit_eq)
  also have "\<dots> < 2 ^ 10" by (rule take_bit_nat_less_exp)
  finally show ?thesis by simp
qed

lemma new_pte:
  assumes "page_aligned P" "unat perm < 1024"
  defines "e \<equiv> PA2PTE P OR perm OR PTE_V"
  shows "e AND PTE_V \<noteq> 0" "e AND PTE_U = perm AND PTE_U" "PTE2PA e = P"
proof -
  have e: "e = PA2PTE P OR (perm OR PTE_V)" by (simp add: e_def)
  show "e AND PTE_V \<noteq> 0" using PTE_V_or [of "PA2PTE P OR perm"] by (simp add: e_def or.assoc)
  show "e AND PTE_U = perm AND PTE_U" unfolding e by (subst PA2PTE_and_flag) (simp_all add: PTE_U_def flag_or_V [unfolded PTE_U_def])
  have "unat (perm OR PTE_V) < 1024" using assms(2) by (rule or_less_1024) (simp add: PTE_V_def)
  then show "PTE2PA e = P" unfolding e using assms(1) by (intro PTE2PA_PA2PTE)
qed

section \<open>Mapping a fresh page\<close>

lemma pt_grow_own:
  assumes "pt_grow pt s fl t fl'"
  shows "pt_own (mem t) pt \<union> set fl' = pt_own (mem s) pt \<union> set fl"
  using assms by (simp add: pt_grow_def)

lemma own_fl_aligned:
  assumes "pt_wf s pt fl" "kmem_inv s fl"
  shows "\<forall>x \<in> pt_own (mem s) pt \<union> set fl. page_aligned x"
  using pt_wf_own_aligned [OF assms(1)] assms(2) by (auto simp: kmem_inv_def page_ok_def)

lemma uspace_map_page:
  fixes s :: "'a vm_state_scheme"
  assumes wf: "uspace_wf s pt fl" and inv: "kmem_inv s fl" and g: "pt_grow pt s fl t fl'"
    and a: "a < TRAPFRAME"
    and P: "page_ok s P" "P \<notin> pt_own (mem s) pt \<union> set fl"
      "\<And>va. va < TRAPFRAME \<Longrightarrow> leaf (mem s) pt va \<noteq> Some P"
    and perm: "unat perm < 1024"
    and vl: "\<forall>va < MAXVA. vlookup (mem t) pt va = map_range (vlookup (mem s) pt) a 1 P perm va"
  shows "uspace_wf t pt fl'"
    "uload (mem t) pt x = (if vpn x = vpn a then (if perm AND PTE_U \<noteq> 0 then Some (mem s (P + (x - PGROUNDDOWN x))) else None)
       else uload (mem s) pt x)"
    "va < TRAPFRAME \<Longrightarrow> leaf (mem t) pt va = (if vpn va = vpn a then Some P else leaf (mem s) pt va)"
proof -
  let ?B = "pt_own (mem s) pt \<union> set fl"
  note pt = uspace_wf_pt [OF wf] and B = own_fl_aligned [OF uspace_wf_pt(1) [OF wf] inv]
  have Pa: "page_aligned P" "P \<noteq> 0" using P(1) pt(2) by (auto simp: page_ok_def)
  have same: "same_except (pages ?B) (mem s) (mem t)" "sym_end t = sym_end s"
    using g by (auto simp: pt_grow_def same_rest_def)
  have ok: "page_ok t x = page_ok s x" for x using same(2) by (simp add: page_ok_def)
  have vl': "vlookup (mem t) pt va = (if vpn va = vpn a then PA2PTE P OR perm OR PTE_V else vlookup (mem s) pt va)"
    if "va < MAXVA" for va
    using vl that by (auto simp: map_range_def le_less_Suc_eq)
  note pte = new_pte [OF Pa(1) perm]
  show lf: "leaf (mem t) pt va = (if vpn va = vpn a then Some P else leaf (mem s) pt va)" if "va < TRAPFRAME" for va
    using vl' [OF TRAPFRAME_MAXVA [OF that]] pte by (simp add: leaf_def Let_def)
  have up: "upage (mem t) pt va = (if vpn va = vpn a then (if perm AND PTE_U \<noteq> 0 then P else 0) else upage (mem s) pt va)" for va
  proof (cases "va < MAXVA")
    case False
    then have "vpn va \<noteq> vpn a" using a vpn_TRAPFRAME TRAPFRAME_MAXVA by metis
    with False show ?thesis by (simp add: upage_def Let_def)
  next
    case True
    then show ?thesis using vl' [OF True] pte by (simp add: upage_def Let_def)
  qed
  have own: "P \<notin> pt_own (mem t) pt \<union> set fl'" "x \<notin> ?B \<Longrightarrow> x \<notin> pt_own (mem t) pt \<union> set fl'" for x
    using pt_grow_own [OF g] P(2) by auto
  show "uspace_wf t pt fl'"
    unfolding uspace_wf_def
  proof (intro conjI allI impI)
    show "pt_wf t pt fl'" using g by (simp add: pt_grow_def)
    show "0 < sym_end t" using same(2) pt(2) by simp
  next
    fix va Q assume va: "va < TRAPFRAME" "leaf (mem t) pt va = Some Q"
    then have "page_ok s Q \<and> Q \<notin> ?B"
      using lf [OF va(1)] P(1,2) uspace_wf_leaf [OF wf va(1), of Q] by (cases "vpn va = vpn a") simp_all
    then show "page_ok t Q" "Q \<notin> pt_own (mem t) pt \<union> set fl'" using own ok by auto
  next
    fix va va' Q assume va: "va < TRAPFRAME" "va' < TRAPFRAME" "leaf (mem t) pt va = Some Q" "leaf (mem t) pt va' = Some Q"
    then show "vpn va = vpn va'"
      using lf [OF va(1)] lf [OF va(2)] P(3) [OF va(1)] P(3) [OF va(2)] uspace_wf_leaf_inj [OF wf va(1,2), of Q]
      by (cases "vpn va = vpn a"; cases "vpn va' = vpn a") simp_all
  next
    fix va assume "upage (mem t) pt va \<noteq> 0"
    then show "va < TRAPFRAME"
      using up [of va] a vpn_TRAPFRAME [of va a] uspace_wf_page(1) [OF wf, of va]
      by (cases "vpn va = vpn a") simp_all
  qed
  have "P + (x - PGROUNDDOWN x) \<in> pages {P}"
    using unat_page_offset [of x] by (simp add: pages_def range_of_def)
  moreover have "pages {P} \<inter> pages ?B = {}" using Pa P(2) B by (intro pages_disjoint_sets) auto
  ultimately have mP: "mem t (P + (x - PGROUNDDOWN x)) = mem s (P + (x - PGROUNDDOWN x))"
    using same(1) unfolding same_except_def by blast
  show "uload (mem t) pt x = (if vpn x = vpn a then (if perm AND PTE_U \<noteq> 0 then Some (mem s (P + (x - PGROUNDDOWN x))) else None)
       else uload (mem s) pt x)"
  proof (cases "vpn x = vpn a \<or> upage (mem s) pt x = 0")
    case True
    then show ?thesis using up [of x] mP Pa(2) by (auto simp: uload_def)
  next
    case False
    then have "upage (mem s) pt x + (x - PGROUNDDOWN x) \<in> pages {upage (mem s) pt x}"
      using unat_page_offset [of x] by (simp add: pages_def range_of_def)
    moreover have "pages {upage (mem s) pt x} \<inter> pages ?B = {}"
      using uspace_wf_page [OF wf] False B upage_aligned by (intro pages_disjoint_sets) auto
    ultimately have "mem t (upage (mem s) pt x + (x - PGROUNDDOWN x)) = mem s (upage (mem s) pt x + (x - PGROUNDDOWN x))"
      using same(1) unfolding same_except_def by blast
    then show ?thesis using False up [of x] by (simp add: uload_def)
  qed
qed

section \<open>Taking a page off the free list\<close>

lemma kmem_inv_write:
  assumes "kmem_inv s fl" "same_except (range_of p 4096) (mem s) m" "page_aligned p" "p \<notin> set fl"
  shows "kmem_inv (s\<lparr>mem := m\<rparr>) fl"
  using assms(1) flist_frame [OF assms(2,3,4), of "freelist s"] by (auto simp: kmem_inv_def page_ok_def)

lemma uspace_take_page:
  fixes s :: "'a vm_state_scheme"
  assumes wf: "uspace_wf s pt (p # fl)" and inv: "kmem_inv s (p # fl)"
    and se: "same_except (range_of p 4096) (mem s) (mem t)" and t: "sym_end t = sym_end s"
  shows "uspace_wf t pt fl" "vlookup (mem t) pt x = vlookup (mem s) pt x" "uload (mem t) pt x = uload (mem s) pt x"
    "p \<notin> pt_own (mem t) pt \<union> set fl" "va < TRAPFRAME \<Longrightarrow> leaf (mem t) pt va \<noteq> Some p"
    "pt_own (mem t) pt = pt_own (mem s) pt"
proof -
  have p: "page_ok s p" "p \<notin> set fl" using inv by (auto simp: kmem_inv_def)
  have own: "p \<notin> pt_own (mem s) pt" "set fl \<inter> pt_own (mem s) pt = {}"
    using pt_wf_own [OF uspace_wf_pt(1) [OF wf]] by auto
  have "pages (pt_own (mem s) pt) \<inter> pages {p} = {}"
    using pt_wf_own_aligned [OF uspace_wf_pt(1) [OF wf]] own(1) page_aligned_ok [OF p(1)]
    by (intro pages_disjoint_sets) auto
  then have dis: "pages (pt_own (mem s) pt) \<inter> range_of p 4096 = {}" by (simp add: pages_def)
  have lf: "va < TRAPFRAME \<Longrightarrow> leaf (mem s) pt va = Some P \<Longrightarrow> P \<notin> set (p # fl)" for va P
    using uspace_wf_leaf [OF wf] by blast
  then have lf': "\<forall>va P. va < TRAPFRAME \<longrightarrow> leaf (mem s) pt va = Some P \<longrightarrow> P \<notin> set fl" by fastforce
  note fr = uspace_frame [OF wf se dis t own(2) lf']
  show "uspace_wf t pt fl" "vlookup (mem t) pt x = vlookup (mem s) pt x" for x using fr by blast+
  show "pt_own (mem t) pt = pt_own (mem s) pt" using fr by blast
  then show "p \<notin> pt_own (mem t) pt \<union> set fl" using own p(2) by simp
  show "leaf (mem t) pt va \<noteq> Some p" if "va < TRAPFRAME"
    using lf [OF that] fr(2) by (auto simp: leaf_def)
  have "same_except (pages {p}) (mem s) (mem t)" using se by (simp add: pages_def)
  then show "uload (mem t) pt x = uload (mem s) pt x"
    using fr(2) uspace_wf_page(3) [OF wf] page_aligned_ok [OF p(1)] by (intro uload_eqI [OF wf]) auto
qed

text \<open>\<open>kalloc\<close> followed by the zero fill, as \<open>uvmalloc\<close> and \<open>uvminit\<close> use it.\<close>

definition fresh_zero :: "memory \<Rightarrow> uint64 \<Rightarrow> memory" where
  "fresh_zero m p = put_bytes (put_bytes m p (page_fill 5)) p (page_fill 0)"

lemma same_except_fresh_zero: "same_except (range_of p 4096) m (fresh_zero m p)"
  using same_except_trans [OF same_except_put_bytes same_except_put_bytes, of p "page_fill 5" "range_of p 4096"
      p "page_fill 0" "range_of p 4096" m] by (simp add: fresh_zero_def)

lemma fresh_zero_byte: "unat d < 4096 \<Longrightarrow> fresh_zero m p (p + d) = 0"
  by (simp add: fresh_zero_def put_bytes_def)

lemma kalloc_zero:
  fixes s :: "'a vm_state_scheme"
  assumes "kmem_inv s (p # fl)"
  defines "t \<equiv> s\<lparr>freelist := load64 (mem s) p, mem := fresh_zero (mem s) p\<rparr>"
  shows "kalloc s = Ok p (s\<lparr>freelist := load64 (mem s) p, mem := put_bytes (mem s) p (page_fill 5)\<rparr>)"
    "upd_mem (\<lambda>m. memset m p 0 (ucast PGSIZE))
      (s\<lparr>freelist := load64 (mem s) p, mem := put_bytes (mem s) p (page_fill 5)\<rparr>) = t"
    "p \<noteq> 0" "kmem_inv t fl"
proof -
  let ?u = "s\<lparr>freelist := load64 (mem s) p, mem := put_bytes (mem s) p (page_fill 5)\<rparr>"
  have k: "kalloc s = Ok p ?u" "p \<noteq> 0" "kmem_inv ?u fl" using kalloc_page [OF assms(1)] by auto
  then show "kalloc s = Ok p ?u" "p \<noteq> 0" by simp_all
  show "upd_mem (\<lambda>m. memset m p 0 (ucast PGSIZE)) ?u = t"
    by (simp add: t_def upd_mem_def fresh_zero_def memset_page)
  have p: "page_aligned p" "p \<notin> set fl" using assms(1) by (auto simp: kmem_inv_def page_ok_def)
  have "same_except (range_of p 4096) (mem ?u) (fresh_zero (mem s) p)"
    by (simp add: fresh_zero_def same_except_put_bytes)
  from kmem_inv_write [OF k(3) this p] show "kmem_inv t fl" by (simp add: t_def)
qed

section \<open>Mapping one page with mappages\<close>

lemma mappages_one:
  fixes s :: "'a vm_state_scheme"
  assumes "kmem_inv s fl" "pt_wf s pt fl" "page_aligned a" "a < TRAPFRAME" "vlookup (mem s) pt a AND PTE_V = 0"
  shows "\<exists>t fl' k. mappages pt a PGSIZE pa perm s = Ok (if k = 1 then 0 else -1) t \<and> k \<le> 1 \<and>
    pt_grow pt s fl t fl' \<and> (k < 1 \<longrightarrow> fl' = []) \<and> (2 \<le> length fl \<longrightarrow> k = 1) \<and>
    (k = 1 \<longrightarrow> length fl \<le> length fl' + 2) \<and>
    (\<forall>va < MAXVA. vlookup (mem t) pt va = map_range (vlookup (mem s) pt) a k pa perm va)"
proof -
  have a: "a < MAXVA" using assms(4) by (rule TRAPFRAME_MAXVA)
  obtain k where k: "unat a = 4096 * k" using assms(3) by (auto simp: page_aligned_unat)
  have "unat a < 2 ^ 38" using a by (simp add: word_less_nat_alt MAXVA_def)
  then have "unat (a + PGSIZE - 1) = unat a + 4095"
    by (simp add: PGSIZE_def unat_plus_if' add_diff_eq [symmetric])
  then have l: "PGROUNDDOWN (a + PGSIZE - 1) = a"
    by (simp add: word_unat_eq_iff unat_PGROUNDDOWN k)
  have "unat a + 4096 * Suc 0 \<le> unat MAXVA"
    using assms(4) by (simp add: word_less_nat_alt MAXVA_def TRAPFRAME_def TRAMPOLINE_def PGSIZE_def)
  moreover have "vlookup (mem s) pt va AND PTE_V = 0" if "vpn a \<le> vpn va" "vpn va < vpn a + Suc 0" for va
  proof -
    have "PGROUNDDOWN va = PGROUNDDOWN a" using that by (simp add: PGROUNDDOWN_eq_vpn)
    then show ?thesis using assms(5) vlookup_PGROUNDDOWN by metis
  qed
  ultimately show ?thesis
    using mappages_loop_spec [OF assms(1,2), of a 0 a pa perm] l assms(3)
    by (simp add: mappages_def PGROUNDDOWN_id)
qed

section \<open>uvmunmap\<close>

text \<open>A page \<open>uvmunmap\<close> accepts: a valid entry with a flag besides the valid bit.\<close>

definition leaf_mapped :: "memory \<Rightarrow> uint64 \<Rightarrow> uint64 \<Rightarrow> bool" where
  "leaf_mapped m pt va \<longleftrightarrow> vlookup m pt va AND PTE_V \<noteq> 0 \<and> PTE_FLAGS (vlookup m pt va) \<noteq> PTE_V"

lemma leaf_mapped_leaf: "leaf_mapped m pt va \<Longrightarrow> leaf m pt va = Some (PTE2PA (vlookup m pt va))"
  by (simp add: leaf_mapped_def leaf_def Let_def)

lemma vlookup_node:
  "vlookup m pt va \<noteq> 0 \<Longrightarrow> \<exists>x. pt_node m pt (va_path va) = Some x \<and> vlookup m pt va = load64 m (x + 8 * PX 0 va)"
  by (cases "pt_node m pt (va_path va)") (simp_all only: vlookup_None vlookup_Some, auto)

text \<open>An address space that lost the page \<open>P\<close> mapped at \<open>a\<close>.\<close>

lemma uspace_unmap_page:
  fixes s :: "'a vm_state_scheme"
  assumes wf: "uspace_wf s pt fl" and a: "a < TRAPFRAME" "leaf (mem s) pt a = Some P"
    and t: "pt_wf t pt (P # fl)" "same_rest s t" and own: "pt_own (mem t) pt = pt_own (mem s) pt"
    and vl: "\<And>va. va < MAXVA \<Longrightarrow> vlookup (mem t) pt va = (if vpn va = vpn a then 0 else vlookup (mem s) pt va)"
    and se: "same_except (pages ({P} \<union> pt_own (mem s) pt)) (mem s) (mem t)"
  shows "uspace_wf t pt (P # fl)"
    "uload (mem t) pt y = (if vpn y = vpn a then None else uload (mem s) pt y)"
proof -
  have lf: "leaf (mem t) pt va = (if vpn va = vpn a then None else leaf (mem s) pt va)" if "va < TRAPFRAME" for va
    using vl [OF TRAPFRAME_MAXVA [OF that]] by (simp add: leaf_def Let_def)
  have up: "upage (mem t) pt va = (if vpn va = vpn a then 0 else upage (mem s) pt va)" for va
    using vl [of va] vpn_TRAPFRAME [of va a] a(1) TRAPFRAME_MAXVA [of va] by (auto simp: upage_def Let_def)
  have other: "leaf (mem s) pt va = Some Q \<Longrightarrow> vpn va \<noteq> vpn a \<Longrightarrow> va < TRAPFRAME \<Longrightarrow> Q \<noteq> P" for va Q
    using uspace_wf_leaf_inj [OF wf _ a(1) _ a(2)] by blast
  show "uspace_wf t pt (P # fl)"
    unfolding uspace_wf_def own page_ok_same_rest [OF t(2)] same_rest_fields(1) [OF t(2)]
  proof (intro conjI allI impI)
    fix va Q assume va: "va < TRAPFRAME" "leaf (mem t) pt va = Some Q"
    then have "vpn va \<noteq> vpn a" "leaf (mem s) pt va = Some Q" using lf [OF va(1)] by (auto split: if_splits)
    then show "page_ok s Q" "Q \<notin> pt_own (mem s) pt \<union> set (P # fl)"
      using uspace_wf_leaf [OF wf va(1)] other va(1) by auto
  next
    fix va va' Q assume va: "va < TRAPFRAME" "va' < TRAPFRAME" "leaf (mem t) pt va = Some Q" "leaf (mem t) pt va' = Some Q"
    then show "vpn va = vpn va'"
      using lf [OF va(1)] lf [OF va(2)] uspace_wf_leaf_inj [OF wf va(1,2)] by (auto split: if_splits)
  next
    fix va assume "upage (mem t) pt va \<noteq> 0"
    then show "va < TRAPFRAME" using up [of va] uspace_wf_page(1) [OF wf, of va] by (auto split: if_splits)
  qed (rule t(1), rule uspace_wf_pt(2) [OF wf])
  show "uload (mem t) pt y = (if vpn y = vpn a then None else uload (mem s) pt y)"
  proof (cases "vpn y = vpn a \<or> upage (mem s) pt y = 0")
    case True
    then show ?thesis using up [of y] by (auto simp: uload_def)
  next
    case False
    let ?Q = "upage (mem s) pt y"
    have Q: "?Q \<noteq> P" "?Q \<notin> pt_own (mem s) pt"
      using uspace_wf_page [OF wf, of y] upage_leaf [of "mem s" pt y] False other [of y ?Q] by auto
    have "?Q + (y - PGROUNDDOWN y) \<in> pages {?Q}"
      using unat_page_offset [of y] by (simp add: pages_def range_of_def)
    moreover have "pages {?Q} \<inter> pages ({P} \<union> pt_own (mem s) pt) = {}"
      using Q uspace_wf_leaf(1) [OF wf a] upage_aligned pt_wf_own_aligned [OF uspace_wf_pt(1) [OF wf]]
      by (intro pages_disjoint_sets) (auto intro: page_aligned_ok)
    ultimately have "mem t (?Q + (y - PGROUNDDOWN y)) = mem s (?Q + (y - PGROUNDDOWN y))"
      using se unfolding same_except_def by blast
    then show ?thesis using False up [of y] by (simp add: uload_def)
  qed
qed

text \<open>One round of \<open>uvmunmap\<close> with \<^verbatim>\<open>do_free\<close>.\<close>

lemma uvmunmap_step:
  fixes s :: "'a vm_state_scheme"
  assumes wf: "uspace_wf s pt fl" and inv: "kmem_inv s fl" and a: "a < TRAPFRAME" "a < limit"
    and lm: "leaf_mapped (mem s) pt a"
  defines "P \<equiv> PTE2PA (vlookup (mem s) pt a)"
  shows "\<exists>t. uvmunmap_loop pt a limit True s = uvmunmap_loop pt (a + PGSIZE) limit True t \<and>
    kmem_inv t (P # fl) \<and> uspace_wf t pt (P # fl) \<and> pt_own (mem t) pt = pt_own (mem s) pt \<and> same_rest s t \<and>
    (\<forall>va < MAXVA. vlookup (mem t) pt va = (if vpn va = vpn a then 0 else vlookup (mem s) pt va)) \<and>
    (\<forall>x. uload (mem t) pt x = (if vpn x = vpn a then None else uload (mem s) pt x))"
proof -
  have aM: "a < MAXVA" using a(1) by (rule TRAPFRAME_MAXVA)
  have "vlookup (mem s) pt a \<noteq> 0" using lm by (auto simp: leaf_mapped_def)
  then obtain x where x: "pt_node (mem s) pt (va_path a) = Some x"
    "vlookup (mem s) pt a = load64 (mem s) (x + 8 * PX 0 a)" using vlookup_node by blast
  note lP = leaf_mapped_leaf [OF lm, folded P_def]
  note P = uspace_wf_leaf [OF wf a(1) lP]
  note pt = uspace_wf_pt [OF wf]
  have xo: "page_ok s x" using pt_wf_node [OF pt(1) va_path_path(1) x(1)] by simp
  then have x0: "x + 8 * PX 0 a \<noteq> 0"
    using entry_nonzero [OF _ PX_less] page_ok_nonzero [OF pt(2)] page_aligned_ok by blast
  obtain m where m: "kfree P s = Ok () (s\<lparr>mem := m, freelist := P\<rparr>)"
    "same_except (range_of P 4096) (mem s) m" "kmem_inv (s\<lparr>mem := m, freelist := P\<rparr>) (P # fl)"
    using kfree_ok [OF inv P(1)] P(2) by auto
  let ?u = "s\<lparr>mem := m, freelist := P\<rparr>"
  have "pages (pt_own (mem s) pt) \<inter> pages {P} = {}"
    using pt_wf_own_aligned [OF pt(1)] P by (intro pages_disjoint_sets) (auto intro: page_aligned_ok)
  then have dis: "pages (pt_own (mem s) pt) \<inter> range_of P 4096 = {}" by (simp add: pages_def)
  note fr = pt_wf_own_aligned [OF pt(1)] m(2) dis
  have own: "set (P # fl) \<inter> pt_own (mem s) pt = {}" using P(2) pt_wf_own [OF pt(1)] by auto
  have wu: "pt_wf ?u pt (P # fl)" using pt_wf_frame [OF pt(1) _ dis _ own, of ?u] m(2) by simp
  have xu: "pt_node (mem ?u) pt (va_path a) = Some x"
    using trans [OF pt_node_frame [OF fr va_path_path(1)] x(1)] by simp
  let ?t = "upd_mem (\<lambda>m. store64 m (x + 8 * PX 0 a) 0) ?u"
  note st = store_leaf [OF m(3) wu aM xu, where v = 0]
  have vl: "vlookup (mem ?t) pt va = (if vpn va = vpn a then 0 else vlookup (mem s) pt va)" if "va < MAXVA" for va
    using st(2) [OF that] vlookup_frame [OF fr] by (simp add: PGROUNDDOWN_eq_vpn)
  have own_t: "pt_own (mem ?t) pt = pt_own (mem s) pt" using st(3) pt_own_frame [OF fr] by simp
  have loop: "uvmunmap_loop pt a limit True s = uvmunmap_loop pt (a + PGSIZE) limit True ?t"
    using walk_noalloc [OF aM, of pt s] x x0 a(2) lm m(1)
    by (simp add: uvmunmap_loop.simps [of pt a] leaf_mapped_def Let_def P_def)
  have "same_except (range_of x 4096) m (mem ?t)"
    using entry_in_page [OF page_aligned_ok [OF xo] PX_less] by (simp add: upd_mem_def same_except_store64)
  moreover have "x \<in> pt_own (mem s) pt" unfolding pt_own_def using x(1) va_path_path(1) by blast
  ultimately have se: "same_except (pages ({P} \<union> pt_own (mem s) pt)) (mem s) (mem ?t)"
    by (intro same_except_mono [OF same_except_trans [OF m(2)]]) (auto simp: pages_def)
  have t: "pt_wf ?t pt (P # fl)" "kmem_inv ?t (P # fl)" "same_rest s ?t"
    using st(1) by (auto simp: pt_grow_def upd_mem_def same_restI)
  show ?thesis
    using loop t uspace_unmap_page [OF wf a(1) lP t(1,3) own_t vl se] own_t vl by blast
qed

abbreviation in_pages :: "uint64 \<Rightarrow> nat \<Rightarrow> uint64 \<Rightarrow> bool" where
  "in_pages a n x \<equiv> vpn a \<le> vpn x \<and> vpn x < vpn a + n"

lemma unat_mult_PGSIZE: "n * 4096 < 2 ^ 64 \<Longrightarrow> unat (of_nat n * PGSIZE) = n * 4096"
  by (simp add: PGSIZE_def unat_word_ariths unat_of_nat)

lemma unat_TRAPFRAME: "unat TRAPFRAME = 0x3fffffe000"
  by (simp add: TRAPFRAME_def TRAMPOLINE_def MAXVA_def PGSIZE_def)

lemma in_pages_Suc:
  "a < MAXVA \<Longrightarrow> in_pages a (Suc n) x \<longleftrightarrow> vpn x = vpn a \<or> in_pages (a + PGSIZE) n x"
  by (auto simp: vpn_next(1))

lemma in_pages_TRAPFRAME: "in_pages a n x \<Longrightarrow> unat a + 4096 * n \<le> unat TRAPFRAME \<Longrightarrow> x < TRAPFRAME"
  by (auto simp: word_less_nat_alt unat_TRAPFRAME)

lemma uvmunmap_loop_spec:
  fixes s :: "'a vm_state_scheme"
  assumes "uspace_wf s pt fl" "kmem_inv s fl" "unat a + 4096 * n \<le> unat TRAPFRAME"
    "limit = a + of_nat n * PGSIZE" "\<forall>x. in_pages a n x \<longrightarrow> leaf_mapped (mem s) pt x"
  shows "\<exists>t ps. uvmunmap_loop pt a limit True s = Ok () t \<and> kmem_inv t (ps @ fl) \<and> uspace_wf t pt (ps @ fl) \<and>
    length ps = n \<and> pt_own (mem t) pt = pt_own (mem s) pt \<and> same_rest s t \<and>
    (\<forall>x < MAXVA. vlookup (mem t) pt x = (if in_pages a n x then 0 else vlookup (mem s) pt x)) \<and>
    (\<forall>x. uload (mem t) pt x = (if in_pages a n x then None else uload (mem s) pt x))"
  using assms
proof (induction n arbitrary: a s fl)
  case 0
  then have "uvmunmap_loop pt a limit True s = Ok () s" by (simp add: uvmunmap_loop.simps [of pt a])
  with 0 show ?case by (intro exI [of _ s] exI [of _ "[]"]) (auto simp: same_restI)
next
  case (Suc n)
  have aT: "a < TRAPFRAME" using Suc.prems(3) by (simp add: word_less_nat_alt)
  then have aM: "a < MAXVA" by (rule TRAPFRAME_MAXVA)
  have "Suc n * 4096 < 2 ^ 64" using Suc.prems(3) by (simp add: unat_TRAPFRAME)
  then have "unat (of_nat (Suc n) * PGSIZE) = Suc n * 4096" by (rule unat_mult_PGSIZE)
  then have lim: "a < limit"
    unfolding Suc.prems(4) using Suc.prems(3) by (simp add: word_less_nat_alt unat_plus_if' unat_TRAPFRAME)
  obtain t where t: "uvmunmap_loop pt a limit True s = uvmunmap_loop pt (a + PGSIZE) limit True t"
    "kmem_inv t (PTE2PA (vlookup (mem s) pt a) # fl)" "uspace_wf t pt (PTE2PA (vlookup (mem s) pt a) # fl)"
    "pt_own (mem t) pt = pt_own (mem s) pt" "same_rest s t"
    "\<forall>va < MAXVA. vlookup (mem t) pt va = (if vpn va = vpn a then 0 else vlookup (mem s) pt va)"
    "\<forall>x. uload (mem t) pt x = (if vpn x = vpn a then None else uload (mem s) pt x)"
    using uvmunmap_step [OF Suc.prems(1,2) aT lim] Suc.prems(5) by auto
  have up: "unat (a + PGSIZE) + 4096 * n \<le> unat TRAPFRAME" using Suc.prems(3) vpn_next(2) [OF aM] by simp
  have lim': "limit = (a + PGSIZE) + of_nat n * PGSIZE" using Suc.prems(4) by (simp add: algebra_simps)
  have "leaf_mapped (mem t) pt x" if "in_pages (a + PGSIZE) n x" for x
  proof -
    have "x < MAXVA" using in_pages_TRAPFRAME [OF that up] by (rule TRAPFRAME_MAXVA)
    moreover have "vpn x \<noteq> vpn a" using that by (auto simp: vpn_next(1) [OF aM])
    moreover have "leaf_mapped (mem s) pt x" using Suc.prems(5) that in_pages_Suc [OF aM] by blast
    ultimately show ?thesis using t(6) by (simp add: leaf_mapped_def)
  qed
  then obtain u ps where u: "uvmunmap_loop pt (a + PGSIZE) limit True t = Ok () u"
    "kmem_inv u (ps @ PTE2PA (vlookup (mem s) pt a) # fl)" "uspace_wf u pt (ps @ PTE2PA (vlookup (mem s) pt a) # fl)"
    "length ps = n" "pt_own (mem u) pt = pt_own (mem t) pt" "same_rest t u"
    "\<forall>x < MAXVA. vlookup (mem u) pt x = (if in_pages (a + PGSIZE) n x then 0 else vlookup (mem t) pt x)"
    "\<forall>x. uload (mem u) pt x = (if in_pages (a + PGSIZE) n x then None else uload (mem t) pt x)"
    using Suc.IH [OF t(3,2) up lim'] by blast
  let ?ps = "ps @ [PTE2PA (vlookup (mem s) pt a)]"
  have "\<forall>x < MAXVA. vlookup (mem u) pt x = (if in_pages a (Suc n) x then 0 else vlookup (mem s) pt x)"
    "\<forall>x. uload (mem u) pt x = (if in_pages a (Suc n) x then None else uload (mem s) pt x)"
    unfolding in_pages_Suc [OF aM] using t(6,7) u(7,8) by simp_all
  moreover have "kmem_inv u (?ps @ fl)" "uspace_wf u pt (?ps @ fl)" "length ?ps = Suc n" using u by simp_all
  ultimately show ?case using t(1,4) u(1,5) same_rest_trans [OF t(5) u(6)] by metis
qed

lemma uvmunmap_spec:
  fixes s :: "'a vm_state_scheme"
  assumes "uspace_wf s pt fl" "kmem_inv s fl" "page_aligned a" "unat a + 4096 * n \<le> unat TRAPFRAME"
    "\<forall>x. in_pages a n x \<longrightarrow> leaf_mapped (mem s) pt x"
  shows "\<exists>t ps. uvmunmap pt a (of_nat n) True s = Ok () t \<and> kmem_inv t (ps @ fl) \<and> uspace_wf t pt (ps @ fl) \<and>
    length ps = n \<and> pt_own (mem t) pt = pt_own (mem s) pt \<and> same_rest s t \<and>
    (\<forall>x < MAXVA. vlookup (mem t) pt x = (if in_pages a n x then 0 else vlookup (mem s) pt x)) \<and>
    (\<forall>x. uload (mem t) pt x = (if in_pages a n x then None else uload (mem s) pt x))"
  using uvmunmap_loop_spec [OF assms(1,2,4) refl assms(5)] assms(3)
  by (simp add: uvmunmap_def page_aligned_def)

section \<open>uvmdealloc\<close>

lemma scast_ucast_small:
  assumes "unat (x :: uint64) < 2 ^ 31"
  shows "scast (ucast x :: 32 word) = x"
proof (rule bit_word_eqI)
  fix k assume "k < LENGTH(64)"
  have "bit x j \<Longrightarrow> j < 31" for j using bit_small [of x j 31] assms by simp
  then have "\<not> bit x 31" "bit x k \<Longrightarrow> k < 31" by blast+
  then show "bit (scast (ucast x :: 32 word) :: uint64) k = bit x k" by (auto simp: bit_simps min_def)
qed

definition npages :: "uint64 \<Rightarrow> nat" where
  "npages sz = (unat sz + 4095) div 4096"

lemma PGROUNDUP_npages:
  assumes "sz \<le> TRAPFRAME"
  shows "unat (PGROUNDUP sz) = 4096 * npages sz" "4096 * npages sz \<le> unat TRAPFRAME"
proof -
  have le: "unat sz \<le> 0x3fffffe000" using assms by (simp add: word_le_nat_alt unat_TRAPFRAME)
  then show "unat (PGROUNDUP sz) = 4096 * npages sz" by (simp add: unat_PGROUNDUP npages_def)
  have "npages sz \<le> 0x3fffffe" unfolding npages_def using le by simp
  then show "4096 * npages sz \<le> unat TRAPFRAME" by (simp add: unat_TRAPFRAME)
qed

lemma npages_mono: "a \<le> b \<Longrightarrow> npages a \<le> npages b"
  unfolding npages_def by (simp add: word_le_nat_alt div_le_mono)

lemma unat_div_PGSIZE: "unat (x div PGSIZE) = unat x div 4096"
  by (simp add: PGSIZE_def unat_div)

lemma uvmdealloc_spec:
  fixes s :: "'a vm_state_scheme"
  assumes wf: "uspace_wf s pt fl" "kmem_inv s fl" and sz: "newsz \<le> oldsz" "oldsz \<le> TRAPFRAME"
    and lm: "\<forall>x. npages newsz \<le> vpn x \<and> vpn x < npages oldsz \<longrightarrow> leaf_mapped (mem s) pt x"
  shows "\<exists>t ps. uvmdealloc pt oldsz newsz s = Ok newsz t \<and> kmem_inv t (ps @ fl) \<and> uspace_wf t pt (ps @ fl) \<and>
    length ps = npages oldsz - npages newsz \<and> pt_own (mem t) pt = pt_own (mem s) pt \<and> same_rest s t \<and>
    (\<forall>x < MAXVA. vlookup (mem t) pt x = (if npages newsz \<le> vpn x \<and> vpn x < npages oldsz then 0 else vlookup (mem s) pt x)) \<and>
    (\<forall>x. uload (mem t) pt x = (if npages newsz \<le> vpn x \<and> vpn x < npages oldsz then None else uload (mem s) pt x))"
proof -
  note up = PGROUNDUP_npages [OF sz(2)] PGROUNDUP_npages [OF order_trans [OF sz]]
  have le: "npages newsz \<le> npages oldsz" by (rule npages_mono [OF sz(1)])
  let ?n = "npages oldsz - npages newsz" and ?a = "PGROUNDUP newsz"
  have va: "vpn ?a = npages newsz" using up(3) by simp
  have range: "in_pages ?a ?n x \<longleftrightarrow> npages newsz \<le> vpn x \<and> vpn x < npages oldsz" for x
    using le by (auto simp: va)
  show ?thesis
  proof (cases "npages newsz < npages oldsz")
    case False
    with le have eq: "npages newsz = npages oldsz" by simp
    then have "PGROUNDUP newsz = PGROUNDUP oldsz" using up by (simp add: word_unat_eq_iff)
    then have "uvmdealloc pt oldsz newsz s = Ok newsz s" using sz by (auto simp: uvmdealloc_def)
    with eq wf show ?thesis by (intro exI [of _ s] exI [of _ "[]"]) (auto simp: same_restI)
  next
    case True
    then have lt: "PGROUNDUP newsz < PGROUNDUP oldsz" "newsz \<noteq> oldsz" using up by (auto simp: word_less_nat_alt)
    have "unat (PGROUNDUP oldsz - PGROUNDUP newsz) = 4096 * ?n"
      using lt up by (simp add: unat_sub order_less_imp_le diff_mult_distrib2)
    then have n: "unat ((PGROUNDUP oldsz - PGROUNDUP newsz) div PGSIZE) = ?n" by (simp add: unat_div_PGSIZE)
    moreover have "?n < 2 ^ 31" using up(2) by (simp add: unat_TRAPFRAME)
    moreover have "of_nat (unat ((PGROUNDUP oldsz - PGROUNDUP newsz) div PGSIZE)) =
        (PGROUNDUP oldsz - PGROUNDUP newsz) div PGSIZE" by simp
    ultimately have "scast (ucast ((PGROUNDUP oldsz - PGROUNDUP newsz) div PGSIZE) :: 32 word) = (of_nat ?n :: uint64)"
      by (metis scast_ucast_small)
    then have d: "uvmdealloc pt oldsz newsz s = bindK (uvmunmap pt ?a (of_nat ?n) True s) (\<lambda>_. Ok newsz)"
      using lt sz(1) by (simp add: uvmdealloc_def not_le Let_def order.strict_iff_order)
    have "unat ?a + 4096 * ?n \<le> unat TRAPFRAME" using up le by (simp add: diff_mult_distrib2)
    from uvmunmap_spec [OF wf PGROUNDUP_aligned this] lm show ?thesis
      unfolding range d by (auto simp: bindK.simps)
  qed
qed

section \<open>Growing the page table and returning a page\<close>

lemma uspace_grow:
  fixes s :: "'a vm_state_scheme"
  assumes wf: "uspace_wf s pt fl" and inv: "kmem_inv s fl" and g: "pt_grow pt s fl t fl'"
    and vl: "\<And>x. x < MAXVA \<Longrightarrow> vlookup (mem t) pt x = vlookup (mem s) pt x"
  shows "uspace_wf t pt fl'" "uload (mem t) pt x = uload (mem s) pt x"
    "va < TRAPFRAME \<Longrightarrow> leaf (mem t) pt va = leaf (mem s) pt va"
proof -
  have rest: "same_rest s t" and se: "same_except (pages (pt_own (mem s) pt \<union> set fl)) (mem s) (mem t)"
    using g by (simp_all add: pt_grow_def)
  have up: "upage (mem t) pt x = upage (mem s) pt x" for x
    using vl [of x] by (cases "x < MAXVA") (simp_all add: upage_def Let_def)
  show lf: "leaf (mem t) pt x = leaf (mem s) pt x" if "x < TRAPFRAME" for x
    using vl [OF TRAPFRAME_MAXVA [OF that]] by (simp add: leaf_def)
  show "uspace_wf t pt fl'"
    unfolding uspace_wf_def page_ok_same_rest [OF rest] same_rest_fields(1) [OF rest] up
  proof (intro conjI allI impI)
    show "pt_wf t pt fl'" using g by (simp add: pt_grow_def)
  next
    fix va Q assume va: "va < TRAPFRAME" "leaf (mem t) pt va = Some Q"
    then show "page_ok s Q" "Q \<notin> pt_own (mem t) pt \<union> set fl'"
      using uspace_wf_leaf [OF wf va(1)] lf pt_grow_own [OF g] by auto
  next
    fix va va' Q assume "va < TRAPFRAME" "va' < TRAPFRAME" "leaf (mem t) pt va = Some Q" "leaf (mem t) pt va' = Some Q"
    then show "vpn va = vpn va'" using uspace_wf_leaf_inj [OF wf] lf by metis
  qed (auto intro: uspace_wf_pt(2) [OF wf] uspace_wf_page(1) [OF wf])
  show "uload (mem t) pt x = uload (mem s) pt x"
  proof (cases "upage (mem s) pt x = 0")
    case False
    have "upage (mem s) pt x + (x - PGROUNDDOWN x) \<in> pages {upage (mem s) pt x}"
      using unat_page_offset [of x] by (simp add: pages_def range_of_def)
    moreover have "pages {upage (mem s) pt x} \<inter> pages (pt_own (mem s) pt \<union> set fl) = {}"
      using uspace_wf_page(3) [OF wf False] upage_aligned own_fl_aligned [OF uspace_wf_pt(1) [OF wf] inv]
      by (intro pages_disjoint_sets) auto
    ultimately have "mem t (upage (mem s) pt x + (x - PGROUNDDOWN x)) = mem s (upage (mem s) pt x + (x - PGROUNDDOWN x))"
      using se unfolding same_except_def by blast
    then show ?thesis by (simp add: uload_def up)
  qed (simp add: uload_def up)
qed

lemma uspace_give_page:
  fixes s :: "'a vm_state_scheme"
  assumes wf: "uspace_wf s pt fl" and inv: "kmem_inv s fl"
    and p: "page_ok s p" "p \<notin> pt_own (mem s) pt \<union> set fl" "\<forall>va < TRAPFRAME. leaf (mem s) pt va \<noteq> Some p"
  shows "\<exists>t. kfree p s = Ok () t \<and> kmem_inv t (p # fl) \<and> uspace_wf t pt (p # fl) \<and> same_rest s t \<and>
    pt_own (mem t) pt = pt_own (mem s) pt \<and>
    (\<forall>x. vlookup (mem t) pt x = vlookup (mem s) pt x) \<and> (\<forall>x. uload (mem t) pt x = uload (mem s) pt x)"
proof -
  obtain m where m: "kfree p s = Ok () (s\<lparr>mem := m, freelist := p\<rparr>)"
    "same_except (range_of p 4096) (mem s) m" "kmem_inv (s\<lparr>mem := m, freelist := p\<rparr>) (p # fl)"
    using kfree_ok [OF inv p(1)] p(2) by auto
  let ?t = "s\<lparr>mem := m, freelist := p\<rparr>"
  have "pages (pt_own (mem s) pt) \<inter> pages {p} = {}"
    using pt_wf_own_aligned [OF uspace_wf_pt(1) [OF wf]] p by (intro pages_disjoint_sets) (auto intro: page_aligned_ok)
  then have dis: "pages (pt_own (mem s) pt) \<inter> range_of p 4096 = {}" by (simp add: pages_def)
  have own: "set (p # fl) \<inter> pt_own (mem s) pt = {}"
    using p(2) pt_wf_own [OF uspace_wf_pt(1) [OF wf]] by auto
  have lf: "\<forall>va P. va < TRAPFRAME \<longrightarrow> leaf (mem s) pt va = Some P \<longrightarrow> P \<notin> set (p # fl)"
    using uspace_wf_leaf(2) [OF wf] p(3) by auto
  have se: "same_except (range_of p 4096) (mem s) (mem ?t)" using m(2) by simp
  note fr = uspace_frame [OF wf se dis _ own lf]
  have "uload (mem ?t) pt x = uload (mem s) pt x" for x
  proof (rule uload_eqI [OF wf])
    show "same_except (pages {p}) (mem s) (mem ?t)" using se by (simp add: pages_def)
    show "upage (mem s) pt y \<noteq> 0 \<Longrightarrow> upage (mem s) pt y \<notin> {p}" for y
      using uspace_wf_page(1) [OF wf, of y] upage_leaf [of "mem s" pt y] p(3) by auto
  qed (use fr(2) page_aligned_ok [OF p(1)] in auto)
  then show ?thesis using m(1,3) fr by (intro exI [of _ ?t]) (auto simp: same_restI)
qed

section \<open>uvmalloc\<close>

abbreviation uperm :: uint64 where
  "uperm \<equiv> PTE_W OR PTE_X OR PTE_R OR PTE_U"

lemma uperm_simps: "unat uperm < 1024" "uperm AND PTE_U \<noteq> 0" "uperm OR PTE_V \<noteq> PTE_V"
  by (simp_all add: PTE_W_def PTE_X_def PTE_R_def PTE_U_def PTE_V_def)

lemma PTE_FLAGS_new: "unat perm < 1024 \<Longrightarrow> PTE_FLAGS (PA2PTE P OR perm OR PTE_V) = perm OR PTE_V"
  by (rule PTE_FLAGS_PA2PTE, rule or_less_1024) (simp_all add: PTE_V_def)

lemma aligned_less_iff:
  assumes "page_aligned a"
  shows "a < sz \<longleftrightarrow> vpn a < npages sz"
proof -
  obtain k where k: "unat a = 4096 * k" using assms by (auto simp: page_aligned_unat)
  have "4096 * k < unat sz \<longleftrightarrow> k < (unat sz + 4095) div 4096" by auto
  then show ?thesis by (simp add: word_less_nat_alt npages_def k)
qed

text \<open>One round of \<open>uvmalloc\<close>: a zeroed page is mapped at \<open>a\<close>, or the loop gives up with every new
  page returned to the free list.\<close>

lemma uvmalloc_step:
  fixes s :: "'a vm_state_scheme"
  assumes wf: "uspace_wf s pt fl" and inv: "kmem_inv s fl" and a: "page_aligned a" "a < TRAPFRAME" "a < newsz"
    and free: "vlookup (mem s) pt a AND PTE_V = 0"
  shows "(\<exists>t fl'. uvmalloc_loop pt a oldsz newsz s = uvmalloc_loop pt (a + PGSIZE) oldsz newsz t \<and>
      kmem_inv t fl' \<and> uspace_wf t pt fl' \<and> same_rest s t \<and> length fl \<le> length fl' + 3 \<and> leaf_mapped (mem t) pt a \<and>
      (\<forall>x < MAXVA. vpn x \<noteq> vpn a \<longrightarrow> vlookup (mem t) pt x = vlookup (mem s) pt x) \<and>
      (\<forall>x. uload (mem t) pt x = (if vpn x = vpn a then Some 0 else uload (mem s) pt x))) \<or>
    (\<exists>t fl'. uvmalloc_loop pt a oldsz newsz s = bindK (uvmdealloc pt a oldsz t) (\<lambda>_. Ok 0) \<and>
      kmem_inv t fl' \<and> uspace_wf t pt fl' \<and> same_rest s t \<and> length fl < 3 \<and>
      (\<forall>x < MAXVA. vlookup (mem t) pt x = vlookup (mem s) pt x) \<and>
      (\<forall>x. uload (mem t) pt x = uload (mem s) pt x))"
proof (cases fl)
  case Nil
  then have "uvmalloc_loop pt a oldsz newsz s = bindK (uvmdealloc pt a oldsz s) (\<lambda>_. Ok 0)"
    using kalloc_empty [of s] inv a(3) by (simp add: uvmalloc_loop.simps [of pt a])
  then show ?thesis using wf inv Nil same_restI(4) by fastforce
next
  case (Cons p fl1)
  let ?t = "s\<lparr>freelist := load64 (mem s) p, mem := fresh_zero (mem s) p\<rparr>"
  note kz = kalloc_zero [OF inv [unfolded Cons]]
  have se: "same_except (range_of p 4096) (mem s) (mem ?t)" by (simp add: same_except_fresh_zero)
  note tp = uspace_take_page [OF wf [unfolded Cons] inv [unfolded Cons] se]
  have t: "uspace_wf ?t pt fl1" "p \<notin> pt_own (mem ?t) pt \<union> set fl1" "vlookup (mem ?t) pt x = vlookup (mem s) pt x"
    "uload (mem ?t) pt x = uload (mem s) pt x" "page_ok ?t p" "\<forall>va < TRAPFRAME. leaf (mem ?t) pt va \<noteq> Some p" for x
    using tp inv Cons by (auto simp: kmem_inv_def)
  obtain u fl' k where u: "mappages pt a PGSIZE p uperm ?t = Ok (if k = 1 then 0 else -1) u" "k \<le> 1"
    "pt_grow pt ?t fl1 u fl'" "k < 1 \<longrightarrow> fl' = []" "2 \<le> length fl1 \<longrightarrow> k = 1" "k = 1 \<longrightarrow> length fl1 \<le> length fl' + 2"
    "\<forall>va < MAXVA. vlookup (mem u) pt va = map_range (vlookup (mem ?t) pt) a k p uperm va"
    using mappages_one [OF kz(4) uspace_wf_pt(1) [OF t(1)] a(1,2), of p uperm] free t(3) by auto
  have rest: "same_rest s u" "kmem_inv u fl'"
    using u(3) same_rest_trans [OF same_restI(2)] by (auto simp: pt_grow_def)
  have loop: "uvmalloc_loop pt a oldsz newsz s = (if k = 1 then uvmalloc_loop pt (a + PGSIZE) oldsz newsz u
      else bindK (kfree p u) (\<lambda>_ s4. bindK (uvmdealloc pt a oldsz s4) (\<lambda>_. Ok 0)))"
    using kz(1-3) a(3) u(1) by (simp add: uvmalloc_loop.simps [of pt a])
  show ?thesis
  proof (cases "k = 1")
    case True
    have vl: "\<forall>va < MAXVA. vlookup (mem u) pt va = map_range (vlookup (mem ?t) pt) a 1 p uperm va" using u(7) True by simp
    have lt: "\<And>va. va < TRAPFRAME \<Longrightarrow> leaf (mem ?t) pt va \<noteq> Some p" using t(6) by blast
    note mp = uspace_map_page [OF t(1) kz(4) u(3) a(2) t(5,2) lt uperm_simps(1) vl]
    have "uload (mem u) pt x = (if vpn x = vpn a then Some 0 else uload (mem s) pt x)" for x
      using mp(2) uperm_simps(2) fresh_zero_byte [of "x - PGROUNDDOWN x"] unat_page_offset [of x] t(4) by simp
    moreover have "vlookup (mem u) pt x = (if vpn x = vpn a then PA2PTE p OR uperm OR PTE_V else vlookup (mem s) pt x)"
      if "x < MAXVA" for x
      using vl that t(3) by (auto simp: map_range_def le_less_Suc_eq)
    then have "leaf_mapped (mem u) pt a" "\<forall>x < MAXVA. vpn x \<noteq> vpn a \<longrightarrow> vlookup (mem u) pt x = vlookup (mem s) pt x"
      using TRAPFRAME_MAXVA [OF a(2)] new_pte(1) [OF page_aligned_ok [OF t(5)] uperm_simps(1)]
        PTE_FLAGS_new [OF uperm_simps(1)] uperm_simps(3) by (simp_all add: leaf_mapped_def)
    moreover have "length fl \<le> length fl' + 3" using u(6) True Cons by simp
    moreover have "uvmalloc_loop pt a oldsz newsz s = uvmalloc_loop pt (a + PGSIZE) oldsz newsz u"
      using loop True by simp
    ultimately show ?thesis using rest mp(1) by blast
  next
    case False
    then have k: "k = 0" "fl' = []" "length fl < 3" using u(2,4,5) Cons by auto
    have vl: "vlookup (mem u) pt x = vlookup (mem ?t) pt x" if "x < MAXVA" for x using u(7) that k(1) by simp
    note gr = uspace_grow [OF t(1) kz(4) u(3) vl]
    have "page_ok u p" using t(5) page_ok_same_rest [OF rest(1)] by simp
    moreover have "p \<notin> pt_own (mem u) pt \<union> set fl'" using pt_grow_own [OF u(3)] t(2) by simp
    moreover have "\<forall>va < TRAPFRAME. leaf (mem u) pt va \<noteq> Some p" using gr(3) t(6) by simp
    ultimately obtain v where v: "kfree p u = Ok () v" "kmem_inv v (p # fl')" "uspace_wf v pt (p # fl')" "same_rest u v"
      "\<forall>x. vlookup (mem v) pt x = vlookup (mem u) pt x" "\<forall>x. uload (mem v) pt x = uload (mem u) pt x"
      using uspace_give_page [OF gr(1) rest(2)] by blast
    then have "\<forall>x < MAXVA. vlookup (mem v) pt x = vlookup (mem s) pt x" "\<forall>x. uload (mem v) pt x = uload (mem s) pt x"
      using vl gr(2) t(3,4) by simp_all
    moreover have "uvmalloc_loop pt a oldsz newsz s = bindK (uvmdealloc pt a oldsz v) (\<lambda>_. Ok 0)"
      using loop False v(1) by simp
    ultimately show ?thesis using v(2,3) same_rest_trans [OF rest(1) v(4)] k(3) by blast
  qed
qed

lemma vpn_less: "vpn x < vpn a \<Longrightarrow> x < a"
  using div_le_mono [of "unat a" "unat x" 4096] by (force simp: word_less_nat_alt)

lemma uvmalloc_loop_spec:
  fixes s :: "'a vm_state_scheme"
  assumes "uspace_wf s pt fl" "kmem_inv s fl" "page_aligned a" "page_aligned oldsz" "oldsz \<le> a" "newsz \<le> TRAPFRAME"
    "npages newsz = vpn a + n"
    "\<forall>x. vpn a \<le> vpn x \<and> vpn x < npages newsz \<longrightarrow> vlookup (mem s) pt x AND PTE_V = 0"
    "\<forall>x. vpn oldsz \<le> vpn x \<and> vpn x < vpn a \<longrightarrow> leaf_mapped (mem s) pt x"
  shows "\<exists>t fl' r. uvmalloc_loop pt a oldsz newsz s = Ok r t \<and> kmem_inv t fl' \<and> uspace_wf t pt fl' \<and> same_rest s t \<and>
    (\<forall>x < MAXVA. \<not> (vpn oldsz \<le> vpn x \<and> vpn x < npages newsz) \<longrightarrow> vlookup (mem t) pt x = vlookup (mem s) pt x) \<and>
    (r = newsz \<and> (\<forall>x. vpn oldsz \<le> vpn x \<and> vpn x < npages newsz \<longrightarrow> leaf_mapped (mem t) pt x) \<and>
       (\<forall>x. uload (mem t) pt x = (if in_pages a n x then Some 0 else uload (mem s) pt x)) \<or>
     r = 0 \<and> length fl < 3 * n \<and>
       (\<forall>x. uload (mem t) pt x = (if vpn oldsz \<le> vpn x \<and> vpn x < vpn a + n then None else uload (mem s) pt x)))"
  using assms
proof (induction n arbitrary: a s fl)
  case 0
  then have "\<not> a < newsz" by (simp add: aligned_less_iff)
  then have "uvmalloc_loop pt a oldsz newsz s = Ok newsz s" by (simp add: uvmalloc_loop.simps [of pt a])
  with 0 show ?case by (intro exI [of _ s] exI [of _ fl] exI [of _ newsz]) (auto simp: same_restI)
next
  case (Suc n)
  have an: "a < newsz" using Suc.prems(3,7) by (simp add: aligned_less_iff)
  then have aT: "a < TRAPFRAME" using Suc.prems(6) by (rule less_le_trans)
  then have aM: "a < MAXVA" by (rule TRAPFRAME_MAXVA)
  have free: "vlookup (mem s) pt a AND PTE_V = 0" using Suc.prems(7,8) by auto
  have oa: "vpn oldsz \<le> vpn a" using Suc.prems(5) by (simp add: word_le_nat_alt div_le_mono)
  show ?case
    using uvmalloc_step [OF Suc.prems(1,2,3) aT an free, of oldsz]
  proof (elim disjE exE conjE)
    fix t fl' assume t: "uvmalloc_loop pt a oldsz newsz s = uvmalloc_loop pt (a + PGSIZE) oldsz newsz t"
      "kmem_inv t fl'" "uspace_wf t pt fl'" "same_rest s t" "length fl \<le> length fl' + 3" "leaf_mapped (mem t) pt a"
      "\<forall>x < MAXVA. vpn x \<noteq> vpn a \<longrightarrow> vlookup (mem t) pt x = vlookup (mem s) pt x"
      "\<forall>x. uload (mem t) pt x = (if vpn x = vpn a then Some 0 else uload (mem s) pt x)"
    note vn = vpn_next [OF aM]
    have b: "x < MAXVA" if "vpn x < npages newsz" for x
      using that PGROUNDUP_npages(2) [OF Suc.prems(6)] by (simp add: word_less_nat_alt unat_TRAPFRAME MAXVA_def)
    have lm_a: "leaf_mapped (mem t) pt x" if "vpn x = vpn a" for x
      using t(6) that vlookup_PGROUNDDOWN PGROUNDDOWN_eq_vpn unfolding leaf_mapped_def by metis
    have "page_aligned (a + PGSIZE)" using Suc.prems(3) vn(2) by (simp add: page_aligned_unat)
    moreover have "oldsz \<le> a + PGSIZE" using Suc.prems(5) vn(2) by (simp add: word_le_nat_alt)
    moreover have "npages newsz = vpn (a + PGSIZE) + n" using Suc.prems(7) vn(1) by simp
    moreover have "\<forall>x. vpn (a + PGSIZE) \<le> vpn x \<and> vpn x < npages newsz \<longrightarrow> vlookup (mem t) pt x AND PTE_V = 0"
      using t(7) b Suc.prems(8) by (simp add: vn(1))
    moreover have "\<forall>x. vpn oldsz \<le> vpn x \<and> vpn x < vpn (a + PGSIZE) \<longrightarrow> leaf_mapped (mem t) pt x"
    proof (intro allI impI)
      fix x assume x: "vpn oldsz \<le> vpn x \<and> vpn x < vpn (a + PGSIZE)"
      show "leaf_mapped (mem t) pt x"
      proof (cases "vpn x = vpn a")
        case False
        then have "vpn x < vpn a" "x < MAXVA" using x b [of x] Suc.prems(7) by (auto simp: vn(1))
        then show ?thesis using t(7) False Suc.prems(9) x by (simp add: leaf_mapped_def)
      qed (rule lm_a)
    qed
    ultimately obtain u fl'' r where u: "uvmalloc_loop pt (a + PGSIZE) oldsz newsz t = Ok r u" "kmem_inv u fl''"
      "uspace_wf u pt fl''" "same_rest t u"
      "\<forall>x < MAXVA. \<not> (vpn oldsz \<le> vpn x \<and> vpn x < npages newsz) \<longrightarrow> vlookup (mem u) pt x = vlookup (mem t) pt x"
      "r = newsz \<and> (\<forall>x. vpn oldsz \<le> vpn x \<and> vpn x < npages newsz \<longrightarrow> leaf_mapped (mem u) pt x) \<and>
         (\<forall>x. uload (mem u) pt x = (if in_pages (a + PGSIZE) n x then Some 0 else uload (mem t) pt x)) \<or>
       r = 0 \<and> length fl' < 3 * n \<and>
         (\<forall>x. uload (mem u) pt x = (if vpn oldsz \<le> vpn x \<and> vpn x < vpn (a + PGSIZE) + n then None else uload (mem t) pt x))"
      using Suc.IH [OF t(3,2) _ Suc.prems(4) _ Suc.prems(6)] by blast
    have "\<forall>x < MAXVA. \<not> (vpn oldsz \<le> vpn x \<and> vpn x < npages newsz) \<longrightarrow> vlookup (mem u) pt x = vlookup (mem s) pt x"
    proof (intro allI impI)
      fix x assume x: "x < MAXVA" "\<not> (vpn oldsz \<le> vpn x \<and> vpn x < npages newsz)"
      then have "vpn x \<noteq> vpn a" using oa Suc.prems(7) by auto
      with x u(5) t(7) show "vlookup (mem u) pt x = vlookup (mem s) pt x" by simp
    qed
    moreover have "r = newsz \<and> (\<forall>x. vpn oldsz \<le> vpn x \<and> vpn x < npages newsz \<longrightarrow> leaf_mapped (mem u) pt x) \<and>
         (\<forall>x. uload (mem u) pt x = (if in_pages a (Suc n) x then Some 0 else uload (mem s) pt x)) \<or>
       r = 0 \<and> length fl < 3 * Suc n \<and>
         (\<forall>x. uload (mem u) pt x = (if vpn oldsz \<le> vpn x \<and> vpn x < vpn a + Suc n then None else uload (mem s) pt x))"
      using u(6) t(5,8) oa unfolding in_pages_Suc [OF aM] by (auto simp: vn(1))
    ultimately show ?case
      using u(1-3) same_rest_trans [OF t(4) u(4)] unfolding t(1) by blast
  next
    fix t fl' assume t: "uvmalloc_loop pt a oldsz newsz s = bindK (uvmdealloc pt a oldsz t) (\<lambda>_. Ok 0)"
      "kmem_inv t fl'" "uspace_wf t pt fl'" "same_rest s t" "length fl < 3"
      "\<forall>x < MAXVA. vlookup (mem t) pt x = vlookup (mem s) pt x" "\<forall>x. uload (mem t) pt x = uload (mem s) pt x"
    have np: "npages a = vpn a" "npages oldsz = vpn oldsz"
      using Suc.prems(3,4) by (auto simp: npages_def page_aligned_unat)
    have "\<forall>x. npages oldsz \<le> vpn x \<and> vpn x < npages a \<longrightarrow> leaf_mapped (mem t) pt x"
    proof (intro allI impI)
      fix x assume x: "npages oldsz \<le> vpn x \<and> vpn x < npages a"
      then have "x < a" by (intro vpn_less) (simp add: np)
      then have "x < MAXVA" using aM by (rule less_trans)
      with x t(6) Suc.prems(9) show "leaf_mapped (mem t) pt x" by (simp add: leaf_mapped_def np)
    qed
    then obtain u ps where u: "uvmdealloc pt a oldsz t = Ok oldsz u" "kmem_inv u (ps @ fl')" "uspace_wf u pt (ps @ fl')"
      "same_rest t u"
      "\<forall>x < MAXVA. vlookup (mem u) pt x = (if npages oldsz \<le> vpn x \<and> vpn x < npages a then 0 else vlookup (mem t) pt x)"
      "\<forall>x. uload (mem u) pt x = (if npages oldsz \<le> vpn x \<and> vpn x < npages a then None else uload (mem t) pt x)"
      using uvmdealloc_spec [OF t(3,2) Suc.prems(5) order_less_imp_le [OF aT]] by blast
    have none: "uload (mem s) pt x = None" if "vpn a \<le> vpn x" "vpn x < vpn a + Suc n" for x
      using Suc.prems(7,8) that by (simp add: uload_eq_None upage_def Let_def)
    have "uload (mem u) pt x = (if vpn oldsz \<le> vpn x \<and> vpn x < vpn a + Suc n then None else uload (mem s) pt x)" for x
      using u(6) t(7) none [of x] by (cases "vpn x < vpn a") (simp_all add: np)
    moreover have "\<forall>x < MAXVA. \<not> (vpn oldsz \<le> vpn x \<and> vpn x < npages newsz) \<longrightarrow> vlookup (mem u) pt x = vlookup (mem s) pt x"
      using u(5) t(6) Suc.prems(7) by (simp add: np)
    ultimately show ?case
      using t(1,5) u(1-3) same_rest_trans [OF t(4) u(4)]
      by (intro exI [of _ u] exI [of _ "ps @ fl'"] exI [of _ 0]) simp
  qed
qed

end
