(* ===== verification/Xv6_UvmCopy.thy ===== *)
theory Xv6_UvmCopy
  imports Xv6_Uvm
begin

text \<open>
  \<open>uvmcopy\<close>, the memory half of \<open>fork\<close>, and the properties of the user-memory operations. Two address
  spaces are apart when no page belongs to both; an operation on one then leaves the other alone.
\<close>

section \<open>Two address spaces\<close>

definition uset :: "memory \<Rightarrow> uint64 \<Rightarrow> uint64 set" where
  "uset m pt = pt_own m pt \<union> {P. \<exists>va < TRAPFRAME. leaf m pt va = Some P}"

lemma uset_ok: "uspace_wf s pt fl \<Longrightarrow> x \<in> uset (mem s) pt \<Longrightarrow> page_ok s x \<and> x \<notin> set fl"
  unfolding uset_def using uspace_wf_leaf [of s pt fl] pt_wf_own [OF uspace_wf_pt(1)] by blast

lemma uspace_other:
  fixes s :: "'a vm_state_scheme"
  assumes wf: "uspace_wf s pt fl" and se: "same_except (pages B) (mem s) (mem t)"
    and B: "\<forall>x \<in> B. page_aligned x" "B \<inter> uset (mem s) pt = {}"
    and t: "sym_end t = sym_end s" "set fl' \<inter> uset (mem s) pt = {}"
  shows "uspace_wf t pt fl'" "vlookup (mem t) pt x = vlookup (mem s) pt x"
    "uload (mem t) pt x = uload (mem s) pt x" "uset (mem t) pt = uset (mem s) pt"
proof -
  have "pages (pt_own (mem s) pt) \<inter> pages B = {}"
    using pt_wf_own_aligned [OF uspace_wf_pt(1) [OF wf]] B by (intro pages_disjoint_sets) (auto simp: uset_def)
  moreover have "set fl' \<inter> pt_own (mem s) pt = {}" using t(2) by (auto simp: uset_def)
  moreover have "\<forall>va P. va < TRAPFRAME \<longrightarrow> leaf (mem s) pt va = Some P \<longrightarrow> P \<notin> set fl'"
    using t(2) by (auto simp: uset_def)
  ultimately have fr: "uspace_wf t pt fl'" "\<And>x. vlookup (mem t) pt x = vlookup (mem s) pt x"
    "pt_own (mem t) pt = pt_own (mem s) pt" using uspace_frame [OF wf se _ t(1)] by blast+
  then show "uspace_wf t pt fl'" "vlookup (mem t) pt x = vlookup (mem s) pt x" for x by blast+
  have "leaf (mem t) pt va = leaf (mem s) pt va" for va using fr(2) by (simp add: leaf_def)
  then show "uset (mem t) pt = uset (mem s) pt" using fr(3) by (simp add: uset_def)
  show "uload (mem t) pt x = uload (mem s) pt x"
  proof (rule uload_eqI [OF wf fr(2) se B(1)])
    fix y assume y: "upage (mem s) pt y \<noteq> 0"
    then have "upage (mem s) pt y \<in> uset (mem s) pt"
      using uspace_wf_page(1) [OF wf y] upage_leaf [OF y] by (auto simp: uset_def)
    then show "upage (mem s) pt y \<notin> B" using B(2) by blast
  qed
qed

definition apart :: "memory \<Rightarrow> uint64 \<Rightarrow> uint64 \<Rightarrow> bool" where
  "apart m a b \<longleftrightarrow> uset m a \<inter> uset m b = {}"

lemma PTE_FLAGS_less: "unat (PTE_FLAGS e) < 1024"
proof -
  have "PTE_FLAGS e = take_bit 10 e" unfolding PTE_FLAGS_def mask10 by (simp add: take_bit_eq_mask)
  then have "unat (PTE_FLAGS e) = take_bit 10 (unat e)" by (simp add: unsigned_take_bit_eq)
  then show ?thesis using take_bit_nat_less_exp [of 10 "unat e"] by simp
qed

lemma PTE_FLAGS_U: "PTE_FLAGS e AND PTE_U = e AND PTE_U"
  by (simp add: PTE_FLAGS_def PTE_U_def and.assoc)

text \<open>The page \<open>uvmcopy\<close> makes: junk from \<open>kalloc\<close>, then a copy of the parent's page.\<close>

definition copy_page :: "memory \<Rightarrow> uint64 \<Rightarrow> uint64 \<Rightarrow> memory" where
  "copy_page m p pa = put_bytes (put_bytes m p (page_fill 5)) p (get_bytes m pa 4096)"

lemma memmove_page:
  assumes "page_ok s p" "page_ok s pa" "p \<noteq> pa"
  shows "memmove (put_bytes m p (page_fill 5)) p pa (ucast PGSIZE) = copy_page m p pa"
proof -
  have b: "unat x < 2 ^ 32" if "page_ok s x" for x
    using that by (simp add: page_ok_def word_less_nat_alt PHYSTOP_def KERNBASE_def)
  have "range_of pa 4096 \<inter> range_of p (length (page_fill 5)) = {}"
    using pages_disjoint [of pa p] assms by (auto simp: page_ok_def)
  then have "get_bytes (put_bytes m p (page_fill 5)) pa 4096 = get_bytes m pa 4096"
    by (intro get_bytes_put_bytes_disjoint) simp_all
  moreover have "memmove (put_bytes m p (page_fill 5)) p pa (ucast PGSIZE) =
      put_bytes (put_bytes m p (page_fill 5)) p (get_bytes (put_bytes m p (page_fill 5)) pa 4096)"
    using memmove_put_bytes [of pa "ucast PGSIZE" p] b [OF assms(1)] b [OF assms(2)] by simp
  ultimately show ?thesis by (simp add: copy_page_def)
qed

lemma same_except_copy_page: "same_except (range_of p 4096) m (copy_page m p pa)"
  using same_except_trans [OF same_except_put_bytes same_except_put_bytes, of p "page_fill 5" "range_of p 4096"
      p "get_bytes m pa 4096" "range_of p 4096" m] by (simp add: copy_page_def)

lemma copy_page_byte: "unat d < 4096 \<Longrightarrow> copy_page m p pa (p + d) = m (pa + d)"
  by (simp add: copy_page_def put_bytes_def)

lemma uload_leaf:
  assumes "leaf m pt x = Some P" "P \<noteq> 0" "x < MAXVA"
  shows "uload m pt x = (if vlookup m pt x AND PTE_U \<noteq> 0 then Some (m (P + (x - PGROUNDDOWN x))) else None)"
  using assms by (auto simp: uload_def upage_def leaf_def Let_def split: if_splits)

lemma leaf_vpn: "vpn x = vpn y \<Longrightarrow> leaf m pt x = leaf m pt y" "vpn x = vpn y \<Longrightarrow> vlookup m pt x = vlookup m pt y"
  by (metis PGROUNDDOWN_eq_vpn leaf_def vlookup_PGROUNDDOWN) (metis PGROUNDDOWN_eq_vpn vlookup_PGROUNDDOWN)

section \<open>uvmcopy\<close>

text \<open>One round: the child gets, at \<open>i\<close>, a page with the bytes and the flags of the parent's page.\<close>

lemma uvmcopy_step:
  fixes s :: "'a vm_state_scheme"
  assumes wf: "uspace_wf s old fl" "uspace_wf s new fl" and ap: "apart (mem s) old new"
    and inv: "kmem_inv s fl" and len: "3 \<le> length fl"
    and i: "page_aligned i" "i < TRAPFRAME" "i < sz"
    and lo: "leaf (mem s) old i = Some pa" and ln: "vlookup (mem s) new i AND PTE_V = 0"
  shows "\<exists>t fl'. uvmcopy_loop old new i sz s = uvmcopy_loop old new (i + PGSIZE) sz t \<and>
    kmem_inv t fl' \<and> length fl \<le> length fl' + 3 \<and> uspace_wf t old fl' \<and> uspace_wf t new fl' \<and>
    apart (mem t) old new \<and> (\<forall>x. vlookup (mem t) old x = vlookup (mem s) old x) \<and>
    (\<forall>x. uload (mem t) old x = uload (mem s) old x) \<and>
    (\<forall>x < MAXVA. vpn x \<noteq> vpn i \<longrightarrow> vlookup (mem t) new x = vlookup (mem s) new x) \<and>
    (\<forall>x. uload (mem t) new x = (if vpn x = vpn i then uload (mem s) old x else uload (mem s) new x))"
proof -
  obtain p fl1 where fl: "fl = p # fl1" and len1: "2 \<le> length fl1" using len by (cases fl) auto
  have iM: "i < MAXVA" using i(2) by (rule TRAPFRAME_MAXVA)
  let ?e = "vlookup (mem s) old i"
  have e: "?e AND PTE_V \<noteq> 0" "PTE2PA ?e = pa" using lo by (auto simp: leaf_def Let_def split: if_splits)
  obtain x where x: "pt_node (mem s) old (va_path i) = Some x" "?e = load64 (mem s) (x + 8 * PX 0 i)"
    using vlookup_node [of "mem s" old i] e(1) by (metis and_zero_eq and.commute)
  have "page_ok s x" using pt_wf_node [OF uspace_wf_pt(1) [OF wf(1)] va_path_path(1) x(1)] by simp
  then have x0: "x + 8 * PX 0 i \<noteq> 0"
    using entry_nonzero [OF _ PX_less] page_ok_nonzero [OF uspace_wf_pt(2) [OF wf(1)]] page_aligned_ok by blast
  have pa: "page_ok s pa" "pa \<noteq> 0" "p \<noteq> pa" "page_ok s p"
    using uspace_wf_leaf [OF wf(1) i(2) lo] page_ok_nonzero [OF uspace_wf_pt(2) [OF wf(1)]] inv fl
    by (auto simp: kmem_inv_def)
  let ?j = "s\<lparr>freelist := load64 (mem s) p, mem := put_bytes (mem s) p (page_fill 5)\<rparr>"
  let ?t = "s\<lparr>freelist := load64 (mem s) p, mem := copy_page (mem s) p pa\<rparr>"
  have k: "kalloc s = Ok p ?j" "p \<noteq> 0" "kmem_inv ?j fl1" using kalloc_page [OF inv [unfolded fl]] by auto
  have mv: "upd_mem (\<lambda>m. memmove m p pa (ucast PGSIZE)) ?j = ?t"
    using memmove_page [OF pa(4,1,3), of "mem s"] by (simp add: upd_mem_def)
  have se: "same_except (range_of p 4096) (mem s) (mem ?t)" by (simp add: same_except_copy_page)
  have inv_t: "kmem_inv ?t fl1"
    using kmem_inv_write [OF k(3), of p "copy_page (mem s) p pa"] inv fl
    by (simp add: copy_page_def same_except_put_bytes kmem_inv_def page_ok_def)
  note to = uspace_take_page [OF wf(1) [unfolded fl] inv [unfolded fl] se]
  note tn = uspace_take_page [OF wf(2) [unfolded fl] inv [unfolded fl] se]
  have us: "uset (mem ?t) old = uset (mem s) old" "uset (mem ?t) new = uset (mem s) new"
    using to(2,6) tn(2,6) by (simp_all add: uset_def leaf_def)
  obtain u fl' where u: "mappages new i PGSIZE p (PTE_FLAGS ?e) ?t = Ok 0 u" "pt_grow new ?t fl1 u fl'"
    "length fl1 \<le> length fl' + 2"
    "\<forall>va < MAXVA. vlookup (mem u) new va = map_range (vlookup (mem ?t) new) i 1 p (PTE_FLAGS ?e) va"
    using mappages_one [OF inv_t uspace_wf_pt(1) [OF tn(1)] i(1,2), of p "PTE_FLAGS ?e"] ln tn(2) len1 by fastforce
  have loop: "uvmcopy_loop old new i sz s = uvmcopy_loop old new (i + PGSIZE) sz u"
    using walk_noalloc [OF iM, of old s] x x0 e k(1,2) i(3) mv u(1)
    by (simp add: uvmcopy_loop.simps [of old new i])
  have lfp: "\<And>va. va < TRAPFRAME \<Longrightarrow> leaf (mem ?t) new va \<noteq> Some p" using tn(5) by simp
  have tn1: "uspace_wf ?t new fl1" "p \<notin> pt_own (mem ?t) new \<union> set fl1" "page_ok ?t p" using tn(1,4) pa(4) by simp_all
  note mp = uspace_map_page [OF tn1(1) inv_t u(2) i(2) tn1(3,2) lfp PTE_FLAGS_less u(4)]
  have rest: "sym_end u = sym_end ?t" "kmem_inv u fl'" "set fl' \<subseteq> set fl1"
    "same_except (pages (pt_own (mem ?t) new \<union> set fl1)) (mem ?t) (mem u)"
    using u(2) by (auto simp: pt_grow_def same_rest_def dest: in_set_dropD)
  have to1: "uspace_wf ?t old fl1" using to(1) by simp
  have own_sub: "pt_own (mem ?t) new \<subseteq> uset (mem ?t) new" by (auto simp: uset_def)
  have dis: "(pt_own (mem ?t) new \<union> set fl1) \<inter> uset (mem ?t) old = {}" "set fl' \<inter> uset (mem ?t) old = {}"
    using ap us uset_ok [OF to1] rest(3) own_sub unfolding apart_def by blast+
  note oth = uspace_other [OF to1 rest(4) own_fl_aligned [OF uspace_wf_pt(1) [OF tn1(1)] inv_t] dis(1) rest(1) dis(2)]
  have "uset (mem u) new \<subseteq> insert p (uset (mem ?t) new \<union> set fl1)"
    unfolding uset_def using mp(3) pt_grow_own [OF u(2)] by (auto split: if_splits)
  moreover have "p \<notin> uset (mem ?t) old" using to(4,5) by (auto simp: uset_def)
  ultimately have ap': "apart (mem u) old new"
    unfolding apart_def oth(4) using ap us dis(1) unfolding apart_def by blast
  have old: "\<forall>y. vlookup (mem u) old y = vlookup (mem s) old y" "\<forall>y. uload (mem u) old y = uload (mem s) old y"
    using oth(2,3) to(2,3) by simp_all
  have new: "uload (mem u) new y = (if vpn y = vpn i then uload (mem s) old y else uload (mem s) new y)" for y
  proof (cases "vpn y = vpn i")
    case True
    then have "y < TRAPFRAME" using i(2) vpn_TRAPFRAME by blast
    then have "uload (mem s) old y = (if ?e AND PTE_U \<noteq> 0 then Some (mem s (pa + (y - PGROUNDDOWN y))) else None)"
      using uload_leaf [of "mem s" old y pa] leaf_vpn [OF True, of "mem s" old] lo pa(2) TRAPFRAME_MAXVA by simp
    then show ?thesis
      using True mp(2) [of y] copy_page_byte [of "y - PGROUNDDOWN y" "mem s" p pa] unat_page_offset [of y]
      by (simp add: PTE_FLAGS_U)
  next
    case False
    then show ?thesis using mp(2) [of y] tn(3) by simp
  qed
  have "\<forall>y < MAXVA. vpn y \<noteq> vpn i \<longrightarrow> vlookup (mem u) new y = vlookup (mem s) new y"
    using u(4) tn(2) by (auto simp: map_range_def)
  then show ?thesis
    using loop rest(2) u(3) fl oth(1) mp(1) ap' old new by (intro exI [of _ u] exI [of _ fl']) auto
qed

lemma uvmcopy_loop_spec:
  fixes s :: "'a vm_state_scheme"
  assumes "uspace_wf s old fl" "uspace_wf s new fl" "apart (mem s) old new" "kmem_inv s fl" "3 * n \<le> length fl"
    "page_aligned i" "sz \<le> TRAPFRAME" "npages sz = vpn i + n"
    "\<forall>x. in_pages i n x \<longrightarrow> leaf (mem s) old x \<noteq> None \<and> vlookup (mem s) new x AND PTE_V = 0"
  shows "\<exists>t fl'. uvmcopy_loop old new i sz s = Ok 0 t \<and> kmem_inv t fl' \<and> uspace_wf t old fl' \<and> uspace_wf t new fl' \<and>
    apart (mem t) old new \<and> (\<forall>x. uload (mem t) old x = uload (mem s) old x) \<and>
    (\<forall>x. uload (mem t) new x = (if in_pages i n x then uload (mem s) old x else uload (mem s) new x))"
  using assms
proof (induction n arbitrary: i s fl)
  case 0
  then have "\<not> i < sz" by (simp add: aligned_less_iff)
  then have "uvmcopy_loop old new i sz s = Ok 0 s" by (simp add: uvmcopy_loop.simps [of old new i])
  with 0 show ?case by (intro exI [of _ s] exI [of _ fl]) auto
next
  case (Suc n)
  have i: "i < sz" using Suc.prems(6,8) by (simp add: aligned_less_iff)
  then have iT: "i < TRAPFRAME" using Suc.prems(7) by (rule less_le_trans)
  then have iM: "i < MAXVA" by (rule TRAPFRAME_MAXVA)
  have "leaf (mem s) old i \<noteq> None" "vlookup (mem s) new i AND PTE_V = 0" "3 \<le> length fl"
    using Suc.prems(5,9) by auto
  then obtain t fl' where t: "uvmcopy_loop old new i sz s = uvmcopy_loop old new (i + PGSIZE) sz t"
    "kmem_inv t fl'" "length fl \<le> length fl' + 3" "uspace_wf t old fl'" "uspace_wf t new fl'" "apart (mem t) old new"
    "\<forall>x. vlookup (mem t) old x = vlookup (mem s) old x" "\<forall>x. uload (mem t) old x = uload (mem s) old x"
    "\<forall>x < MAXVA. vpn x \<noteq> vpn i \<longrightarrow> vlookup (mem t) new x = vlookup (mem s) new x"
    "\<forall>x. uload (mem t) new x = (if vpn x = vpn i then uload (mem s) old x else uload (mem s) new x)"
    using uvmcopy_step [OF Suc.prems(1-4) _ Suc.prems(6) iT i] by blast
  note vn = vpn_next [OF iM]
  have al: "page_aligned (i + PGSIZE)" using Suc.prems(6) vn(2) by (simp add: page_aligned_unat)
  have "3 * n \<le> length fl'" "npages sz = vpn (i + PGSIZE) + n" using Suc.prems(5,8) t(3) vn(1) by simp_all
  moreover have "\<forall>x. in_pages (i + PGSIZE) n x \<longrightarrow> leaf (mem t) old x \<noteq> None \<and> vlookup (mem t) new x AND PTE_V = 0"
  proof (intro allI impI)
    fix x assume x: "in_pages (i + PGSIZE) n x"
    then have "vpn x < npages sz" using calculation(2) by simp
    then have "x < MAXVA"
      using PGROUNDUP_npages(2) [OF Suc.prems(7)] by (simp add: word_less_nat_alt unat_TRAPFRAME MAXVA_def)
    moreover have "vpn x \<noteq> vpn i" "in_pages i (Suc n) x" using x in_pages_Suc [OF iM] by (auto simp: vn(1))
    ultimately show "leaf (mem t) old x \<noteq> None \<and> vlookup (mem t) new x AND PTE_V = 0"
      using t(7,9) Suc.prems(9) by (simp add: leaf_def)
  qed
  ultimately obtain u fl'' where "uvmcopy_loop old new (i + PGSIZE) sz t = Ok 0 u" "kmem_inv u fl''"
    "uspace_wf u old fl''" "uspace_wf u new fl''" "apart (mem u) old new" "\<forall>x. uload (mem u) old x = uload (mem t) old x"
    "\<forall>x. uload (mem u) new x = (if in_pages (i + PGSIZE) n x then uload (mem t) old x else uload (mem t) new x)"
    using Suc.IH [OF t(4,5,6,2) _ al Suc.prems(7)] by blast
  then show ?case
    using t(1,8,10) in_pages_Suc [OF iM] by (intro exI [of _ u] exI [of _ fl'']) auto
qed

section \<open>uvmcreate\<close>

lemma pt_node_zero_page:
  assumes "page_aligned p" "pt_path r"
  shows "pt_node (put_bytes m p (page_fill 0)) p r = (if r = [] then Some p else None)"
proof (cases r)
  case (Cons i r')
  then have "unat i < 512" using assms(2) by (simp add: pt_path_def)
  then have "pt_child (put_bytes m p (page_fill 0)) p i = None"
    using load64_zero_page [OF assms(1)] by (simp add: pt_child_def Let_def)
  with Cons show ?thesis by simp
qed simp

lemma vlookup_zero_page:
  assumes "page_aligned p"
  shows "vlookup (put_bytes m p (page_fill 0)) p va = 0"
proof -
  have "pt_node (put_bytes m p (page_fill 0)) p (va_path va) = None"
    using pt_node_zero_page [OF assms va_path_path(1), of m va] by (simp only: list.distinct if_False)
  then show ?thesis by (rule vlookup_None)
qed

lemma uvmcreate_spec:
  fixes s :: "'a vm_state_scheme"
  assumes inv: "kmem_inv s (p # fl)"
  shows "\<exists>t. uvmcreate s = Ok p t \<and> p \<noteq> 0 \<and> kmem_inv t fl \<and> uspace_wf t p fl \<and> same_rest s t \<and>
    same_except (range_of p 4096) (mem s) (mem t) \<and> (\<forall>x. vlookup (mem t) p x = 0) \<and> uset (mem t) p = {p}"
proof -
  let ?t = "s\<lparr>freelist := load64 (mem s) p, mem := fresh_zero (mem s) p\<rparr>"
  note kz = kalloc_zero [OF inv]
  have p: "page_ok s p" "p \<notin> set fl" "0 < sym_end s" using inv by (auto simp: kmem_inv_def)
  note al = page_aligned_ok [OF p(1)]
  have nd: "pt_node (mem ?t) p r = (if r = [] then Some p else None)" if "pt_path r" for r
    using pt_node_zero_page [OF al that] by (simp add: fresh_zero_def)
  have vl: "vlookup (mem ?t) p x = 0" for x using vlookup_zero_page [OF al] by (simp add: fresh_zero_def)
  have own: "pt_own (mem ?t) p = {p}" unfolding pt_own_def using nd by (auto split: if_splits intro!: exI [of _ "[]"])
  have lf: "leaf (mem ?t) p x = None" "upage (mem ?t) p x = 0" for x by (simp_all add: leaf_def upage_def vl [simplified] Let_def)
  have "pt_wf ?t p fl" unfolding pt_wf_def using nd p by (auto split: if_splits)
  then have "uspace_wf ?t p fl" unfolding uspace_wf_def lf using p(3) by simp
  moreover have "uvmcreate s = Ok p ?t" using kz by (simp add: uvmcreate_def)
  moreover have "same_rest s ?t" by (rule same_restI(2))
  ultimately show ?thesis
    using kz(3,4) vl own lf same_except_fresh_zero [of p "mem s"] by (intro exI [of _ ?t]) (auto simp: uset_def)
qed

section \<open>States for the witnesses\<close>

definition boot_vm :: vm_state where
  "boot_vm = \<lparr>held = {}, mem = (\<lambda>_. 0), freelist = 0, sym_end = 0x80025000,
     kernel_pagetable = 0, sym_etext = 0x80008000, sym_trampoline = 0x80007000, satp = 0\<rparr>"

lemma demo_pages: "\<exists>s fl. kmem_inv (s :: vm_state) fl \<and> 100 \<le> length fl"
proof -
  have inv: "kmem_inv boot_vm []" by (simp add: kmem_inv_def boot_vm_def)
  have "page_aligned 0x80026000" by (simp add: page_aligned_def PGSIZE_def)
  moreover have "sym_end boot_vm \<le> 0x80026000" "(0x80026000 :: uint64) \<le> PHYSTOP"
    by (simp_all add: boot_vm_def PHYSTOP_def KERNBASE_def)
  ultimately obtain t :: vm_state and qs where t: "kmem_inv t qs"
    "set qs = {q. page_aligned q \<and> 0x80026000 \<le> q \<and> q < PHYSTOP}"
    using freerange_loop_ok [OF _ _ _ inv, of "0x80026000"] by auto
  define f :: "nat \<Rightarrow> uint64" where "f i = 0x80026000 + of_nat (4096 * i)" for i
  have u: "unat (f i) = 0x80026000 + 4096 * i" if "i < 100" for i
    using that by (simp add: f_def unat_plus_if' unat_of_nat unat_word_ariths)
  then have "inj_on f {..<100}" by (intro inj_onI) (metis add_left_cancel lessThan_iff mult_cancel1 zero_neq_numeral)
  moreover have "f ` {..<100} \<subseteq> set qs"
    unfolding t(2) using u by (auto simp: page_aligned_unat word_le_nat_alt word_less_nat_alt PHYSTOP_def KERNBASE_def)
  ultimately have "100 \<le> card (set qs)" using card_mono [of "set qs" "f ` {..<100}"] by (simp add: card_image)
  then have "100 \<le> length qs" using card_length [of qs] by simp
  with t(1) show ?thesis by blast
qed

lemma demo_space:
  "\<exists>(s :: vm_state) pt fl. uspace_wf s pt fl \<and> kmem_inv s fl \<and> 99 \<le> length fl \<and> (\<forall>x. vlookup (mem s) pt x = 0)"
proof -
  obtain s :: vm_state and fl where "kmem_inv s fl" "100 \<le> length fl" using demo_pages by blast
  then show ?thesis using uvmcreate_spec [of s "hd fl" "tl fl"] by (cases fl) auto
qed

section \<open>copyinstr\<close>

definition upto_nul :: "byte list \<Rightarrow> byte list" where
  "upto_nul bs = (if 0 \<in> set bs then takeWhile (\<lambda>b. b \<noteq> 0) bs @ [0] else bs)"

lemma get_bytes_Suc: "get_bytes m p (Suc n) = m p # get_bytes m (p + 1) n"
  by (rule nth_equalityI) (auto simp: nth_Cons' get_bytes_def algebra_simps simp del: upt_Suc)

lemma copyinstr_page_eq: "copyinstr_page m p n = (0 \<in> set (get_bytes m p n), upto_nul (get_bytes m p n))"
  by (induction n arbitrary: p) (simp_all add: get_bytes_Suc upto_nul_def, simp add: get_bytes_def)

lemma upto_nul_append: "0 \<notin> set bs \<Longrightarrow> upto_nul (bs @ cs) = bs @ upto_nul cs"
  by (simp add: upto_nul_def takeWhile_append)

lemma upto_nul_append_nul: "0 \<in> set bs \<Longrightarrow> upto_nul (bs @ cs) = upto_nul bs"
  by (simp add: upto_nul_def takeWhile_append1)

lemma copyinstr_spec:
  fixes s :: "'a vm_state_scheme"
  assumes "pt_wf s pt fl" "0 < sym_end s"
  shows "copyinstr pt va maxlen s =
    (let bs = uread (mem s) pt va (mapped_prefix (mem s) pt va maxlen)
     in Ok (if 0 \<in> set bs then 0 else -1, upto_nul bs) s)"
  using assms
proof (induction pt va maxlen s rule: copyinstr.induct)
  case (1 pt va maxlen s)
  note wa = walkaddr_upage [OF 1(2,3)]
  show ?case
  proof (cases "maxlen = 0 \<or> upage (mem s) pt va = 0")
    case True
    then show ?thesis
      by (cases maxlen) (auto simp: copyinstr.simps [of pt va] wa upage_PGROUNDDOWN uload_eq_None uread_def upto_nul_def)
  next
    case False
    let ?n = "chunk va maxlen" and ?va = "PGROUNDDOWN va + PGSIZE"
    let ?k = "mapped_prefix (mem s) pt ?va (maxlen - ?n)"
    let ?bs = "uread (mem s) pt va ?n" and ?cs = "uread (mem s) pt ?va ?k"
    have page: "copyinstr_page (mem s) (upage (mem s) pt va + (va - PGROUNDDOWN va)) ?n = (0 \<in> set ?bs, upto_nul ?bs)"
      using False uread_page(1) [OF _ chunk_room(1)] by (simp add: copyinstr_page_eq)
    have bs: "uread (mem s) pt va (mapped_prefix (mem s) pt va maxlen) = ?bs @ ?cs"
      using False uread_chunk [OF mapped_prefix_le] by (simp add: mapped_prefix_chunk)
    show ?thesis
    proof (cases "0 \<in> set ?bs")
      case True
      then show ?thesis
        using False page bs
        by (simp add: copyinstr.simps [of pt va] wa upage_PGROUNDDOWN Let_def upto_nul_append_nul)
    next
      case nul: False
      have IH: "copyinstr pt ?va (maxlen - ?n) s = Ok (if 0 \<in> set ?cs then 0 else -1, upto_nul ?cs) s"
        using 1(1) [of "PGROUNDDOWN va" "upage (mem s) pt va" s] False 1(2,3) page nul
        by (simp add: wa upage_PGROUNDDOWN Let_def)
      have "upto_nul ?bs = ?bs" using nul by (simp add: upto_nul_def)
      then show ?thesis
        using False page nul bs
        by (simp add: copyinstr.simps [of pt va] wa upage_PGROUNDDOWN Let_def IH upto_nul_append)
    qed
  qed
qed

section \<open>Properties of user memory\<close>

lemma demo_mapped:
  "\<exists>(s :: vm_state) pt fl. uspace_wf s pt fl \<and> kmem_inv s fl \<and> 4 \<le> length fl \<and>
     (\<forall>x. uload (mem s) pt x = (if vpn x = 0 then Some 0 else None)) \<and> leaf_mapped (mem s) pt 0"
proof -
  obtain s :: vm_state and pt fl where s: "uspace_wf s pt fl" "kmem_inv s fl" "99 \<le> length fl" "\<forall>x. vlookup (mem s) pt x = 0"
    using demo_space by blast
  have none: "uload (mem s) pt x = None" for x by (simp add: uload_eq_None upage_def s(4))
  have h: "page_aligned 0" "0 < TRAPFRAME" "0 < PGSIZE" "vlookup (mem s) pt 0 AND PTE_V = 0"
    using s(4) by (simp_all add: page_aligned_def PGSIZE_def TRAPFRAME_def TRAMPOLINE_def MAXVA_def)
  obtain t :: vm_state and fl' where t: "kmem_inv t fl'" "uspace_wf t pt fl'" "length fl \<le> length fl' + 3"
    "leaf_mapped (mem t) pt 0" "\<forall>x. uload (mem t) pt x = (if vpn x = vpn 0 then Some 0 else uload (mem s) pt x)"
    using uvmalloc_step [OF s(1,2) h, of 0] s(3) by auto
  then have "\<forall>x. uload (mem t) pt x = (if vpn x = 0 then Some 0 else None)" using none by simp
  with t s(3) show ?thesis by (intro exI [of _ t] exI [of _ pt] exI [of _ fl']) simp
qed

text \<open>C5. \<open>mappages\<close> on \<open>n\<close> unmapped pages inside the address space changes the page table, read as a
  function from virtual addresses to leaf entries, at exactly the first \<open>k\<close> of those pages, which get
  consecutive physical pages and the permissions asked for. It returns 0 with \<open>k = n\<close>, or -1 with
  \<open>k < n\<close> and the free list exhausted; two free pages per page are always enough. The tree stays
  well formed and every page it took came off the free list.\<close>

theorem mappages_refines:
  fixes s :: "'a vm_state_scheme"
  assumes "kmem_inv s fl" "pt_wf s pt fl" "page_aligned va" "0 < n" "unat va + 4096 * n \<le> unat MAXVA"
    and free: "\<And>x. in_pages va n x \<Longrightarrow> vlookup (mem s) pt x AND PTE_V = 0"
  shows "\<exists>t fl' k. mappages pt va (of_nat n * PGSIZE) pa perm s = Ok (if k = n then 0 else -1) t \<and> k \<le> n \<and>
    (k < n \<longrightarrow> fl' = []) \<and> (2 * n \<le> length fl \<longrightarrow> k = n) \<and> kmem_inv t fl' \<and> pt_wf t pt fl' \<and>
    pt_own (mem t) pt \<union> set fl' = pt_own (mem s) pt \<union> set fl \<and>
    (\<forall>x < MAXVA. vlookup (mem t) pt x =
       (if in_pages va k x then PA2PTE (pa + of_nat (vpn x - vpn va) * PGSIZE) OR perm OR PTE_V
        else vlookup (mem s) pt x))"
proof -
  obtain l where n: "n = Suc l" using assms(4) by (cases n) auto
  obtain q where q: "unat va = 4096 * q" using assms(3) by (auto simp: page_aligned_unat)
  have small: "n * 4096 < 2 ^ 64" "l * 4096 < 2 ^ 64" using assms(5) n by (simp_all add: MAXVA_def)
  have lp: "unat (va + of_nat l * PGSIZE) = (q + l) * 4096"
    using unat_mult_PGSIZE [OF small(2)] q assms(5) n by (simp add: unat_plus_if' MAXVA_def)
  have "unat (va + of_nat n * PGSIZE - 1) = (q + l) * 4096 + 4095"
  proof -
    have "va + of_nat n * PGSIZE - 1 = (va + of_nat l * PGSIZE) + 4095" by (simp add: n PGSIZE_def algebra_simps)
    then show ?thesis using lp q assms(5) n by (simp add: unat_plus_if' MAXVA_def)
  qed
  moreover have "(j * 4096 + 4095) div 4096 * 4096 = j * 4096" for j :: nat by simp
  ultimately have "PGROUNDDOWN (va + of_nat n * PGSIZE - 1) = va + of_nat l * PGSIZE"
    by (simp only: word_unat_eq_iff unat_PGROUNDDOWN lp)
  then have mp: "mappages pt va (of_nat n * PGSIZE) pa perm s = mappages_loop pt va (va + of_nat l * PGSIZE) pa perm s"
    by (simp add: mappages_def PGROUNDDOWN_id [OF assms(3)])
  obtain t fl' k where t: "mappages_loop pt va (va + of_nat l * PGSIZE) pa perm s = Ok (if k = n then 0 else -1) t"
    "k \<le> n" "pt_grow pt s fl t fl'" "k < n \<longrightarrow> fl' = []" "2 * n \<le> length fl \<longrightarrow> k = n"
    "\<forall>x < MAXVA. vlookup (mem t) pt x = map_range (vlookup (mem s) pt) va k pa perm x"
    using mappages_loop_spec [OF assms(1,2) assms(5) [unfolded n] refl, of pa perm] free unfolding n by blast
  then show ?thesis
    unfolding mp pt_grow_def map_range_def by (intro exI [of _ t] exI [of _ fl'] exI [of _ k]) simp
qed

theorem mappages_refines_witness:
  "\<exists>(s :: vm_state) t pt. mappages pt 0x1000 PGSIZE 0x80100000 (PTE_R OR PTE_U) s = Ok 0 t \<and>
     vlookup (mem t) pt 0x1008 = PA2PTE 0x80100000 OR (PTE_R OR PTE_U) OR PTE_V"
proof -
  obtain s :: vm_state and pt fl where s: "uspace_wf s pt fl" "kmem_inv s fl" "99 \<le> length fl" "\<forall>x. vlookup (mem s) pt x = 0"
    using demo_space by blast
  have a: "page_aligned 0x1000" "unat (0x1000 :: uint64) + 4096 * 1 \<le> unat MAXVA" "(0x1008 :: uint64) < MAXVA"
    by (simp_all add: page_aligned_def PGSIZE_def MAXVA_def)
  show ?thesis
    using mappages_refines [OF s(2) uspace_wf_pt(1) [OF s(1)] a(1) _ a(2), of "0x80100000" "PTE_R OR PTE_U"] s(3,4) a(3)
    by (force simp: or.assoc)
qed

text \<open>C9. \<open>uvmalloc\<close> from \<open>oldsz\<close> to \<open>newsz\<close> returns \<open>newsz\<close> with zeroed pages mapped between the two
  sizes and every other byte of the process unchanged, or returns 0 with every byte of the process
  unchanged, and then fewer than three free pages per new page were left.\<close>

theorem uvmalloc_grows:
  fixes s :: "'a vm_state_scheme"
  assumes "uspace_wf s pt fl" "kmem_inv s fl" "oldsz \<le> newsz" "newsz \<le> TRAPFRAME"
    and free: "\<And>x. npages oldsz \<le> vpn x \<Longrightarrow> vpn x < npages newsz \<Longrightarrow> vlookup (mem s) pt x AND PTE_V = 0"
  shows "\<exists>t fl' r. uvmalloc pt oldsz newsz s = Ok r t \<and> kmem_inv t fl' \<and> uspace_wf t pt fl' \<and>
    (r = newsz \<and> (\<forall>x. uload (mem t) pt x =
        (if npages oldsz \<le> vpn x \<and> vpn x < npages newsz then Some 0 else uload (mem s) pt x)) \<or>
     r = 0 \<and> length fl < 3 * (npages newsz - npages oldsz) \<and> (\<forall>x. uload (mem t) pt x = uload (mem s) pt x))"
proof -
  let ?a = "PGROUNDUP oldsz" and ?n = "npages newsz - npages oldsz"
  have va: "vpn ?a = npages oldsz" using PGROUNDUP_npages(1) [OF order_trans [OF assms(3,4)]] by simp
  have n: "npages newsz = vpn ?a + ?n" using npages_mono [OF assms(3)] va by simp
  have none: "uload (mem s) pt x = None" if "npages oldsz \<le> vpn x" "vpn x < npages newsz" for x
    using free [OF that] by (simp add: uload_eq_None upage_def Let_def)
  have h: "\<forall>x. vpn ?a \<le> vpn x \<and> vpn x < npages newsz \<longrightarrow> vlookup (mem s) pt x AND PTE_V = 0"
    "\<forall>x. vpn ?a \<le> vpn x \<and> vpn x < vpn ?a \<longrightarrow> leaf_mapped (mem s) pt x" using free by (auto simp: va)
  obtain t fl' r where t: "uvmalloc_loop pt ?a ?a newsz s = Ok r t" "kmem_inv t fl'" "uspace_wf t pt fl'"
    "r = newsz \<and> (\<forall>x. uload (mem t) pt x = (if in_pages ?a ?n x then Some 0 else uload (mem s) pt x)) \<or>
     r = 0 \<and> length fl < 3 * ?n \<and>
       (\<forall>x. uload (mem t) pt x = (if vpn ?a \<le> vpn x \<and> vpn x < vpn ?a + ?n then None else uload (mem s) pt x))"
    using uvmalloc_loop_spec [OF assms(1,2) PGROUNDUP_aligned PGROUNDUP_aligned order_refl assms(4) n h] by blast
  have "uvmalloc pt oldsz newsz s = Ok r t" using t(1) leD [OF assms(3)] by (simp add: uvmalloc_def Let_def)
  moreover have "(if npages oldsz \<le> vpn x \<and> vpn x < npages newsz then None else uload (mem s) pt x) = uload (mem s) pt x" for x
    using none by simp
  ultimately show ?thesis using t(2-4) unfolding va n [unfolded va, symmetric] by auto
qed

theorem uvmalloc_grows_witness:
  "\<exists>(s :: vm_state) t pt. uvmalloc pt 0 5000 s = Ok 5000 t \<and> uload (mem s) pt 4999 = None \<and> uload (mem t) pt 4999 = Some 0"
proof -
  obtain s :: vm_state and pt fl where s: "uspace_wf s pt fl" "kmem_inv s fl" "99 \<le> length fl" "\<forall>x. vlookup (mem s) pt x = 0"
    using demo_space by blast
  have "npages 5000 = 2" "npages 0 = 0" "5000 \<le> TRAPFRAME" "vpn 4999 = 1" "uload (mem s) pt 4999 = None"
    by (simp_all add: npages_def TRAPFRAME_def TRAMPOLINE_def MAXVA_def PGSIZE_def uload_eq_None upage_def s(4))
  then show ?thesis using uvmalloc_grows [OF s(1,2), of 0 5000] s(3,4) by force
qed

text \<open>C10. \<open>uvmdealloc\<close> from \<open>oldsz\<close> down to \<open>newsz\<close>, with every page in between mapped, returns \<open>newsz\<close>;
  afterwards no byte of those pages can be accessed, every other byte of the process is unchanged,
  and exactly as many pages as were unmapped are added to the free list.\<close>

theorem uvmdealloc_shrinks:
  fixes s :: "'a vm_state_scheme"
  assumes "uspace_wf s pt fl" "kmem_inv s fl" "newsz \<le> oldsz" "oldsz \<le> TRAPFRAME"
    and "\<And>x. npages newsz \<le> vpn x \<Longrightarrow> vpn x < npages oldsz \<Longrightarrow> leaf_mapped (mem s) pt x"
  shows "\<exists>t ps. uvmdealloc pt oldsz newsz s = Ok newsz t \<and> kmem_inv t (ps @ fl) \<and> uspace_wf t pt (ps @ fl) \<and>
    length ps = npages oldsz - npages newsz \<and>
    (\<forall>x. uload (mem t) pt x =
       (if npages newsz \<le> vpn x \<and> vpn x < npages oldsz then None else uload (mem s) pt x))"
  using uvmdealloc_spec [OF assms(1-4)] assms(5) by blast

theorem uvmdealloc_shrinks_witness:
  "\<exists>(s :: vm_state) t pt. uvmdealloc pt 4096 0 s = Ok 0 t \<and> uload (mem s) pt 7 = Some 0 \<and> uload (mem t) pt 7 = None"
proof -
  obtain s :: vm_state and pt fl where s: "uspace_wf s pt fl" "kmem_inv s fl"
    "\<forall>x. uload (mem s) pt x = (if vpn x = 0 then Some 0 else None)" "leaf_mapped (mem s) pt 0"
    using demo_mapped by blast
  have "npages 4096 = 1" "npages 0 = 0" "4096 \<le> TRAPFRAME" "vpn 7 = 0"
    by (simp_all add: npages_def TRAPFRAME_def TRAMPOLINE_def MAXVA_def PGSIZE_def)
  moreover have "vpn x = vpn 0 \<Longrightarrow> leaf_mapped (mem s) pt x" for x
    using s(4) leaf_vpn(2) [of x 0 "mem s" pt] by (simp add: leaf_mapped_def)
  ultimately show ?thesis using uvmdealloc_shrinks [OF s(1,2), of 0 4096] s(3) by force
qed

text \<open>C8. \<open>copyin\<close> returns 0 with the user's bytes when every byte of the range is mapped for the user,
  and otherwise -1 after copying exactly the bytes before the first one that is not; it changes
  nothing. \<open>copyinstr\<close> copies up to and including the first NUL, and returns -1 if there is none among
  the mapped bytes of the range.\<close>

theorem copyin_copyinstr_read_user_memory:
  fixes s :: "'a vm_state_scheme" and va :: uint64 and n :: nat
  assumes "pt_wf s pt fl" "0 < sym_end s"
  defines "k \<equiv> mapped_prefix (mem s) pt va n"
  shows "copyin pt va n s = Ok (if k = n then 0 else -1, uread (mem s) pt va k) s \<and>
    copyinstr pt va n s = Ok (if 0 \<in> set (uread (mem s) pt va k) then 0 else -1, upto_nul (uread (mem s) pt va k)) s \<and>
    (k = n \<longleftrightarrow> (\<forall>i < n. uload (mem s) pt (va + of_nat i) \<noteq> None))"
  unfolding k_def copyin_spec [OF assms(1,2)] copyinstr_spec [OF assms(1,2)] mapped_prefix_all [symmetric]
  by (simp add: Let_def)

theorem copyin_copyinstr_read_user_memory_witness:
  "\<exists>(s :: vm_state) pt. copyin pt 5 2 s = Ok (0, [0, 0]) s \<and> copyin pt 4095 2 s = Ok (-1, [0]) s \<and>
     copyinstr pt 5 2 s = Ok (0, [0]) s"
proof -
  obtain s :: vm_state and pt fl where s: "uspace_wf s pt fl"
    "\<forall>x. uload (mem s) pt x = (if vpn x = 0 then Some 0 else None)" using demo_mapped by blast
  have p: "mapped_prefix (mem s) pt 5 (Suc (Suc 0)) = Suc (Suc 0)" "mapped_prefix (mem s) pt 4095 (Suc (Suc 0)) = Suc 0"
    "uread (mem s) pt 5 (Suc (Suc 0)) = [0, 0]" "uread (mem s) pt 4095 (Suc 0) = [0]"
    by (simp_all add: s(2) uread_def)
  show ?thesis
    using copyin_copyinstr_read_user_memory [OF uspace_wf_pt [OF s(1)], of 5 "Suc (Suc 0)"]
      copyin_copyinstr_read_user_memory [OF uspace_wf_pt [OF s(1)], of 4095 "Suc (Suc 0)"]
    unfolding p numeral_2_eq_2 by (auto simp: upto_nul_def)
qed

text \<open>C7. \<open>copyout\<close> of \<open>src\<close> to a user range that is mapped returns 0, stores \<open>src\<close> there and changes no
  other byte of the process, and \<open>copyin\<close> of the same range then returns \<open>src\<close>. When the range is
  not all mapped \<open>copyout\<close> returns -1 after storing the part before the first unmapped byte.\<close>

theorem copyout_copyin_roundtrip:
  fixes s :: "'a vm_state_scheme" and va :: uint64
  assumes "uspace_wf s pt fl" "length src < 2 ^ 64"
  defines "k \<equiv> mapped_prefix (mem s) pt va (length src)"
  shows "\<exists>t. copyout pt va src s = Ok (if k = length src then 0 else -1) t \<and> uspace_wf t pt fl \<and>
    (\<forall>x. uload (mem t) pt x = (if unat (x - va) < k then Some (src ! unat (x - va)) else uload (mem s) pt x)) \<and>
    copyin pt va k t = Ok (0, take k src) t"
proof -
  have k: "k \<le> length src" unfolding k_def by (rule mapped_prefix_le)
  obtain m where m: "copyout pt va src s = Ok (if k = length src then 0 else -1) (s\<lparr>mem := m\<rparr>)"
    "uspace_wf (s\<lparr>mem := m\<rparr>) pt fl" "\<forall>x. uload m pt x = ustore (uload (mem s) pt) va (take k src) x"
    using copyout_spec [OF assms(1,2)] unfolding k_def by blast
  have ul: "uload m pt x = (if unat (x - va) < k then Some (src ! unat (x - va)) else uload (mem s) pt x)" for x
    using m(3) k by (simp add: ustore_def)
  have u: "uload m pt (va + of_nat i) = Some (src ! i)" if "i < k" for i
  proof -
    have "i < 2 ^ 64" using that k assms(2) by linarith
    then have "unat (of_nat i :: uint64) = i" by (simp add: unat_of_nat)
    with that ul [of "va + of_nat i"] show ?thesis by simp
  qed
  then have "mapped_prefix m pt va k = k" by (simp add: mapped_prefix_all)
  moreover have "uread m pt va k = take k src"
    by (rule nth_equalityI) (use u k in \<open>simp_all add: uread_def\<close>)
  moreover note copyin_spec [OF uspace_wf_pt [OF m(2)], of va k]
  ultimately show ?thesis using m(1,2) ul by (intro exI [of _ "s\<lparr>mem := m\<rparr>"]) (simp add: Let_def)
qed

theorem copyout_copyin_roundtrip_witness:
  "\<exists>(s :: vm_state) t pt. copyout pt 4094 [1, 2] s = Ok 0 t \<and> copyin pt 4094 2 t = Ok (0, [1, 2]) t"
proof -
  obtain s :: vm_state and pt fl where s: "uspace_wf s pt fl"
    "\<forall>x. uload (mem s) pt x = (if vpn x = 0 then Some 0 else None)" using demo_mapped by blast
  have "mapped_prefix (mem s) pt 4094 (length [1, 2 :: byte]) = 2" by (simp add: s(2))
  then show ?thesis using copyout_copyin_roundtrip [OF s(1), of "[1, 2]" 4094] by force
qed

text \<open>C6. \<open>uvmcopy\<close> of a parent's memory into an empty page table, with three free pages per page,
  returns 0; the child then sees at every address below \<open>sz\<close> exactly what the parent sees (pages the
  user may not access stay inaccessible), the parent's memory is unchanged, and the two address
  spaces share no page, so that a later store in one is invisible in the other.\<close>

theorem uvmcopy_copies:
  fixes s :: "'a vm_state_scheme"
  assumes "uspace_wf s old fl" "uspace_wf s new fl" "apart (mem s) old new" "kmem_inv s fl" "sz \<le> TRAPFRAME"
    and "3 * npages sz \<le> length fl"
    and "\<And>x. vpn x < npages sz \<Longrightarrow> leaf (mem s) old x \<noteq> None \<and> vlookup (mem s) new x AND PTE_V = 0"
  shows "\<exists>t fl'. uvmcopy old new sz s = Ok 0 t \<and> kmem_inv t fl' \<and> uspace_wf t old fl' \<and> uspace_wf t new fl' \<and>
    apart (mem t) old new \<and> (\<forall>x. uload (mem t) old x = uload (mem s) old x) \<and>
    (\<forall>x. uload (mem t) new x = (if vpn x < npages sz then uload (mem s) old x else uload (mem s) new x))"
proof -
  have a: "page_aligned 0" and n: "npages sz = vpn 0 + npages sz" by (simp_all add: page_aligned_def)
  have eq: "in_pages 0 (npages sz) x \<longleftrightarrow> vpn x < npages sz" for x by simp
  then have h: "\<forall>x. in_pages 0 (npages sz) x \<longrightarrow> leaf (mem s) old x \<noteq> None \<and> vlookup (mem s) new x AND PTE_V = 0"
    using assms(7) by blast
  show ?thesis
    unfolding uvmcopy_def
    by (rule uvmcopy_loop_spec [OF assms(1-4,6) a assms(5) n h, unfolded eq])
qed

lemma demo_two_spaces:
  "\<exists>(s :: vm_state) old new fl. uspace_wf s old fl \<and> uspace_wf s new fl \<and> apart (mem s) old new \<and>
     kmem_inv s fl \<and> 3 \<le> length fl \<and> (\<forall>x. vlookup (mem s) new x = 0) \<and>
     (\<forall>x. uload (mem s) old x = (if vpn x = 0 then Some 0 else None)) \<and> (\<forall>x. vpn x = 0 \<longrightarrow> leaf (mem s) old x \<noteq> None)"
proof -
  obtain s :: vm_state and old fl where s: "uspace_wf s old fl" "kmem_inv s fl" "4 \<le> length fl"
    "\<forall>x. uload (mem s) old x = (if vpn x = 0 then Some 0 else None)" "leaf_mapped (mem s) old 0"
    using demo_mapped by blast
  obtain p fl1 where fl: "fl = p # fl1" using s(3) by (cases fl) auto
  obtain t where t: "kmem_inv t fl1" "uspace_wf t p fl1" "same_rest s t" "same_except (range_of p 4096) (mem s) (mem t)"
    "\<forall>x. vlookup (mem t) p x = 0" "uset (mem t) p = {p}"
    using uvmcreate_spec [OF s(2) [unfolded fl]] by blast
  note tp = uspace_take_page [OF s(1) [unfolded fl] s(2) [unfolded fl] t(4) same_rest_fields(1) [OF t(3)]]
  have "apart (mem t) old p" using tp(4,5) t(6) by (auto simp: apart_def uset_def)
  moreover have "leaf (mem t) old x \<noteq> None" if "vpn x = 0" for x
    using leaf_vpn(2) [of x 0 "mem s" old] that s(5) tp(2) by (simp add: leaf_def leaf_mapped_def Let_def)
  ultimately show ?thesis
    using t tp(1,3) s(3,4) fl by (intro exI [of _ t] exI [of _ old] exI [of _ p] exI [of _ fl1]) simp
qed

theorem uvmcopy_copies_witness:
  "\<exists>(s :: vm_state) t old new. uvmcopy old new 4096 s = Ok 0 t \<and> uload (mem s) new 7 = None \<and> uload (mem t) new 7 = Some 0"
proof -
  obtain s :: vm_state and old new fl where s: "uspace_wf s old fl" "uspace_wf s new fl" "apart (mem s) old new"
     "kmem_inv s fl" "3 \<le> length fl" "\<forall>x. vlookup (mem s) new x = 0"
     "\<forall>x. uload (mem s) old x = (if vpn x = 0 then Some 0 else None)" "\<forall>x. vpn x = 0 \<longrightarrow> leaf (mem s) old x \<noteq> None"
    using demo_two_spaces by blast
  have n: "npages 4096 = 1" "4096 \<le> TRAPFRAME" "3 * npages 4096 \<le> length fl"
    using s(5) by (simp_all add: npages_def TRAPFRAME_def TRAMPOLINE_def MAXVA_def PGSIZE_def)
  have h: "leaf (mem s) old x \<noteq> None \<and> vlookup (mem s) new x AND PTE_V = 0" if "vpn x < npages 4096" for x
    using that s(6,8) n(1) by simp
  obtain t where "uvmcopy old new 4096 s = Ok 0 t"
    "\<forall>x. uload (mem t) new x = (if vpn x < npages 4096 then uload (mem s) old x else uload (mem s) new x)"
    using uvmcopy_copies [OF s(1-4) n(2,3) h] by blast
  moreover have "uload (mem s) new 7 = None" by (simp add: uload_eq_None upage_def s(6))
  ultimately show ?thesis using s(7) n(1) by (intro exI [of _ s] exI [of _ t] exI [of _ old] exI [of _ new]) simp
qed

end
