(* ===== verification/Xv6_Proc.thy ===== *)
theory Xv6_Proc
  imports Xv6_UvmCopy
begin

text \<open>
  \<^verbatim>\<open>kernel/proc.h\<close> and the process-table half of \<^verbatim>\<open>kernel/proc.c\<close>: process slots, page tables of
  processes, sleeping and waking up, the scheduler, \<open>kill\<close> and \<open>wait\<close>. (\<open>fork\<close>, \<open>exit\<close> and
  \<open>userinit\<close>, which also use the file system, are in \<open>Xv6_Process\<close>.) A process is its index in the
  table. A trapframe is the page \<^verbatim>\<open>p->trapframe\<close> points to, in the byte memory.
\<close>

section \<open>Definitions\<close>

datatype procstate = UNUSED | SLEEPING | RUNNABLE | RUNNING | ZOMBIE

text \<open>The addresses the kernel sleeps on, by the object they belong to.\<close>

datatype channel =
    ProcChan nat | TicksChan | BufLockChan nat | InodeLockChan nat | LogChan | PipeRead uint64 | PipeWrite uint64
  | ConsRead | UartTx | DiskFree | DiskBuf nat

record swcontext =
  ctx_ra :: uint64
  ctx_sp :: uint64
  ctx_s :: "uint64 list"

record proc =
  state :: procstate
  parent :: "nat option"
  chan :: "channel option"
  killed :: bool
  xstate :: int
  pid :: int
  kstack :: uint64
  sz :: uint64
  pagetable :: uint64
  trapframe :: uint64
  ctx :: swcontext
  ofile :: "nat option list"
  cwd :: "nat option"
  pname :: "byte list"
  syscall_mask :: int

text \<open>\<open>curproc\<close> is \<^verbatim>\<open>mycpu()->proc\<close>; \<open>sym_forkret\<close> is the address of \<^verbatim>\<open>forkret\<close>.\<close>

record proc_state = vm_state +
  procs :: "nat \<Rightarrow> proc"
  curproc :: "nat option"
  nextpid :: int
  initproc :: "nat option"
  ticks :: uint
  sym_forkret :: uint64

type_synonym ('r, 'a) kop = "'a proc_state_scheme \<Rightarrow> ('r, 'a proc_state_scheme) outcome"

definition upd_proc :: "nat \<Rightarrow> (proc \<Rightarrow> proc) \<Rightarrow> 'a proc_state_scheme \<Rightarrow> 'a proc_state_scheme" where
  "upd_proc p f s = s\<lparr>procs := (procs s)(p := f (procs s p))\<rparr>"

text \<open>Code that uses \<^verbatim>\<open>myproc()\<close>: a null pointer there faults in the kernel.\<close>

definition myproc :: "(nat, 'a) kop" where
  "myproc s = (case curproc s of None \<Rightarrow> Panic ''kerneltrap'' | Some p \<Rightarrow> Ok p s)"

definition all_procs :: "nat list" where
  "all_procs = [0..<NPROC]"

fun procinit_loop :: "nat list \<Rightarrow> (unit, 'a) kop" where
  "procinit_loop [] s = Ok () s"
| "procinit_loop (p # ps) s =
     (let s1 = s\<lparr>held := held s - {ProcLock p}\<rparr>
      in bindK (kalloc s1) (\<lambda>pa s2.
        if pa = 0 then Panic ''kalloc''
        else let va = KSTACK p
             in bindK (kvmmap va pa PGSIZE (PTE_R OR PTE_W) s2) (\<lambda>_ s3.
               procinit_loop ps (upd_proc p (\<lambda>q. q\<lparr>kstack := va\<rparr>) s3))))"

definition procinit :: "(unit, 'a) kop" where
  "procinit s =
     bindK (procinit_loop all_procs (s\<lparr>held := held s - {PidLock}\<rparr>)) (\<lambda>_. kvminithart)"

definition allocpid :: "(int, 'a) kop" where
  "allocpid s =
     bindK (lock PidLock s) (\<lambda>_ s1.
       let pid = nextpid s1;
           s2 = s1\<lparr>nextpid := nextpid s1 + 1\<rparr>
       in bindK (unlock PidLock s2) (\<lambda>_. Ok pid))"

definition proc_pagetable :: "nat \<Rightarrow> (uint64, 'a) kop" where
  "proc_pagetable p s =
     bindK (uvmcreate s) (\<lambda>pt s1.
       if pt = 0 then Ok 0 s1
       else bindK (mappages pt TRAMPOLINE PGSIZE (sym_trampoline s1) (PTE_R OR PTE_X) s1) (\<lambda>r s2.
         if r < 0 then bindK (uvmfree pt 0 s2) (\<lambda>_. Ok 0)
         else bindK (mappages pt TRAPFRAME PGSIZE (trapframe (procs s2 p)) (PTE_R OR PTE_W) s2) (\<lambda>r s3.
           if r < 0 then bindK (uvmunmap pt TRAMPOLINE 1 False s3) (\<lambda>_ s4.
             bindK (uvmfree pt 0 s4) (\<lambda>_. Ok 0))
           else Ok pt s3)))"

definition proc_freepagetable :: "uint64 \<Rightarrow> uint64 \<Rightarrow> (unit, 'a) kop" where
  "proc_freepagetable pt psz s =
     bindK (uvmunmap pt TRAMPOLINE 1 False s) (\<lambda>_ s1.
     bindK (uvmunmap pt TRAPFRAME 1 False s1) (\<lambda>_ s2.
     uvmfree pt psz s2))"

definition freeproc :: "nat \<Rightarrow> (unit, 'a) kop" where
  "freeproc p s =
     bindK (if trapframe (procs s p) \<noteq> 0 then kfree (trapframe (procs s p)) s else Ok () s) (\<lambda>_ s1.
     let s2 = upd_proc p (\<lambda>q. q\<lparr>trapframe := 0\<rparr>) s1
     in bindK (if pagetable (procs s2 p) \<noteq> 0
               then proc_freepagetable (pagetable (procs s2 p)) (sz (procs s2 p)) s2 else Ok () s2) (\<lambda>_ s3.
     Ok () (upd_proc p (\<lambda>q. q\<lparr>pagetable := 0, sz := 0, pid := 0, parent := None,
       pname := (pname q)[0 := 0], chan := None, killed := False, xstate := 0, state := UNUSED\<rparr>) s3)))"

fun find_unused :: "nat list \<Rightarrow> (nat option, 'a) kop" where
  "find_unused [] s = Ok None s"
| "find_unused (p # ps) s =
     bindK (lock (ProcLock p) s) (\<lambda>_ s1.
       if state (procs s1 p) = UNUSED then Ok (Some p) s1
       else bindK (unlock (ProcLock p) s1) (\<lambda>_. find_unused ps))"

text \<open>\<open>allocproc\<close> returns with the lock of the new slot held, or \<^term>\<open>None\<close> for a null pointer.\<close>

definition allocproc :: "(nat option, 'a) kop" where
  "allocproc s =
     bindK (find_unused all_procs s) (\<lambda>found s0.
       case found of None \<Rightarrow> Ok None s0
       | Some p \<Rightarrow>
           bindK (allocpid s0) (\<lambda>i s1.
           let s2 = upd_proc p (\<lambda>q. q\<lparr>pid := i\<rparr>) s1
           in bindK (kalloc s2) (\<lambda>tf s3.
           let s4 = upd_proc p (\<lambda>q. q\<lparr>trapframe := tf\<rparr>) s3
           in if tf = 0 then bindK (unlock (ProcLock p) s4) (\<lambda>_. Ok None)
              else bindK (proc_pagetable p s4) (\<lambda>pt s5.
                let s6 = upd_proc p (\<lambda>q. q\<lparr>pagetable := pt\<rparr>) s5
                in if pt = 0
                   then bindK (freeproc p s6) (\<lambda>_ s7. bindK (unlock (ProcLock p) s7) (\<lambda>_. Ok None))
                   else Ok (Some p) (upd_proc p (\<lambda>q. q\<lparr>ctx :=
                     \<lparr>ctx_ra = sym_forkret s6, ctx_sp = kstack q + PGSIZE, ctx_s = replicate 12 0\<rparr>\<rparr>) s6)))))"

text \<open>The \<^verbatim>\<open>uint sz\<close> of \<open>growproc\<close> is 32 bits wide: the sizes are truncated and the sum wraps.\<close>

definition growproc :: "32 word \<Rightarrow> (int, 'a) kop" where
  "growproc n s =
     bindK (myproc s) (\<lambda>p s.
     let usz = (ucast (sz (procs s p)) :: uint)
     in if 0 <s n
        then bindK (uvmalloc (pagetable (procs s p)) (ucast usz) (ucast (usz + n)) s) (\<lambda>r s1.
          let usz = (ucast r :: uint)
          in if usz = 0 then Ok (-1) s1
             else Ok 0 (upd_proc p (\<lambda>q. q\<lparr>sz := ucast usz\<rparr>) s1))
        else if n <s 0
        then bindK (uvmdealloc (pagetable (procs s p)) (ucast usz) (ucast (usz + n)) s) (\<lambda>r s1.
          Ok 0 (upd_proc p (\<lambda>q. q\<lparr>sz := ucast (ucast r :: uint)\<rparr>) s1))
        else Ok 0 (upd_proc p (\<lambda>q. q\<lparr>sz := ucast usz\<rparr>) s))"

text \<open>
  \<open>sched\<close> gives up the cpu: the operation ends in \<^term>\<open>Sleep\<close> with the state at \<^verbatim>\<open>swtch\<close>. The
  locks a thread holds are the pending \<^verbatim>\<open>push_off\<close>s of its cpu, so \<^verbatim>\<open>noff\<close> is their number and
  interrupts are on when there are none.
\<close>

definition sched :: "(unit, 'a) kop" where
  "sched s =
     bindK (myproc s) (\<lambda>p s.
       if ProcLock p \<notin> held s then Panic ''sched p->lock''
       else if card (held s) \<noteq> 1 then Panic ''sched locks''
       else if state (procs s p) = RUNNING then Panic ''sched running''
       else if held s = {} then Panic ''sched interruptible''
       else Sleep s)"

definition yield :: "(unit, 'a) kop" where
  "yield s =
     bindK (myproc s) (\<lambda>p s.
     bindK (lock (ProcLock p) s) (\<lambda>_ s1.
     let s2 = upd_proc p (\<lambda>q. q\<lparr>state := RUNNABLE\<rparr>) s1
     in bindK (sched s2) (\<lambda>_ s3. unlock (ProcLock p) s3)))"

text \<open>The rest of \<open>yield\<close>, when the scheduler comes back to the process.\<close>

definition yield_resume :: "(unit, 'a) kop" where
  "yield_resume s = bindK (myproc s) (\<lambda>p. unlock (ProcLock p))"

definition sleep :: "channel \<Rightarrow> lock_id \<Rightarrow> (unit, 'a) kop" where
  "sleep c lk s =
     bindK (myproc s) (\<lambda>p s.
     bindK (if lk \<noteq> ProcLock p then bindK (lock (ProcLock p) s) (\<lambda>_. unlock lk) else Ok () s) (\<lambda>_ s1.
     let s2 = upd_proc p (\<lambda>q. q\<lparr>chan := Some c, state := SLEEPING\<rparr>) s1
     in bindK (sched s2) (\<lambda>_ s3. Ok () s3)))"

text \<open>The rest of \<open>sleep\<close>, when the scheduler comes back to the process with its lock held.\<close>

definition sleep_resume :: "lock_id \<Rightarrow> (unit, 'a) kop" where
  "sleep_resume lk s =
     bindK (myproc s) (\<lambda>p s.
     let s1 = upd_proc p (\<lambda>q. q\<lparr>chan := None\<rparr>) s
     in if lk \<noteq> ProcLock p then bindK (unlock (ProcLock p) s1) (\<lambda>_. lock lk) else Ok () s1)"

fun wakeup_loop :: "channel \<Rightarrow> nat list \<Rightarrow> (unit, 'a) kop" where
  "wakeup_loop c [] s = Ok () s"
| "wakeup_loop c (p # ps) s =
     bindK (lock (ProcLock p) s) (\<lambda>_ s1.
     let s2 = (if state (procs s1 p) = SLEEPING \<and> chan (procs s1 p) = Some c
               then upd_proc p (\<lambda>q. q\<lparr>state := RUNNABLE\<rparr>) s1 else s1)
     in bindK (unlock (ProcLock p) s2) (\<lambda>_. wakeup_loop c ps))"

definition wakeup :: "channel \<Rightarrow> (unit, 'a) kop" where
  "wakeup c s = wakeup_loop c all_procs s"

definition wakeup1 :: "nat \<Rightarrow> (unit, 'a) kop" where
  "wakeup1 p s =
     (if ProcLock p \<notin> held s then Panic ''wakeup1''
      else if chan (procs s p) = Some (ProcChan p) \<and> state (procs s p) = SLEEPING
      then Ok () (upd_proc p (\<lambda>q. q\<lparr>state := RUNNABLE\<rparr>) s)
      else Ok () s)"

fun kill_loop :: "int \<Rightarrow> nat list \<Rightarrow> (int, 'a) kop" where
  "kill_loop i [] s = Ok (-1) s"
| "kill_loop i (p # ps) s =
     bindK (lock (ProcLock p) s) (\<lambda>_ s1.
       if pid (procs s1 p) = i
       then let s2 = upd_proc p (\<lambda>q. q\<lparr>killed := True\<rparr>) s1;
                s3 = (if state (procs s2 p) = SLEEPING then upd_proc p (\<lambda>q. q\<lparr>state := RUNNABLE\<rparr>) s2 else s2)
            in bindK (unlock (ProcLock p) s3) (\<lambda>_. Ok 0)
       else bindK (unlock (ProcLock p) s1) (\<lambda>_. kill_loop i ps))"

definition kill :: "int \<Rightarrow> (int, 'a) kop" where
  "kill i s = kill_loop i all_procs s"

text \<open>One scan of \<open>scheduler\<close> over the table: up to the \<^verbatim>\<open>swtch\<close> into a runnable process, whose lock
  stays held, or to the end of the table. \<open>scheduler_back\<close> is what happens when the process has
  switched back.\<close>

fun scheduler_scan :: "nat list \<Rightarrow> (nat option, 'a) kop" where
  "scheduler_scan [] s = Ok None s"
| "scheduler_scan (p # ps) s =
     bindK (lock (ProcLock p) s) (\<lambda>_ s1.
       if state (procs s1 p) = RUNNABLE
       then Ok (Some p) ((upd_proc p (\<lambda>q. q\<lparr>state := RUNNING\<rparr>) s1)\<lparr>curproc := Some p\<rparr>)
       else bindK (unlock (ProcLock p) s1) (\<lambda>_. scheduler_scan ps))"

definition scheduler_back :: "nat \<Rightarrow> (unit, 'a) kop" where
  "scheduler_back p s = unlock (ProcLock p) (s\<lparr>curproc := None\<rparr>)"

fun count_used :: "nat list \<Rightarrow> uint64 \<Rightarrow> (uint64, 'a) kop" where
  "count_used [] num s = Ok num s"
| "count_used (p # ps) num s =
     bindK (lock (ProcLock p) s) (\<lambda>_ s1.
     let num1 = (if state (procs s1 p) \<noteq> UNUSED then num + 1 else num)
     in bindK (unlock (ProcLock p) s1) (\<lambda>_. count_used ps num1))"

definition count_unused_proc :: "(uint64, 'a) kop" where
  "count_unused_proc s = count_used all_procs 0 s"

definition either_copyout :: "bool \<Rightarrow> uint64 \<Rightarrow> byte list \<Rightarrow> (int, 'a) kop" where
  "either_copyout user_dst dst src s =
     bindK (myproc s) (\<lambda>p s.
       if user_dst then copyout (pagetable (procs s p)) dst src s
       else Ok 0 (upd_mem (\<lambda>m. put_bytes m dst src) s))"

definition either_copyin :: "bool \<Rightarrow> uint64 \<Rightarrow> nat \<Rightarrow> (int \<times> byte list, 'a) kop" where
  "either_copyin user_src src len s =
     bindK (myproc s) (\<lambda>p s.
       if user_src then copyin (pagetable (procs s p)) src len s
       else Ok (0, get_bytes (mem s) src len) s)"

fun reparent_loop :: "nat \<Rightarrow> nat list \<Rightarrow> (unit, 'a) kop" where
  "reparent_loop p [] s = Ok () s"
| "reparent_loop p (pp # ps) s =
     (if parent (procs s pp) = Some p
      then bindK (lock (ProcLock pp) s) (\<lambda>_ s1.
        bindK (unlock (ProcLock pp) (upd_proc pp (\<lambda>q. q\<lparr>parent := initproc s1\<rparr>) s1)) (\<lambda>_.
        reparent_loop p ps))
      else reparent_loop p ps s)"

definition reparent :: "nat \<Rightarrow> (unit, 'a) kop" where
  "reparent p s = reparent_loop p all_procs s"

text \<open>The scan of \<open>wait\<close>: \<open>Inl r\<close> when \<open>wait\<close> returns \<open>r\<close>, \<open>Inr havekids\<close> at the end of the table.\<close>

fun wait_scan :: "nat \<Rightarrow> uint64 \<Rightarrow> nat list \<Rightarrow> bool \<Rightarrow> (int + bool, 'a) kop" where
  "wait_scan p addr [] havekids s = Ok (Inr havekids) s"
| "wait_scan p addr (np # ps) havekids s =
     (if parent (procs s np) = Some p
      then bindK (lock (ProcLock np) s) (\<lambda>_ s1.
        if state (procs s1 np) = ZOMBIE
        then let i = pid (procs s1 np)
             in bindK (if addr \<noteq> 0
                       then copyout (pagetable (procs s1 p)) addr
                              (bytes_of_word 4 (word_of_int (xstate (procs s1 np)) :: 32 word)) s1
                       else Ok 0 s1) (\<lambda>r s2.
               if r < 0
               then bindK (unlock (ProcLock np) s2) (\<lambda>_ s3. bindK (unlock (ProcLock p) s3) (\<lambda>_. Ok (Inl (-1))))
               else bindK (freeproc np s2) (\<lambda>_ s3.
                 bindK (unlock (ProcLock np) s3) (\<lambda>_ s4.
                 bindK (unlock (ProcLock p) s4) (\<lambda>_. Ok (Inl i)))))
        else bindK (unlock (ProcLock np) s1) (\<lambda>_. wait_scan p addr ps True))
      else wait_scan p addr ps havekids s)"

text \<open>One round of the loop of \<open>wait\<close>, entered with \<^verbatim>\<open>p->lock\<close> held: it returns or goes to sleep, and a
  process woken up from that sleep runs \<open>sleep_resume\<close> and the next round.\<close>

definition wait_round :: "nat \<Rightarrow> uint64 \<Rightarrow> (int, 'a) kop" where
  "wait_round p addr s =
     bindK (wait_scan p addr all_procs False s) (\<lambda>r s1.
       case r of Inl i \<Rightarrow> Ok i s1
       | Inr havekids \<Rightarrow>
           if \<not> havekids \<or> killed (procs s1 p) then bindK (unlock (ProcLock p) s1) (\<lambda>_. Ok (-1))
           else bindK (sleep (ProcChan p) (ProcLock p) s1) (\<lambda>_. Ok 0))"

definition wait :: "uint64 \<Rightarrow> (int, 'a) kop" where
  "wait addr s =
     bindK (myproc s) (\<lambda>p s. bindK (lock (ProcLock p) s) (\<lambda>_. wait_round p addr))"

section \<open>Scans of the process table\<close>

lemma myproc_Some [simp]: "curproc s = Some p \<Longrightarrow> myproc s = Ok p s"
  by (simp add: myproc_def)

lemma upd_proc_simps [simp]:
  "held (upd_proc p f s) = held s" "mem (upd_proc p f s) = mem s" "curproc (upd_proc p f s) = curproc s"
  "procs (upd_proc p f s) = (procs s)(p := f (procs s p))" "freelist (upd_proc p f s) = freelist s"
  "sym_end (upd_proc p f s) = sym_end s" "initproc (upd_proc p f s) = initproc s"
  by (simp_all add: upd_proc_def)

lemma upd_proc_held: "upd_proc p f (s\<lparr>held := h\<rparr>) = (upd_proc p f s)\<lparr>held := h\<rparr>"
  by (simp add: upd_proc_def)

lemma held_update_id: "held s = h \<Longrightarrow> s\<lparr>held := h\<rparr> = s"
  by simp

definition wake :: "channel \<Rightarrow> nat set \<Rightarrow> (nat \<Rightarrow> proc) \<Rightarrow> nat \<Rightarrow> proc" where
  "wake c A ps p = (if p \<in> A \<and> state (ps p) = SLEEPING \<and> chan (ps p) = Some c
                    then ps p\<lparr>state := RUNNABLE\<rparr> else ps p)"

lemma wake_insert: "p \<notin> A \<Longrightarrow> wake c (insert p A) ps = wake c A (ps(p := wake c {p} ps p))"
  by (auto simp: wake_def fun_eq_iff)

lemma wake_empty [simp]: "wake c {} ps = ps"
  by (simp add: wake_def fun_eq_iff)

lemma wakeup_loop_eq:
  "distinct ps \<Longrightarrow> \<forall>p \<in> set ps. ProcLock p \<notin> held s \<Longrightarrow>
   wakeup_loop c ps s = Ok () (s\<lparr>procs := wake c (set ps) (procs s)\<rparr>)"
proof (induction ps arbitrary: s)
  case (Cons p ps)
  let ?s = "s\<lparr>procs := (procs s)(p := wake c {p} (procs s) p)\<rparr>"
  have "ProcLock p \<notin> held s" using Cons.prems by simp
  then have "wakeup_loop c (p # ps) s = wakeup_loop c ps ?s"
  proof (cases "state (procs s p) = SLEEPING \<and> chan (procs s p) = Some c")
    case True
    then have "wake c {p} (procs s) p = procs s p\<lparr>state := RUNNABLE\<rparr>" by (simp add: wake_def)
    with True \<open>ProcLock p \<notin> held s\<close> show ?thesis by (simp add: lock_free unlock_held upd_proc_def)
  next
    case False
    then have "wake c {p} (procs s) p = procs s p" by (simp add: wake_def)
    with False \<open>ProcLock p \<notin> held s\<close> show ?thesis by (simp add: lock_free unlock_held Let_def del: de_Morgan_conj)
  qed
  also have "\<dots> = Ok () (s\<lparr>procs := wake c (set ps) (procs ?s)\<rparr>)"
    using Cons.prems by (subst Cons.IH) simp_all
  also have "wake c (set ps) (procs ?s) = wake c (set (p # ps)) (procs s)"
    using Cons.prems wake_insert [of p "set ps" c "procs s"] by simp
  finally show ?case .
qed simp

definition no_plock :: "'a kthread_scheme \<Rightarrow> bool" where
  "no_plock s \<longleftrightarrow> (\<forall>p. ProcLock p \<notin> held s)"

lemma wakeup_eq: "no_plock s \<Longrightarrow> wakeup c s = Ok () (s\<lparr>procs := wake c {..<NPROC} (procs s)\<rparr>)"
  by (simp add: wakeup_def all_procs_def no_plock_def wakeup_loop_eq atLeast0LessThan)

lemma kill_loop_eq:
  "distinct ps \<Longrightarrow> \<forall>p \<in> set ps. ProcLock p \<notin> held s \<Longrightarrow>
   kill_loop i ps s =
     (case find (\<lambda>p. pid (procs s p) = i) ps of None \<Rightarrow> Ok (-1) s
      | Some p \<Rightarrow> Ok 0 (upd_proc p (\<lambda>q. q\<lparr>killed := True, state := (if state q = SLEEPING then RUNNABLE else state q)\<rparr>) s))"
proof (induction ps arbitrary: s)
  case (Cons p ps)
  have l: "ProcLock p \<notin> held s" using Cons.prems by simp
  show ?case
  proof (cases "pid (procs s p) = i")
    case True
    have "procs s p\<lparr>killed := True, state := state (procs s p)\<rparr> = procs s p\<lparr>killed := True\<rparr>" by (cases "procs s p") simp
    with True l show ?thesis by (simp add: outcome_simps upd_proc_def)
  next
    case False
    then show ?thesis using l Cons by (simp add: outcome_simps)
  qed
qed simp

lemma count_used_eq:
  "distinct ps \<Longrightarrow> \<forall>p \<in> set ps. ProcLock p \<notin> held s \<Longrightarrow>
   count_used ps num s = Ok (num + of_nat (length (filter (\<lambda>p. state (procs s p) \<noteq> UNUSED) ps))) s"
proof (induction ps arbitrary: num)
  case (Cons p ps)
  then have "ProcLock p \<notin> held s" by simp
  with Cons show ?case by (simp add: outcome_simps add.assoc)
qed simp

lemma find_unused_eq:
  "distinct ps \<Longrightarrow> \<forall>p \<in> set ps. ProcLock p \<notin> held s \<Longrightarrow>
   find_unused ps s =
     (case find (\<lambda>p. state (procs s p) = UNUSED) ps of None \<Rightarrow> Ok None s
      | Some p \<Rightarrow> Ok (Some p) (s\<lparr>held := insert (ProcLock p) (held s)\<rparr>))"
proof (induction ps)
  case (Cons p ps)
  then have "ProcLock p \<notin> held s" by simp
  with Cons show ?case by (simp add: outcome_simps)
qed simp

lemma scheduler_scan_eq:
  "distinct ps \<Longrightarrow> \<forall>p \<in> set ps. ProcLock p \<notin> held s \<Longrightarrow>
   scheduler_scan ps s =
     (case find (\<lambda>p. state (procs s p) = RUNNABLE) ps of None \<Rightarrow> Ok None s
      | Some p \<Rightarrow> Ok (Some p) ((upd_proc p (\<lambda>q. q\<lparr>state := RUNNING\<rparr>) s)
                    \<lparr>held := insert (ProcLock p) (held s), curproc := Some p\<rparr>))"
proof (induction ps)
  case (Cons p ps)
  then have "ProcLock p \<notin> held s" by simp
  with Cons show ?case by (simp add: outcome_simps upd_proc_def)
qed simp

section \<open>Properties of sleeping and waking\<close>

definition demo_proc :: proc where
  "demo_proc = \<lparr>state = RUNNING, parent = None, chan = None, killed = False, xstate = 0, pid = 7, kstack = 0, sz = 100,
     pagetable = 0, trapframe = 0, ctx = \<lparr>ctx_ra = 0, ctx_sp = 0, ctx_s = []\<rparr>, ofile = replicate 16 None, cwd = None,
     pname = replicate 16 0, syscall_mask = 0\<rparr>"

definition demo_ps :: "lock_id set \<Rightarrow> (nat \<Rightarrow> proc) \<Rightarrow> proc_state" where
  "demo_ps h ps = \<lparr>held = h, mem = (\<lambda>_. 0), freelist = 0, sym_end = 0x80025000, kernel_pagetable = 0,
     sym_etext = 0x80008000, sym_trampoline = 0x80007000, satp = 0, procs = ps, curproc = Some 3, nextpid = 8,
     initproc = Some 0, ticks = 0, sym_forkret = 0x80001000\<rparr>"

lemma demo_ps_simps [simp]:
  "held (demo_ps h ps) = h" "procs (demo_ps h ps) = ps" "curproc (demo_ps h ps) = Some 3"
  by (simp_all add: demo_ps_def)

lemma demo_proc_simps [simp]: "state demo_proc = RUNNING" "pid demo_proc = 7" "chan demo_proc = None" "sz demo_proc = 100"
  "parent demo_proc = None" "killed demo_proc = False"
  by (simp_all add: demo_proc_def)

text \<open>\<open>wakeup(chan)\<close>, called without any process lock, makes runnable exactly the processes that
  sleep on \<open>chan\<close>; it changes no other field of any process and returns with the caller's locks as
  they were.\<close>

theorem wakeup_wakes_exactly:
  assumes "\<And>p. p < NPROC \<Longrightarrow> ProcLock p \<notin> held s"
  shows "\<exists>t. wakeup c s = Ok () t \<and> held t = held s \<and> mem t = mem s \<and>
    (\<forall>p. procs t p = (if p < NPROC \<and> state (procs s p) = SLEEPING \<and> chan (procs s p) = Some c
                      then procs s p\<lparr>state := RUNNABLE\<rparr> else procs s p))"
  using wakeup_loop_eq [of all_procs s c] assms
  by (simp add: wakeup_def all_procs_def wake_def)

theorem wakeup_wakes_exactly_witness:
  "\<exists>t. wakeup LogChan (demo_ps {LogLock} (\<lambda>p. demo_proc\<lparr>state := SLEEPING, chan := (if p = 5 then Some LogChan else Some TicksChan)\<rparr>)) = Ok () t \<and>
     held t = {LogLock} \<and> state (procs t 5) = RUNNABLE \<and> state (procs t 6) = SLEEPING"
  using wakeup_wakes_exactly [of "demo_ps {LogLock} (\<lambda>p. demo_proc\<lparr>state := SLEEPING, chan := (if p = 5 then Some LogChan else Some TicksChan)\<rparr>)" LogChan]
  by (force simp: NPROC_def)

text \<open>C11. The life of a sleep. A process that holds exactly the lock \<open>lk\<close> and calls \<open>sleep(c, lk)\<close>
  switches to the scheduler asleep on \<open>c\<close> with \<open>lk\<close> released and only its own lock held. Once the scheduler has dropped that lock, \<open>wakeup(c)\<close>
  makes it runnable, the scheduler picks it up again, and the rest of \<open>sleep\<close> returns with exactly
  \<open>lk\<close> held and the channel cleared.\<close>

theorem sleep_wakeup_cycle:
  assumes "curproc s = Some p" "p < NPROC" "held s = {lk}" "\<And>q. lk \<noteq> ProcLock q"
  shows "\<exists>s1 s2 s3 s4 s5. sleep c lk s = Sleep s1 \<and> held s1 = {ProcLock p} \<and>
    state (procs s1 p) = SLEEPING \<and> chan (procs s1 p) = Some c \<and>
    scheduler_back p s1 = Ok () s2 \<and> held s2 = {} \<and> curproc s2 = None \<and>
    wakeup c s2 = Ok () s3 \<and> state (procs s3 p) = RUNNABLE \<and>
    scheduler_scan [p] s3 = Ok (Some p) s4 \<and> held s4 = {ProcLock p} \<and> state (procs s4 p) = RUNNING \<and>
    sleep_resume lk s4 = Ok () s5 \<and> held s5 = {lk} \<and> chan (procs s5 p) = None \<and> curproc s5 = Some p"
proof -
  let ?s1 = "(upd_proc p (\<lambda>q. q\<lparr>chan := Some c, state := SLEEPING\<rparr>) s)\<lparr>held := {ProcLock p}\<rparr>"
  let ?s2 = "?s1\<lparr>curproc := None, held := {}\<rparr>"
  let ?s3 = "?s2\<lparr>procs := wake c {..<NPROC} (procs ?s2)\<rparr>"
  have lk: "lk \<noteq> ProcLock p" "ProcLock p \<noteq> lk" using assms(4) by (auto dest: sym)
  have 1: "sleep c lk s = Sleep ?s1"
    using assms(1,3) lk by (simp add: sleep_def lock_free unlock_held sched_def upd_proc_def insert_Diff_if)
  have 2: "scheduler_back p ?s1 = Ok () ?s2" by (simp add: scheduler_back_def unlock_held)
  have 3: "wakeup c ?s2 = Ok () ?s3" by (rule wakeup_eq) (simp add: no_plock_def)
  have st: "state (procs ?s3 p) = RUNNABLE" using assms(2) by (simp add: wake_def)
  define s4 where "s4 = (upd_proc p (\<lambda>q. q\<lparr>state := RUNNING\<rparr>) ?s3)\<lparr>held := {ProcLock p}, curproc := Some p\<rparr>"
  have 4: "scheduler_scan [p] ?s3 = Ok (Some p) s4"
    using scheduler_scan_eq [of "[p]" ?s3] st by (simp add: s4_def)
  have s4: "held s4 = {ProcLock p}" "state (procs s4 p) = RUNNING" "curproc s4 = Some p" by (simp_all add: s4_def)
  have 5: "sleep_resume lk s4 = Ok () ((upd_proc p (\<lambda>q. q\<lparr>chan := None\<rparr>) s4)\<lparr>held := {lk}\<rparr>)"
    using s4 lk by (simp add: sleep_resume_def unlock_held lock_free upd_proc_def)
  show ?thesis
    by (intro exI conjI, rule 1, simp, simp, simp, rule 2, simp, simp, rule 3, rule st, rule 4, rule s4(1), rule s4(2),
        rule 5) (simp_all add: s4(3))
qed

theorem sleep_wakeup_cycle_witness:
  "\<exists>s1. sleep LogChan LogLock (demo_ps {LogLock} (\<lambda>_. demo_proc)) = Sleep s1 \<and> held s1 = {ProcLock 3} \<and>
     state (procs s1 3) = SLEEPING"
  using sleep_wakeup_cycle [of "demo_ps {LogLock} (\<lambda>_. demo_proc)" 3 LogLock LogChan] by (auto simp: NPROC_def)

text \<open>\<open>kill(pid)\<close> marks the first process with that pid as killed, makes it runnable if it is
  asleep, changes no other process and returns 0; it returns -1 and changes nothing when no slot
  has the pid.\<close>

theorem kill_marks_process:
  assumes "\<And>p. p < NPROC \<Longrightarrow> ProcLock p \<notin> held s"
  shows "(\<exists>p < NPROC. pid (procs s p) = i \<and> (\<forall>q < p. pid (procs s q) \<noteq> i) \<and>
       kill i s = Ok 0 (s\<lparr>procs := (procs s)(p := procs s p\<lparr>killed := True,
         state := (if state (procs s p) = SLEEPING then RUNNABLE else state (procs s p))\<rparr>)\<rparr>)) \<or>
     (\<forall>p < NPROC. pid (procs s p) \<noteq> i) \<and> kill i s = Ok (-1) s"
proof -
  have eq: "kill i s = (case find (\<lambda>p. pid (procs s p) = i) [0..<NPROC] of None \<Rightarrow> Ok (-1) s
      | Some p \<Rightarrow> Ok 0 (upd_proc p (\<lambda>q. q\<lparr>killed := True, state := (if state q = SLEEPING then RUNNABLE else state q)\<rparr>) s))"
    unfolding kill_def all_procs_def using assms by (intro kill_loop_eq) auto
  show ?thesis
  proof (cases "find (\<lambda>p. pid (procs s p) = i) [0..<NPROC]")
    case None
    then have "\<forall>p < NPROC. pid (procs s p) \<noteq> i" by (auto simp: find_None_iff)
    with None eq show ?thesis by simp
  next
    case (Some p)
    then obtain k where k: "k < NPROC" "p = [0..<NPROC] ! k" "pid (procs s p) = i" "\<forall>j < k. pid (procs s ([0..<NPROC] ! j)) \<noteq> i"
      by (auto simp: find_Some_iff)
    then have "p = k" "\<forall>q < p. pid (procs s q) \<noteq> i" by auto
    with k(1,3) Some eq show ?thesis by (auto simp: upd_proc_def)
  qed
qed

theorem kill_marks_process_witness:
  "kill 7 (demo_ps {} (\<lambda>_. demo_proc)) = Ok 0 (demo_ps {} ((\<lambda>_. demo_proc)(0 := demo_proc\<lparr>killed := True\<rparr>))) \<and>
   kill 8 (demo_ps {} (\<lambda>_. demo_proc)) = Ok (-1) (demo_ps {} (\<lambda>_. demo_proc))"
proof -
  have "\<not> (\<forall>p < NPROC. pid demo_proc \<noteq> 7)" by (auto simp: NPROC_def intro!: exI [of _ 0])
  then show ?thesis
    using kill_marks_process [of "demo_ps {} (\<lambda>_. demo_proc)" 7] kill_marks_process [of "demo_ps {} (\<lambda>_. demo_proc)" 8]
    by (auto simp: demo_ps_def demo_proc_def)
qed

section \<open>Properties of waiting, growing and counting\<close>

lemma wait_scan_no_zombie:
  "distinct ps \<Longrightarrow> \<forall>np \<in> set ps. parent (procs s np) = Some p \<longrightarrow> ProcLock np \<notin> held s \<and> state (procs s np) \<noteq> ZOMBIE \<Longrightarrow>
   wait_scan p addr ps k s = Ok (Inr (k \<or> (\<exists>np \<in> set ps. parent (procs s np) = Some p))) s"
proof (induction ps arbitrary: k)
  case (Cons np ps)
  then show ?case by (cases "parent (procs s np) = Some p") (auto simp: lock_free unlock_held)
qed simp

lemma wait_scan_append:
  "distinct (as @ ps) \<Longrightarrow> \<forall>np \<in> set as. parent (procs s np) = Some p \<longrightarrow> ProcLock np \<notin> held s \<and> state (procs s np) \<noteq> ZOMBIE \<Longrightarrow>
   wait_scan p addr (as @ ps) k s = wait_scan p addr ps (k \<or> (\<exists>np \<in> set as. parent (procs s np) = Some p)) s"
proof (induction as arbitrary: k)
  case (Cons np as)
  then show ?case by (cases "parent (procs s np) = Some p") (auto simp: lock_free unlock_held)
qed simp



text \<open>\<open>count_unused_proc\<close> returns the number of slots that are \<^emph>\<open>not\<close> \<open>UNUSED\<close>, the number of live
  processes, and changes nothing.\<close>

theorem count_unused_proc_counts_used:
  assumes "\<And>p. p < NPROC \<Longrightarrow> ProcLock p \<notin> held s"
  shows "count_unused_proc s = Ok (of_nat (card {p. p < NPROC \<and> state (procs s p) \<noteq> UNUSED})) s"
proof -
  have "length (filter (\<lambda>p. state (procs s p) \<noteq> UNUSED) [0..<NPROC]) = card (set (filter (\<lambda>p. state (procs s p) \<noteq> UNUSED) [0..<NPROC]))"
    by (rule distinct_card [symmetric]) simp
  moreover have "set (filter (\<lambda>p. state (procs s p) \<noteq> UNUSED) [0..<NPROC]) = {p. p < NPROC \<and> state (procs s p) \<noteq> UNUSED}"
    by auto
  moreover have "count_unused_proc s = Ok (0 + of_nat (length (filter (\<lambda>p. state (procs s p) \<noteq> UNUSED) [0..<NPROC]))) s"
    unfolding count_unused_proc_def all_procs_def using assms by (intro count_used_eq) auto
  ultimately show ?thesis by simp
qed

theorem count_unused_proc_counts_used_witness:
  "count_unused_proc (demo_ps {} (\<lambda>p. if p < 2 then demo_proc else demo_proc\<lparr>state := UNUSED\<rparr>)) =
     Ok 2 (demo_ps {} (\<lambda>p. if p < 2 then demo_proc else demo_proc\<lparr>state := UNUSED\<rparr>))"
proof -
  have "{p. p < NPROC \<and> state (if p < 2 then demo_proc else demo_proc\<lparr>state := UNUSED\<rparr>) \<noteq> UNUSED} = {0, 1}"
    by (auto simp: NPROC_def)
  then show ?thesis
    using count_unused_proc_counts_used [of "demo_ps {} (\<lambda>p. if p < 2 then demo_proc else demo_proc\<lparr>state := UNUSED\<rparr>)"]
    by simp
qed

text \<open>\<open>growproc(n)\<close> with a negative \<open>n\<close> larger in magnitude than the process size does nothing at all
  and reports success: the 32-bit sum \<open>sz + n\<close> wraps around to a value above \<open>sz\<close>, which
  \<open>uvmdealloc\<close> takes as nothing to do.\<close>

theorem growproc_underflow_is_noop:
  assumes "curproc s = Some p" "unat (sz (procs s p)) < 2 ^ 32" "n <s 0"
    and "unat (sz (procs s p)) + unat n < 2 ^ 32"
  shows "growproc n s = Ok 0 s"
proof -
  let ?u = "ucast (sz (procs s p)) :: uint"
  have u: "unat ?u = unat (sz (procs s p))"
    using assms(2) by (simp add: unsigned_ucast_eq take_bit_nat_eq_self)
  have bk: "ucast ?u = sz (procs s p)"
    using assms(2) u by (simp add: word_unat_eq_iff unsigned_ucast_eq unsigned_take_bit_eq take_bit_nat_eq_self)
  have sum: "unat (?u + n) = unat ?u + unat n" using assms(4) u by (simp add: unat_plus_if')
  have "(ucast ?u :: uint64) \<le> ucast (?u + n)"
    using assms(2,4) sum u
    by (simp add: word_le_nat_alt unsigned_ucast_eq unsigned_take_bit_eq take_bit_nat_eq_self)
  then have "uvmdealloc (pagetable (procs s p)) (ucast ?u) (ucast (?u + n)) s = Ok (ucast ?u) s"
    by (simp add: uvmdealloc_def)
  moreover have "\<not> 0 <s n" using assms(3) by (simp add: word_sless_alt)
  moreover have "upd_proc p (\<lambda>q. q\<lparr>sz := sz (procs s p)\<rparr>) s = s" by (simp add: upd_proc_def)
  ultimately show ?thesis using assms(1,3) bk by (simp add: growproc_def Let_def)
qed

theorem growproc_underflow_is_noop_witness:
  "growproc (- 4096) (demo_ps {} (\<lambda>_. demo_proc)) = Ok 0 (demo_ps {} (\<lambda>_. demo_proc))"
  by (rule growproc_underflow_is_noop [of _ 3]) (simp_all add: word_sless_alt)

end
