(* ===== verification/Xv6_Bio.thy ===== *)
theory Xv6_Bio
  imports Xv6_Proc
begin

text \<open>
  \<^verbatim>\<open>kernel/sleeplock.c\<close> and \<^verbatim>\<open>kernel/bio.c\<close>: sleep locks and the buffer cache. The buffers form a
  doubly linked list in least-recently-used order through their \<^verbatim>\<open>prev\<close> and \<^verbatim>\<open>next\<close> pointers; a
  pointer to a buffer is its index, and \<open>NBUF\<close> is the list head \<^verbatim>\<open>bcache.head\<close>. The disk is an array
  of blocks; \<open>disk_rw\<close> is what \<^verbatim>\<open>virtio_disk_rw\<close> promises its callers.
\<close>

section \<open>Sleep locks\<close>

record sleeplock =
  sl_locked :: bool
  sl_pid :: int

text \<open>The operations take the spinlock inside the sleep lock, the channel (its address), and how to
  read and write it in the state. A process that finds the lock taken goes to sleep; when it is
  woken up it runs \<open>sleep_resume\<close> and \<open>acquiresleep_loop\<close> again.\<close>

definition initsleeplock :: "(sleeplock \<Rightarrow> 'a proc_state_scheme \<Rightarrow> 'a proc_state_scheme) \<Rightarrow>
    lock_id \<Rightarrow> 'a proc_state_scheme \<Rightarrow> 'a proc_state_scheme" where
  "initsleeplock put lk s = put \<lparr>sl_locked = False, sl_pid = 0\<rparr> (s\<lparr>held := held s - {lk}\<rparr>)"

definition acquiresleep_loop :: "lock_id \<Rightarrow> channel \<Rightarrow> ('a proc_state_scheme \<Rightarrow> sleeplock) \<Rightarrow>
    (sleeplock \<Rightarrow> 'a proc_state_scheme \<Rightarrow> 'a proc_state_scheme) \<Rightarrow> (unit, 'a) kop" where
  "acquiresleep_loop lk c get put s =
     (if sl_locked (get s) then sleep c lk s
      else bindK (myproc s) (\<lambda>p s1.
        unlock lk (put \<lparr>sl_locked = True, sl_pid = pid (procs s1 p)\<rparr> s1)))"

definition acquiresleep :: "lock_id \<Rightarrow> channel \<Rightarrow> ('a proc_state_scheme \<Rightarrow> sleeplock) \<Rightarrow>
    (sleeplock \<Rightarrow> 'a proc_state_scheme \<Rightarrow> 'a proc_state_scheme) \<Rightarrow> (unit, 'a) kop" where
  "acquiresleep lk c get put s = bindK (lock lk s) (\<lambda>_. acquiresleep_loop lk c get put)"

definition releasesleep :: "lock_id \<Rightarrow> channel \<Rightarrow>
    (sleeplock \<Rightarrow> 'a proc_state_scheme \<Rightarrow> 'a proc_state_scheme) \<Rightarrow> (unit, 'a) kop" where
  "releasesleep lk c put s =
     bindK (lock lk s) (\<lambda>_ s1.
     bindK (wakeup c (put \<lparr>sl_locked = False, sl_pid = 0\<rparr> s1)) (\<lambda>_ s2. unlock lk s2))"

definition holdingsleep :: "lock_id \<Rightarrow> ('a proc_state_scheme \<Rightarrow> sleeplock) \<Rightarrow> (bool, 'a) kop" where
  "holdingsleep lk get s =
     bindK (lock lk s) (\<lambda>_ s1.
     bindK (myproc s1) (\<lambda>p s1.
     let r = (sl_locked (get s1) \<and> sl_pid (get s1) = pid (procs s1 p))
     in bindK (unlock lk s1) (\<lambda>_. Ok r)))"

section \<open>The buffer cache\<close>

definition BSIZE :: nat where [layout_defs]: "BSIZE = 1024"

type_synonym block = "byte list"

record buf =
  valid :: bool
  dev :: uint
  blockno :: uint
  block_lock :: sleeplock
  refcnt :: uint
  prev_buf :: nat
  next_buf :: nat
  data :: block

text \<open>\<open>disk_log\<close> records every block the kernel has written to the disk, in order.\<close>

record bio_state = proc_state +
  bufs :: "nat \<Rightarrow> buf"
  disk :: "uint \<Rightarrow> block"
  disk_log :: "(uint \<times> block) list"

type_synonym ('r, 'a) fop = "'a bio_state_scheme \<Rightarrow> ('r, 'a bio_state_scheme) outcome"

definition bhead :: nat where
  "bhead = NBUF"

definition upd_buf :: "nat \<Rightarrow> (buf \<Rightarrow> buf) \<Rightarrow> 'a bio_state_scheme \<Rightarrow> 'a bio_state_scheme" where
  "upd_buf b f s = s\<lparr>bufs := (bufs s)(b := f (bufs s b))\<rparr>"

definition put_block_lock :: "nat \<Rightarrow> sleeplock \<Rightarrow> 'a bio_state_scheme \<Rightarrow> 'a bio_state_scheme" where
  "put_block_lock b l = upd_buf b (\<lambda>x. x\<lparr>block_lock := l\<rparr>)"

definition disk_rw :: "nat \<Rightarrow> bool \<Rightarrow> (unit, 'a) fop" where
  "disk_rw b write s =
     (let n = blockno (bufs s b)
      in if write then Ok () (s\<lparr>disk := (disk s)(n := data (bufs s b)), disk_log := disk_log s @ [(n, data (bufs s b))]\<rparr>)
         else Ok () (upd_buf b (\<lambda>x. x\<lparr>data := disk s n\<rparr>) s))"

text \<open>The insertion of \<open>b\<close> right after the head, as in \<open>binit\<close> and \<open>brelse\<close>, and its removal from the
  list in \<open>brelse\<close>.\<close>

definition insert_head :: "nat \<Rightarrow> 'a bio_state_scheme \<Rightarrow> 'a bio_state_scheme" where
  "insert_head b s =
     (let s1 = upd_buf b (\<lambda>x. x\<lparr>next_buf := next_buf (bufs s bhead)\<rparr>) s;
          s2 = upd_buf b (\<lambda>x. x\<lparr>prev_buf := bhead\<rparr>) s1;
          s3 = upd_buf (next_buf (bufs s2 bhead)) (\<lambda>x. x\<lparr>prev_buf := b\<rparr>) s2
      in upd_buf bhead (\<lambda>x. x\<lparr>next_buf := b\<rparr>) s3)"

definition unlink :: "nat \<Rightarrow> 'a bio_state_scheme \<Rightarrow> 'a bio_state_scheme" where
  "unlink b s =
     (let s1 = upd_buf (next_buf (bufs s b)) (\<lambda>x. x\<lparr>prev_buf := prev_buf (bufs s b)\<rparr>) s
      in upd_buf (prev_buf (bufs s1 b)) (\<lambda>x. x\<lparr>next_buf := next_buf (bufs s1 b)\<rparr>) s1)"

definition binit :: "(unit, 'a) fop" where
  "binit s =
     (let s1 = s\<lparr>held := held s - {BcacheLock}\<rparr>;
          s2 = upd_buf bhead (\<lambda>x. x\<lparr>prev_buf := bhead\<rparr>) s1;
          s3 = upd_buf bhead (\<lambda>x. x\<lparr>next_buf := bhead\<rparr>) s2
      in Ok () (fold (\<lambda>b t. initsleeplock (put_block_lock b) (BufSleepLk b) (insert_head b t)) [0..<NBUF] s3))"

text \<open>The two searches of \<open>bget\<close>: forwards for the block, backwards for an unused buffer. The first
  argument bounds the number of nodes visited.\<close>

fun find_cached :: "nat \<Rightarrow> uint \<Rightarrow> uint \<Rightarrow> (nat \<Rightarrow> buf) \<Rightarrow> nat \<Rightarrow> nat option option" where
  "find_cached 0 d n bs b = None"
| "find_cached (Suc k) d n bs b =
     (if b = bhead then Some None
      else if dev (bs b) = d \<and> blockno (bs b) = n then Some (Some b)
      else find_cached k d n bs (next_buf (bs b)))"

fun find_lru :: "nat \<Rightarrow> (nat \<Rightarrow> buf) \<Rightarrow> nat \<Rightarrow> nat option option" where
  "find_lru 0 bs b = None"
| "find_lru (Suc k) bs b =
     (if b = bhead then Some None
      else if refcnt (bs b) = 0 then Some (Some b)
      else find_lru k bs (prev_buf (bs b)))"

abbreviation acquire_buf :: "nat \<Rightarrow> (unit, 'a) fop" where
  "acquire_buf b s \<equiv> acquiresleep (BufSleepLk b) (BufLockChan b) (\<lambda>t. block_lock (bufs t b)) (put_block_lock b) s"

definition bget :: "uint \<Rightarrow> uint \<Rightarrow> (nat, 'a) fop" where
  "bget d n s =
     bindK (lock BcacheLock s) (\<lambda>_ s1.
       case find_cached (Suc NBUF) d n (bufs s1) (next_buf (bufs s1 bhead)) of
         None \<Rightarrow> Diverge
       | Some (Some b) \<Rightarrow>
           let s2 = upd_buf b (\<lambda>x. x\<lparr>refcnt := refcnt x + 1\<rparr>) s1
           in bindK (unlock BcacheLock s2) (\<lambda>_ s3. bindK (acquire_buf b s3) (\<lambda>_. Ok b))
       | Some None \<Rightarrow>
           (case find_lru (Suc NBUF) (bufs s1) (prev_buf (bufs s1 bhead)) of
              None \<Rightarrow> Diverge
            | Some None \<Rightarrow> Panic ''bget: no buffers''
            | Some (Some b) \<Rightarrow>
                let s2 = upd_buf b (\<lambda>x. x\<lparr>dev := d, blockno := n, valid := False, refcnt := 1\<rparr>) s1
                in bindK (unlock BcacheLock s2) (\<lambda>_ s3. bindK (acquire_buf b s3) (\<lambda>_. Ok b))))"

definition bread :: "uint \<Rightarrow> uint \<Rightarrow> (nat, 'a) fop" where
  "bread d n s =
     bindK (bget d n s) (\<lambda>b s1.
       if \<not> valid (bufs s1 b)
       then bindK (disk_rw b False s1) (\<lambda>_ s2. Ok b (upd_buf b (\<lambda>x. x\<lparr>valid := True\<rparr>) s2))
       else Ok b s1)"

abbreviation holding_buf :: "nat \<Rightarrow> (bool, 'a) fop" where
  "holding_buf b s \<equiv> holdingsleep (BufSleepLk b) (\<lambda>t. block_lock (bufs t b)) s"

definition bwrite :: "nat \<Rightarrow> (unit, 'a) fop" where
  "bwrite b s = bindK (holding_buf b s) (\<lambda>h s1. if \<not> h then Panic ''bwrite'' else disk_rw b True s1)"

definition brelse :: "nat \<Rightarrow> (unit, 'a) fop" where
  "brelse b s =
     bindK (holding_buf b s) (\<lambda>h s1.
       if \<not> h then Panic ''brelse''
       else bindK (releasesleep (BufSleepLk b) (BufLockChan b) (put_block_lock b) s1) (\<lambda>_ s2.
         bindK (lock BcacheLock s2) (\<lambda>_ s3.
         let s4 = upd_buf b (\<lambda>x. x\<lparr>refcnt := refcnt x - 1\<rparr>) s3;
             s5 = (if refcnt (bufs s4 b) = 0 then insert_head b (unlink b s4) else s4)
         in unlock BcacheLock s5)))"

definition bpin :: "nat \<Rightarrow> (unit, 'a) fop" where
  "bpin b s =
     bindK (lock BcacheLock s) (\<lambda>_ s1. unlock BcacheLock (upd_buf b (\<lambda>x. x\<lparr>refcnt := refcnt x + 1\<rparr>) s1))"

definition bunpin :: "nat \<Rightarrow> (unit, 'a) fop" where
  "bunpin b s =
     bindK (lock BcacheLock s) (\<lambda>_ s1. unlock BcacheLock (upd_buf b (\<lambda>x. x\<lparr>refcnt := refcnt x - 1\<rparr>) s1))"

section \<open>The LRU list\<close>

text \<open>\<open>seg nx pv a xs c\<close>: following \<open>nx\<close> from \<open>a\<close> visits \<open>xs\<close> and arrives at \<open>c\<close>, and \<open>pv\<close> goes the other
  way. The buffer list is such a segment from the head back to the head.\<close>

fun seg :: "(nat \<Rightarrow> nat) \<Rightarrow> (nat \<Rightarrow> nat) \<Rightarrow> nat \<Rightarrow> nat list \<Rightarrow> nat \<Rightarrow> bool" where
  "seg nx pv a [] c \<longleftrightarrow> nx a = c \<and> pv c = a"
| "seg nx pv a (x # xs) c \<longleftrightarrow> nx a = x \<and> pv x = a \<and> seg nx pv x xs c"

definition lru :: "(nat \<Rightarrow> buf) \<Rightarrow> nat list \<Rightarrow> bool" where
  "lru bs xs \<longleftrightarrow> seg (\<lambda>b. next_buf (bs b)) (\<lambda>b. prev_buf (bs b)) bhead xs bhead
     \<and> distinct xs \<and> set xs = {..<NBUF}"

lemma seg_append: "seg nx pv a (xs @ y # ys) c \<longleftrightarrow> seg nx pv a xs y \<and> seg nx pv y ys c"
  by (induction xs arbitrary: a) auto

lemma seg_cong:
  "seg nx pv a xs c \<Longrightarrow> \<forall>x \<in> insert a (set xs). nx' x = nx x \<Longrightarrow> \<forall>x \<in> insert c (set xs). pv' x = pv x
   \<Longrightarrow> seg nx' pv' a xs c"
  by (induction xs arbitrary: a) auto

lemma seg_insert:
  assumes "seg nx pv a xs c" "b \<notin> set xs" "b \<noteq> a" "b \<noteq> c" "a \<notin> set xs" "distinct xs" "c \<notin> set xs"
  shows "seg (nx(b := nx a, a := b)) (pv(b := a, nx a := b)) a (b # xs) c"
proof (cases xs)
  case Nil
  with assms show ?thesis by simp
next
  case (Cons y ys)
  with assms have "seg nx pv y ys c" "nx a = y" by auto
  then have "seg (nx(b := nx a, a := b)) (pv(b := a, nx a := b)) y ys c"
    using assms Cons by (elim seg_cong) auto
  with Cons assms show ?thesis by simp
qed

lemma seg_first: "seg nx pv a xs c \<Longrightarrow> nx a = (case xs of [] \<Rightarrow> c | x # _ \<Rightarrow> x)"
  by (cases xs) auto

lemma seg_last: "seg nx pv a xs c \<Longrightarrow> pv c = (if xs = [] then a else last xs)"
  by (induction xs arbitrary: a) auto

lemma seg_new_end:
  "seg nx pv a us b \<Longrightarrow> c \<notin> set us \<Longrightarrow> distinct us \<Longrightarrow> a \<notin> set us \<Longrightarrow>
   seg (nx(pv b := c)) (pv(c := pv b)) a us c"
proof (induction us rule: rev_induct)
  case (snoc u us)
  then have "seg nx pv a us u" "nx u = b" "pv b = u" by (auto simp: seg_append)
  with snoc.prems show ?case by (auto simp: seg_append elim!: seg_cong)
qed simp

lemma seg_remove:
  assumes s: "seg nx pv a (us @ b # vs) c" and d: "distinct (us @ b # vs)"
    and a: "a \<notin> set (us @ b # vs)" and c: "c \<notin> set (us @ b # vs)"
  shows "seg (nx(pv b := nx b)) (pv(nx b := pv b)) a (us @ vs) c"
proof -
  have us: "seg nx pv a us b" and vs: "seg nx pv b vs c" using s by (auto simp: seg_append)
  let ?e = "nx b"
  have e: "?e = (case vs of [] \<Rightarrow> c | x # _ \<Rightarrow> x)" using vs by (rule seg_first)
  have "?e \<notin> set us" using e d c by (cases vs) auto
  then have 1: "seg (nx(pv b := ?e)) (pv(?e := pv b)) a us ?e"
    using us d a by (intro seg_new_end) auto
  show ?thesis
  proof (cases vs)
    case Nil
    with 1 e show ?thesis by simp
  next
    case (Cons y ys)
    have l: "pv b = (if us = [] then a else last us)" using us by (rule seg_last)
    have "pv b \<notin> set vs" using l a d last_in_set [of us] by (cases "us = []") (auto simp: disjoint_iff)
    moreover have "seg nx pv y ys c" "nx b = y" using vs Cons by auto
    ultimately have "seg (nx(pv b := ?e)) (pv(?e := pv b)) y ys c"
      using Cons d c by (elim seg_cong) auto
    with 1 Cons \<open>nx b = y\<close> show ?thesis by (simp add: seg_append)
  qed
qed

lemma find_cached_seg:
  "seg (\<lambda>b. next_buf (bs b)) pv a xs bhead \<Longrightarrow> bhead \<notin> set xs \<Longrightarrow> length xs < k \<Longrightarrow>
   find_cached k d n bs (next_buf (bs a)) = Some (find (\<lambda>b. dev (bs b) = d \<and> blockno (bs b) = n) xs)"
proof (induction xs arbitrary: a k)
  case Nil
  then show ?case by (cases k) auto
next
  case (Cons x xs)
  then obtain k' where "k = Suc k'" by (cases k) auto
  with Cons show ?case by auto
qed

lemma find_lru_seg:
  "seg nx (\<lambda>b. prev_buf (bs b)) bhead xs c \<Longrightarrow> bhead \<notin> set xs \<Longrightarrow> length xs < k \<Longrightarrow>
   find_lru k bs (prev_buf (bs c)) = Some (find (\<lambda>b. refcnt (bs b) = 0) (rev xs))"
proof (induction xs arbitrary: c k rule: rev_induct)
  case Nil
  then show ?case by (cases k) auto
next
  case (snoc x xs)
  then obtain k' where "k = Suc k'" by (cases k) auto
  with snoc show ?case by (auto simp: seg_append)
qed

declare find_cached.simps [simp del] find_lru.simps [simp del]

lemma lru_length: "lru bs xs \<Longrightarrow> length xs = NBUF"
  unfolding lru_def by (metis card_lessThan distinct_card)

lemma lru_find:
  assumes "lru bs xs"
  shows "find_cached (Suc NBUF) d n bs (next_buf (bs bhead)) = Some (find (\<lambda>b. dev (bs b) = d \<and> blockno (bs b) = n) xs)"
    and "find_lru (Suc NBUF) bs (prev_buf (bs bhead)) = Some (find (\<lambda>b. refcnt (bs b) = 0) (rev xs))"
proof -
  have h: "bhead \<notin> set xs" and l: "length xs < Suc NBUF"
    using assms lru_length [of bs xs] by (auto simp: lru_def bhead_def)
  show "find_cached (Suc NBUF) d n bs (next_buf (bs bhead)) = Some (find (\<lambda>b. dev (bs b) = d \<and> blockno (bs b) = n) xs)"
    using assms h l unfolding lru_def by (intro find_cached_seg) auto
  show "find_lru (Suc NBUF) bs (prev_buf (bs bhead)) = Some (find (\<lambda>b. refcnt (bs b) = 0) (rev xs))"
    using assms h l unfolding lru_def by (intro find_lru_seg) auto
qed

section \<open>The cache as a map from blocks to contents\<close>

text \<open>What the operations other than the list updates see of a buffer.\<close>

definition bare :: "buf \<Rightarrow> buf" where
  "bare x = x\<lparr>prev_buf := 0, next_buf := 0\<rparr>"

lemma bare_sel [simp]:
  "valid (bare x) = valid x" "dev (bare x) = dev x" "blockno (bare x) = blockno x" "refcnt (bare x) = refcnt x"
  "block_lock (bare x) = block_lock x" "data (bare x) = data x"
  by (simp_all add: bare_def)

lemma bufs_upd_buf [simp]: "bufs (upd_buf b f s) = (bufs s)(b := f (bufs s b))"
  by (simp add: upd_buf_def)

lemma held_upd_buf [simp]: "held (upd_buf b f s) = held s"
  by (simp add: upd_buf_def)

lemma upd_bufs: "upd_buf b f s = s\<lparr>bufs := (bufs s)(b := f (bufs s b))\<rparr>"
  by (simp add: upd_buf_def)

lemma insert_head_ptrs:
  assumes "b \<noteq> bhead" "next_buf (bufs s bhead) \<noteq> b"
  shows "(\<lambda>x. next_buf (bufs (insert_head b s) x)) = (\<lambda>x. next_buf (bufs s x))(b := next_buf (bufs s bhead), bhead := b)"
    and "(\<lambda>x. prev_buf (bufs (insert_head b s) x)) = (\<lambda>x. prev_buf (bufs s x))(b := bhead, next_buf (bufs s bhead) := b)"
    and "(\<lambda>x. bare (bufs (insert_head b s) x)) = (\<lambda>x. bare (bufs s x))"
  using assms by (auto simp: insert_head_def Let_def fun_eq_iff bare_def)

lemma unlink_ptrs:
  assumes "next_buf (bufs s b) \<noteq> b"
  shows "(\<lambda>x. next_buf (bufs (unlink b s) x)) = (\<lambda>x. next_buf (bufs s x))(prev_buf (bufs s b) := next_buf (bufs s b))"
    and "(\<lambda>x. prev_buf (bufs (unlink b s) x)) = (\<lambda>x. prev_buf (bufs s x))(next_buf (bufs s b) := prev_buf (bufs s b))"
    and "(\<lambda>x. bare (bufs (unlink b s) x)) = (\<lambda>x. bare (bufs s x))"
  using assms by (auto simp: unlink_def Let_def fun_eq_iff bare_def)

lemma move_state: "insert_head b (unlink b s) = s\<lparr>bufs := bufs (insert_head b (unlink b s))\<rparr>"
  by (simp add: insert_head_def unlink_def upd_buf_def Let_def)

lemma move_to_front:
  assumes l: "lru (bufs s) (us @ b # vs)"
  shows "lru (bufs (insert_head b (unlink b s))) (b # us @ vs)"
    and "(\<lambda>x. bare (bufs (insert_head b (unlink b s)) x)) = (\<lambda>x. bare (bufs s x))"
proof -
  let ?nx = "\<lambda>x. next_buf (bufs s x)" and ?pv = "\<lambda>x. prev_buf (bufs s x)" and ?u = "unlink b s"
  have s: "seg ?nx ?pv bhead (us @ b # vs) bhead" and d: "distinct (us @ b # vs)" and e: "set (us @ b # vs) = {..<NBUF}"
    using l by (auto simp: lru_def)
  have h: "bhead \<notin> set (us @ b # vs)" unfolding e by (simp add: bhead_def)
  have "?nx b = (case vs of [] \<Rightarrow> bhead | x # _ \<Rightarrow> x)" using s seg_first [of ?nx ?pv b vs bhead] by (simp add: seg_append)
  then have nb: "?nx b \<noteq> b" using d h by (auto split: list.splits)
  note u = unlink_ptrs [OF nb]
  have s1: "seg (\<lambda>x. next_buf (bufs ?u x)) (\<lambda>x. prev_buf (bufs ?u x)) bhead (us @ vs) bhead"
    unfolding u by (rule seg_remove [OF s d h h])
  have "next_buf (bufs ?u bhead) = (case us @ vs of [] \<Rightarrow> bhead | x # _ \<Rightarrow> x)" using seg_first [OF s1] .
  then have n1: "next_buf (bufs ?u bhead) \<noteq> b" using d h by (cases us; cases vs) auto
  have bh: "b \<noteq> bhead" using h by auto
  note i = insert_head_ptrs [OF bh n1]
  have "seg (\<lambda>x. next_buf (bufs (insert_head b ?u) x)) (\<lambda>x. prev_buf (bufs (insert_head b ?u) x)) bhead (b # us @ vs) bhead"
    unfolding i(1,2) by (rule seg_insert [OF s1]) (use d h in auto)
  then show "lru (bufs (insert_head b ?u)) (b # us @ vs)" using d e by (auto simp: lru_def)
  show "(\<lambda>x. bare (bufs (insert_head b ?u) x)) = (\<lambda>x. bare (bufs s x))" unfolding i(3) u(3) by (rule refl)
qed

section \<open>Sleep locks as an interface\<close>

text \<open>A sleep lock somewhere in the state. The laws say where it is stored; the lemmas give the outcome of
  the operations. They hold for the buffers here and for the inodes later.\<close>

locale sleep_lock =
  fixes lk :: lock_id and c :: channel and get :: "'a proc_state_scheme \<Rightarrow> sleeplock"
    and put :: "sleeplock \<Rightarrow> 'a proc_state_scheme \<Rightarrow> 'a proc_state_scheme"
  assumes not_plock: "\<And>p. lk \<noteq> ProcLock p"
    and get_held: "\<And>s h. get (s\<lparr>held := h\<rparr>) = get s"
    and put_held: "\<And>s h l. put l (s\<lparr>held := h\<rparr>) = (put l s)\<lparr>held := h\<rparr>"
    and held_put: "\<And>s l. held (put l s) = held s"
    and get_put: "\<And>s l. get (put l s) = l"
    and get_procs: "\<And>s q. get (s\<lparr>procs := q\<rparr>) = get s"
begin

lemma take_free:
  "lk \<notin> held s \<Longrightarrow> curproc s = Some p \<Longrightarrow> \<not> sl_locked (get s) \<Longrightarrow>
   acquiresleep lk c get put s = Ok () (put \<lparr>sl_locked = True, sl_pid = pid (procs s p)\<rparr> s)"
  by (simp add: acquiresleep_def acquiresleep_loop_def lock_free get_held myproc_def put_held held_put unlock_held)

lemma acquire_taken:
  "lk \<notin> held s \<Longrightarrow> sl_locked (get s) \<Longrightarrow>
   acquiresleep lk c get put s = sleep c lk (s\<lparr>held := insert lk (held s)\<rparr>)"
  by (simp add: acquiresleep_def acquiresleep_loop_def lock_free get_held)

lemma holding_eq:
  "lk \<notin> held s \<Longrightarrow> curproc s = Some p \<Longrightarrow>
   holdingsleep lk get s = Ok (sl_locked (get s) \<and> sl_pid (get s) = pid (procs s p)) s"
  by (simp add: holdingsleep_def lock_free get_held myproc_def unlock_held outcome_simps)

lemma release_eq:
  assumes "held s = {}"
  shows "releasesleep lk c put s =
    Ok () (let t = put \<lparr>sl_locked = False, sl_pid = 0\<rparr> s in t\<lparr>procs := wake c {..<NPROC} (procs t)\<rparr>)"
proof -
  let ?t = "put \<lparr>sl_locked = False, sl_pid = 0\<rparr> s"
  have "no_plock (?t\<lparr>held := {lk}\<rparr>)" by (simp add: no_plock_def not_plock [symmetric])
  then have "wakeup c (?t\<lparr>held := {lk}\<rparr>) = Ok () (?t\<lparr>held := {lk}, procs := wake c {..<NPROC} (procs ?t)\<rparr>)"
    by (simp add: wakeup_eq)
  then show ?thesis
    using assms by (simp add: releasesleep_def lock_free put_held unlock_held Let_def held_put)
qed

text \<open>A lock taken is held by the process, and released it is free again.\<close>

lemma acquire_release:
  assumes "held s = {}" "curproc s = Some p" "\<not> sl_locked (get s)"
  shows "\<exists>t. acquiresleep lk c get put s = Ok () t \<and> (curproc t = Some p \<longrightarrow> procs t = procs s \<longrightarrow> holdingsleep lk get t = Ok True t)
    \<and> (\<exists>u. releasesleep lk c put t = Ok () u \<and> \<not> sl_locked (get u))"
  using assms by (simp add: take_free holding_eq held_put get_put release_eq Let_def get_procs)

end

lemma put_block_lock_sel [simp]:
  "held (put_block_lock b l s) = held s" "procs (put_block_lock b l s) = procs s" "curproc (put_block_lock b l s) = curproc s"
  "bufs (put_block_lock b l s) = (bufs s)(b := (bufs s b)\<lparr>block_lock := l\<rparr>)"
  by (simp_all add: put_block_lock_def upd_buf_def)

interpretation bl: sleep_lock "BufSleepLk b" "BufLockChan b" "\<lambda>s. block_lock (bufs s b)" "put_block_lock b" for b
  by unfold_locales (simp_all add: put_block_lock_def upd_buf_def)

section \<open>The cache invariant and what the operations return\<close>

text \<open>The buffer of a block of the root device, and the current contents of the block: the cached data,
  or what is on the disk.\<close>

definition lookup :: "(nat \<Rightarrow> buf) \<Rightarrow> uint \<Rightarrow> nat option" where
  "lookup bs n = find (\<lambda>b. dev (bs b) = ROOTDEV \<and> blockno (bs b) = n) [0..<NBUF]"

definition content :: "(nat \<Rightarrow> buf) \<Rightarrow> (uint \<Rightarrow> block) \<Rightarrow> uint \<Rightarrow> block" where
  "content bs dk n = (case lookup bs n of
     Some b \<Rightarrow> if valid (bs b) then data (bs b) else dk n | None \<Rightarrow> dk n)"

definition refs :: "(nat \<Rightarrow> buf) \<Rightarrow> uint \<Rightarrow> uint" where
  "refs bs n = (case lookup bs n of Some b \<Rightarrow> refcnt (bs b) | None \<Rightarrow> 0)"

definition one_per_block :: "(nat \<Rightarrow> buf) \<Rightarrow> bool" where
  "one_per_block bs \<longleftrightarrow> (\<forall>b < NBUF. \<forall>b' < NBUF. dev (bs b) \<noteq> 0 \<longrightarrow> dev (bs b') = dev (bs b)
     \<longrightarrow> blockno (bs b') = blockno (bs b) \<longrightarrow> b' = b)"

definition coherent :: "(nat \<Rightarrow> buf) \<Rightarrow> (uint \<Rightarrow> block) \<Rightarrow> bool" where
  "coherent bs dk \<longleftrightarrow> (\<forall>b < NBUF.
     (refcnt (bs b) \<noteq> 0 \<longrightarrow> valid (bs b)) \<and> (valid (bs b) \<longrightarrow> dev (bs b) = ROOTDEV)
     \<and> (sl_locked (block_lock (bs b)) \<longrightarrow> valid (bs b))
     \<and> (refcnt (bs b) = 0 \<and> valid (bs b) \<longrightarrow> data (bs b) = dk (blockno (bs b))))"

definition cache_inv :: "(nat \<Rightarrow> buf) \<Rightarrow> (uint \<Rightarrow> block) \<Rightarrow> bool" where
  "cache_inv bs dk \<longleftrightarrow> (\<exists>xs. lru bs xs) \<and> one_per_block bs \<and> coherent bs dk"

lemma ROOTDEV_nonzero [simp]: "ROOTDEV \<noteq> (0 :: uint)"
  by (simp add: layout_defs)

lemma find_unique:
  assumes "\<And>x y. x \<in> set xs \<Longrightarrow> y \<in> set xs \<Longrightarrow> P x \<Longrightarrow> P y \<Longrightarrow> x = y"
  shows "find P xs = Some x \<longleftrightarrow> x \<in> set xs \<and> P x"
  using assms by (induction xs) auto

lemma lookup_Some:
  assumes "one_per_block bs"
  shows "lookup bs n = Some b \<longleftrightarrow> b < NBUF \<and> dev (bs b) = ROOTDEV \<and> blockno (bs b) = n"
  unfolding lookup_def using assms by (subst find_unique) (auto simp: one_per_block_def)

lemma lookup_SomeD: "lookup bs n = Some b \<Longrightarrow> b < NBUF \<and> dev (bs b) = ROOTDEV \<and> blockno (bs b) = n"
  unfolding lookup_def by (auto simp: find_Some_iff)

lemma lookup_None:
  "lookup bs n = None \<longleftrightarrow> (\<forall>b < NBUF. \<not> (dev (bs b) = ROOTDEV \<and> blockno (bs b) = n))"
  unfolding lookup_def by (auto simp: find_None_iff)

lemma lru_lookup:
  assumes "lru bs xs" "one_per_block bs"
  shows "find_cached (Suc NBUF) ROOTDEV n bs (next_buf (bs bhead)) = Some (lookup bs n)"
proof -
  have e: "set xs = {..<NBUF}" using assms by (simp add: lru_def)
  have "find (\<lambda>b. dev (bs b) = ROOTDEV \<and> blockno (bs b) = n) xs = lookup bs n"
  proof (cases "lookup bs n")
    case None
    then have "find (\<lambda>b. dev (bs b) = ROOTDEV \<and> blockno (bs b) = n) xs = None"
      using e by (auto simp: lookup_None find_None_iff)
    with None show ?thesis by simp
  next
    case (Some b)
    then have "b \<in> set xs \<and> dev (bs b) = ROOTDEV \<and> blockno (bs b) = n" using lookup_SomeD [of bs n b] e by auto
    then show ?thesis unfolding Some
      by (subst find_unique) (use e assms(2) in \<open>auto simp: one_per_block_def\<close>)
  qed
  with lru_find(1) [OF assms(1)] show ?thesis by simp
qed

lemma lru_victim:
  assumes l: "lru bs xs" and b: "b < NBUF" "refcnt (bs b) = 0"
  obtains v where "find_lru (Suc NBUF) bs (prev_buf (bs bhead)) = Some (Some v)" "v < NBUF" "refcnt (bs v) = 0"
proof -
  have e: "set xs = {..<NBUF}" using l by (simp add: lru_def)
  have "find (\<lambda>b. refcnt (bs b) = 0) (rev xs) \<noteq> None" using b e by (auto simp: find_None_iff)
  then obtain v where v: "find (\<lambda>b. refcnt (bs b) = 0) (rev xs) = Some v" by auto
  then obtain i where "i < length (rev xs)" "refcnt (bs v) = 0" "v = rev xs ! i" by (auto simp: find_Some_iff)
  then have "v \<in> set xs \<and> refcnt (bs v) = 0" using nth_mem [of i "rev xs"] by simp
  with v e lru_find(2) [OF l] show ?thesis by (intro that) auto
qed

text \<open>The buffer \<open>bread\<close> leaves: locked by the process, with one more reference and the block's contents.\<close>

definition loaded :: "uint \<Rightarrow> int \<Rightarrow> block \<Rightarrow> buf \<Rightarrow> buf" where
  "loaded n me dat x = x\<lparr>valid := True, dev := ROOTDEV, blockno := n,
     block_lock := \<lparr>sl_locked = True, sl_pid = me\<rparr>, refcnt := refcnt x + 1, data := dat\<rparr>"

definition can_get :: "(nat \<Rightarrow> buf) \<Rightarrow> uint \<Rightarrow> bool" where
  "can_get bs n \<longleftrightarrow> (case lookup bs n of Some b \<Rightarrow> \<not> sl_locked (block_lock (bs b))
     | None \<Rightarrow> (\<exists>b < NBUF. refcnt (bs b) = 0) \<and> (\<forall>b < NBUF. refcnt (bs b) = 0 \<longrightarrow> \<not> sl_locked (block_lock (bs b))))"

definition slot :: "(nat \<Rightarrow> buf) \<Rightarrow> uint \<Rightarrow> nat \<Rightarrow> bool" where
  "slot bs n b \<longleftrightarrow> b < NBUF \<and> (lookup bs n = Some b \<or> lookup bs n = None \<and> refcnt (bs b) = 0)"

lemma held_none: "held s = {} \<Longrightarrow> s\<lparr>held := {}\<rparr> = s"
  using held_restore [of s] by simp

lemma bread_eq:
  assumes i: "cache_inv (bufs s) (disk s)" and h: "held s = {}" and p: "curproc s = Some p" and g: "can_get (bufs s) n"
  obtains b where "slot (bufs s) n b" "\<not> sl_locked (block_lock (bufs s b))"
    and "bread ROOTDEV n s = Ok b (s\<lparr>bufs := (bufs s)(b := loaded n (pid (procs s p)) (content (bufs s) (disk s) n) (bufs s b))\<rparr>)"
proof -
  obtain xs where l: "lru (bufs s) xs" and u: "one_per_block (bufs s)" and k: "coherent (bufs s) (disk s)"
    using i by (auto simp: cache_inv_def)
  note fc = lru_lookup [OF l u]
  show ?thesis
  proof (cases "lookup (bufs s) n")
    case (Some b)
    then have b: "b < NBUF" "dev (bufs s b) = ROOTDEV" "blockno (bufs s b) = n" and nl: "\<not> sl_locked (block_lock (bufs s b))"
      using lookup_SomeD g by (auto simp: can_get_def)
    let ?x = "bufs s b" and ?l = "\<lparr>sl_locked = True, sl_pid = pid (procs s p)\<rparr>"
    have e1: "loaded n (pid (procs s p)) (data ?x) ?x = ?x\<lparr>refcnt := refcnt ?x + 1, block_lock := ?l\<rparr>" if "valid ?x"
      by (rule buf.equality) (use b that in \<open>simp_all add: loaded_def\<close>)
    have e2: "loaded n (pid (procs s p)) (disk s n) ?x
        = ?x\<lparr>refcnt := refcnt ?x + 1, block_lock := ?l, data := disk s n, valid := True\<rparr>"
      by (rule buf.equality) (use b in \<open>simp_all add: loaded_def\<close>)
    show ?thesis
    proof (rule that [of b])
      show "slot (bufs s) n b" "\<not> sl_locked (block_lock (bufs s b))" using b Some nl by (simp_all add: slot_def)
      show "bread ROOTDEV n s = Ok b (s\<lparr>bufs := (bufs s)(b := loaded n (pid (procs s p)) (content (bufs s) (disk s) n) (bufs s b))\<rparr>)"
        using b h p nl Some e1
        by (simp add: bread_def bget_def lock_free fc Let_def upd_bufs unlock_held bl.take_free put_block_lock_def
              disk_rw_def e2 content_def held_none)
    qed
  next
    case None
    then obtain b0 where "b0 < NBUF" "refcnt (bufs s b0) = 0" using g by (auto simp: can_get_def)
    then obtain b where v: "find_lru (Suc NBUF) (bufs s) (prev_buf (bufs s bhead)) = Some (Some b)"
      and b: "b < NBUF" "refcnt (bufs s b) = 0" using lru_victim [OF l] by blast
    have nl: "\<not> sl_locked (block_lock (bufs s b))" using g b None by (auto simp: can_get_def)
    let ?x = "bufs s b" and ?l = "\<lparr>sl_locked = True, sl_pid = pid (procs s p)\<rparr>"
    have e: "loaded n (pid (procs s p)) (disk s n) ?x = ?x\<lparr>dev := ROOTDEV, blockno := n,
        refcnt := 1, block_lock := ?l, data := disk s n, valid := True\<rparr>"
      by (rule buf.equality) (use b in \<open>simp_all add: loaded_def\<close>)
    show ?thesis
    proof (rule that [of b])
      show "slot (bufs s) n b" "\<not> sl_locked (block_lock (bufs s b))" using b None nl by (simp_all add: slot_def)
      show "bread ROOTDEV n s = Ok b (s\<lparr>bufs := (bufs s)(b := loaded n (pid (procs s p)) (content (bufs s) (disk s) n) (bufs s b))\<rparr>)"
        using b h p nl None
        by (simp add: bread_def bget_def lock_free fc v Let_def upd_bufs unlock_held bl.take_free put_block_lock_def
              disk_rw_def e content_def held_none)
    qed
  qed
qed

text \<open>Releasing a buffer: it is unlocked with one reference less, and moves to the front of the list
  when no reference is left.\<close>

definition released :: "buf \<Rightarrow> buf" where
  "released x = x\<lparr>block_lock := \<lparr>sl_locked = False, sl_pid = 0\<rparr>, refcnt := refcnt x - 1\<rparr>"

definition mine :: "'a bio_state_scheme \<Rightarrow> nat \<Rightarrow> bool" where
  "mine s b \<longleftrightarrow> b < NBUF \<and> held s = {} \<and> (\<exists>p. curproc s = Some p
     \<and> block_lock (bufs s b) = \<lparr>sl_locked = True, sl_pid = pid (procs s p)\<rparr>)"

lemma lru_upd:
  "lru bs xs \<Longrightarrow> next_buf y = next_buf (bs b) \<Longrightarrow> prev_buf y = prev_buf (bs b) \<Longrightarrow> lru (bs(b := y)) xs"
proof -
  assume l: "lru bs xs" and y: "next_buf y = next_buf (bs b)" "prev_buf y = prev_buf (bs b)"
  have "(\<lambda>x. next_buf ((bs(b := y)) x)) = (\<lambda>x. next_buf (bs x))" "(\<lambda>x. prev_buf ((bs(b := y)) x)) = (\<lambda>x. prev_buf (bs x))"
    using y by (auto simp: fun_eq_iff)
  with l show ?thesis unfolding lru_def by (simp only:)
qed

lemma brelse_eq:
  assumes l: "lru (bufs s) xs" and m: "mine s b"
  obtains bs ys where "brelse b s = Ok () (s\<lparr>procs := wake (BufLockChan b) {..<NPROC} (procs s), bufs := bs\<rparr>)"
    and "lru bs ys" "(\<lambda>x. bare (bs x)) = (\<lambda>x. bare (bufs s x))(b := bare (released (bufs s b)))"
    and "refcnt (bufs s b) = 1 \<Longrightarrow> ys = b # remove1 b xs" "refcnt (bufs s b) \<noteq> 1 \<Longrightarrow> ys = xs"
proof -
  obtain p where h: "b < NBUF" "held s = {}" "curproc s = Some p"
    and k: "block_lock (bufs s b) = \<lparr>sl_locked = True, sl_pid = pid (procs s p)\<rparr>" using m by (auto simp: mine_def)
  let ?q = "wake (BufLockChan b) {..<NPROC} (procs s)"
  let ?r = "(bufs s)(b := released (bufs s b))"
  let ?t = "s\<lparr>procs := ?q, held := {BcacheLock}, bufs := ?r\<rparr>"
  have lr: "lru ?r xs" using l by (rule lru_upd) (simp_all add: released_def)
  have r: "brelse b s = unlock BcacheLock (if refcnt (bufs s b) = 1 then insert_head b (unlink b ?t) else ?t)"
    using h k by (simp add: brelse_def bl.holding_eq bl.release_eq lock_free Let_def upd_bufs put_block_lock_def released_def)
  have u: "unlock BcacheLock (s\<lparr>procs := ?q, held := {BcacheLock}, bufs := B\<rparr>)
      = Ok () (s\<lparr>procs := ?q, bufs := B\<rparr>)" for B
    using h by (simp add: unlock_held)
  show ?thesis
  proof (cases "refcnt (bufs s b) = 1")
    case False
    show ?thesis
      by (rule that [of ?r xs]) (use False lr in \<open>auto simp: r u fun_eq_iff\<close>)
  next
    case True
    obtain us vs where xs: "xs = us @ b # vs" "b \<notin> set us" using l h by (metis lru_def lessThan_iff split_list_first)
    let ?m = "insert_head b (unlink b ?t)"
    have "lru (bufs ?t) (us @ b # vs)" using lr xs by simp
    note mv = move_to_front [OF this]
    have "?m = ?t\<lparr>bufs := bufs ?m\<rparr>" by (rule move_state)
    then have "unlock BcacheLock ?m = Ok () (s\<lparr>procs := ?q, bufs := bufs ?m\<rparr>)" using u [of "bufs ?m"] by simp
    then show ?thesis
      by (intro that [of "bufs ?m" "b # us @ vs"]) (use True mv xs in \<open>auto simp: r fun_eq_iff remove1_append\<close>)
  qed
qed

section \<open>Refinement of a block store\<close>

text \<open>
  What a client of the cache sees: the contents of every block, the disk, how many references each
  block has, and which blocks are locked (by this process, the only one in sight).
\<close>

record block_view =
  vk :: "uint \<Rightarrow> block"
  vd :: "uint \<Rightarrow> block"
  vr :: "uint \<Rightarrow> uint"
  vl :: "uint \<Rightarrow> bool"

definition locked_block :: "(nat \<Rightarrow> buf) \<Rightarrow> uint \<Rightarrow> bool" where
  "locked_block bs n = (case lookup bs n of Some b \<Rightarrow> sl_locked (block_lock (bs b)) | None \<Rightarrow> False)"

definition bview :: "(nat \<Rightarrow> buf) \<Rightarrow> (uint \<Rightarrow> block) \<Rightarrow> block_view" where
  "bview bs dk = \<lparr>vk = content bs dk, vd = dk, vr = refs bs, vl = locked_block bs\<rparr>"

lemma lookup_upd_same:
  "dev y = dev (bs b) \<Longrightarrow> blockno y = blockno (bs b) \<Longrightarrow> lookup (bs(b := y)) = lookup bs"
  by (rule ext) (auto simp: lookup_def intro!: arg_cong [where f = "\<lambda>P. find P [0..<NBUF]"])

lemma lookup_bare: "lookup (\<lambda>x. bare (bs x)) = lookup bs"
  by (rule ext) (simp add: lookup_def)

lemma bare_cong:
  assumes "(\<lambda>x. bare (bs x)) = (\<lambda>x. bare (bs' x))"
  shows "bview bs dk = bview bs' dk" "lookup bs = lookup bs'" "one_per_block bs = one_per_block bs'" "coherent bs dk = coherent bs' dk"
proof -
  have e: "valid (bs b) = valid (bs' b)" "dev (bs b) = dev (bs' b)" "blockno (bs b) = blockno (bs' b)"
      "refcnt (bs b) = refcnt (bs' b)" "block_lock (bs b) = block_lock (bs' b)" "data (bs b) = data (bs' b)" for b
    using fun_cong [OF assms, of b] bare_sel by metis+
  show l: "lookup bs = lookup bs'" by (rule ext) (simp add: lookup_def e)
  show "bview bs dk = bview bs' dk"
    by (simp add: bview_def fun_eq_iff content_def refs_def locked_block_def l e split: option.split)
  show "one_per_block bs = one_per_block bs'" by (simp add: one_per_block_def e)
  show "coherent bs dk = coherent bs' dk" by (simp add: coherent_def e)
qed

text \<open>Changes to the buffer of block \<open>n\<close> that leave it in place change the view at \<open>n\<close> only.\<close>

lemma upd_slot:
  assumes l: "lookup bs n = Some b" and u: "one_per_block bs"
    and y: "dev y = ROOTDEV" "blockno y = n" "valid y"
  shows "bview (bs(b := y)) dk = (bview bs dk)\<lparr>vk := (vk (bview bs dk))(n := data y),
      vr := (vr (bview bs dk))(n := refcnt y), vl := (vl (bview bs dk))(n := sl_locked (block_lock y))\<rparr>"
    and "lookup (bs(b := y)) = lookup bs" and "one_per_block (bs(b := y))"
proof -
  have b: "b < NBUF" "dev (bs b) = ROOTDEV" "blockno (bs b) = n" using lookup_SomeD [OF l] by auto
  show k: "lookup (bs(b := y)) = lookup bs" using b y by (intro lookup_upd_same) auto
  have o: "lookup bs m = Some b \<longleftrightarrow> m = n" for m using l lookup_SomeD [of bs m b] b by auto
  have c: "content (bs(b := y)) dk = (content bs dk)(n := data y)"
  proof
    fix m
    show "content (bs(b := y)) dk m = ((content bs dk)(n := data y)) m"
      using o [of m] l y by (cases "m = n") (auto simp: content_def k split: option.splits)
  qed
  have r: "refs (bs(b := y)) = (refs bs)(n := refcnt y)"
  proof
    fix m
    show "refs (bs(b := y)) m = ((refs bs)(n := refcnt y)) m"
      using o [of m] l y by (cases "m = n") (auto simp: refs_def k split: option.splits)
  qed
  have "locked_block (bs(b := y)) = (locked_block bs)(n := sl_locked (block_lock y))"
  proof
    fix m
    show "locked_block (bs(b := y)) m = ((locked_block bs)(n := sl_locked (block_lock y))) m"
      using o [of m] l y by (cases "m = n") (auto simp: locked_block_def k split: option.splits)
  qed
  with c r show "bview (bs(b := y)) dk = (bview bs dk)\<lparr>vk := (vk (bview bs dk))(n := data y),
      vr := (vr (bview bs dk))(n := refcnt y), vl := (vl (bview bs dk))(n := sl_locked (block_lock y))\<rparr>"
    by (simp add: bview_def)
  show "one_per_block (bs(b := y))" using u b y by (auto simp: one_per_block_def)
qed

lemma coherent_upd:
  "coherent bs dk \<Longrightarrow> (refcnt y \<noteq> 0 \<longrightarrow> valid y) \<Longrightarrow> (valid y \<longrightarrow> dev y = ROOTDEV) \<Longrightarrow>
   (sl_locked (block_lock y) \<longrightarrow> valid y) \<Longrightarrow> (refcnt y = 0 \<and> valid y \<longrightarrow> data y = dk (blockno y)) \<Longrightarrow>
   coherent (bs(b := y)) dk"
  unfolding coherent_def by (metis fun_upd_apply)

text \<open>Loading a block into its slot: either the block was there, or an unreferenced buffer, whose old
  contents are on the disk, is given to it.\<close>

lemma load_slot:
  fixes bs :: "nat \<Rightarrow> buf" and dk :: "uint \<Rightarrow> block" and n :: uint and b :: nat and me :: int
  assumes i: "cache_inv bs dk" and s: "slot bs n b" and nl: "\<not> sl_locked (block_lock (bs b))" and r: "refs bs n + 1 \<noteq> 0"
  defines "y \<equiv> loaded n me (content bs dk n) (bs b)"
  shows "cache_inv (bs(b := y)) dk" and "lookup (bs(b := y)) n = Some b"
    and "bview (bs(b := y)) dk = (bview bs dk)\<lparr>vr := (refs bs)(n := refs bs n + 1), vl := (locked_block bs)(n := True)\<rparr>"
    and "\<And>m. refs bs m \<noteq> 0 \<Longrightarrow> lookup (bs(b := y)) m = lookup bs m"
proof -
  obtain xs where l: "lru bs xs" and u: "one_per_block bs" and k: "coherent bs dk" using i by (auto simp: cache_inv_def)
  have b: "b < NBUF" using s by (simp add: slot_def)
  have rb: "refcnt (bs b) = refs bs n" using s by (auto simp: slot_def refs_def)
  have y: "dev y = ROOTDEV" "blockno y = n" "valid y" "refcnt y = refs bs n + 1" "sl_locked (block_lock y)"
      "data y = content bs dk n" "next_buf y = next_buf (bs b)" "prev_buf y = prev_buf (bs b)"
    by (simp_all add: y_def loaded_def rb)
  have l': "lru (bs(b := y)) xs" using lru_upd [OF l] y by simp
  have k': "coherent (bs(b := y)) dk" using k by (rule coherent_upd) (use y r in auto)
  have n1: "lookup bs n = Some b \<or> (\<forall>x < NBUF. \<not> (dev (bs x) = ROOTDEV \<and> blockno (bs x) = n))"
    using s lookup_None [of bs n] by (auto simp: slot_def)
  have u': "one_per_block (bs(b := y))"
    using u y n1 lookup_Some [OF u, of n b] unfolding one_per_block_def by (auto simp: lookup_None)
  show "cache_inv (bs(b := y)) dk" using l' u' k' by (auto simp: cache_inv_def)
  show ln: "lookup (bs(b := y)) n = Some b" using b y by (simp add: lookup_Some [OF u'])
  have other: "lookup (bs(b := y)) m = (if lookup bs m = Some b then None else lookup bs m)" if "m \<noteq> n" for m
  proof (cases "lookup (bs(b := y)) m")
    case None
    then have "\<forall>x < NBUF. x \<noteq> b \<longrightarrow> \<not> (dev (bs x) = ROOTDEV \<and> blockno (bs x) = m)" by (auto simp: lookup_None split: if_splits)
    then have "lookup bs m = None \<or> lookup bs m = Some b" using lookup_SomeD [of bs m] by (cases "lookup bs m") auto
    with None show ?thesis by auto
  next
    case (Some x)
    then have "x \<noteq> b \<and> x < NBUF \<and> dev (bs x) = ROOTDEV \<and> blockno (bs x) = m"
      using lookup_SomeD [OF Some] y that by (auto split: if_splits)
    then have "lookup bs m = Some x" "x \<noteq> b" by (simp_all add: lookup_Some [OF u])
    with Some show ?thesis by simp
  qed
  have ev: "refcnt (bs b) = 0" if "lookup bs m = Some b" "m \<noteq> n" for m
    using that s lookup_SomeD [of bs m b] lookup_SomeD [of bs n b] by (auto simp: slot_def)
  show "lookup (bs(b := y)) m = lookup bs m" if "refs bs m \<noteq> 0" for m
    using that other [of m] ev [of m] ln s by (cases "m = n") (auto simp: refs_def slot_def split: option.splits)
  have kb: "valid (bs b) \<longrightarrow> data (bs b) = dk (blockno (bs b))" if "refcnt (bs b) = 0"
    using k b that by (auto simp: coherent_def)
  have c: "content (bs(b := y)) dk m = content bs dk m" for m
    using other [of m] ev [of m] kb ln y lookup_SomeD [of bs m]
    by (cases "m = n") (auto simp: content_def split: option.splits)
  have rr: "refs (bs(b := y)) m = (if m = n then refs bs n + 1 else refs bs m)" for m
    using other [of m] ev [of m] ln y by (cases "m = n") (auto simp: refs_def split: option.splits)
  have "locked_block (bs(b := y)) m = (if m = n then True else locked_block bs m)" for m
    using other [of m] ev [of m] nl ln y by (cases "m = n") (auto simp: locked_block_def split: option.splits)
  with c rr show "bview (bs(b := y)) dk = (bview bs dk)\<lparr>vr := (refs bs)(n := refs bs n + 1), vl := (locked_block bs)(n := True)\<rparr>"
    by (auto simp: bview_def fun_eq_iff)
qed

text \<open>The state between two operations of a process: no spinlock held, and every locked buffer is its own.\<close>

definition binv :: "'a bio_state_scheme \<Rightarrow> nat \<Rightarrow> bool" where
  "binv s p \<longleftrightarrow> cache_inv (bufs s) (disk s) \<and> held s = {} \<and> curproc s = Some p
     \<and> (\<forall>b < NBUF. sl_locked (block_lock (bufs s b)) \<longrightarrow> sl_pid (block_lock (bufs s b)) = pid (procs s p))"

definition view :: "'a bio_state_scheme \<Rightarrow> block_view" where
  "view s = bview (bufs s) (disk s)"

definition same_procs :: "(nat \<Rightarrow> proc) \<Rightarrow> (nat \<Rightarrow> proc) \<Rightarrow> bool" where
  "same_procs q q' \<longleftrightarrow> (\<forall>p. \<exists>st. q' p = (q p)\<lparr>state := st\<rparr>)"

definition bio_frame :: "'a bio_state_scheme \<Rightarrow> 'a bio_state_scheme \<Rightarrow> bool" where
  "bio_frame s t \<longleftrightarrow> (\<exists>q bs dk dl. t = s\<lparr>procs := q, bufs := bs, disk := dk, disk_log := dl\<rparr> \<and> same_procs (procs s) q)"

definition room :: "block_view \<Rightarrow> uint \<Rightarrow> bool" where
  "room v n \<longleftrightarrow> (\<forall>m. vl v m \<longrightarrow> vr v m \<noteq> 0) \<and> \<not> vl v n \<and> (vr v n \<noteq> 0 \<or> card {m. vr v m \<noteq> 0} < NBUF) \<and> vr v n + 1 \<noteq> 0"

lemma bview_sel [simp]:
  "vk (bview bs dk) = content bs dk" "vd (bview bs dk) = dk" "vr (bview bs dk) = refs bs" "vl (bview bs dk) = locked_block bs"
  by (simp_all add: bview_def)

lemma same_procs_refl [simp]: "same_procs q q"
  unfolding same_procs_def by (metis proc.surjective proc.update_convs(1))

lemma same_procs_trans: "same_procs q q' \<Longrightarrow> same_procs q' q'' \<Longrightarrow> same_procs q q''"
  unfolding same_procs_def by (metis proc.update_convs(1) proc.surjective)

lemma same_procs_wake [simp]: "same_procs q (wake c A q)"
  unfolding same_procs_def wake_def by (metis proc.surjective proc.update_convs(1))

lemma same_procs_pid: "same_procs q q' \<Longrightarrow> pid (q' p) = pid (q p)"
  unfolding same_procs_def by (metis proc.select_convs(6) proc.surjective proc.update_convs(1))

lemma bio_frame_refl [simp]: "bio_frame s s"
  unfolding bio_frame_def by (rule exI [of _ "procs s"], rule exI [of _ "bufs s"], rule exI [of _ "disk s"], rule exI [of _ "disk_log s"]) simp

lemma bio_frame_trans: "bio_frame s t \<Longrightarrow> bio_frame t u \<Longrightarrow> bio_frame s u"
proof -
  assume "bio_frame s t" "bio_frame t u"
  then obtain q bs dk dl q' bs' dk' dl' where
    "t = s\<lparr>procs := q, bufs := bs, disk := dk, disk_log := dl\<rparr>" "same_procs (procs s) q"
    "u = t\<lparr>procs := q', bufs := bs', disk := dk', disk_log := dl'\<rparr>" "same_procs (procs t) q'"
    unfolding bio_frame_def by blast
  then show ?thesis unfolding bio_frame_def
    by (intro exI [of _ q'] exI [of _ bs'] exI [of _ dk'] exI [of _ dl']) (auto intro: same_procs_trans)
qed

lemma bio_frameI: "same_procs (procs s) q \<Longrightarrow> bio_frame s (s\<lparr>procs := q, bufs := bs, disk := dk, disk_log := dl\<rparr>)"
  unfolding bio_frame_def by blast

lemma bio_frame_bufs [simp]: "bio_frame s (s\<lparr>bufs := bs\<rparr>)"
  unfolding bio_frame_def
  by (intro exI [of _ "procs s"] exI [of _ bs] exI [of _ "disk s"] exI [of _ "disk_log s"] conjI bio_state.equality) simp_all

lemma room_can_get:
  assumes i: "cache_inv bs dk" and r: "room (bview bs dk) n"
  shows "can_get bs n"
proof (cases "lookup bs n")
  case (Some b)
  then show ?thesis using r by (simp add: can_get_def room_def locked_block_def)
next
  case None
  have u: "one_per_block bs" and k: "coherent bs dk" using i by (auto simp: cache_inv_def)
  have "\<exists>b < NBUF. refcnt (bs b) = 0"
  proof (rule ccontr)
    assume n: "\<not> ?thesis"
    then have d: "\<forall>b < NBUF. refcnt (bs b) \<noteq> 0 \<and> dev (bs b) = ROOTDEV" using k by (auto simp: coherent_def)
    then have j: "inj_on (\<lambda>b. blockno (bs b)) {..<NBUF}" using u by (auto simp: inj_on_def one_per_block_def)
    have "lookup bs (blockno (bs b)) = Some b" if "b < NBUF" for b using d that by (simp add: lookup_Some [OF u])
    then have "(\<lambda>b. blockno (bs b)) ` {..<NBUF} \<subseteq> {m. refs bs m \<noteq> 0}" using d by (auto simp: refs_def)
    then have "card ((\<lambda>b. blockno (bs b)) ` {..<NBUF}) \<le> card {m. refs bs m \<noteq> 0}" by (intro card_mono) auto
    then have "NBUF \<le> card {m. refs bs m \<noteq> 0}" by (simp add: card_image [OF j])
    then show False using r None by (simp add: room_def refs_def)
  qed
  moreover have "\<not> sl_locked (block_lock (bs b))" if b: "b < NBUF" "refcnt (bs b) = 0" for b
  proof
    assume l: "sl_locked (block_lock (bs b))"
    with k b have "lookup bs (blockno (bs b)) = Some b" by (auto simp: lookup_Some [OF u] coherent_def)
    then show False using r l b by (auto simp: room_def refs_def locked_block_def split: option.splits)
  qed
  ultimately show ?thesis using None by (simp add: can_get_def)
qed

lemma bread_view:
  assumes i: "binv s p" and r: "room (view s) n"
  obtains b t where "bread ROOTDEV n s = Ok b t" "binv t p" "bio_frame s t" "disk t = disk s" "disk_log t = disk_log s"
    "view t = (view s)\<lparr>vr := (vr (view s))(n := vr (view s) n + 1), vl := (vl (view s))(n := True)\<rparr>"
    "lookup (bufs t) n = Some b" "data (bufs t b) = vk (view s) n"
    "\<forall>m. vr (view s) m \<noteq> 0 \<longrightarrow> lookup (bufs t) m = lookup (bufs s) m"
proof -
  have c: "cache_inv (bufs s) (disk s)" and h: "held s = {}" and p: "curproc s = Some p"
    and o: "\<forall>b < NBUF. sl_locked (block_lock (bufs s b)) \<longrightarrow> sl_pid (block_lock (bufs s b)) = pid (procs s p)"
    using i by (auto simp: binv_def)
  let ?y = "\<lambda>b. loaded n (pid (procs s p)) (content (bufs s) (disk s) n) (bufs s b)"
  let ?t = "\<lambda>b. s\<lparr>bufs := (bufs s)(b := ?y b)\<rparr>"
  obtain b where sl: "slot (bufs s) n b" and nl: "\<not> sl_locked (block_lock (bufs s b))" and e: "bread ROOTDEV n s = Ok b (?t b)"
    using bread_eq [OF c h p room_can_get [OF c r [unfolded view_def]]] .
  have r1: "refs (bufs s) n + 1 \<noteq> 0" using r by (simp add: room_def view_def)
  note l = load_slot [OF c sl nl r1, where me = "pid (procs s p)"]
  show ?thesis
  proof (rule that [OF e])
    show "binv (?t b) p" using l(1) h p o by (auto simp: binv_def loaded_def)
    show "view (?t b) = (view s)\<lparr>vr := (vr (view s))(n := vr (view s) n + 1), vl := (vl (view s))(n := True)\<rparr>" using l(3) by (simp add: view_def)
    show "lookup (bufs (?t b)) n = Some b" using l(2) by simp
    show "data (bufs (?t b) b) = vk (view s) n" by (simp add: loaded_def view_def)
    show "\<forall>m. vr (view s) m \<noteq> 0 \<longrightarrow> lookup (bufs (?t b)) m = lookup (bufs s) m" using l(4) by (simp add: view_def)
  qed simp_all
qed

text \<open>The other operations, on a block \<open>n\<close> the process has loaded into buffer \<open>b\<close>.\<close>

lemma binv_locked:
  assumes i: "binv s p" and l: "lookup (bufs s) n = Some b" and k: "vl (view s) n"
  shows "mine s b" "refcnt (bufs s b) = vr (view s) n" "valid (bufs s b)" "data (bufs s b) = vk (view s) n"
    "b < NBUF" "dev (bufs s b) = ROOTDEV" "blockno (bufs s b) = n"
proof -
  show b: "b < NBUF" "dev (bufs s b) = ROOTDEV" "blockno (bufs s b) = n" using lookup_SomeD [OF l] by auto
  have lk: "sl_locked (block_lock (bufs s b))" using k l by (simp add: view_def locked_block_def)
  show "mine s b"
    using i b lk by (cases "block_lock (bufs s b)") (auto simp: mine_def binv_def)
  show "refcnt (bufs s b) = vr (view s) n" using l by (simp add: view_def refs_def)
  have ch: "coherent (bufs s) (disk s)" using i by (simp add: binv_def cache_inv_def)
  show v: "valid (bufs s b)" using ch b lk by (auto simp: coherent_def)
  show "data (bufs s b) = vk (view s) n" using v l by (simp add: view_def content_def)
qed

lemma lookup_facts:
  "lookup bs n = Some b \<Longrightarrow> refcnt (bs b) = refs bs n"
  "lookup bs n = Some b \<Longrightarrow> sl_locked (block_lock (bs b)) = locked_block bs n"
  "lookup bs n = Some b \<Longrightarrow> valid (bs b) \<Longrightarrow> data (bs b) = content bs dk n"
  by (simp_all add: refs_def locked_block_def content_def)

lemma set_data_view:
  fixes s :: "'a bio_state_scheme" and b :: nat and d :: block
  assumes i: "binv s p" and l: "lookup (bufs s) n = Some b" and k: "vl (view s) n" and r: "vr (view s) n \<noteq> 0"
  defines "t \<equiv> upd_buf b (\<lambda>x. x\<lparr>data := d\<rparr>) s"
  shows "binv t p" "bio_frame s t" "view t = (view s)\<lparr>vk := (vk (view s))(n := d)\<rparr>" "lookup (bufs t) = lookup (bufs s)"
proof -
  note b = binv_locked [OF i l k]
  obtain xs where lr: "lru (bufs s) xs" and u: "one_per_block (bufs s)" and ch: "coherent (bufs s) (disk s)"
    using i by (auto simp: binv_def cache_inv_def)
  let ?y = "(bufs s b)\<lparr>data := d\<rparr>"
  have y: "dev ?y = ROOTDEV" "blockno ?y = n" "valid ?y" using b by auto
  note us = upd_slot [OF l u y]
  have t: "bufs t = (bufs s)(b := ?y)" "disk t = disk s" "held t = held s" "curproc t = curproc s" "procs t = procs s"
    by (simp_all add: t_def upd_buf_def)
  have "lru (bufs t) xs" unfolding t by (rule lru_upd [OF lr]) simp_all
  moreover have "coherent (bufs t) (disk t)" unfolding t
    by (rule coherent_upd [OF ch]) (use b r in auto)
  ultimately show "binv t p" using i us(3) by (auto simp: binv_def cache_inv_def t)
  show "bio_frame s t" by (simp add: t_def upd_buf_def)
  show "view t = (view s)\<lparr>vk := (vk (view s))(n := d)\<rparr>"
    using us(1) [of "disk s"] lookup_facts [OF l] by (simp add: view_def t bview_def)
  show "lookup (bufs t) = lookup (bufs s)" using us(2) by (simp add: t)
qed

lemma bwrite_view:
  assumes i: "binv s p" and l: "lookup (bufs s) n = Some b" and k: "vl (view s) n"
  obtains t where "bwrite b s = Ok () t" "binv t p" "bio_frame s t" "view t = (view s)\<lparr>vd := (vd (view s))(n := vk (view s) n)\<rparr>"
    "bufs t = bufs s" "disk_log t = disk_log s @ [(n, vk (view s) n)]"
proof -
  note b = binv_locked [OF i l k]
  let ?t = "s\<lparr>disk := (disk s)(n := vk (view s) n), disk_log := disk_log s @ [(n, vk (view s) n)]\<rparr>"
  have "bwrite b s = Ok () ?t" using b(1) b by (auto simp: mine_def bwrite_def bl.holding_eq disk_rw_def Let_def)
  moreover have ch: "coherent (bufs s) (disk s)" and u: "one_per_block (bufs s)" using i by (auto simp: binv_def cache_inv_def)
  have "coherent (bufs s) ((disk s)(n := vk (view s) n))"
    unfolding coherent_def
  proof (intro allI impI conjI)
    fix c assume c: "c < NBUF"
    show "refcnt (bufs s c) \<noteq> 0 \<Longrightarrow> valid (bufs s c)" "valid (bufs s c) \<Longrightarrow> dev (bufs s c) = ROOTDEV"
      "sl_locked (block_lock (bufs s c)) \<Longrightarrow> valid (bufs s c)" using ch c by (auto simp: coherent_def)
    assume v: "refcnt (bufs s c) = 0 \<and> valid (bufs s c)"
    show "data (bufs s c) = ((disk s)(n := vk (view s) n)) (blockno (bufs s c))"
    proof (cases "c = b")
      case False
      have "dev (bufs s c) = ROOTDEV" using ch c v by (simp add: coherent_def)
      with False have "blockno (bufs s c) \<noteq> n"
        using u [unfolded one_per_block_def, rule_format, OF b(5) c] b by auto
      then show ?thesis using ch c v by (simp add: coherent_def)
    qed (use b in simp)
  qed
  then have "binv ?t p" using i by (auto simp: binv_def cache_inv_def)
  moreover have "bio_frame s ?t" unfolding bio_frame_def
    by (intro exI [of _ "procs s"] exI [of _ "bufs s"] exI [of _ "disk ?t"] exI [of _ "disk_log ?t"] conjI bio_state.equality) simp_all
  moreover have "content (bufs s) ((disk s)(n := vk (view s) n)) = content (bufs s) (disk s)"
    by (rule ext) (use l b in \<open>auto simp: content_def split: option.splits\<close>)
  then have "view ?t = (view s)\<lparr>vd := (vd (view s))(n := vk (view s) n)\<rparr>" by (simp add: view_def bview_def)
  ultimately show ?thesis by (rule that) simp_all
qed

lemma brelse_view:
  assumes i: "binv s p" and l: "lookup (bufs s) n = Some b" and k: "vl (view s) n"
    and c: "vr (view s) n = 1 \<Longrightarrow> vk (view s) n = vd (view s) n"
  obtains t where "brelse b s = Ok () t" "binv t p" "bio_frame s t" "disk t = disk s" "disk_log t = disk_log s"
    "view t = (view s)\<lparr>vr := (vr (view s))(n := vr (view s) n - 1), vl := (vl (view s))(n := False)\<rparr>"
    "lookup (bufs t) = lookup (bufs s)"
proof -
  note b = binv_locked [OF i l k]
  obtain xs where lr: "lru (bufs s) xs" and u: "one_per_block (bufs s)" and ch: "coherent (bufs s) (disk s)"
    using i by (auto simp: binv_def cache_inv_def)
  let ?q = "wake (BufLockChan b) {..<NPROC} (procs s)" and ?y = "released (bufs s b)"
  obtain bs ys where e: "brelse b s = Ok () (s\<lparr>procs := ?q, bufs := bs\<rparr>)" and lr': "lru bs ys"
    and br: "(\<lambda>x. bare (bs x)) = (\<lambda>x. bare (bufs s x))(b := bare ?y)" using brelse_eq [OF lr b(1)] by metis
  let ?t = "s\<lparr>procs := ?q, bufs := bs\<rparr>"
  have br': "(\<lambda>x. bare (bs x)) = (\<lambda>x. bare (((bufs s)(b := ?y)) x))" using br by (auto simp: fun_eq_iff)
  note bc = bare_cong [OF br']
  have y: "dev ?y = ROOTDEV" "blockno ?y = n" "valid ?y" using b by (auto simp: released_def)
  note us = upd_slot [OF l u y]
  have ch': "coherent ((bufs s)(b := ?y)) (disk s)"
  proof (rule coherent_upd [OF ch])
    show "refcnt ?y = 0 \<and> valid ?y \<longrightarrow> data ?y = disk s (blockno ?y)"
    proof
      assume "refcnt ?y = 0 \<and> valid ?y"
      then have "vr (view s) n = 1" using b(2) by (simp add: released_def)
      from c [OF this] show "data ?y = disk s (blockno ?y)" using b by (simp add: released_def view_def)
    qed
  qed (use y in \<open>auto simp: released_def\<close>)
  have "block_lock (bs x) = block_lock (((bufs s)(b := ?y)) x)" for x
    using arg_cong [OF fun_cong [OF br', of x], of block_lock] by (simp only: bare_sel)
  then have lk: "block_lock (bs x) = (if x = b then \<lparr>sl_locked = False, sl_pid = 0\<rparr> else block_lock (bufs s x))" for x
    by (simp add: released_def)
  show ?thesis
  proof (rule that [OF e])
    have "pid (?q p) = pid (procs s p)" using same_procs_wake same_procs_pid by blast
    moreover have "cache_inv bs (disk s)" unfolding cache_inv_def bc(3,4) using lr' us(3) ch' by blast
    ultimately show "binv ?t p" using i lk by (auto simp: binv_def)
    show "bio_frame s ?t" unfolding bio_frame_def
      by (intro exI [of _ ?q] exI [of _ bs] exI [of _ "disk s"] exI [of _ "disk_log s"] conjI bio_state.equality) simp_all
    show "view ?t = (view s)\<lparr>vr := (vr (view s))(n := vr (view s) n - 1), vl := (vl (view s))(n := False)\<rparr>"
    proof -
      have "view ?t = bview bs (disk s)" by (simp add: view_def)
      also have "\<dots> = bview ((bufs s)(b := ?y)) (disk s)" by (rule bc(1))
      finally show ?thesis
        using us(1) [of "disk s"] lookup_facts(1,2) [OF l] lookup_facts(3) [OF l b(3), of "disk s"]
        by (simp add: view_def bview_def released_def)
    qed
    have "lookup bs = lookup (bufs s)" using us(2) bc(2) by (rule trans [rotated])
    then show "lookup (bufs ?t) = lookup (bufs s)" by simp
  qed simp_all
qed

text \<open>\<open>bpin\<close> and \<open>bunpin\<close> change the reference count only.\<close>

lemma ref_view:
  fixes s :: "'a bio_state_scheme" and b :: nat and r :: uint
  assumes i: "binv s p" and l: "lookup (bufs s) n = Some b" and v: "valid (bufs s b)" and r: "r = 0 \<Longrightarrow> vk (view s) n = vd (view s) n"
  defines "t \<equiv> upd_buf b (\<lambda>x. x\<lparr>refcnt := r\<rparr>) s"
  shows "binv t p" "bio_frame s t" "view t = (view s)\<lparr>vr := (vr (view s))(n := r)\<rparr>" "lookup (bufs t) = lookup (bufs s)"
proof -
  have b: "b < NBUF" "dev (bufs s b) = ROOTDEV" "blockno (bufs s b) = n" using lookup_SomeD [OF l] by auto
  obtain xs where lr: "lru (bufs s) xs" and u: "one_per_block (bufs s)" and ch: "coherent (bufs s) (disk s)"
    using i by (auto simp: binv_def cache_inv_def)
  let ?y = "(bufs s b)\<lparr>refcnt := r\<rparr>"
  have y: "dev ?y = ROOTDEV" "blockno ?y = n" "valid ?y" using b v by auto
  note us = upd_slot [OF l u y]
  have t: "bufs t = (bufs s)(b := ?y)" "disk t = disk s" "held t = held s" "curproc t = curproc s" "procs t = procs s"
    by (simp_all add: t_def upd_buf_def)
  have "lru (bufs t) xs" unfolding t by (rule lru_upd [OF lr]) simp_all
  moreover have "coherent (bufs t) (disk t)" unfolding t
    by (rule coherent_upd [OF ch]) (use b v r lookup_facts(3) [OF l v, of "disk s"] in \<open>auto simp: view_def\<close>)
  ultimately show "binv t p" using i us(3) by (auto simp: binv_def cache_inv_def t)
  show "bio_frame s t" by (simp add: t_def upd_buf_def)
  show "view t = (view s)\<lparr>vr := (vr (view s))(n := r)\<rparr>"
    using us(1) [of "disk s"] lookup_facts(1,2) [OF l] lookup_facts(3) [OF l v, of "disk s"] by (simp add: view_def t bview_def)
  show "lookup (bufs t) = lookup (bufs s)" using us(2) by (simp add: t)
qed

lemma bpin_eq: "BcacheLock \<notin> held s \<Longrightarrow> bpin b s = Ok () (upd_buf b (\<lambda>x. x\<lparr>refcnt := refcnt x + 1\<rparr>) s)"
  by (simp add: bpin_def lock_free unlock_held upd_bufs)

lemma bunpin_eq: "BcacheLock \<notin> held s \<Longrightarrow> bunpin b s = Ok () (upd_buf b (\<lambda>x. x\<lparr>refcnt := refcnt x - 1\<rparr>) s)"
  by (simp add: bunpin_def lock_free unlock_held upd_bufs)

section \<open>Initialisation\<close>

lemma bare_lock: "bare x = bare y \<Longrightarrow> bare (x\<lparr>block_lock := l\<rparr>) = bare (y\<lparr>block_lock := l\<rparr>)"
  by (cases x; cases y) (simp add: bare_def)

lemma binit_step:
  assumes "seg (\<lambda>b. next_buf (bufs s b)) (\<lambda>b. prev_buf (bufs s b)) bhead xs bhead" "distinct xs"
    "bhead \<notin> set xs" "b \<notin> set xs" "b \<noteq> bhead"
  defines "t \<equiv> initsleeplock (put_block_lock b) (BufSleepLk b) (insert_head b s)"
  shows "seg (\<lambda>b. next_buf (bufs t b)) (\<lambda>b. prev_buf (bufs t b)) bhead (b # xs) bhead"
    and "(\<lambda>x. bare (bufs t x)) = (\<lambda>x. bare (bufs s x))(b := bare ((bufs s b)\<lparr>block_lock := \<lparr>sl_locked = False, sl_pid = 0\<rparr>\<rparr>))"
    and "disk t = disk s" "held t \<subseteq> held s" "curproc t = curproc s"
proof -
  let ?i = "insert_head b s"
  have "next_buf (bufs s bhead) = (case xs of [] \<Rightarrow> bhead | x # _ \<Rightarrow> x)" using assms(1) by (rule seg_first)
  then have nb: "next_buf (bufs s bhead) \<noteq> b" using assms by (auto split: list.splits)
  note i = insert_head_ptrs [OF assms(5) nb]
  have nx: "(\<lambda>x. next_buf (bufs t x)) = (\<lambda>x. next_buf (bufs ?i x))" "(\<lambda>x. prev_buf (bufs t x)) = (\<lambda>x. prev_buf (bufs ?i x))"
    by (auto simp: t_def initsleeplock_def put_block_lock_def fun_eq_iff)
  show "seg (\<lambda>b. next_buf (bufs t b)) (\<lambda>b. prev_buf (bufs t b)) bhead (b # xs) bhead"
    unfolding nx i(1,2) by (rule seg_insert) (use assms in auto)
  show "(\<lambda>x. bare (bufs t x)) = (\<lambda>x. bare (bufs s x))(b := bare ((bufs s b)\<lparr>block_lock := \<lparr>sl_locked = False, sl_pid = 0\<rparr>\<rparr>))"
  proof
    fix x
    have e: "bare (bufs ?i x) = bare (bufs s x)" using fun_cong [OF i(3)] .
    show "bare (bufs t x) = ((\<lambda>x. bare (bufs s x))(b := bare ((bufs s b)\<lparr>block_lock := \<lparr>sl_locked = False, sl_pid = 0\<rparr>\<rparr>))) x"
      using e bare_lock [OF e, of "\<lparr>sl_locked = False, sl_pid = 0\<rparr>"]
      by (cases "x = b") (simp_all add: t_def initsleeplock_def)
  qed
  show "disk t = disk s" "held t \<subseteq> held s" "curproc t = curproc s"
    by (auto simp: t_def initsleeplock_def put_block_lock_def insert_head_def upd_buf_def Let_def)
qed

lemma binit_fold:
  assumes "seg (\<lambda>b. next_buf (bufs s b)) (\<lambda>b. prev_buf (bufs s b)) bhead xs bhead" "distinct (rev bs @ xs)"
    "bhead \<notin> set (bs @ xs)"
  defines "t \<equiv> fold (\<lambda>b t. initsleeplock (put_block_lock b) (BufSleepLk b) (insert_head b t)) bs s"
  shows "seg (\<lambda>b. next_buf (bufs t b)) (\<lambda>b. prev_buf (bufs t b)) bhead (rev bs @ xs) bhead
    \<and> (\<forall>x. bare (bufs t x) = (if x \<in> set bs then bare ((bufs s x)\<lparr>block_lock := \<lparr>sl_locked = False, sl_pid = 0\<rparr>\<rparr>) else bare (bufs s x)))
    \<and> disk t = disk s \<and> held t \<subseteq> held s \<and> curproc t = curproc s"
  using assms(1-3) unfolding t_def
proof (induction bs arbitrary: s xs)
  case (Cons b bs)
  let ?t = "initsleeplock (put_block_lock b) (BufSleepLk b) (insert_head b s)"
  note st = binit_step [OF Cons.prems(1), of b]
  have p: "distinct xs" "bhead \<notin> set xs" "b \<notin> set xs" "b \<noteq> bhead" using Cons.prems by auto
  note st = st [OF p]
  have br: "bare (bufs ?t x) = (if x = b then bare ((bufs s b)\<lparr>block_lock := \<lparr>sl_locked = False, sl_pid = 0\<rparr>\<rparr>) else bare (bufs s x))" for x
    using fun_cong [OF st(2), of x] by simp
  have d: "distinct (rev bs @ b # xs)" "bhead \<notin> set (bs @ b # xs)" "b \<notin> set bs" using Cons.prems by auto
  note ih = Cons.IH [OF st(1) d(1,2)]
  let ?u = "fold (\<lambda>b t. initsleeplock (put_block_lock b) (BufSleepLk b) (insert_head b t)) bs ?t"
  have "bare (bufs ?u x) = (if x \<in> set (b # bs) then bare ((bufs s x)\<lparr>block_lock := \<lparr>sl_locked = False, sl_pid = 0\<rparr>\<rparr>) else bare (bufs s x))" for x
  proof (cases "x = b")
    case True
    then show ?thesis using ih br [of x] d by simp
  next
    case False
    then have "bare (bufs ?t x) = bare (bufs s x)" using br by simp
    then show ?thesis using ih False bare_lock [of "bufs ?t x" "bufs s x"] by simp
  qed
  moreover have "held ?u \<subseteq> held s" using ih st(4) by blast
  ultimately show ?case using ih st(3,5) by (simp del: set_simps)
qed simp

text \<open>A buffer in the kernel's zero-initialised data.\<close>

definition zero_buf :: buf where
  "zero_buf = \<lparr>valid = False, dev = 0, blockno = 0, block_lock = \<lparr>sl_locked = False, sl_pid = 0\<rparr>, refcnt = 0,
     prev_buf = 0, next_buf = 0, data = replicate BSIZE 0\<rparr>"

lemma binit_ok:
  assumes h: "held s = {}" and p: "curproc s = Some p" and z: "\<forall>b \<le> NBUF. bufs s b = zero_buf"
  obtains t where "binit s = Ok () t" "lru (bufs t) (rev [0..<NBUF])" "binv t p" "disk t = disk s"
    "view t = \<lparr>vk = disk s, vd = disk s, vr = (\<lambda>_. 0), vl = (\<lambda>_. False)\<rparr>"
    "\<And>b. b < NBUF \<Longrightarrow> refcnt (bufs t b) = 0" "\<And>n. lookup (bufs t) n = None"
    "\<And>b. b < NBUF \<Longrightarrow> \<not> sl_locked (block_lock (bufs t b))"
proof -
  define s0 where "s0 = upd_buf bhead (\<lambda>x. x\<lparr>next_buf := bhead\<rparr>)
    (upd_buf bhead (\<lambda>x. x\<lparr>prev_buf := bhead\<rparr>) (s\<lparr>held := held s - {BcacheLock}\<rparr>))"
  define t where "t = fold (\<lambda>b t. initsleeplock (put_block_lock b) (BufSleepLk b) (insert_head b t)) [0..<NBUF] s0"
  have e: "binit s = Ok () t" by (simp add: binit_def Let_def t_def s0_def)
  have s: "disk s0 = disk s" "held s0 = {}" "curproc s0 = curproc s" "\<forall>x < NBUF. bufs s0 x = zero_buf"
    using h z by (auto simp: s0_def upd_buf_def bhead_def)
  have sg: "seg (\<lambda>b. next_buf (bufs s0 b)) (\<lambda>b. prev_buf (bufs s0 b)) bhead [] bhead" by (simp add: s0_def)
  have f: "seg (\<lambda>b. next_buf (bufs t b)) (\<lambda>b. prev_buf (bufs t b)) bhead (rev [0..<NBUF] @ []) bhead
    \<and> (\<forall>x. bare (bufs t x) = (if x \<in> set [0..<NBUF] then bare ((bufs s0 x)\<lparr>block_lock := \<lparr>sl_locked = False, sl_pid = 0\<rparr>\<rparr>) else bare (bufs s0 x)))
    \<and> disk t = disk s0 \<and> held t \<subseteq> held s0 \<and> curproc t = curproc s0"
    unfolding t_def by (rule binit_fold [OF sg]) (simp_all add: bhead_def)
  have b: "bare (bufs t x) = bare zero_buf" if "x < NBUF" for x
    using f s(4) that by (auto simp: zero_buf_def bare_def)
  have bs: "valid (bufs t x) = False" "dev (bufs t x) = 0" "refcnt (bufs t x) = 0" "sl_locked (block_lock (bufs t x)) = False"
    if "x < NBUF" for x
    using arg_cong [OF b [OF that], of valid] arg_cong [OF b [OF that], of dev] arg_cong [OF b [OF that], of refcnt]
      arg_cong [OF b [OF that], of block_lock] by (simp_all add: zero_buf_def)
  show ?thesis
  proof (rule that [OF e])
    show l: "lru (bufs t) (rev [0..<NBUF])" using f by (simp add: lru_def atLeast0LessThan)
    show "disk t = disk s" using f s by simp
    show lk: "lookup (bufs t) n = None" for n using bs by (simp add: lookup_None)
    show "refcnt (bufs t b) = 0" "\<not> sl_locked (block_lock (bufs t b))" if "b < NBUF" for b using bs that by simp_all
    have "one_per_block (bufs t)" "coherent (bufs t) (disk t)" using bs by (simp_all add: one_per_block_def coherent_def)
    then have "cache_inv (bufs t) (disk t)" using l by (auto simp: cache_inv_def)
    then show "binv t p" using f s p bs by (auto simp: binv_def)
    show "view t = \<lparr>vk = disk s, vd = disk s, vr = (\<lambda>_. 0), vl = (\<lambda>_. False)\<rparr>"
      using f s by (simp add: view_def bview_def content_def refs_def locked_block_def lk fun_eq_iff)
  qed
qed

lemma binit_fold_frame:
  "\<exists>h bs. fold (\<lambda>b t. initsleeplock (put_block_lock b) (BufSleepLk b) (insert_head b t)) xs s = s\<lparr>held := h, bufs := bs\<rparr>"
proof (induction xs arbitrary: s)
  case Nil
  show ?case by (rule exI [of _ "held s"], rule exI [of _ "bufs s"]) simp
next
  case (Cons b xs)
  let ?t = "initsleeplock (put_block_lock b) (BufSleepLk b) (insert_head b s)"
  have t: "?t = s\<lparr>held := held ?t, bufs := bufs ?t\<rparr>"
    by (simp add: initsleeplock_def put_block_lock_def insert_head_def upd_buf_def Let_def)
  obtain h bs where "fold (\<lambda>b t. initsleeplock (put_block_lock b) (BufSleepLk b) (insert_head b t)) xs ?t = ?t\<lparr>held := h, bufs := bs\<rparr>"
    using Cons.IH by blast
  also have "\<dots> = s\<lparr>held := h, bufs := bs\<rparr>" by (subst t) simp
  finally show ?case by auto
qed

lemma binit_frame:
  assumes "held s = {}" "binit s = Ok () t" "held t = {}"
  shows "t = s\<lparr>bufs := bufs t\<rparr>"
proof -
  let ?s = "upd_buf bhead (\<lambda>x. x\<lparr>next_buf := bhead\<rparr>) (upd_buf bhead (\<lambda>x. x\<lparr>prev_buf := bhead\<rparr>) (s\<lparr>held := held s - {BcacheLock}\<rparr>))"
  obtain h bs where "fold (\<lambda>b t. initsleeplock (put_block_lock b) (BufSleepLk b) (insert_head b t)) [0..<NBUF] ?s = ?s\<lparr>held := h, bufs := bs\<rparr>"
    using binit_fold_frame by blast
  then have t: "t = ?s\<lparr>held := h, bufs := bs\<rparr>" using assms(2) by (simp add: binit_def Let_def)
  then have "h = {}" using assms(3) by simp
  then show ?thesis using assms(1) unfolding t by (simp add: upd_buf_def held_none)
qed

section \<open>Properties\<close>

lemma unreferenced_clean: "binv s p \<Longrightarrow> vr (view s) n = 0 \<Longrightarrow> vk (view s) n = vd (view s) n"
  using lookup_SomeD [of "bufs s" n]
  by (auto simp: binv_def cache_inv_def coherent_def view_def refs_def content_def split: option.splits)

text \<open>A state after boot: zeroed buffers, process 3 running.\<close>

definition demo_bio :: bio_state where
  "demo_bio = proc_state.extend (demo_ps {} (\<lambda>_. demo_proc))
     \<lparr>bufs = (\<lambda>_. zero_buf), disk = (\<lambda>n. replicate BSIZE 0), disk_log = []\<rparr>"

lemma demo_bio_sel:
  "held demo_bio = {}" "curproc demo_bio = Some 3" "bufs demo_bio b = zero_buf" "disk demo_bio n = replicate BSIZE 0"
  by (simp_all add: demo_bio_def demo_ps_def proc_state.defs)

text \<open>C13. The buffer cache refines a store of blocks: \<^verbatim>\<open>bread\<close> of a block that is not locked, when it is
  referenced or some buffer is not, returns a buffer locked by the process with the block's current
  contents, and changes nothing a client sees but the reference and the lock of that block.
  \<^verbatim>\<open>brelse\<close> undoes both; \<^verbatim>\<open>bwrite\<close> of new data followed by \<^verbatim>\<open>brelse\<close> changes the contents and the disk
  at this block only.\<close>

theorem bread_bwrite_brelse_refine_block_store:
  assumes i: "binv s p" and r: "room (view s) n"
  shows "\<exists>b t. bread ROOTDEV n s = Ok b t \<and> mine t b \<and> data (bufs t b) = vk (view s) n
    \<and> view t = (view s)\<lparr>vr := (vr (view s))(n := vr (view s) n + 1), vl := (vl (view s))(n := True)\<rparr>
    \<and> (\<exists>u. brelse b t = Ok () u \<and> binv u p \<and> view u = view s)
    \<and> (\<forall>d. \<exists>w u. bwrite b (upd_buf b (\<lambda>x. x\<lparr>data := d\<rparr>) t) = Ok () w \<and> brelse b w = Ok () u \<and> binv u p
         \<and> view u = (view s)\<lparr>vk := (vk (view s))(n := d), vd := (vd (view s))(n := d)\<rparr>)"
proof -
  let ?v = "view s"
  have nl: "\<not> vl ?v n" using r by (simp add: room_def)
  obtain b t where t: "bread ROOTDEV n s = Ok b t" "binv t p" "lookup (bufs t) n = Some b" "data (bufs t b) = vk ?v n"
    and vt: "view t = ?v\<lparr>vr := (vr ?v)(n := vr ?v n + 1), vl := (vl ?v)(n := True)\<rparr>" using bread_view [OF i r] by metis
  have l: "vl (view t) n" "vr (view t) n \<noteq> 0" using r by (simp_all add: vt room_def)
  have c: "vr (view t) n = 1 \<Longrightarrow> vk (view t) n = vd (view t) n" using unreferenced_clean [OF i, of n] by (simp add: vt)
  have "\<exists>u. brelse b t = Ok () u \<and> binv u p \<and> view u = ?v"
  proof -
    obtain u where "brelse b t = Ok () u" "binv u p"
      "view u = (view t)\<lparr>vr := (vr (view t))(n := vr (view t) n - 1), vl := (vl (view t))(n := False)\<rparr>"
      using brelse_view [OF t(2,3) l(1) c] by metis
    then show ?thesis using nl by (intro exI [of _ u]) (simp add: vt fun_upd_idem)
  qed
  moreover have "\<exists>w u. bwrite b (upd_buf b (\<lambda>x. x\<lparr>data := d\<rparr>) t) = Ok () w \<and> brelse b w = Ok () u \<and> binv u p
      \<and> view u = ?v\<lparr>vk := (vk ?v)(n := d), vd := (vd ?v)(n := d)\<rparr>" for d
  proof -
    let ?t = "upd_buf b (\<lambda>x. x\<lparr>data := d\<rparr>) t"
    note sd = set_data_view [OF t(2,3) l, of d]
    have l': "lookup (bufs ?t) n = Some b" "vl (view ?t) n" using sd(3,4) t(3) l(1) by simp_all
    obtain w where w: "bwrite b ?t = Ok () w" "binv w p" "view w = (view ?t)\<lparr>vd := (vd (view ?t))(n := vk (view ?t) n)\<rparr>"
      "bufs w = bufs ?t" using bwrite_view [OF sd(1) l'] by metis
    have lw: "lookup (bufs w) n = Some b" "vl (view w) n" "vk (view w) n = vd (view w) n" using w l' by simp_all
    obtain u where "brelse b w = Ok () u" "binv u p"
      "view u = (view w)\<lparr>vr := (vr (view w))(n := vr (view w) n - 1), vl := (vl (view w))(n := False)\<rparr>"
      using brelse_view [OF w(2) lw(1,2)] lw(3) by metis
    then show ?thesis using w(1) nl by (intro exI [of _ w] exI [of _ u]) (simp add: w(3) sd(3) vt fun_upd_idem)
  qed
  ultimately show ?thesis using t vt binv_locked(1) [OF t(2,3) l(1)] by (intro exI [of _ b] exI [of _ t]) simp
qed

theorem bread_bwrite_brelse_refine_block_store_witness:
  "\<exists>s. binit demo_bio = Ok () s \<and> (\<exists>b t. bread ROOTDEV 7 s = Ok b t \<and> mine t b \<and> data (bufs t b) = replicate BSIZE 0)"
proof -
  obtain s where s: "binit demo_bio = Ok () s" "binv s 3"
    "view s = \<lparr>vk = disk demo_bio, vd = disk demo_bio, vr = (\<lambda>_. 0), vl = (\<lambda>_. False)\<rparr>"
    using binit_ok [of demo_bio 3] demo_bio_sel by metis
  have "room (view s) 7" by (simp add: s(3) room_def layout_defs)
  from bread_bwrite_brelse_refine_block_store [OF s(2) this] show ?thesis using s(1,3) demo_bio_sel(4) [of 7] by auto
qed

text \<open>C14. Replacement: a block that is not in the cache gets the least recently released buffer that has
  no references, the first one from the end of the list; \<^verbatim>\<open>bread\<close> panics exactly when there is none.
  Releasing the last reference moves the buffer to the front of the list.\<close>

theorem bcache_replacement_is_lru:
  assumes i: "binv s p" and l: "lru (bufs s) xs" and f: "\<forall>b < NBUF. sl_locked (block_lock (bufs s b)) \<longrightarrow> refcnt (bufs s b) \<noteq> 0"
  shows "(lookup (bufs s) n = None \<longrightarrow>
      (case find (\<lambda>b. refcnt (bufs s b) = 0) (rev xs) of
         None \<Rightarrow> bread ROOTDEV n s = Panic ''bget: no buffers''
       | Some b \<Rightarrow> \<exists>t. bread ROOTDEV n s = Ok b t \<and> lru (bufs t) xs))
    \<and> (mine s b \<longrightarrow> (\<exists>t. brelse b s = Ok () t
      \<and> lru (bufs t) (if refcnt (bufs s b) = 1 then b # remove1 b xs else xs)))"
proof (intro conjI impI)
  have u: "one_per_block (bufs s)" and k: "coherent (bufs s) (disk s)" and h: "held s = {}" and p: "curproc s = Some p"
    using i by (auto simp: binv_def cache_inv_def)
  show "case find (\<lambda>b. refcnt (bufs s b) = 0) (rev xs) of
         None \<Rightarrow> bread ROOTDEV n s = Panic ''bget: no buffers''
       | Some b \<Rightarrow> \<exists>t. bread ROOTDEV n s = Ok b t \<and> lru (bufs t) xs" if n: "lookup (bufs s) n = None"
  proof (cases "find (\<lambda>b. refcnt (bufs s b) = 0) (rev xs)")
    case None
    then show ?thesis using lru_find(2) [OF l] lru_lookup [OF l u] n h
      by (simp add: bread_def bget_def lock_free)
  next
    case (Some b)
    then obtain j where "j < length (rev xs)" "refcnt (bufs s b) = 0" "b = rev xs ! j" by (auto simp: find_Some_iff)
    then have "b < NBUF" using nth_mem [of j "rev xs"] l by (auto simp: lru_def)
    then have "\<not> sl_locked (block_lock (bufs s b))" using f \<open>refcnt (bufs s b) = 0\<close> by auto
    then show ?thesis using Some lru_find(2) [OF l] lru_lookup [OF l u] n h p
      by (auto simp: bread_def bget_def lock_free upd_bufs unlock_held bl.take_free put_block_lock_def disk_rw_def Let_def
          intro!: lru_upd [OF l])
  qed
  show "\<exists>t. brelse b s = Ok () t \<and> lru (bufs t) (if refcnt (bufs s b) = 1 then b # remove1 b xs else xs)" if m: "mine s b"
  proof -
    obtain bs ys where "brelse b s = Ok () (s\<lparr>procs := wake (BufLockChan b) {..<NPROC} (procs s), bufs := bs\<rparr>)" "lru bs ys"
      "refcnt (bufs s b) = 1 \<Longrightarrow> ys = b # remove1 b xs" "refcnt (bufs s b) \<noteq> 1 \<Longrightarrow> ys = xs" using brelse_eq [OF l m] by metis
    then show ?thesis by auto
  qed
qed

theorem bcache_replacement_is_lru_witness:
  "\<exists>s. binit demo_bio = Ok () s \<and> (\<exists>t. bread ROOTDEV 7 s = Ok 0 t \<and> lru (bufs t) (rev [0..<NBUF]))"
proof -
  obtain s where s: "binit demo_bio = Ok () s" "binv s 3" "lru (bufs s) (rev [0..<NBUF])"
    "\<And>b. b < NBUF \<Longrightarrow> refcnt (bufs s b) = 0" "\<And>n. lookup (bufs s) n = None"
    "\<And>b. b < NBUF \<Longrightarrow> \<not> sl_locked (block_lock (bufs s b))"
    using binit_ok [of demo_bio 3] demo_bio_sel by metis
  have "find (\<lambda>b. refcnt (bufs s b) = 0) [0..<NBUF] = Some 0" using s(4) [of 0] by (simp add: upt_conv_Cons layout_defs)
  then show ?thesis using bcache_replacement_is_lru [OF s(2,3), of 7 0] s(1,5,6) by auto
qed

text \<open>C15. A buffer locked by another process is not handed out: \<^verbatim>\<open>bread\<close> of its block takes a reference and
  puts the process to sleep on the buffer's lock; and the \<^verbatim>\<open>brelse\<close> of the owner unlocks it and makes runnable
  every process that sleeps on it.\<close>

theorem bread_waits_for_lock:
  assumes "cache_inv (bufs s) (disk s)" "held s = {}" "curproc s = Some p"
    and "lookup (bufs s) n = Some b" "sl_locked (block_lock (bufs s b))"
  shows "\<exists>t. bread ROOTDEV n s = Sleep t \<and> state (procs t p) = SLEEPING \<and> chan (procs t p) = Some (BufLockChan b)
      \<and> refcnt (bufs t b) = refcnt (bufs s b) + 1 \<and> block_lock (bufs t b) = block_lock (bufs s b)
      \<and> (\<forall>u v. mine u b \<and> bufs u = bufs t \<and> procs u p = procs t p \<and> p < NPROC \<and> brelse b u = Ok () v \<longrightarrow>
           \<not> sl_locked (block_lock (bufs v b)) \<and> state (procs v p) = RUNNABLE)"
proof -
  obtain xs where l: "lru (bufs s) xs" and u: "one_per_block (bufs s)" using assms by (auto simp: cache_inv_def)
  let ?s = "s\<lparr>bufs := (bufs s)(b := (bufs s b)\<lparr>refcnt := refcnt (bufs s b) + 1\<rparr>)\<rparr>"
  let ?t = "?s\<lparr>held := {ProcLock p}, procs := (procs s)(p := (procs s p)\<lparr>chan := Some (BufLockChan b), state := SLEEPING\<rparr>)\<rparr>"
  have "bread ROOTDEV n s = Sleep ?t"
    using assms lru_lookup [OF l u, of n]
    by (simp add: bread_def bget_def lock_free Let_def upd_bufs unlock_held bl.acquire_taken sleep_def myproc_def
          sched_def upd_proc_def held_none insert_Diff_if)
  moreover have "\<not> sl_locked (block_lock (bufs v b)) \<and> state (procs v p) = RUNNABLE"
    if m: "mine u b" "bufs u = bufs ?t" "procs u p = procs ?t p" "p < NPROC" and r: "brelse b u = Ok () v" for u v
  proof -
    have "lru (bufs u) xs" unfolding m using lru_upd [OF l] by simp
    then obtain bs ys where e: "brelse b u = Ok () (u\<lparr>procs := wake (BufLockChan b) {..<NPROC} (procs u), bufs := bs\<rparr>)"
      and br: "(\<lambda>x. bare (bs x)) = (\<lambda>x. bare (bufs u x))(b := bare (released (bufs u b)))"
      using brelse_eq [OF _ m(1)] by metis
    have "block_lock (bs b) = block_lock (released (bufs u b))"
      using arg_cong [OF fun_cong [OF br, of b], of block_lock] by simp
    then show ?thesis using e r m by (auto simp: released_def wake_def)
  qed
  ultimately show ?thesis by (intro exI [of _ ?t]) auto
qed

theorem bread_waits_for_lock_witness:
  "\<exists>s b s1 t. binit demo_bio = Ok () s \<and> bread ROOTDEV 7 s = Ok b s1 \<and> bread ROOTDEV 7 s1 = Sleep t \<and> state (procs t 3) = SLEEPING"
proof -
  obtain s where s: "binit demo_bio = Ok () s" "binv s 3"
    "view s = \<lparr>vk = disk demo_bio, vd = disk demo_bio, vr = (\<lambda>_. 0), vl = (\<lambda>_. False)\<rparr>"
    using binit_ok [of demo_bio 3] demo_bio_sel by metis
  have "room (view s) 7" by (simp add: s(3) room_def layout_defs)
  then obtain b s1 where b: "bread ROOTDEV 7 s = Ok b s1" "binv s1 3" "lookup (bufs s1) 7 = Some b"
    "view s1 = (view s)\<lparr>vr := (vr (view s))(7 := vr (view s) 7 + 1), vl := (vl (view s))(7 := True)\<rparr>"
    using bread_view [OF s(2)] by metis
  have "vl (view s1) 7" by (simp add: b)
  then have "sl_locked (block_lock (bufs s1 b))" using b(3) by (simp add: view_def locked_block_def)
  then have "\<exists>t. bread ROOTDEV 7 s1 = Sleep t \<and> state (procs t 3) = SLEEPING"
    using bread_waits_for_lock [of s1 3 7 b] b by (auto simp: binv_def)
  then show ?thesis using s(1) b(1) by blast
qed

end
