(* ===== verification/Xv6_Log.thy ===== *)
theory Xv6_Log
  imports Xv6_Bio
begin

text \<open>
  \<^verbatim>\<open>kernel/log.c\<close>: the write-ahead log that makes file-system transactions atomic. The header
  block holds the number of logged blocks and their home block numbers; \<open>lh_n\<close> and \<open>lh_block\<close> are the
  in-memory copy.
\<close>

section \<open>Words and bytes in a block\<close>

definition sub_bytes :: "block \<Rightarrow> nat \<Rightarrow> nat \<Rightarrow> byte list" where
  "sub_bytes d k n = take n (drop k d)"

definition put_at :: "block \<Rightarrow> nat \<Rightarrow> byte list \<Rightarrow> block" where
  "put_at d k bs = take k d @ bs @ drop (k + length bs) d"

definition get32 :: "block \<Rightarrow> nat \<Rightarrow> uint" where
  "get32 d k = word_of_bytes (sub_bytes d k 4)"

definition put32 :: "nat \<Rightarrow> uint \<Rightarrow> block \<Rightarrow> block" where
  "put32 k w d = put_at d k (bytes_of_word 4 w)"

text \<open>A C \<^verbatim>\<open>for\<close> loop over the indices \<open>xs\<close> whose body may panic or sleep.\<close>

fun for_each :: "('i \<Rightarrow> 's \<Rightarrow> (unit, 's) outcome) \<Rightarrow> 'i list \<Rightarrow> 's \<Rightarrow> (unit, 's) outcome" where
  "for_each f [] s = Ok () s"
| "for_each f (x # xs) s = bindK (f x s) (\<lambda>_. for_each f xs)"

section \<open>Definitions\<close>

record log_state = bio_state +
  log_start :: uint
  log_size :: int
  outstanding :: int
  committing :: bool
  log_dev :: uint
  lh_n :: int
  lh_block :: "nat \<Rightarrow> uint"

type_synonym ('r, 'a) lop = "'a log_state_scheme \<Rightarrow> ('r, 'a log_state_scheme) outcome"

definition log_blocks :: "'a log_state_scheme \<Rightarrow> nat list" where
  "log_blocks s = [0..<nat (lh_n s)]"

definition install_one :: "nat \<Rightarrow> (unit, 'a) lop" where
  "install_one tail s =
     bindK (bread (log_dev s) (log_start s + of_nat tail + 1) s) (\<lambda>lbuf s1.
     bindK (bread (log_dev s1) (lh_block s1 tail) s1) (\<lambda>dbuf s2.
     let s3 = upd_buf dbuf (\<lambda>x. x\<lparr>data := data (bufs s2 lbuf)\<rparr>) s2
     in bindK (bwrite dbuf s3) (\<lambda>_ s4.
        bindK (bunpin dbuf s4) (\<lambda>_ s5.
        bindK (brelse lbuf s5) (\<lambda>_ s6. brelse dbuf s6)))))"

definition install_trans :: "(unit, 'a) lop" where
  "install_trans s = for_each install_one (log_blocks s) s"

definition read_head :: "(unit, 'a) lop" where
  "read_head s =
     bindK (bread (log_dev s) (log_start s) s) (\<lambda>b s1.
     let d = data (bufs s1 b);
         n = sint (get32 d 0);
         s2 = s1\<lparr>lh_n := n, lh_block := (\<lambda>i. if i < nat n then get32 d (4 + 4 * i) else lh_block s1 i)\<rparr>
     in brelse b s2)"

definition write_head :: "(unit, 'a) lop" where
  "write_head s =
     bindK (bread (log_dev s) (log_start s) s) (\<lambda>b s1.
     let d = put32 0 (word_of_int (lh_n s1)) (data (bufs s1 b));
         d' = fold (\<lambda>i. put32 (4 + 4 * i) (lh_block s1 i)) (log_blocks s1) d;
         s2 = upd_buf b (\<lambda>x. x\<lparr>data := d'\<rparr>) s1
     in bindK (bwrite b s2) (\<lambda>_ s3. brelse b s3))"

definition recover_from_log :: "(unit, 'a) lop" where
  "recover_from_log s =
     bindK (read_head s) (\<lambda>_ s1.
     bindK (install_trans s1) (\<lambda>_ s2.
     write_head (s2\<lparr>lh_n := 0\<rparr>)))"

text \<open>The superblock fields \<^verbatim>\<open>logstart\<close> and \<^verbatim>\<open>nlog\<close> are arguments; \<^verbatim>\<open>sizeof(struct logheader)\<close> is
  \<open>4 + 4 * LOGSIZE\<close>.\<close>

definition initlog :: "uint \<Rightarrow> uint \<Rightarrow> uint \<Rightarrow> (unit, 'a) lop" where
  "initlog d logstart nlog s =
     (if 4 + 4 * LOGSIZE \<ge> BSIZE then Panic ''initlog: too big logheader''
      else recover_from_log (s\<lparr>held := held s - {LogLock}, log_start := logstart, log_size := sint nlog, log_dev := d\<rparr>))"

text \<open>One turn of the loop of \<open>begin_op\<close>; a process that sleeps runs \<open>sleep_resume\<close> and another turn.\<close>

definition begin_op_loop :: "(unit, 'a) lop" where
  "begin_op_loop s =
     (if committing s then sleep LogChan LogLock s
      else if lh_n s + (outstanding s + 1) * int MAXOPBLOCKS > int LOGSIZE then sleep LogChan LogLock s
      else unlock LogLock (s\<lparr>outstanding := outstanding s + 1\<rparr>))"

definition begin_op :: "(unit, 'a) lop" where
  "begin_op s = bindK (lock LogLock s) (\<lambda>_. begin_op_loop)"

definition write_log_one :: "nat \<Rightarrow> (unit, 'a) lop" where
  "write_log_one tail s =
     bindK (bread (log_dev s) (log_start s + of_nat tail + 1) s) (\<lambda>to s1.
     bindK (bread (log_dev s1) (lh_block s1 tail) s1) (\<lambda>frm s2.
     let s3 = upd_buf to (\<lambda>x. x\<lparr>data := data (bufs s2 frm)\<rparr>) s2
     in bindK (bwrite to s3) (\<lambda>_ s4.
        bindK (brelse frm s4) (\<lambda>_ s5. brelse to s5))))"

definition write_log :: "(unit, 'a) lop" where
  "write_log s = for_each write_log_one (log_blocks s) s"

definition commit :: "(unit, 'a) lop" where
  "commit s =
     (if lh_n s > 0
      then bindK (write_log s) (\<lambda>_ s1.
           bindK (write_head s1) (\<lambda>_ s2.
           bindK (install_trans s2) (\<lambda>_ s3.
           write_head (s3\<lparr>lh_n := 0\<rparr>))))
      else Ok () s)"

definition end_op :: "(unit, 'a) lop" where
  "end_op s =
     bindK (lock LogLock s) (\<lambda>_ s1.
     let s2 = s1\<lparr>outstanding := outstanding s1 - 1\<rparr>
     in if committing s2 then Panic ''log.committing''
        else if outstanding s2 = 0
        then bindK (unlock LogLock (s2\<lparr>committing := True\<rparr>)) (\<lambda>_ s3.
             bindK (commit s3) (\<lambda>_ s4.
             bindK (lock LogLock s4) (\<lambda>_ s5.
             bindK (wakeup LogChan (s5\<lparr>committing := False\<rparr>)) (\<lambda>_ s6. unlock LogLock s6))))
        else bindK (wakeup LogChan s2) (\<lambda>_ s3. unlock LogLock s3))"

definition log_write :: "nat \<Rightarrow> (unit, 'a) lop" where
  "log_write b s =
     (if lh_n s \<ge> int LOGSIZE \<or> lh_n s \<ge> log_size s - 1 then Panic ''too big a transaction''
      else if outstanding s < 1 then Panic ''log_write outside of trans''
      else bindK (lock LogLock s) (\<lambda>_ s1.
        let n = blockno (bufs s1 b);
            i = (case find (\<lambda>j. lh_block s1 j = n) (log_blocks s1) of Some j \<Rightarrow> j | None \<Rightarrow> nat (lh_n s1));
            s2 = s1\<lparr>lh_block := (lh_block s1)(i := n)\<rparr>
        in bindK (if int i = lh_n s2 then bindK (bpin b s2) (\<lambda>_ s3. Ok () (s3\<lparr>lh_n := lh_n s3 + 1\<rparr>)) else Ok () s2) (\<lambda>_ s4.
           unlock LogLock s4)))"

section \<open>Blocks of bytes\<close>

lemma length_put_at: "k + length bs \<le> length d \<Longrightarrow> length (put_at d k bs) = length d"
  by (simp add: put_at_def)

lemma length_put32 [simp]: "k + 4 \<le> length d \<Longrightarrow> length (put32 k w d) = length d"
  by (simp add: put32_def length_put_at)

lemma sub_put_same: "k + length bs \<le> length d \<Longrightarrow> length bs = n \<Longrightarrow> sub_bytes (put_at d k bs) k n = bs"
  by (simp add: sub_bytes_def put_at_def)

lemma nth_put_at:
  "k + length bs \<le> length d \<Longrightarrow> i < length d \<Longrightarrow>
   put_at d k bs ! i = (if k \<le> i \<and> i < k + length bs then bs ! (i - k) else d ! i)"
  by (auto simp: put_at_def nth_append min_def)

lemma sub_put_other:
  assumes "k + length bs \<le> length d" "j + n \<le> length d" "j + n \<le> k \<or> k + length bs \<le> j"
  shows "sub_bytes (put_at d k bs) j n = sub_bytes d j n"
proof (rule nth_equalityI)
  fix i assume "i < length (sub_bytes (put_at d k bs) j n)"
  then show "sub_bytes (put_at d k bs) j n ! i = sub_bytes d j n ! i"
    using assms by (auto simp: sub_bytes_def length_put_at nth_put_at)
qed (use assms in \<open>simp add: sub_bytes_def length_put_at\<close>)

lemma get32_put32_same [simp]: "k + 4 \<le> length d \<Longrightarrow> get32 (put32 k w d) k = w"
  by (simp add: get32_def put32_def sub_put_same)

lemma get32_put32_other:
  "k + 4 \<le> length d \<Longrightarrow> j + 4 \<le> length d \<Longrightarrow> j + 4 \<le> k \<or> k + 4 \<le> j \<Longrightarrow> get32 (put32 k w d) j = get32 d j"
  by (simp add: get32_def put32_def sub_put_other)

text \<open>The header block written for \<open>n\<close> blocks with homes \<open>bl\<close>, and what is read back from it.\<close>

definition head_block :: "nat \<Rightarrow> (nat \<Rightarrow> uint) \<Rightarrow> block \<Rightarrow> block" where
  "head_block n bl d = fold (\<lambda>i. put32 (4 + 4 * i) (bl i)) [0..<n] (put32 0 (of_nat n) d)"

lemma fold_put32:
  assumes "4 + 4 * n \<le> length d"
  shows "length (fold (\<lambda>i. put32 (4 + 4 * i) (bl i)) [0..<n] d) = length d \<and>
    get32 (fold (\<lambda>i. put32 (4 + 4 * i) (bl i)) [0..<n] d) 0 = get32 d 0 \<and>
    (\<forall>i < n. get32 (fold (\<lambda>i. put32 (4 + 4 * i) (bl i)) [0..<n] d) (4 + 4 * i) = bl i)"
  using assms
proof (induction n)
  case (Suc n)
  let ?f = "fold (\<lambda>i. put32 (4 + 4 * i) (bl i)) [0..<n] d"
  have ih: "length ?f = length d" "get32 ?f 0 = get32 d 0" "\<forall>i < n. get32 ?f (4 + 4 * i) = bl i" using Suc by auto
  have "get32 (put32 (4 + 4 * n) (bl n) ?f) (4 + 4 * i) = bl i" if "i < Suc n" for i
    using that ih Suc.prems by (cases "i = n") (auto simp: get32_put32_other)
  moreover have "get32 (put32 (4 + 4 * n) (bl n) ?f) 0 = get32 d 0" using ih Suc.prems by (simp add: get32_put32_other)
  ultimately show ?case using ih Suc.prems by simp
qed simp

lemma head_block_read:
  assumes "4 + 4 * n \<le> length d" "n < 2 ^ 31"
  shows "sint (get32 (head_block n bl d) 0) = int n" "i < n \<Longrightarrow> get32 (head_block n bl d) (4 + 4 * i) = bl i"
    "length (head_block n bl d) = length d"
proof -
  have l: "4 + 4 * n \<le> length (put32 0 (of_nat n) d)" using assms by simp
  note f = fold_put32 [OF l, of bl]
  have "sint (of_nat n :: uint) = int n" using assms by (simp add: signed_of_nat signed_take_bit_int_eq_self)
  then show "sint (get32 (head_block n bl d) 0) = int n" using f assms by (simp add: head_block_def)
  show "get32 (head_block n bl d) (4 + 4 * i) = bl i" if "i < n" using f that by (simp add: head_block_def)
  show "length (head_block n bl d) = length d" using f assms by (simp add: head_block_def)
qed

section \<open>Single steps on the view\<close>

lemma bio_frame_log:
  fixes s t :: "'a log_state_scheme"
  assumes "bio_frame s t"
  shows "log_start t = log_start s" "log_size t = log_size s" "outstanding t = outstanding s" "committing t = committing s"
    "log_dev t = log_dev s" "lh_n t = lh_n s" "lh_block t = lh_block s"
  using assms by (auto simp: bio_frame_def)

lemma disk_log_upd_buf [simp]: "disk_log (upd_buf b f s) = disk_log s"
  by (simp add: upd_buf_def)

definition quiet_view :: "block_view \<Rightarrow> bool" where
  "quiet_view v \<longleftrightarrow> (\<forall>m. \<not> vl v m)"

lemma card_ref_insert: "vr v n = 0 \<Longrightarrow> card {m. ((vr v)(n := 1)) m \<noteq> 0} = Suc (card {m. vr v m \<noteq> 0})"
proof -
  assume "vr v n = 0"
  then have e: "{m. ((vr v)(n := 1)) m \<noteq> 0} = insert n {m. vr v m \<noteq> 0}" "n \<notin> {m. vr v m \<noteq> 0}" by auto
  show ?thesis unfolding e(1) by (rule card_insert_disjoint [OF finite e(2)])
qed

text \<open>Loading the two blocks of a copy: a log block nobody references, and its home block.\<close>

definition copy_room :: "block_view \<Rightarrow> uint \<Rightarrow> uint \<Rightarrow> bool" where
  "copy_room v l d \<longleftrightarrow> quiet_view v \<and> l \<noteq> d \<and> vr v l = 0 \<and> vr v d + 1 \<noteq> 0 \<and>
     (vr v d \<noteq> 0 \<and> card {m. vr v m \<noteq> 0} < NBUF \<or> card {m. vr v m \<noteq> 0} + 1 < NBUF)"

lemma load_two:
  assumes i: "binv s p" and r: "copy_room (view s) l d"
  obtains lb s1 db s2 where "bread ROOTDEV l s = Ok lb s1" "bio_frame s s1" "bread ROOTDEV d s1 = Ok db s2" "bio_frame s1 s2" "binv s2 p"
    "view s2 = (view s)\<lparr>vr := (vr (view s))(l := 1, d := vr (view s) d + 1), vl := (\<lambda>m. m = l \<or> m = d)\<rparr>"
    "lookup (bufs s2) l = Some lb" "lookup (bufs s2) d = Some db" "data (bufs s2 lb) = vk (view s) l" "data (bufs s2 db) = vk (view s) d"
    "disk_log s2 = disk_log s"
proof -
  let ?v = "view s"
  have q: "vl ?v = (\<lambda>_. False)" using r by (auto simp: copy_room_def quiet_view_def)
  have r1: "room ?v l" using r by (auto simp: room_def copy_room_def quiet_view_def)
  obtain lb s1 where 1: "bread ROOTDEV l s = Ok lb s1" "binv s1 p" "bio_frame s s1" "disk_log s1 = disk_log s"
    "view s1 = ?v\<lparr>vr := (vr ?v)(l := vr ?v l + 1), vl := (vl ?v)(l := True)\<rparr>" "lookup (bufs s1) l = Some lb"
    using bread_view [OF i r1] by metis
  have v1: "view s1 = ?v\<lparr>vr := (vr ?v)(l := 1), vl := (\<lambda>m. m = l)\<rparr>" using 1(5) r q by (auto simp: copy_room_def fun_eq_iff)
  have "card {m. vr (view s1) m \<noteq> 0} = Suc (card {m. vr ?v m \<noteq> 0})" using card_ref_insert [of ?v l] r by (simp add: v1 copy_room_def)
  then have r2: "room (view s1) d" using r unfolding room_def copy_room_def by (auto simp: v1)
  obtain db s2 where 2: "bread ROOTDEV d s1 = Ok db s2" "binv s2 p" "bio_frame s1 s2" "disk_log s2 = disk_log s1"
    "view s2 = (view s1)\<lparr>vr := (vr (view s1))(d := vr (view s1) d + 1), vl := (vl (view s1))(d := True)\<rparr>"
    "lookup (bufs s2) d = Some db" and lk: "\<forall>m. vr (view s1) m \<noteq> 0 \<longrightarrow> lookup (bufs s2) m = lookup (bufs s1) m"
    using bread_view [OF 1(2) r2] by metis
  have v2: "view s2 = ?v\<lparr>vr := (vr ?v)(l := 1, d := vr ?v d + 1), vl := (\<lambda>m. m = l \<or> m = d)\<rparr>"
    using 2(5) v1 r by (auto simp: copy_room_def fun_eq_iff)
  have l2: "lookup (bufs s2) l = Some lb" using lk 1(6) by (simp add: v1)
  have k: "vl (view s2) l" "vl (view s2) d" by (simp_all add: v2)
  have "data (bufs s2 lb) = vk ?v l" "data (bufs s2 db) = vk ?v d"
    using binv_locked(4) [OF 2(2) l2 k(1)] binv_locked(4) [OF 2(2,6) k(2)] by (simp_all add: v2)
  then show ?thesis using that [OF 1(1,3) 2(1,3,2) v2 l2 2(6)] 1(4) 2(4) by simp
qed

lemma write_log_one_view:
  fixes s :: "'a log_state_scheme"
  assumes i: "binv s p" and dv: "log_dev s = ROOTDEV"
    and r: "copy_room (view s) (log_start s + of_nat k + 1) (lh_block s k)"
  defines "l \<equiv> log_start s + of_nat k + 1" and "d \<equiv> lh_block s k"
  obtains t where "write_log_one k s = Ok () t" "binv t p" "bio_frame s t" "disk_log t = disk_log s @ [(l, vk (view s) d)]"
    "view t = (view s)\<lparr>vk := (vk (view s))(l := vk (view s) d), vd := (vd (view s))(l := vk (view s) d)\<rparr>"
proof -
  let ?v = "view s"
  have rr: "copy_room ?v l d" using r by (simp add: l_def d_def)
  obtain lb s1 db s2 where b: "bread ROOTDEV l s = Ok lb s1" "bio_frame s s1" "bread ROOTDEV d s1 = Ok db s2" "bio_frame s1 s2" "binv s2 p"
    and v2: "view s2 = ?v\<lparr>vr := (vr ?v)(l := 1, d := vr ?v d + 1), vl := (\<lambda>m. m = l \<or> m = d)\<rparr>"
    and lk: "lookup (bufs s2) l = Some lb" "lookup (bufs s2) d = Some db"
    and dt: "data (bufs s2 lb) = vk ?v l" "data (bufs s2 db) = vk ?v d" and dl: "disk_log s2 = disk_log s"
    by (rule load_two [OF i rr])
  have ld: "l \<noteq> d" and q: "vl ?v = (\<lambda>_. False)" and n0: "vr ?v l = 0" and nd: "vr ?v d + 1 \<noteq> 0"
    using rr by (auto simp: copy_room_def quiet_view_def)
  have cl: "vk ?v l = vd ?v l" using unreferenced_clean [OF i n0] .
  let ?s3 = "upd_buf lb (\<lambda>x. x\<lparr>data := vk ?v d\<rparr>) s2"
  have "vl (view s2) l" "vr (view s2) l \<noteq> 0" using ld by (simp_all add: v2)
  note sd = set_data_view [OF b(5) lk(1) this, of "vk ?v d"]
  have 3: "lookup (bufs ?s3) l = Some lb" "vl (view ?s3) l" using lk sd(4) by (simp_all add: sd(3) v2)
  obtain s4 where 4: "bwrite lb ?s3 = Ok () s4" "binv s4 p" "bio_frame ?s3 s4" "bufs s4 = bufs ?s3"
    "view s4 = (view ?s3)\<lparr>vd := (vd (view ?s3))(l := vk (view ?s3) l)\<rparr>" "disk_log s4 = disk_log ?s3 @ [(l, vk (view ?s3) l)]"
    using bwrite_view [OF sd(1) 3] by metis
  have l4: "lookup (bufs s4) d = Some db" "lookup (bufs s4) l = Some lb" using 4(4) sd(4) lk by simp_all
  have v4: "view s4 = ?v\<lparr>vk := (vk ?v)(l := vk ?v d), vd := (vd ?v)(l := vk ?v d), vr := (vr ?v)(l := 1, d := vr ?v d + 1), vl := (\<lambda>m. m = l \<or> m = d)\<rparr>"
    by (simp add: 4 sd(3) v2)
  have "vl (view s4) d" by (simp add: v4)
  moreover have "vr (view s4) d = 1 \<Longrightarrow> vk (view s4) d = vd (view s4) d"
    using unreferenced_clean [OF i, of d] ld by (simp add: v4)
  ultimately obtain s5 where 5: "brelse db s4 = Ok () s5" "binv s5 p" "bio_frame s4 s5" "disk_log s5 = disk_log s4"
    "view s5 = (view s4)\<lparr>vr := (vr (view s4))(d := vr (view s4) d - 1), vl := (vl (view s4))(d := False)\<rparr>"
    "lookup (bufs s5) = lookup (bufs s4)" using brelse_view [OF 4(2) l4(1)] by metis
  have "vl (view s5) l" using ld by (simp add: 5 v4)
  moreover have "vk (view s5) l = vd (view s5) l" by (simp add: 5 v4)
  moreover have "lookup (bufs s5) l = Some lb" by (simp add: 5 l4)
  ultimately obtain t where t: "brelse lb s5 = Ok () t" "binv t p" "bio_frame s5 t" "disk_log t = disk_log s5"
    "view t = (view s5)\<lparr>vr := (vr (view s5))(l := vr (view s5) l - 1), vl := (vl (view s5))(l := False)\<rparr>"
    using brelse_view [OF 5(2)] by metis
  show ?thesis
  proof (rule that)
    show "write_log_one k s = Ok () t"
      using b 4(1) 5(1) t(1) bio_frame_log [OF b(2)] dv dt by (simp add: write_log_one_def l_def d_def)
    show "binv t p" by (rule t(2))
    show "bio_frame s t" using b(2,4) sd(2) 4(3) 5(3) t(3) bio_frame_trans by blast
    show "disk_log t = disk_log s @ [(l, vk ?v d)]" using t(4) 5(4) 4(6) dl by (simp add: sd(3))
    show "view t = ?v\<lparr>vk := (vk ?v)(l := vk ?v d), vd := (vd ?v)(l := vk ?v d)\<rparr>"
      using ld q n0 by (auto simp: t 5 v4 fun_eq_iff)
  qed
qed

lemma install_one_view:
  fixes s :: "'a log_state_scheme"
  assumes i: "binv s p" and dv: "log_dev s = ROOTDEV"
    and r: "copy_room (view s) (log_start s + of_nat k + 1) (lh_block s k)"
  defines "l \<equiv> log_start s + of_nat k + 1" and "d \<equiv> lh_block s k"
  obtains t where "install_one k s = Ok () t" "binv t p" "bio_frame s t" "disk_log t = disk_log s @ [(d, vk (view s) l)]"
    "view t = (view s)\<lparr>vk := (vk (view s))(d := vk (view s) l), vd := (vd (view s))(d := vk (view s) l),
       vr := (vr (view s))(d := vr (view s) d - 1)\<rparr>"
proof -
  let ?v = "view s"
  have rr: "copy_room ?v l d" using r by (simp add: l_def d_def)
  obtain lb s1 db s2 where b: "bread ROOTDEV l s = Ok lb s1" "bio_frame s s1" "bread ROOTDEV d s1 = Ok db s2" "bio_frame s1 s2" "binv s2 p"
    and v2: "view s2 = ?v\<lparr>vr := (vr ?v)(l := 1, d := vr ?v d + 1), vl := (\<lambda>m. m = l \<or> m = d)\<rparr>"
    and lk: "lookup (bufs s2) l = Some lb" "lookup (bufs s2) d = Some db"
    and dt: "data (bufs s2 lb) = vk ?v l" "data (bufs s2 db) = vk ?v d" and dl: "disk_log s2 = disk_log s"
    by (rule load_two [OF i rr])
  have ld: "l \<noteq> d" and q: "vl ?v = (\<lambda>_. False)" and n0: "vr ?v l = 0" and nd: "vr ?v d + 1 \<noteq> 0"
    using rr by (auto simp: copy_room_def quiet_view_def)
  let ?s3 = "upd_buf db (\<lambda>x. x\<lparr>data := vk ?v l\<rparr>) s2"
  have "vl (view s2) d" "vr (view s2) d \<noteq> 0" using nd by (simp_all add: v2)
  note sd = set_data_view [OF b(5) lk(2) this, of "vk ?v l"]
  have 3: "lookup (bufs ?s3) d = Some db" "vl (view ?s3) d" using lk sd(4) by (simp_all add: sd(3) v2)
  obtain s4 where 4: "bwrite db ?s3 = Ok () s4" "binv s4 p" "bio_frame ?s3 s4" "bufs s4 = bufs ?s3"
    "view s4 = (view ?s3)\<lparr>vd := (vd (view ?s3))(d := vk (view ?s3) d)\<rparr>" "disk_log s4 = disk_log ?s3 @ [(d, vk (view ?s3) d)]"
    using bwrite_view [OF sd(1) 3] by metis
  have v4: "view s4 = ?v\<lparr>vk := (vk ?v)(d := vk ?v l), vd := (vd ?v)(d := vk ?v l), vr := (vr ?v)(l := 1, d := vr ?v d + 1), vl := (\<lambda>m. m = l \<or> m = d)\<rparr>"
    by (simp add: 4 sd(3) v2)
  have l4: "lookup (bufs s4) d = Some db" "lookup (bufs s4) l = Some lb" using 4(4) sd(4) lk by simp_all
  have "vl (view s4) d" by (simp add: v4)
  note b4 = binv_locked [OF 4(2) l4(1) this]
  let ?s5 = "upd_buf db (\<lambda>x. x\<lparr>refcnt := vr ?v d\<rparr>) s4"
  have h4: "BcacheLock \<notin> held s4" using 4(2) by (simp add: binv_def)
  have u: "bunpin db s4 = Ok () ?s5" using bunpin_eq [OF h4, of db] b4(2) by (simp add: v4 upd_buf_def)
  have "vk (view s4) d = vd (view s4) d" by (simp add: v4)
  note rv = ref_view [OF 4(2) l4(1) b4(3), OF this, of "vr ?v d"]
  have v5: "view ?s5 = ?v\<lparr>vk := (vk ?v)(d := vk ?v l), vd := (vd ?v)(d := vk ?v l), vr := (vr ?v)(l := 1), vl := (\<lambda>m. m = l \<or> m = d)\<rparr>"
    using ld by (auto simp: rv(3) v4 fun_eq_iff)
  have k5: "vl (view ?s5) l" by (simp add: v5)
  have c5: "vr (view ?s5) l = 1 \<Longrightarrow> vk (view ?s5) l = vd (view ?s5) l" using unreferenced_clean [OF i n0] ld by (simp add: v5)
  have l5: "lookup (bufs ?s5) l = Some lb" by (simp only: rv(4) l4)
  obtain s6 where 6: "brelse lb ?s5 = Ok () s6" "binv s6 p" "bio_frame ?s5 s6" "disk s6 = disk ?s5" "disk_log s6 = disk_log ?s5"
    "view s6 = (view ?s5)\<lparr>vr := (vr (view ?s5))(l := vr (view ?s5) l - 1), vl := (vl (view ?s5))(l := False)\<rparr>"
    "lookup (bufs s6) = lookup (bufs ?s5)" by (rule brelse_view [OF rv(1) l5 k5 c5])
  have v6: "view s6 = ?v\<lparr>vk := (vk ?v)(d := vk ?v l), vd := (vd ?v)(d := vk ?v l), vl := (\<lambda>m. m = d)\<rparr>"
    using ld n0 by (auto simp: 6(6) v5 fun_eq_iff)
  have k6: "vl (view s6) d" and c6: "vr (view s6) d = 1 \<Longrightarrow> vk (view s6) d = vd (view s6) d" by (simp_all add: v6)
  have l6: "lookup (bufs s6) d = Some db" by (simp only: 6(7) rv(4) l4)
  obtain t where t: "brelse db s6 = Ok () t" "binv t p" "bio_frame s6 t" "disk t = disk s6" "disk_log t = disk_log s6"
    "view t = (view s6)\<lparr>vr := (vr (view s6))(d := vr (view s6) d - 1), vl := (vl (view s6))(d := False)\<rparr>"
    "lookup (bufs t) = lookup (bufs s6)" by (rule brelse_view [OF 6(2) l6 k6 c6])
  show ?thesis
  proof (rule that)
    show "install_one k s = Ok () t"
      using b 4(1) u 6(1) t(1) bio_frame_log [OF b(2)] dv dt by (simp add: install_one_def l_def d_def)
    show "binv t p" by (rule t(2))
    show "bio_frame s t" using b(2,4) sd(2) 4(3) rv(2) 6(3) t(3) bio_frame_trans by blast
    show "disk_log t = disk_log s @ [(d, vk ?v l)]" using t(5) 6(5) 4(6) dl by (simp add: sd(3))
    show "view t = ?v\<lparr>vk := (vk ?v)(d := vk ?v l), vd := (vd ?v)(d := vk ?v l), vr := (vr ?v)(d := vr ?v d - 1)\<rparr>"
      using q by (auto simp: t(6) v6 fun_eq_iff)
  qed
qed

lemma write_head_view:
  fixes s :: "'a log_state_scheme"
  assumes i: "binv s p" and dv: "log_dev s = ROOTDEV" and q: "quiet_view (view s)" and z: "vr (view s) (log_start s) = 0"
    and c: "card {m. vr (view s) m \<noteq> 0} < NBUF" and n: "0 \<le> lh_n s"
  defines "h \<equiv> head_block (nat (lh_n s)) (lh_block s) (vk (view s) (log_start s))" and "l \<equiv> log_start s"
  obtains t where "write_head s = Ok () t" "binv t p" "bio_frame s t" "disk_log t = disk_log s @ [(l, h)]"
    "view t = (view s)\<lparr>vk := (vk (view s))(l := h), vd := (vd (view s))(l := h)\<rparr>"
proof -
  let ?v = "view s"
  have q': "vl ?v = (\<lambda>_. False)" using q by (auto simp: quiet_view_def)
  have rm: "room ?v l" using q z c by (auto simp: room_def quiet_view_def l_def)
  obtain b s1 where 1: "bread ROOTDEV l s = Ok b s1" "binv s1 p" "bio_frame s s1" "disk s1 = disk s" "disk_log s1 = disk_log s"
    "view s1 = ?v\<lparr>vr := (vr ?v)(l := vr ?v l + 1), vl := (vl ?v)(l := True)\<rparr>" "lookup (bufs s1) l = Some b"
    "data (bufs s1 b) = vk ?v l" "\<forall>m. vr ?v m \<noteq> 0 \<longrightarrow> lookup (bufs s1) m = lookup (bufs s) m" by (rule bread_view [OF i rm])
  have k1: "vl (view s1) l" "vr (view s1) l \<noteq> 0" using z by (simp_all add: 1(6) l_def)
  let ?s2 = "upd_buf b (\<lambda>x. x\<lparr>data := h\<rparr>) s1"
  note sd = set_data_view [OF 1(2,7) k1, of h]
  have l2: "lookup (bufs ?s2) l = Some b" "vl (view ?s2) l" using 1(7) sd(4) k1 by (simp_all add: sd(3))
  obtain s3 where 3: "bwrite b ?s2 = Ok () s3" "binv s3 p" "bio_frame ?s2 s3"
    "view s3 = (view ?s2)\<lparr>vd := (vd (view ?s2))(l := vk (view ?s2) l)\<rparr>" "bufs s3 = bufs ?s2"
    "disk_log s3 = disk_log ?s2 @ [(l, vk (view ?s2) l)]" by (rule bwrite_view [OF sd(1) l2])
  have v3: "view s3 = ?v\<lparr>vk := (vk ?v)(l := h), vd := (vd ?v)(l := h), vr := (vr ?v)(l := vr ?v l + 1), vl := (vl ?v)(l := True)\<rparr>"
    by (simp add: 3(4) sd(3) 1(6))
  have l3: "lookup (bufs s3) l = Some b" using l2 3(5) by simp
  have k3: "vl (view s3) l" "vr (view s3) l = 1 \<Longrightarrow> vk (view s3) l = vd (view s3) l" by (simp_all add: v3)
  obtain t where t: "brelse b s3 = Ok () t" "binv t p" "bio_frame s3 t" "disk t = disk s3" "disk_log t = disk_log s3"
    "view t = (view s3)\<lparr>vr := (vr (view s3))(l := vr (view s3) l - 1), vl := (vl (view s3))(l := False)\<rparr>"
    "lookup (bufs t) = lookup (bufs s3)" by (rule brelse_view [OF 3(2) l3 k3])
  show ?thesis
  proof (rule that)
    have "word_of_int (lh_n s) = (of_nat (nat (lh_n s)) :: uint)" using n by simp
    then have "head_block (nat (lh_n s)) (lh_block s) d
      = fold (\<lambda>i. put32 (4 + 4 * i) (lh_block s i)) (log_blocks s) (put32 0 (word_of_int (lh_n s)) d)" for d
      by (simp add: head_block_def log_blocks_def)
    then show "write_head s = Ok () t"
      using 1(1,8) 3(1) t(1) bio_frame_log [OF 1(3)] dv by (simp add: write_head_def h_def l_def log_blocks_def)
    show "binv t p" by (rule t(2))
    show "bio_frame s t" using 1(3) sd(2) 3(3) t(3) bio_frame_trans by blast
    show "disk_log t = disk_log s @ [(l, h)]" using t(5) 3(6) 1(5) by (simp add: sd(3))
    show "view t = ?v\<lparr>vk := (vk ?v)(l := h), vd := (vd ?v)(l := h)\<rparr>" using q' by (auto simp: t(6) v3 fun_eq_iff)
  qed
qed

lemma read_head_view:
  fixes s :: "'a log_state_scheme"
  assumes i: "binv s p" and dv: "log_dev s = ROOTDEV" and q: "quiet_view (view s)" and z: "vr (view s) (log_start s) = 0"
    and c: "card {m. vr (view s) m \<noteq> 0} < NBUF"
  defines "d \<equiv> vk (view s) (log_start s)"
  obtains t where "read_head s = Ok () t" "binv t p" "disk_log t = disk_log s" "view t = view s"
    "log_start t = log_start s" "log_dev t = log_dev s" "lh_n t = sint (get32 d 0)"
    "\<And>i. i < nat (lh_n t) \<Longrightarrow> lh_block t i = get32 d (4 + 4 * i)"
proof -
  let ?v = "view s" and ?l = "log_start s"
  have q': "vl ?v = (\<lambda>_. False)" using q by (auto simp: quiet_view_def)
  have rm: "room ?v ?l" using q z c by (auto simp: room_def quiet_view_def)
  obtain b s1 where 1: "bread ROOTDEV ?l s = Ok b s1" "binv s1 p" "bio_frame s s1" "disk s1 = disk s" "disk_log s1 = disk_log s"
    "view s1 = ?v\<lparr>vr := (vr ?v)(?l := vr ?v ?l + 1), vl := (vl ?v)(?l := True)\<rparr>" "lookup (bufs s1) ?l = Some b"
    "data (bufs s1 b) = vk ?v ?l" "\<forall>m. vr ?v m \<noteq> 0 \<longrightarrow> lookup (bufs s1) m = lookup (bufs s) m" by (rule bread_view [OF i rm])
  let ?n = "sint (get32 d 0)"
  let ?s2 = "s1\<lparr>lh_n := ?n, lh_block := (\<lambda>i. if i < nat ?n then get32 d (4 + 4 * i) else lh_block s1 i)\<rparr>"
  have e: "view ?s2 = view s1" "binv ?s2 p" "lookup (bufs ?s2) ?l = Some b" using 1(2,7) by (simp_all add: view_def binv_def)
  have k: "vl (view ?s2) ?l" "vr (view ?s2) ?l = 1 \<Longrightarrow> vk (view ?s2) ?l = vd (view ?s2) ?l"
    using unreferenced_clean [OF i z] by (simp_all add: e 1(6))
  obtain t where t: "brelse b ?s2 = Ok () t" "binv t p" "bio_frame ?s2 t" "disk t = disk ?s2" "disk_log t = disk_log ?s2"
    "view t = (view ?s2)\<lparr>vr := (vr (view ?s2))(?l := vr (view ?s2) ?l - 1), vl := (vl (view ?s2))(?l := False)\<rparr>"
    "lookup (bufs t) = lookup (bufs ?s2)" by (rule brelse_view [OF e(2,3) k])
  show ?thesis
  proof (rule that)
    show "read_head s = Ok () t" using 1(1,8) t(1) [unfolded d_def] dv by (simp add: read_head_def Let_def cong: if_cong)
    show "view t = ?v" using q' z by (auto simp: t(6) e 1(6) fun_eq_iff)
    show "lh_n t = ?n" "\<And>i. i < nat (lh_n t) \<Longrightarrow> lh_block t i = get32 d (4 + 4 * i)" "log_start t = log_start s" "log_dev t = log_dev s"
      using bio_frame_log [OF t(3)] bio_frame_log [OF 1(3)] by simp_all
  qed (use t 1 in simp_all)
qed

section \<open>The loops of commit and recovery\<close>

definition apply_writes :: "(uint \<times> block) list \<Rightarrow> (uint \<Rightarrow> block) \<Rightarrow> uint \<Rightarrow> block" where
  "apply_writes ws k = fold (\<lambda>(n, d) k. k(n := d)) ws k"

lemma apply_writes_simps [simp]:
  "apply_writes [] k = k" "apply_writes ((n, d) # ws) k = apply_writes ws (k(n := d))"
  "apply_writes (ws @ ws') k = apply_writes ws' (apply_writes ws k)"
  by (simp_all add: apply_writes_def)

lemma apply_writes_other: "n \<notin> fst ` set ws \<Longrightarrow> apply_writes ws k n = k n"
  by (induction ws arbitrary: k) auto

lemma apply_writes_take: "n \<notin> fst ` set ws \<Longrightarrow> apply_writes (take j ws) k n = k n"
  by (rule apply_writes_other) (auto dest: in_set_takeD)

lemma apply_writes_forget: "n \<in> fst ` set ws \<Longrightarrow> apply_writes ws k n = apply_writes ws k' n"
proof (induction ws arbitrary: k k')
  case (Cons w ws)
  show ?case
  proof (cases "n \<in> fst ` set ws")
    case True
    then show ?thesis using Cons.IH by (cases w) simp
  next
    case False
    then show ?thesis using Cons.prems by (cases w) (auto simp: apply_writes_other)
  qed
qed simp

lemma apply_writes_map:
  "distinct xs \<Longrightarrow> inj_on f (set xs) \<Longrightarrow> x \<in> set xs \<Longrightarrow> apply_writes (map (\<lambda>i. (f i, g i)) xs) k (f x) = g x"
proof (induction xs arbitrary: k)
  case (Cons y ys)
  show ?case
  proof (cases "x = y")
    case True
    then have "f x \<notin> fst ` set (map (\<lambda>i. (f i, g i)) ys)" using Cons.prems by (auto simp: inj_on_def)
    then show ?thesis using True by (simp add: apply_writes_other)
  next
    case False
    then show ?thesis using Cons by simp
  qed
qed simp

text \<open>The block of the log where block \<open>i\<close> of the transaction goes, and its home.\<close>

definition log_slot :: "'a log_state_scheme \<Rightarrow> nat \<Rightarrow> uint" where
  "log_slot s i = log_start s + of_nat i + 1"

definition apart_homes :: "'a log_state_scheme \<Rightarrow> nat set \<Rightarrow> bool" where
  "apart_homes s I \<longleftrightarrow> inj_on (log_slot s) I \<and> inj_on (lh_block s) I \<and>
     (\<forall>i \<in> I. \<forall>j \<in> I. log_slot s i \<noteq> lh_block s j) \<and> (\<forall>i \<in> I. lh_block s i \<noteq> log_start s \<and> log_slot s i \<noteq> log_start s)"

lemma apart_homes_mono: "apart_homes s I \<Longrightarrow> J \<subseteq> I \<Longrightarrow> apart_homes s J"
  unfolding apart_homes_def by (blast intro: inj_on_subset)

lemma log_fields_frame:
  assumes "bio_frame s t"
  shows "log_slot t = log_slot s" "apart_homes t I = apart_homes s I"
proof -
  show e: "log_slot t = log_slot s" by (rule ext) (simp add: log_slot_def bio_frame_log [OF assms])
  show "apart_homes t I = apart_homes s I" unfolding apart_homes_def e by (simp only: bio_frame_log [OF assms])
qed

lemma write_log_loop:
  fixes s :: "'a log_state_scheme"
  assumes "binv s p" "log_dev s = ROOTDEV" "apart_homes s (set xs)" "distinct xs" "quiet_view (view s)"
    and "\<forall>i \<in> set xs. vr (view s) (log_slot s i) = 0 \<and> vr (view s) (lh_block s i) \<noteq> 0 \<and> vr (view s) (lh_block s i) + 1 \<noteq> 0"
    and "card {m. vr (view s) m \<noteq> 0} < NBUF"
  shows "\<exists>t. for_each write_log_one xs s = Ok () t \<and> binv t p \<and> bio_frame s t
    \<and> disk_log t = disk_log s @ map (\<lambda>i. (log_slot s i, vk (view s) (lh_block s i))) xs
    \<and> view t = (view s)\<lparr>vk := apply_writes (map (\<lambda>i. (log_slot s i, vk (view s) (lh_block s i))) xs) (vk (view s)),
         vd := apply_writes (map (\<lambda>i. (log_slot s i, vk (view s) (lh_block s i))) xs) (vd (view s))\<rparr>"
  using assms
proof (induction xs arbitrary: s)
  case (Cons x xs)
  let ?v = "view s" and ?l = "log_slot s x" and ?d = "lh_block s x"
  have r: "copy_room ?v (log_start s + of_nat x + 1) ?d"
    using Cons.prems by (auto simp: copy_room_def apart_homes_def log_slot_def)
  obtain s1 where 1: "write_log_one x s = Ok () s1" "binv s1 p" "bio_frame s s1"
    "disk_log s1 = disk_log s @ [(?l, vk ?v ?d)]"
    "view s1 = ?v\<lparr>vk := (vk ?v)(?l := vk ?v ?d), vd := (vd ?v)(?l := vk ?v ?d)\<rparr>"
    unfolding log_slot_def by (rule write_log_one_view [OF Cons.prems(1,2) r])
  note f = bio_frame_log [OF 1(3)] log_fields_frame [OF 1(3)]
  have p1: "log_dev s1 = ROOTDEV" "apart_homes s1 (set xs)" "distinct xs" "quiet_view (view s1)"
    using Cons.prems(2-5) f apart_homes_mono [of s "set (x # xs)" "set xs"] by (auto simp: 1(5) quiet_view_def)
  have p2: "\<forall>i \<in> set xs. vr (view s1) (log_slot s1 i) = 0 \<and> vr (view s1) (lh_block s1 i) \<noteq> 0 \<and> vr (view s1) (lh_block s1 i) + 1 \<noteq> 0"
    "card {m. vr (view s1) m \<noteq> 0} < NBUF" using Cons.prems(6,7) by (simp_all add: f 1(5))
  obtain t where t: "for_each write_log_one xs s1 = Ok () t" "binv t p" "bio_frame s1 t"
    "disk_log t = disk_log s1 @ map (\<lambda>i. (log_slot s1 i, vk (view s1) (lh_block s1 i))) xs"
    "view t = (view s1)\<lparr>vk := apply_writes (map (\<lambda>i. (log_slot s1 i, vk (view s1) (lh_block s1 i))) xs) (vk (view s1)),
         vd := apply_writes (map (\<lambda>i. (log_slot s1 i, vk (view s1) (lh_block s1 i))) xs) (vd (view s1))\<rparr>"
    using Cons.IH [OF 1(2) p1 p2] by blast
  have m: "map (\<lambda>i. (log_slot s1 i, vk (view s1) (lh_block s1 i))) xs = map (\<lambda>i. (log_slot s i, vk ?v (lh_block s i))) xs"
    using Cons.prems(3) by (auto simp: f 1(5) apart_homes_def)
  show ?case
  proof (intro exI [of _ t] conjI)
    show "bio_frame s t" using 1(3) t(3) by (rule bio_frame_trans)
    show "view t = ?v\<lparr>vk := apply_writes (map (\<lambda>i. (log_slot s i, vk ?v (lh_block s i))) (x # xs)) (vk ?v),
         vd := apply_writes (map (\<lambda>i. (log_slot s i, vk ?v (lh_block s i))) (x # xs)) (vd ?v)\<rparr>"
      using t(5) [unfolded m] by (simp add: 1(5))
  qed (use 1 t m in simp_all)
qed simp

text \<open>Installing drops one reference of every home block. In \<open>commit\<close> that is the reference taken by
  \<open>log_write\<close>; after a reboot there is none, and the count wraps around.\<close>

definition unref :: "'a log_state_scheme \<Rightarrow> nat list \<Rightarrow> (uint \<Rightarrow> uint) \<Rightarrow> uint \<Rightarrow> uint" where
  "unref s xs r = (\<lambda>b. if b \<in> lh_block s ` set xs then r b - 1 else r b)"

definition install_room :: "'a log_state_scheme \<Rightarrow> nat list \<Rightarrow> bool" where
  "install_room s xs \<longleftrightarrow> (\<forall>i \<in> set xs. vr (view s) (log_slot s i) = 0 \<and> vr (view s) (lh_block s i) + 1 \<noteq> 0) \<and>
     ((\<forall>i \<in> set xs. vr (view s) (lh_block s i) \<noteq> 0) \<and> card {m. vr (view s) m \<noteq> 0} < NBUF
      \<or> card {m. vr (view s) m \<noteq> 0} + length xs < NBUF)"

lemma install_room_step:
  assumes r: "install_room s (x # xs)" and a: "apart_homes s (set (x # xs))" and d: "distinct (x # xs)" and f: "bio_frame s t"
    and v: "vr (view t) = (vr (view s))(lh_block s x := vr (view s) (lh_block s x) - 1)"
  shows "install_room t xs"
proof -
  let ?r = "vr (view s)" and ?d = "lh_block s x"
  have o: "lh_block s i \<noteq> ?d" "log_slot s i \<noteq> ?d" if "i \<in> set xs" for i
    using a d that by (auto simp: apart_homes_def inj_on_def)
  have sub: "{m. vr (view t) m \<noteq> 0} \<subseteq> insert ?d {m. ?r m \<noteq> 0}" by (auto simp: v)
  have c: "card {m. vr (view t) m \<noteq> 0} \<le> card {m. ?r m \<noteq> 0} + 1"
    using card_mono [OF finite sub] card_insert_le_m1 [of _ "{m. ?r m \<noteq> 0}" ?d] by (metis (no_types) Suc_eq_plus1 card_insert_if finite le_Suc_eq le_trans)
  have c0: "card {m. vr (view t) m \<noteq> 0} \<le> card {m. ?r m \<noteq> 0}" if "?r ?d \<noteq> 0"
    using that sub by (intro card_mono) auto
  have e: "vr (view t) (lh_block t i) = ?r (lh_block s i)" "vr (view t) (log_slot t i) = ?r (log_slot s i)" if "i \<in> set xs" for i
    using o [OF that] by (simp_all add: v log_fields_frame [OF f] bio_frame_log [OF f])
  show ?thesis using r c c0 unfolding install_room_def by (auto simp: e)
qed

lemma install_loop:
  fixes s :: "'a log_state_scheme"
  assumes "binv s p" "log_dev s = ROOTDEV" "apart_homes s (set xs)" "distinct xs" "quiet_view (view s)" "install_room s xs"
  shows "\<exists>t. for_each install_one xs s = Ok () t \<and> binv t p \<and> bio_frame s t
    \<and> disk_log t = disk_log s @ map (\<lambda>i. (lh_block s i, vk (view s) (log_slot s i))) xs
    \<and> view t = (view s)\<lparr>vk := apply_writes (map (\<lambda>i. (lh_block s i, vk (view s) (log_slot s i))) xs) (vk (view s)),
         vd := apply_writes (map (\<lambda>i. (lh_block s i, vk (view s) (log_slot s i))) xs) (vd (view s)),
         vr := unref s xs (vr (view s))\<rparr>"
  using assms
proof (induction xs arbitrary: s)
  case Nil
  then show ?case by (simp add: unref_def)
next
  case (Cons x xs)
  let ?v = "view s" and ?l = "log_slot s x" and ?d = "lh_block s x"
  have r: "copy_room ?v (log_start s + of_nat x + 1) ?d"
    using Cons.prems by (auto simp: copy_room_def apart_homes_def log_slot_def install_room_def)
  obtain s1 where 1: "install_one x s = Ok () s1" "binv s1 p" "bio_frame s s1"
    "disk_log s1 = disk_log s @ [(?d, vk ?v ?l)]"
    "view s1 = ?v\<lparr>vk := (vk ?v)(?d := vk ?v ?l), vd := (vd ?v)(?d := vk ?v ?l), vr := (vr ?v)(?d := vr ?v ?d - 1)\<rparr>"
    unfolding log_slot_def by (rule install_one_view [OF Cons.prems(1,2) r])
  note f = bio_frame_log [OF 1(3)] log_fields_frame [OF 1(3)]
  have p1: "log_dev s1 = ROOTDEV" "apart_homes s1 (set xs)" "distinct xs" "quiet_view (view s1)"
    using Cons.prems(2-5) f apart_homes_mono [of s "set (x # xs)" "set xs"] by (auto simp: 1(5) quiet_view_def)
  have p2: "install_room s1 xs" using Cons.prems(6,3,4) 1(3) by (rule install_room_step) (simp add: 1(5))
  obtain t where t: "for_each install_one xs s1 = Ok () t" "binv t p" "bio_frame s1 t"
    "disk_log t = disk_log s1 @ map (\<lambda>i. (lh_block s1 i, vk (view s1) (log_slot s1 i))) xs"
    "view t = (view s1)\<lparr>vk := apply_writes (map (\<lambda>i. (lh_block s1 i, vk (view s1) (log_slot s1 i))) xs) (vk (view s1)),
         vd := apply_writes (map (\<lambda>i. (lh_block s1 i, vk (view s1) (log_slot s1 i))) xs) (vd (view s1)), vr := unref s1 xs (vr (view s1))\<rparr>"
    using Cons.IH [OF 1(2) p1 p2] by blast
  have m: "map (\<lambda>i. (lh_block s1 i, vk (view s1) (log_slot s1 i))) xs = map (\<lambda>i. (lh_block s i, vk ?v (log_slot s i))) xs"
    using Cons.prems(3) by (auto simp: f 1(5) apart_homes_def)
  have u: "unref s1 xs (vr (view s1)) = unref s (x # xs) (vr ?v)"
    using Cons.prems(3,4) by (auto simp: unref_def f 1(5) apart_homes_def inj_on_def fun_eq_iff)
  show ?case
  proof (intro exI [of _ t] conjI)
    show "bio_frame s t" using 1(3) t(3) by (rule bio_frame_trans)
    show "view t = ?v\<lparr>vk := apply_writes (map (\<lambda>i. (lh_block s i, vk ?v (log_slot s i))) (x # xs)) (vk ?v),
         vd := apply_writes (map (\<lambda>i. (lh_block s i, vk ?v (log_slot s i))) (x # xs)) (vd ?v), vr := unref s (x # xs) (vr ?v)\<rparr>"
      using t(5) [unfolded m u] by (simp add: 1(5))
  qed (use 1 t m in simp_all)
qed

section \<open>Commit and recovery\<close>

definition commit_ready :: "'a log_state_scheme \<Rightarrow> nat \<Rightarrow> bool" where
  "commit_ready s p \<longleftrightarrow> binv s p \<and> log_dev s = ROOTDEV \<and> 0 < lh_n s \<and> lh_n s \<le> int LOGSIZE \<and>
     apart_homes s {..<nat (lh_n s)} \<and> quiet_view (view s) \<and> vr (view s) (log_start s) = 0 \<and>
     (\<forall>i < nat (lh_n s). vr (view s) (log_slot s i) = 0 \<and> vr (view s) (lh_block s i) \<noteq> 0 \<and> vr (view s) (lh_block s i) + 1 \<noteq> 0) \<and>
     card {m. vr (view s) m \<noteq> 0} < NBUF \<and> length (vk (view s) (log_start s)) = BSIZE"

text \<open>The writes to the disk that \<open>commit\<close> makes, in order: the log blocks, the header, the home blocks,
  the empty header.\<close>

definition log_writes :: "'a log_state_scheme \<Rightarrow> (uint \<times> block) list" where
  "log_writes s = map (\<lambda>i. (log_slot s i, vk (view s) (lh_block s i))) (log_blocks s)"

definition home_writes :: "'a log_state_scheme \<Rightarrow> (uint \<times> block) list" where
  "home_writes s = map (\<lambda>i. (lh_block s i, vk (view s) (lh_block s i))) (log_blocks s)"

definition full_head :: "'a log_state_scheme \<Rightarrow> block" where
  "full_head s = head_block (nat (lh_n s)) (lh_block s) (vk (view s) (log_start s))"

definition commit_writes :: "'a log_state_scheme \<Rightarrow> (uint \<times> block) list" where
  "commit_writes s = log_writes s @ [(log_start s, full_head s)] @ home_writes s
     @ [(log_start s, head_block 0 (lh_block s) (full_head s))]"

lemma log_writes_slot:
  "apart_homes s (set (log_blocks s)) \<Longrightarrow> i < nat (lh_n s) \<Longrightarrow> apply_writes (log_writes s) k (log_slot s i) = vk (view s) (lh_block s i)"
  unfolding log_writes_def by (rule apply_writes_map) (auto simp: apart_homes_def log_blocks_def)

lemma log_writes_start: "apart_homes s (set (log_blocks s)) \<Longrightarrow> apply_writes (log_writes s) k (log_start s) = k (log_start s)"
  by (rule apply_writes_other) (auto simp: log_writes_def apart_homes_def)

lemma home_writes_start: "apart_homes s (set (log_blocks s)) \<Longrightarrow> apply_writes (home_writes s) k (log_start s) = k (log_start s)"
  by (rule apply_writes_other) (auto simp: home_writes_def apart_homes_def)

lemma binv_lh [simp]: "binv (s\<lparr>lh_n := n\<rparr>) p = binv s p"
  by (simp add: binv_def)

lemma view_lh [simp]: "view (s\<lparr>lh_n := n\<rparr>) = view s"
  by (simp add: view_def)

lemma commit_view:
  fixes s :: "'a log_state_scheme"
  assumes r: "commit_ready s p"
  obtains t where "commit s = Ok () t" "binv t p" "disk_log t = disk_log s @ commit_writes s" "lh_n t = 0"
    "view t = (view s)\<lparr>vk := apply_writes (commit_writes s) (vk (view s)), vd := apply_writes (commit_writes s) (vd (view s)),
       vr := unref s (log_blocks s) (vr (view s))\<rparr>"
proof -
  let ?v = "view s" and ?S = "log_start s" and ?xs = "log_blocks s"
  have set: "set ?xs = {..<nat (lh_n s)}" "distinct ?xs" by (auto simp: log_blocks_def)
  have i: "binv s p" "log_dev s = ROOTDEV" and n: "0 < lh_n s" "lh_n s \<le> int LOGSIZE" and a: "apart_homes s (set ?xs)"
    and q: "quiet_view ?v" and z: "vr ?v ?S = 0" and c: "card {m. vr ?v m \<noteq> 0} < NBUF"
    and rf: "\<forall>i \<in> set ?xs. vr ?v (log_slot s i) = 0 \<and> vr ?v (lh_block s i) \<noteq> 0 \<and> vr ?v (lh_block s i) + 1 \<noteq> 0"
    using r by (auto simp: commit_ready_def set)
  obtain s1 where 1: "write_log s = Ok () s1" "binv s1 p" "bio_frame s s1" "disk_log s1 = disk_log s @ log_writes s"
    "view s1 = ?v\<lparr>vk := apply_writes (log_writes s) (vk ?v), vd := apply_writes (log_writes s) (vd ?v)\<rparr>"
    using write_log_loop [OF i a set(2) q rf c] unfolding write_log_def log_writes_def by blast
  note f1 = bio_frame_log [OF 1(3)] log_fields_frame [OF 1(3)]
  let ?h = "full_head s"
  have h: "head_block (nat (lh_n s1)) (lh_block s1) (vk (view s1) (log_start s1)) = ?h"
    using log_writes_start [OF a] by (simp add: f1 1(5) full_head_def)
  have p1: "log_dev s1 = ROOTDEV" "quiet_view (view s1)" "vr (view s1) (log_start s1) = 0" "card {m. vr (view s1) m \<noteq> 0} < NBUF" "0 \<le> lh_n s1"
    using i q z c n by (simp_all add: f1 1(5) quiet_view_def)
  obtain s2 where 2: "write_head s1 = Ok () s2" "binv s2 p" "bio_frame s1 s2" "disk_log s2 = disk_log s1 @ [(log_start s1, ?h)]"
    "view s2 = (view s1)\<lparr>vk := (vk (view s1))(log_start s1 := ?h), vd := (vd (view s1))(log_start s1 := ?h)\<rparr>"
    by (rule write_head_view [OF 1(2) p1, unfolded h])
  have fs: "bio_frame s s2" using 1(3) 2(3) by (rule bio_frame_trans)
  note f2 = bio_frame_log [OF fs] log_fields_frame [OF fs]
  have xs2: "log_blocks s2 = ?xs" by (simp add: log_blocks_def f2)
  have v2: "view s2 = ?v\<lparr>vk := (apply_writes (log_writes s) (vk ?v))(?S := ?h), vd := (apply_writes (log_writes s) (vd ?v))(?S := ?h)\<rparr>"
    by (simp add: 2(5) 1(5) f1)
  have p2: "log_dev s2 = ROOTDEV" "apart_homes s2 (set ?xs)" "distinct ?xs" "quiet_view (view s2)" "install_room s2 ?xs"
    using i a set q rf c by (auto simp: f2 v2 quiet_view_def install_room_def)
  have w: "map (\<lambda>i. (lh_block s2 i, vk (view s2) (log_slot s2 i))) ?xs = home_writes s"
    using a log_writes_slot [OF a] by (auto simp: home_writes_def f2 v2 set apart_homes_def)
  have u: "unref s2 ?xs (vr (view s2)) = unref s ?xs (vr ?v)" by (simp add: unref_def f2 v2)
  obtain s3 where 3: "install_trans s2 = Ok () s3" "binv s3 p" "bio_frame s2 s3" "disk_log s3 = disk_log s2 @ home_writes s"
    "view s3 = (view s2)\<lparr>vk := apply_writes (home_writes s) (vk (view s2)), vd := apply_writes (home_writes s) (vd (view s2)),
       vr := unref s ?xs (vr ?v)\<rparr>"
    using install_loop [OF 2(2) p2] unfolding install_trans_def xs2 w u by blast
  have fs3: "bio_frame s s3" using fs 3(3) by (rule bio_frame_trans)
  note f3 = bio_frame_log [OF fs3] log_fields_frame [OF fs3]
  let ?s3 = "s3\<lparr>lh_n := 0\<rparr>" and ?e = "head_block 0 (lh_block s) (full_head s)"
  have v3: "view s3 = ?v\<lparr>vk := apply_writes (home_writes s) ((apply_writes (log_writes s) (vk ?v))(?S := ?h)),
      vd := apply_writes (home_writes s) ((apply_writes (log_writes s) (vd ?v))(?S := ?h)), vr := unref s ?xs (vr ?v)\<rparr>"
    by (simp add: 3(5) v2)
  have h0: "head_block (nat (lh_n ?s3)) (lh_block ?s3) (vk (view ?s3) (log_start ?s3)) = ?e"
    using home_writes_start [OF a] by (simp add: f3 v3)
  have "{m. unref s ?xs (vr ?v) m \<noteq> 0} \<subseteq> {m. vr ?v m \<noteq> 0}" using rf by (auto simp: unref_def)
  then have c3: "card {m. unref s ?xs (vr ?v) m \<noteq> 0} < NBUF" using c card_mono [OF finite] le_less_trans by blast
  have "?S \<notin> lh_block s ` set ?xs" using a by (auto simp: apart_homes_def)
  then have uS: "unref s ?xs (vr ?v) ?S = 0" using z by (simp add: unref_def)
  have p3: "log_dev ?s3 = ROOTDEV" "quiet_view (view ?s3)" "vr (view ?s3) (log_start ?s3) = 0" "card {m. vr (view ?s3) m \<noteq> 0} < NBUF" "0 \<le> lh_n ?s3"
    using i q uS c3 by (simp_all add: f3 v3 quiet_view_def)
  have b3: "binv ?s3 p" using 3(2) by simp
  obtain t where t: "write_head ?s3 = Ok () t" "binv t p" "bio_frame ?s3 t" "disk_log t = disk_log ?s3 @ [(log_start ?s3, ?e)]"
    "view t = (view ?s3)\<lparr>vk := (vk (view ?s3))(log_start ?s3 := ?e), vd := (vd (view ?s3))(log_start ?s3 := ?e)\<rparr>"
    by (rule write_head_view [OF b3 p3, unfolded h0])
  show ?thesis
  proof (rule that)
    show "commit s = Ok () t" using n 1(1) 2(1) 3(1) t(1) by (simp add: commit_def)
    show "disk_log t = disk_log s @ commit_writes s" using t(4) 3(4) 2(4) 1(4) by (simp add: commit_writes_def f3 f1)
    show "lh_n t = 0" using bio_frame_log [OF t(3)] by simp
    show "view t = ?v\<lparr>vk := apply_writes (commit_writes s) (vk ?v), vd := apply_writes (commit_writes s) (vd ?v),
       vr := unref s ?xs (vr ?v)\<rparr>" by (simp add: t(5) v3 f3 commit_writes_def)
  qed (rule t(2))
qed

text \<open>After a reboot the cache is empty: nothing is referenced or locked.\<close>

definition rebooted :: "'a log_state_scheme \<Rightarrow> nat \<Rightarrow> uint \<Rightarrow> (uint \<Rightarrow> block) \<Rightarrow> bool" where
  "rebooted s p start dk \<longleftrightarrow> binv s p \<and> log_dev s = ROOTDEV \<and> log_start s = start \<and>
     view s = \<lparr>vk = dk, vd = dk, vr = (\<lambda>_. 0), vl = (\<lambda>_. False)\<rparr>"

lemma recover_view:
  fixes s :: "'a log_state_scheme"
  assumes r: "rebooted s p S dk" and n: "sint (get32 (dk S) 0) = int n" "n < NBUF"
    and bl: "\<forall>i < n. get32 (dk S) (4 + 4 * i) = bl i"
    and ap: "inj_on bl {..<n}" "inj_on (\<lambda>i. S + of_nat i + 1) {..<n}"
      "\<forall>i < n. \<forall>j < n. S + of_nat i + 1 \<noteq> bl j" "\<forall>i < n. bl i \<noteq> S \<and> S + of_nat i + 1 \<noteq> S"
  obtains t h where "recover_from_log s = Ok () t" "binv t p" "lh_n t = 0"
    "disk t = (apply_writes (map (\<lambda>i. (bl i, dk (S + of_nat i + 1))) [0..<n]) dk)(S := h)"
    "vr (view t) = (\<lambda>b. if b \<in> bl ` {..<n} then - 1 else 0)"
proof -
  have i: "binv s p" and d: "log_dev s = ROOTDEV" and S: "log_start s = S"
    and v: "view s = \<lparr>vk = dk, vd = dk, vr = (\<lambda>_. 0), vl = (\<lambda>_. False)\<rparr>" using r by (auto simp: rebooted_def)
  have q: "quiet_view (view s)" "vr (view s) (log_start s) = 0" "card {m. vr (view s) m \<noteq> 0} < NBUF"
    by (simp_all add: v quiet_view_def layout_defs)
  obtain s1 where 1: "read_head s = Ok () s1" "binv s1 p" "view s1 = view s" "log_start s1 = S" "log_dev s1 = ROOTDEV" "lh_n s1 = int n"
    "\<And>i. i < nat (lh_n s1) \<Longrightarrow> lh_block s1 i = get32 (dk S) (4 + 4 * i)"
    using read_head_view [OF i d q] S d n(1) v by (auto simp del: One_nat_def)
  have b1: "lh_block s1 i = bl i" if "i < n" for i using 1(6,7) bl that by simp
  have xs: "log_blocks s1 = [0..<n]" by (simp add: log_blocks_def 1(6))
  have sl: "log_slot s1 i = S + of_nat i + 1" for i by (simp add: log_slot_def 1(4))
  have "inj_on (lh_block s1) {..<n}" using ap(1) b1 by (auto simp: inj_on_def)
  moreover have "inj_on (log_slot s1) {..<n}" using ap(2) by (simp add: sl inj_on_def)
  ultimately have a: "apart_homes s1 (set [0..<n])" unfolding apart_homes_def using ap(3,4) b1 by (auto simp: sl 1(4) atLeast0LessThan)
  have ir: "install_room s1 [0..<n]" using n(2) by (simp add: install_room_def 1(3) v)
  have q1: "distinct [0..<n]" "quiet_view (view s1)" using q by (simp_all add: 1(3))
  have w: "map (\<lambda>i. (lh_block s1 i, vk (view s1) (log_slot s1 i))) [0..<n] = map (\<lambda>i. (bl i, dk (S + of_nat i + 1))) [0..<n]"
    by (simp add: b1 1(3) v sl)
  let ?ws = "map (\<lambda>i. (bl i, dk (S + of_nat i + 1))) [0..<n]"
  have u: "unref s1 [0..<n] (vr (view s1)) = (\<lambda>b. if b \<in> bl ` {..<n} then - 1 else 0)"
    using b1 by (auto simp: unref_def 1(3) v fun_eq_iff image_iff) 
  obtain s2 where 2: "install_trans s1 = Ok () s2" "binv s2 p" "bio_frame s1 s2"
    "view s2 = (view s1)\<lparr>vk := apply_writes ?ws (vk (view s1)), vd := apply_writes ?ws (vd (view s1)), vr := (\<lambda>b. if b \<in> bl ` {..<n} then - 1 else 0)\<rparr>"
    using install_loop [OF 1(2,5) a q1 ir] unfolding install_trans_def xs w u by blast
  note f2 = bio_frame_log [OF 2(3)]
  let ?s2 = "s2\<lparr>lh_n := 0\<rparr>"
  have "card (bl ` {..<n}) < NBUF" using n(2) card_image_le [of "{..<n}" bl] by simp
  then have p2: "log_dev ?s2 = ROOTDEV" "quiet_view (view ?s2)" "vr (view ?s2) (log_start ?s2) = 0" "card {m. vr (view ?s2) m \<noteq> 0} < NBUF" "0 \<le> lh_n ?s2"
    using ap(4) by (auto simp: f2 1(4,5) 2(4) 1(3) v quiet_view_def)
  have i2: "binv ?s2 p" using 2(2) by simp
  obtain t where t: "write_head ?s2 = Ok () t" "binv t p" "bio_frame ?s2 t"
    "view t = (view ?s2)\<lparr>vk := (vk (view ?s2))(log_start ?s2 := head_block (nat (lh_n ?s2)) (lh_block ?s2) (vk (view ?s2) (log_start ?s2))),
      vd := (vd (view ?s2))(log_start ?s2 := head_block (nat (lh_n ?s2)) (lh_block ?s2) (vk (view ?s2) (log_start ?s2)))\<rparr>"
    using write_head_view [OF i2 p2] by metis
  have "vd (view t) = (apply_writes ?ws dk)(S := head_block (nat (lh_n ?s2)) (lh_block ?s2) (vk (view ?s2) (log_start ?s2)))"
    by (simp add: t(4) 2(4) 1(3) v f2 1(4))
  then have "disk t = (apply_writes ?ws dk)(S := head_block (nat (lh_n ?s2)) (lh_block ?s2) (vk (view ?s2) (log_start ?s2)))"
    by (simp add: view_def)
  then show ?thesis
  proof (rule that [rotated 3])
    show "recover_from_log s = Ok () t" using 1(1) 2(1) t(1) by (simp add: recover_from_log_def)
    show "lh_n t = 0" using bio_frame_log [OF t(3)] by simp
    show "vr (view t) = (\<lambda>b. if b \<in> bl ` {..<n} then - 1 else 0)" by (simp add: t(4) 2(4))
  qed (rule t(2))
qed

lemma recover_empty:
  assumes r: "rebooted s p S dk" and z: "get32 (dk S) 0 = 0"
  obtains t h where "recover_from_log s = Ok () t" "disk t = dk(S := h)"
proof -
  have n: "sint (get32 (dk S) 0) = int 0" "0 < NBUF" using z by (simp_all add: layout_defs)
  have e: "\<forall>i < 0. get32 (dk S) (4 + 4 * i) = (\<lambda>_. 0) i" "inj_on (\<lambda>_. 0 :: uint) {..<0 :: nat}" "inj_on (\<lambda>i. S + of_nat i + 1) {..<0}"
    "\<forall>i < 0. \<forall>j < 0. S + of_nat i + 1 \<noteq> (\<lambda>_ :: nat. 0) j" "\<forall>i < 0. (\<lambda>_ :: nat. 0) i \<noteq> S \<and> S + of_nat i + 1 \<noteq> S" by simp_all
  obtain t h where "recover_from_log s = Ok () t" "binv t p" "lh_n t = 0"
    "disk t = (apply_writes (map (\<lambda>i. (0, dk (S + of_nat i + 1))) [0..<0]) dk)(S := h)"
    "vr (view t) = (\<lambda>b. if b \<in> (\<lambda>_ :: nat. 0) ` {..<0} then - 1 else 0)" by (rule recover_view [OF r n e])
  then show ?thesis by (intro that [of t h]) simp_all
qed

text \<open>The blocks of the log itself.\<close>

definition log_region :: "'a log_state_scheme \<Rightarrow> uint set" where
  "log_region s = insert (log_start s) (log_slot s ` set (log_blocks s))"

lemma take_home_writes:
  assumes "apart_homes s (set (log_blocks s))" "b \<notin> lh_block s ` set (log_blocks s)"
  shows "apply_writes (take j (home_writes s)) k b = k b"
  using assms by (intro apply_writes_take) (auto simp: home_writes_def)

lemma apply_take_homes:
  "apply_writes (home_writes s) (apply_writes (take j (home_writes s)) k) = apply_writes (home_writes s) k"
proof
  fix b
  show "apply_writes (home_writes s) (apply_writes (take j (home_writes s)) k) b = apply_writes (home_writes s) k b"
  proof (cases "b \<in> fst ` set (home_writes s)")
    case False
    then show ?thesis by (simp add: apply_writes_other apply_writes_take)
  next
    case True
    then show ?thesis by (rule apply_writes_forget)
  qed
qed

lemma home_writes_value:
  assumes "apart_homes s (set (log_blocks s))"
  shows "apply_writes (home_writes s) k b = (if b \<in> lh_block s ` set (log_blocks s) then vk (view s) b else k b)"
proof (cases "b \<in> lh_block s ` set (log_blocks s)")
  case True
  then obtain i where i: "i \<in> set (log_blocks s)" "b = lh_block s i" by auto
  have "apply_writes (home_writes s) k (lh_block s i) = vk (view s) (lh_block s i)"
    unfolding home_writes_def by (rule apply_writes_map) (use assms i in \<open>auto simp: apart_homes_def log_blocks_def\<close>)
  with i show ?thesis by simp
next
  case False
  then show ?thesis by (auto simp: home_writes_def intro!: apply_writes_other)
qed

text \<open>The disk after the first \<open>k\<close> writes of a commit, outside the home blocks that are being written.\<close>

lemma crash_disk:
  fixes s :: "'a log_state_scheme"
  assumes r: "commit_ready s p" and k: "k \<le> length (commit_writes s)"
  defines "dk \<equiv> apply_writes (take k (commit_writes s)) (vd (view s))" and "n \<equiv> nat (lh_n s)"
  shows "k \<le> n \<Longrightarrow> dk (log_start s) = vd (view s) (log_start s) \<and> (\<forall>b. b \<notin> log_region s \<longrightarrow> dk b = vd (view s) b)"
    and "n < k \<Longrightarrow> k \<le> 2 * n + 1 \<Longrightarrow> dk (log_start s) = full_head s \<and> (\<forall>i < n. dk (log_slot s i) = vk (view s) (lh_block s i))
       \<and> (\<exists>j. \<forall>b. b \<notin> log_region s \<longrightarrow> dk b = apply_writes (take j (home_writes s)) (vd (view s)) b)"
    and "k = 2 * n + 2 \<Longrightarrow> dk (log_start s) = head_block 0 (lh_block s) (full_head s)
       \<and> (\<forall>b. b \<notin> log_region s \<longrightarrow> dk b = apply_writes (home_writes s) (vd (view s)) b)"
proof -
  let ?d = "vd (view s)" and ?S = "log_start s"
  have a: "apart_homes s (set (log_blocks s))" using r by (auto simp: commit_ready_def log_blocks_def atLeast0LessThan)
  have len: "length (log_writes s) = n" "length (home_writes s) = n" by (simp_all add: log_writes_def home_writes_def log_blocks_def n_def)
  have lw: "apply_writes (take j (log_writes s)) e b = e b" if "b = ?S \<or> b \<notin> log_region s" for j e b
    using that a by (intro apply_writes_take) (auto simp: log_writes_def apart_homes_def log_region_def)
  have cong: "apply_writes ws e b = apply_writes ws e' b" if "e b = e' b" for ws :: "(uint \<times> block) list" and e e' b
    using that by (cases "b \<in> fst ` set ws") (simp_all add: apply_writes_forget [of b ws e e'] apply_writes_other)
  show "dk ?S = ?d ?S \<and> (\<forall>b. b \<notin> log_region s \<longrightarrow> dk b = ?d b)" if "k \<le> n"
    using that lw by (simp add: dk_def commit_writes_def len)
  show "dk ?S = full_head s \<and> (\<forall>i < n. dk (log_slot s i) = vk (view s) (lh_block s i))
       \<and> (\<exists>j. \<forall>b. b \<notin> log_region s \<longrightarrow> dk b = apply_writes (take j (home_writes s)) ?d b)" if kn: "n < k" "k \<le> 2 * n + 1"
  proof -
    define j where "j = k - Suc n"
    have e: "take k (commit_writes s) = log_writes s @ [(?S, full_head s)] @ take j (home_writes s)"
    proof -
      have "k = n + Suc j" "j \<le> n" using kn by (simp_all add: j_def)
      then show ?thesis using len by (simp add: commit_writes_def)
    qed
    have d: "dk = apply_writes (take j (home_writes s)) ((apply_writes (log_writes s) ?d)(?S := full_head s))" unfolding dk_def e by simp
    have ns: "?S \<notin> lh_block s ` set (log_blocks s)" using a by (auto simp: apart_homes_def)
    have "dk (log_slot s i) = vk (view s) (lh_block s i)" if "i < n" for i
    proof -
      have "i \<in> set (log_blocks s)" using that by (simp add: log_blocks_def n_def)
      then have "log_slot s i \<notin> lh_block s ` set (log_blocks s)" "log_slot s i \<noteq> ?S" using a by (auto simp: apart_homes_def)
      then show ?thesis using that log_writes_slot [OF a, of i] by (simp add: d take_home_writes [OF a] n_def)
    qed
    moreover have "dk b = apply_writes (take j (home_writes s)) ?d b" if "b \<notin> log_region s" for b
      unfolding d by (rule cong) (use that lw [of b n] len in \<open>auto simp: log_region_def\<close>)
    ultimately show ?thesis using ns by (auto simp: d take_home_writes [OF a])
  qed
  show "dk ?S = head_block 0 (lh_block s) (full_head s) \<and> (\<forall>b. b \<notin> log_region s \<longrightarrow> dk b = apply_writes (home_writes s) ?d b)" if "k = 2 * n + 2"
  proof -
    have e: "take k (commit_writes s) = commit_writes s" using that by (simp add: commit_writes_def len)
    have d: "dk = (apply_writes (home_writes s) ((apply_writes (log_writes s) ?d)(?S := full_head s)))(?S := head_block 0 (lh_block s) (full_head s))"
      unfolding dk_def e by (simp add: commit_writes_def)
    have "dk b = apply_writes (home_writes s) ?d b" if b: "b \<notin> log_region s" for b
    proof -
      have "b \<noteq> ?S" using b by (auto simp: log_region_def)
      moreover have "apply_writes (home_writes s) ((apply_writes (log_writes s) ?d)(?S := full_head s)) b = apply_writes (home_writes s) ?d b"
        by (rule cong) (use b lw [of b n] len \<open>b \<noteq> ?S\<close> in auto)
      ultimately show ?thesis by (simp add: d)
    qed
    then show ?thesis by (simp add: d)
  qed
qed

section \<open>Logging a block\<close>

text \<open>All of the state but the processes' scheduling states, the cache, the disk and the log header.\<close>

definition log_frame :: "'a log_state_scheme \<Rightarrow> 'a log_state_scheme \<Rightarrow> bool" where
  "log_frame s t \<longleftrightarrow> (\<exists>q bs dk dl n bl. t = s\<lparr>procs := q, bufs := bs, disk := dk, disk_log := dl, lh_n := n, lh_block := bl\<rparr>
     \<and> same_procs (procs s) q)"

lemma bio_log_frame: "bio_frame s t \<Longrightarrow> log_frame s t"
proof -
  assume "bio_frame s t"
  then obtain q bs dk dl where "t = s\<lparr>procs := q, bufs := bs, disk := dk, disk_log := dl\<rparr>" "same_procs (procs s) q"
    unfolding bio_frame_def by blast
  then show ?thesis unfolding log_frame_def
    by (intro exI [of _ q] exI [of _ bs] exI [of _ dk] exI [of _ dl] exI [of _ "lh_n s"] exI [of _ "lh_block s"]) simp
qed

lemma log_frame_refl [simp]: "log_frame s s"
  by (rule bio_log_frame) simp

lemma log_frame_trans: "log_frame s t \<Longrightarrow> log_frame t u \<Longrightarrow> log_frame s u"
proof -
  assume "log_frame s t" "log_frame t u"
  then obtain q bs dk dl n bl q' bs' dk' dl' n' bl' where
    "t = s\<lparr>procs := q, bufs := bs, disk := dk, disk_log := dl, lh_n := n, lh_block := bl\<rparr>" "same_procs (procs s) q"
    "u = t\<lparr>procs := q', bufs := bs', disk := dk', disk_log := dl', lh_n := n', lh_block := bl'\<rparr>" "same_procs (procs t) q'"
    unfolding log_frame_def by blast
  then show ?thesis unfolding log_frame_def
    by (intro exI [of _ q'] exI [of _ bs'] exI [of _ dk'] exI [of _ dl'] exI [of _ n'] exI [of _ bl']) (auto intro: same_procs_trans)
qed

text \<open>The set of blocks in the current transaction.\<close>

definition logged :: "'a log_state_scheme \<Rightarrow> uint set" where
  "logged s = lh_block s ` {..<nat (lh_n s)}"

text \<open>The header is well formed: no block twice, and every block pinned in the cache.\<close>

definition log_inv :: "'a log_state_scheme \<Rightarrow> bool" where
  "log_inv s \<longleftrightarrow> 0 \<le> lh_n s \<and> lh_n s \<le> int LOGSIZE \<and> lh_n s < log_size s \<and> inj_on (lh_block s) {..<nat (lh_n s)}
     \<and> (\<forall>n \<in> logged s. vr (view s) n \<noteq> 0)"

lemma log_write_view:
  fixes s :: "'a log_state_scheme"
  assumes i: "binv s p" and l: "lookup (bufs s) n = Some b" and k: "vl (view s) n" and g: "log_inv s"
    and o: "1 \<le> outstanding s" and c: "lh_n s < int LOGSIZE" "lh_n s < log_size s - 1" and r: "vr (view s) n \<noteq> 0" "vr (view s) n + 1 \<noteq> 0"
  obtains t where "log_write b s = Ok () t" "binv t p" "log_frame s t" "log_inv t" "disk t = disk s" "disk_log t = disk_log s"
    "lookup (bufs t) = lookup (bufs s)" "logged t = insert n (logged s)"
    "lh_n t = (if n \<in> logged s then lh_n s else lh_n s + 1)"
    "view t = (if n \<in> logged s then view s else (view s)\<lparr>vr := (vr (view s))(n := vr (view s) n + 1)\<rparr>)"
proof -
  note b = binv_locked [OF i l k]
  have h: "held s = {}" using i by (simp add: binv_def)
  have n0: "0 \<le> lh_n s" and inj: "inj_on (lh_block s) {..<nat (lh_n s)}" and pin: "\<forall>n \<in> logged s. vr (view s) n \<noteq> 0"
    using g by (auto simp: log_inv_def)
  show ?thesis
  proof (cases "find (\<lambda>j. lh_block s j = n) (log_blocks s)")
    case (Some j)
    then have j: "j < nat (lh_n s)" "lh_block s j = n" by (auto simp: find_Some_iff log_blocks_def)
    then have nl: "n \<in> logged s" by (auto simp: logged_def)
    have "(lh_block s)(j := n) = lh_block s" using j by auto
    then have "log_write b s = Ok () s"
      using Some j c o h b by (auto simp: log_write_def lock_free log_blocks_def Let_def unlock_held held_none)
    then show ?thesis using nl by (intro that [of s]) (auto simp: i g insert_absorb)
  next
    case None
    then have nl: "n \<notin> logged s" by (auto simp: find_None_iff log_blocks_def logged_def)
    let ?u = "upd_buf b (\<lambda>x. x\<lparr>refcnt := vr (view s) n + 1\<rparr>) s"
    let ?t = "?u\<lparr>lh_n := lh_n s + 1, lh_block := (lh_block s)(nat (lh_n s) := n)\<rparr>"
    have "vr (view s) n + 1 = 0 \<Longrightarrow> vk (view s) n = vd (view s) n" using r by simp
    note rv = ref_view [OF i l b(3) this]
    have e: "view ?t = view ?u" "binv ?t p = binv ?u p" by (simp_all add: view_def binv_def)
    have lw: "log_write b s = Ok () ?t"
      using None c o h b n0
      by (simp add: log_write_def lock_free log_blocks_def Let_def unlock_held bpin_eq upd_buf_def)
    have nat: "nat (lh_n s + 1) = Suc (nat (lh_n s))" using n0 by (simp add: nat_add_distrib)
    have lg: "logged ?t = insert n (logged s)" by (auto simp: logged_def nat lessThan_Suc)
    show ?thesis
    proof (rule that [OF lw])
      have "n \<notin> lh_block s ` {..<nat (lh_n s)}" using nl by (simp add: logged_def)
      then have "inj_on ((lh_block s)(nat (lh_n s) := n)) {..<Suc (nat (lh_n s))}" using inj by (auto simp: inj_on_def lessThan_Suc)
      then show "log_inv ?t" using n0 c pin r by (simp add: log_inv_def lg e(1) rv(3) nat) (simp add: upd_buf_def)
      show "log_frame s ?t" unfolding log_frame_def
        by (intro exI [of _ "procs s"] exI [of _ "bufs ?u"] exI [of _ "disk s"] exI [of _ "disk_log s"] exI [of _ "lh_n ?t"]
            exI [of _ "lh_block ?t"] conjI log_state.equality) (simp_all add: upd_buf_def)
    qed (use nl rv e lg in \<open>simp_all add: upd_buf_def\<close>)
  qed
qed

section \<open>Properties\<close>

text \<open>C16. Commits are atomic with respect to crashes. A commit writes its blocks to the disk in the
  order log blocks, header, home blocks, empty header. If the machine stops after any number \<open>k\<close> of
  these block writes and reboots, \<^verbatim>\<open>recover_from_log\<close> returns, and the blocks outside the log are
  either all as before the transaction (when the header had not been written) or all as the transaction
  left them. The header on disk is assumed empty before, and blocks are written whole.\<close>

theorem commit_is_crash_atomic:
  fixes s :: "'a log_state_scheme" and b :: "'b log_state_scheme"
  assumes r: "commit_ready s p" and h: "get32 (vd (view s) (log_start s)) 0 = 0" and k: "k \<le> length (commit_writes s)"
    and b: "rebooted b q (log_start s) (apply_writes (take k (commit_writes s)) (disk s))"
  shows "\<exists>t u. commit s = Ok () t \<and> disk_log t = disk_log s @ commit_writes s \<and> disk t = apply_writes (commit_writes s) (disk s)
    \<and> recover_from_log b = Ok () u
    \<and> (\<forall>n. n \<notin> log_region s \<longrightarrow> disk u n = (if nat (lh_n s) < k \<and> n \<in> lh_block s ` {..<nat (lh_n s)} then vk (view s) n else disk s n))"
proof -
  define dk where "dk = apply_writes (take k (commit_writes s)) (disk s)"
  let ?n = "nat (lh_n s)" and ?S = "log_start s"
  have vd: "vd (view x) = disk x" for x :: "'c log_state_scheme" by (simp add: view_def)
  note cd = crash_disk [OF r k, unfolded vd, folded dk_def]
  have a: "apart_homes s (set (log_blocks s))" and set: "set (log_blocks s) = {..<?n}"
    using r by (auto simp: commit_ready_def log_blocks_def atLeast0LessThan)
  have hl: "length (vk (view s) ?S) = BSIZE" and nl: "?n \<le> LOGSIZE" "0 < ?n" and i: "binv s p" and z: "vr (view s) ?S = 0"
    using r by (auto simp: commit_ready_def)
  have "length (home_writes s) = ?n" "length (log_writes s) = ?n" by (simp_all add: home_writes_def log_writes_def log_blocks_def)
  then have kl: "k \<le> 2 * ?n + 2" using k by (simp add: commit_writes_def)
  have "card (lh_block s ` {..<?n}) = ?n" using a by (simp add: apart_homes_def set card_image)
  moreover have "lh_block s ` {..<?n} \<subseteq> {m. vr (view s) m \<noteq> 0}" using r by (auto simp: commit_ready_def)
  then have "card (lh_block s ` {..<?n}) \<le> card {m. vr (view s) m \<noteq> 0}" by (intro card_mono) auto
  moreover have "card {m. vr (view s) m \<noteq> 0} < NBUF" using r by (simp add: commit_ready_def)
  ultimately have nb: "?n < NBUF" by linarith
  obtain t where t: "commit s = Ok () t" "binv t p" "disk_log t = disk_log s @ commit_writes s" "lh_n t = 0"
    "view t = (view s)\<lparr>vk := apply_writes (commit_writes s) (vk (view s)), vd := apply_writes (commit_writes s) (vd (view s)),
       vr := unref s (log_blocks s) (vr (view s))\<rparr>" by (rule commit_view [OF r])
  have dt: "disk t = apply_writes (commit_writes s) (disk s)" using arg_cong [OF t(5), of vd] by (simp add: vd)
  have bb: "rebooted b q ?S dk" using b by (simp add: dk_def)
  have empty: "\<exists>u g. recover_from_log b = Ok () u \<and> disk u = dk(?S := g)" if "get32 (dk ?S) 0 = 0"
    by (rule recover_empty [OF bb that]) blast
  have "\<exists>u. recover_from_log b = Ok () u
    \<and> (\<forall>n. n \<notin> log_region s \<longrightarrow> disk u n = (if ?n < k \<and> n \<in> lh_block s ` {..<?n} then vk (view s) n else disk s n))"
  proof -
    consider "k \<le> ?n" | "?n < k" "k \<le> 2 * ?n + 1" | "k = 2 * ?n + 2" using kl by linarith
    then show ?thesis
    proof cases
      case 1
      have "\<not> ?n < k" using 1 by simp
      with cd(1) [OF 1] h empty show ?thesis by (auto simp: vd log_region_def)
    next
      case 2
      note c = cd(2) [OF 2]
      have l: "4 + 4 * ?n \<le> length (vk (view s) ?S)" "?n < 2 ^ 31" using nl hl by (simp_all add: layout_defs)
      note hb = head_block_read [OF l, where bl = "lh_block s"]
      have e: "dk ?S = head_block ?n (lh_block s) (vk (view s) ?S)" using c by (simp add: full_head_def)
      have p: "sint (get32 (dk ?S) 0) = int ?n" "\<forall>i < ?n. get32 (dk ?S) (4 + 4 * i) = lh_block s i" using hb by (simp_all add: e)
      have ap: "inj_on (lh_block s) {..<?n}" "inj_on (\<lambda>i. ?S + of_nat i + 1) {..<?n}"
        "\<forall>i < ?n. \<forall>j < ?n. ?S + of_nat i + 1 \<noteq> lh_block s j" "\<forall>i < ?n. lh_block s i \<noteq> ?S \<and> ?S + of_nat i + 1 \<noteq> ?S"
        using a unfolding apart_homes_def set log_slot_def by (auto simp: inj_on_def)
      obtain u g where u: "recover_from_log b = Ok () u" "binv u q" "lh_n u = 0"
        "disk u = (apply_writes (map (\<lambda>i. (lh_block s i, dk (?S + of_nat i + 1))) [0..<?n]) dk)(?S := g)"
        "vr (view u) = (\<lambda>b. if b \<in> lh_block s ` {..<?n} then - 1 else 0)"
        by (rule recover_view [OF bb p(1) nb p(2) ap])
      have w: "map (\<lambda>i. (lh_block s i, dk (?S + of_nat i + 1))) [0..<?n] = home_writes s"
        using c by (auto simp: home_writes_def log_blocks_def log_slot_def)
      obtain j where j: "\<forall>b. b \<notin> log_region s \<longrightarrow> dk b = apply_writes (take j (home_writes s)) (disk s) b" using c by blast
      have "apply_writes (home_writes s) dk n = (if n \<in> lh_block s ` {..<?n} then vk (view s) n else disk s n)" if "n \<notin> log_region s" for n
        using j that take_home_writes [OF a, of n] by (simp add: home_writes_value [OF a] set)
      then show ?thesis using u(1,4) 2 unfolding w by (intro exI [of _ u]) (auto simp: log_region_def)
    next
      case 3
      note c = cd(3) [OF 3]
      have "4 + 4 * ?n \<le> length (vk (view s) ?S)" "?n < 2 ^ 31" using nl hl by (simp_all add: layout_defs)
      then have "length (full_head s) = BSIZE" using head_block_read(3) hl by (simp add: full_head_def)
      then have "get32 (dk ?S) 0 = 0" using c by (simp add: head_block_def layout_defs)
      with empty obtain u g where "recover_from_log b = Ok () u" "disk u = dk(?S := g)" by blast
      then show ?thesis using c 3 by (intro exI [of _ u]) (auto simp: log_region_def home_writes_value [OF a] set)
    qed
  qed
  with t(1,3) dt show ?thesis by blast
qed

text \<open>A booted system whose log starts at block 2, in the middle of an operation.\<close>

definition demo_log :: "(uint \<Rightarrow> block) \<Rightarrow> log_state" where
  "demo_log dk = bio_state.extend (demo_bio\<lparr>disk := dk\<rparr>)
     \<lparr>log_start = 2, log_size = 30, outstanding = 1, committing = False, log_dev = ROOTDEV, lh_n = 0, lh_block = (\<lambda>_. 0)\<rparr>"

lemma demo_log_boot:
  obtains s where "binit (demo_log dk) = Ok () s" "rebooted s 3 2 dk" "outstanding s = 1" "lh_n s = 0" "log_size s = 30" "disk s = dk"
proof -
  have h: "held (demo_log dk) = {}" "curproc (demo_log dk) = Some 3" "\<forall>b \<le> NBUF. bufs (demo_log dk) b = zero_buf"
    by (simp_all add: demo_log_def bio_state.defs demo_bio_def demo_ps_def proc_state.defs)
  have d: "disk (demo_log dk) = dk" by (simp add: demo_log_def bio_state.defs)
  obtain s where s: "binit (demo_log dk) = Ok () s" "binv s 3" "disk s = disk (demo_log dk)"
    "view s = \<lparr>vk = disk (demo_log dk), vd = disk (demo_log dk), vr = (\<lambda>_. 0), vl = (\<lambda>_. False)\<rparr>"
    using binit_ok [OF h] by metis
  have "held s = {}" using s(2) by (simp add: binv_def)
  then have f: "s = (demo_log dk)\<lparr>bufs := bufs s\<rparr>" using binit_frame [OF h(1) s(1)] by simp
  have "log_start s = 2" "log_dev s = ROOTDEV" "outstanding s = 1" "lh_n s = 0" "log_size s = 30"
    by (subst f, simp add: demo_log_def bio_state.defs)+
  then show ?thesis using that s d by (simp add: rebooted_def)
qed

text \<open>A transaction that writes one block, ready to commit.\<close>

lemma demo_txn:
  obtains s :: log_state where "commit_ready s 3" "log_start s = 2" "lh_n s = 1" "lh_block s 0 = 100"
    "vk (view s) 100 = replicate BSIZE 7" "disk s = (\<lambda>_. replicate BSIZE 0)"
proof -
  let ?z = "replicate BSIZE (0 :: byte)" and ?w = "replicate BSIZE (7 :: byte)"
  obtain s0 where 0: "binit (demo_log (\<lambda>_. ?z)) = Ok () s0" "rebooted s0 3 2 (\<lambda>_. ?z)" "outstanding s0 = 1" "lh_n s0 = 0" "log_size s0 = 30"
    "disk s0 = (\<lambda>_. ?z)" by (rule demo_log_boot)
  have i: "binv s0 3" "log_dev s0 = ROOTDEV" "log_start s0 = 2" and v0: "view s0 = \<lparr>vk = \<lambda>_. ?z, vd = \<lambda>_. ?z, vr = (\<lambda>_. 0), vl = (\<lambda>_. False)\<rparr>"
    using 0(2) by (auto simp: rebooted_def)
  have rm: "room (view s0) 100" by (simp add: v0 room_def layout_defs)
  obtain b s1 where 1: "bread ROOTDEV 100 s0 = Ok b s1" "binv s1 3" "bio_frame s0 s1" "disk s1 = disk s0" "disk_log s1 = disk_log s0"
    "view s1 = (view s0)\<lparr>vr := (vr (view s0))(100 := vr (view s0) 100 + 1), vl := (vl (view s0))(100 := True)\<rparr>" "lookup (bufs s1) 100 = Some b"
    "data (bufs s1 b) = vk (view s0) 100" "\<forall>m. vr (view s0) m \<noteq> 0 \<longrightarrow> lookup (bufs s1) m = lookup (bufs s0) m" by (rule bread_view [OF i(1) rm])
  have k1: "vl (view s1) 100" "vr (view s1) 100 \<noteq> 0" by (simp_all add: 1(6) v0)
  let ?s2 = "upd_buf b (\<lambda>x. x\<lparr>data := ?w\<rparr>) s1"
  note sd = set_data_view [OF 1(2,7) k1, of ?w]
  note f = bio_frame_log [OF bio_frame_trans [OF 1(3) sd(2)]]
  have v2: "view ?s2 = \<lparr>vk = (\<lambda>_. ?z)(100 := ?w), vd = \<lambda>_. ?z, vr = (\<lambda>_. 0)(100 := 1), vl = (\<lambda>_. False)(100 := True)\<rparr>"
    by (simp add: sd(3) 1(6) v0)
  have "lookup (bufs ?s2) 100 = Some b" "vl (view ?s2) 100" "log_inv ?s2" "1 \<le> outstanding ?s2" "lh_n ?s2 < int LOGSIZE"
    "lh_n ?s2 < log_size ?s2 - 1" "vr (view ?s2) 100 \<noteq> 0" "vr (view ?s2) 100 + 1 \<noteq> 0"
    using 0(3-5) 1(7) sd(4) by (simp_all add: v2 f log_inv_def logged_def LOGSIZE_def MAXOPBLOCKS_def)
  note lw = log_write_view [OF sd(1) this]
  have lg: "100 \<notin> logged ?s2" using 0(4) by (simp add: logged_def f)
  obtain s3 where 3: "binv s3 3" "log_frame ?s2 s3" "disk s3 = disk ?s2" "lookup (bufs s3) = lookup (bufs ?s2)" "logged s3 = insert 100 (logged ?s2)"
    "lh_n s3 = 1" "view s3 = (view ?s2)\<lparr>vr := (vr (view ?s2))(100 := vr (view ?s2) 100 + 1)\<rparr>"
    using lw lg 0(4) f by (metis add_0)
  have l3: "lookup (bufs s3) 100 = Some b" "vl (view s3) 100" "vr (view s3) 100 = 1 \<Longrightarrow> vk (view s3) 100 = vd (view s3) 100"
    using 3(4) sd(4) 1(7) by (simp_all add: 3(7) v2)
  obtain s where s: "brelse b s3 = Ok () s" "binv s 3" "bio_frame s3 s" "disk s = disk s3" "disk_log s = disk_log s3"
    "view s = (view s3)\<lparr>vr := (vr (view s3))(100 := vr (view s3) 100 - 1), vl := (vl (view s3))(100 := False)\<rparr>"
    "lookup (bufs s) = lookup (bufs s3)" by (rule brelse_view [OF 3(1) l3])
  have v: "view s = \<lparr>vk = (\<lambda>_. ?z)(100 := ?w), vd = \<lambda>_. ?z, vr = (\<lambda>_. 0)(100 := 1), vl = \<lambda>_. False\<rparr>"
    by (auto simp: s(6) 3(7) v2)
  have g: "log_start s = 2" "log_dev s = ROOTDEV" "lh_n s = 1"
    using bio_frame_log [OF s(3)] 3(2,6) i f by (auto simp: log_frame_def)
  have "logged s3 = {100}" using 3(5) 0(4) by (simp add: logged_def f)
  then have hb: "lh_block s 0 = 100" using bio_frame_log(7) [OF s(3)] 3(6) by (auto simp: logged_def lessThan_Suc)
  have cr: "{m. ((\<lambda>_. 0)(100 := 1)) m \<noteq> (0 :: uint)} = {100 :: uint}" by auto
  have "commit_ready s 3"
    using s(2) g hb by (simp add: commit_ready_def v quiet_view_def apart_homes_def log_slot_def lessThan_Suc cr layout_defs)
  then show ?thesis using that g hb v s(4) 3(3) 1(4) 0(6) by (simp add: upd_buf_def)
qed

theorem commit_is_crash_atomic_witness:
  "\<exists>(s :: log_state) (b :: log_state) t u. commit_ready s 3 \<and> rebooted b 3 2 (apply_writes (take 2 (commit_writes s)) (disk s)) \<and> commit s = Ok () t \<and>
     recover_from_log b = Ok () u \<and> disk s 100 = replicate BSIZE 0 \<and> disk u 100 = replicate BSIZE 7"
proof -
  obtain s :: log_state where s: "commit_ready s 3" "log_start s = 2" "lh_n s = 1" "lh_block s 0 = 100"
    "vk (view s) 100 = replicate BSIZE 7" "disk s = (\<lambda>_. replicate BSIZE 0)" by (rule demo_txn)
  let ?dk = "apply_writes (take 2 (commit_writes s)) (disk s)"
  obtain b where b: "binit (demo_log ?dk) = Ok () b" "rebooted b 3 2 ?dk" "outstanding b = 1" "lh_n b = 0" "log_size b = 30" "disk b = ?dk"
    by (rule demo_log_boot)
  have h: "get32 (vd (view s) (log_start s)) 0 = 0"
    by (simp add: view_def s(6) get32_def sub_bytes_def layout_defs numeral_eq_Suc)
  have k: "2 \<le> length (commit_writes s)" by (simp add: commit_writes_def log_writes_def home_writes_def log_blocks_def s(3))
  have r: "rebooted b 3 (log_start s) ?dk" using b(2) s(2) by simp
  have n: "100 \<notin> log_region s" by (simp add: log_region_def log_blocks_def log_slot_def s(2,3))
  have "100 \<in> lh_block s ` {..<nat (lh_n s)}" using s(3,4) by (simp add: lessThan_Suc)
  moreover obtain t u where "commit s = Ok () t" "recover_from_log b = Ok () u"
    "\<forall>n. n \<notin> log_region s \<longrightarrow> disk u n = (if nat (lh_n s) < 2 \<and> n \<in> lh_block s ` {..<nat (lh_n s)} then vk (view s) n else disk s n)"
    using commit_is_crash_atomic [OF s(1) h k r] by blast
  ultimately show ?thesis using s n b(2)
    by (intro exI [of _ s] exI [of _ b] exI [of _ t] exI [of _ u]) (simp add: s(3))
qed

text \<open>C17. Recovery loses buffers. \<^verbatim>\<open>install_trans\<close> calls \<^verbatim>\<open>bunpin\<close> on every home block, but after a reboot
  no \<^verbatim>\<open>log_write\<close> has pinned it: the reference count of every recovered block wraps to \<open>2^32 - 1\<close>, so its
  buffer is not recycled, and the next \<^verbatim>\<open>bread\<close> of the block returns a locked buffer whose count is 0.\<close>

theorem recovery_underflows_refcnt:
  assumes r: "rebooted s p S dk" and n: "sint (get32 (dk S) 0) = int n" "n < NBUF"
    and bl: "\<forall>i < n. get32 (dk S) (4 + 4 * i) = bl i"
    and ap: "inj_on bl {..<n}" "inj_on (\<lambda>i. S + of_nat i + 1) {..<n}"
      "\<forall>i < n. \<forall>j < n. S + of_nat i + 1 \<noteq> bl j" "\<forall>i < n. bl i \<noteq> S \<and> S + of_nat i + 1 \<noteq> S"
  shows "\<exists>t. recover_from_log s = Ok () t \<and> (\<forall>i < n. refs (bufs t) (bl i) = 2 ^ 32 - 1 \<and>
    (locked_block (bufs t) (bl i) \<or> (\<exists>b u. bread ROOTDEV (bl i) t = Ok b u \<and> sl_locked (block_lock (bufs u b)) \<and> refcnt (bufs u b) = 0)))"
proof -
  obtain t h where t: "recover_from_log s = Ok () t" "binv t p" "lh_n t = 0"
    "disk t = (apply_writes (map (\<lambda>i. (bl i, dk (S + of_nat i + 1))) [0..<n]) dk)(S := h)"
    "vr (view t) = (\<lambda>b. if b \<in> bl ` {..<n} then - 1 else 0)" by (rule recover_view [OF r n bl ap])
  have i: "cache_inv (bufs t) (disk t)" "held t = {}" "curproc t = Some p" using t(2) by (auto simp: binv_def)
  have rf: "refs (bufs t) b = (if b \<in> bl ` {..<n} then - 1 else 0)" for b using fun_cong [OF t(5), of b] by (simp add: view_def)
  have "\<exists>b u. bread ROOTDEV (bl k) t = Ok b u \<and> sl_locked (block_lock (bufs u b)) \<and> refcnt (bufs u b) = 0"
    if k: "k < n" and nl: "\<not> locked_block (bufs t) (bl k)" for k
  proof -
    have "refs (bufs t) (bl k) = - 1" using k rf by simp
    then obtain b where b: "lookup (bufs t) (bl k) = Some b" "refcnt (bufs t b) = - 1" by (auto simp: refs_def split: option.splits)
    then have "can_get (bufs t) (bl k)" using nl by (simp add: can_get_def locked_block_def)
    then obtain c where "slot (bufs t) (bl k) c" "bread ROOTDEV (bl k) t = Ok c
        (t\<lparr>bufs := (bufs t)(c := loaded (bl k) (pid (procs t p)) (content (bufs t) (disk t) (bl k)) (bufs t c))\<rparr>)"
      using bread_eq [OF i] by blast
    moreover from this b have "c = b" by (auto simp: slot_def)
    ultimately show ?thesis using b by (simp add: loaded_def)
  qed
  then show ?thesis using t(1) rf by (intro exI [of _ t]) auto
qed

theorem recovery_underflows_refcnt_witness:
  "\<exists>(s :: log_state) t. binit (demo_log ((\<lambda>_. replicate BSIZE 0)(2 := head_block 1 (\<lambda>_. 100) (replicate BSIZE 0)))) = Ok () s
     \<and> recover_from_log s = Ok () t \<and> refs (bufs t) 100 = 2 ^ 32 - 1"
proof -
  let ?z = "replicate BSIZE (0 :: byte)" and ?bl = "\<lambda>_ :: nat. 100 :: uint"
  let ?dk = "(\<lambda>_. ?z)(2 := head_block 1 ?bl ?z)"
  obtain s where s: "binit (demo_log ?dk) = Ok () s" "rebooted s 3 2 ?dk" "outstanding s = 1" "lh_n s = 0" "log_size s = 30" "disk s = ?dk"
    by (rule demo_log_boot)
  have l: "4 + 4 * (1 :: nat) \<le> length ?z" "(1 :: nat) < 2 ^ 31" by (simp_all add: BSIZE_def)
  note hb = head_block_read [OF l, where bl = ?bl]
  have n: "sint (get32 (?dk 2) 0) = int 1" "1 < NBUF" "\<forall>i < 1. get32 (?dk 2) (4 + 4 * i) = ?bl i"
    using hb by (simp_all add: NBUF_def MAXOPBLOCKS_def)
  have ap: "inj_on ?bl {..<1}" "inj_on (\<lambda>i. 2 + of_nat i + 1 :: uint) {..<1 :: nat}" "\<forall>i < 1 :: nat. \<forall>j < 1. 2 + of_nat i + 1 \<noteq> ?bl j"
    "\<forall>i < 1 :: nat. ?bl i \<noteq> 2 \<and> 2 + of_nat i + 1 \<noteq> (2 :: uint)" by (simp_all add: lessThan_Suc)
  show ?thesis using recovery_underflows_refcnt [OF s(2) n ap] s(1) by auto
qed

text \<open>C18. \<^verbatim>\<open>log_write\<close> of a buffer the process has loaded, inside an operation and with room in the
  log: the header stays well formed (no block twice, every block pinned, at most \<open>LOGSIZE\<close>), the block is in
  the transaction afterwards and no other is added, and the block is pinned exactly when it was
  not there before.\<close>

theorem log_write_keeps_log_inv:
  fixes s :: "'a log_state_scheme"
  assumes "binv s p" "lookup (bufs s) n = Some b" "vl (view s) n" "log_inv s" "1 \<le> outstanding s"
    and "lh_n s < int LOGSIZE" "lh_n s < log_size s - 1" "vr (view s) n \<noteq> 0" "vr (view s) n + 1 \<noteq> 0"
  shows "\<exists>t. log_write b s = Ok () t \<and> binv t p \<and> log_inv t \<and> log_frame s t \<and> logged t = insert n (logged s) \<and> disk t = disk s
    \<and> view t = (if n \<in> logged s then view s else (view s)\<lparr>vr := (vr (view s))(n := vr (view s) n + 1)\<rparr>)"
  using log_write_view [OF assms] by metis

theorem log_write_keeps_log_inv_witness:
  "\<exists>(s :: log_state) b s1 t. binit (demo_log (\<lambda>_. replicate BSIZE 0)) = Ok () s \<and> bread ROOTDEV 100 s = Ok b s1
     \<and> log_write b s1 = Ok () t \<and> log_inv t \<and> logged t = {100}"
proof -
  let ?z = "replicate BSIZE (0 :: byte)"
  obtain s where s: "binit (demo_log (\<lambda>_. ?z)) = Ok () s" "rebooted s 3 2 (\<lambda>_. ?z)" "outstanding s = 1" "lh_n s = 0" "log_size s = 30"
    "disk s = (\<lambda>_. ?z)" by (rule demo_log_boot)
  have i: "binv s 3" and v: "view s = \<lparr>vk = \<lambda>_. ?z, vd = \<lambda>_. ?z, vr = (\<lambda>_. 0), vl = (\<lambda>_. False)\<rparr>" using s(2) by (auto simp: rebooted_def)
  have rm: "room (view s) 100" by (simp add: v room_def layout_defs)
  obtain b s1 where 1: "bread ROOTDEV 100 s = Ok b s1" "binv s1 3" "bio_frame s s1" "disk s1 = disk s" "disk_log s1 = disk_log s"
    "view s1 = (view s)\<lparr>vr := (vr (view s))(100 := vr (view s) 100 + 1), vl := (vl (view s))(100 := True)\<rparr>" "lookup (bufs s1) 100 = Some b"
    "data (bufs s1 b) = vk (view s) 100" "\<forall>m. vr (view s) m \<noteq> 0 \<longrightarrow> lookup (bufs s1) m = lookup (bufs s) m" by (rule bread_view [OF i rm])
  note f = bio_frame_log [OF 1(3)]
  have "\<exists>t. log_write b s1 = Ok () t \<and> binv t 3 \<and> log_inv t \<and> log_frame s1 t \<and> logged t = insert 100 (logged s1) \<and> disk t = disk s1
    \<and> view t = (if 100 \<in> logged s1 then view s1 else (view s1)\<lparr>vr := (vr (view s1))(100 := vr (view s1) 100 + 1)\<rparr>)"
    by (rule log_write_keeps_log_inv [OF 1(2,7)]) (use s(3-5) in \<open>simp_all add: 1(6) v f log_inv_def logged_def LOGSIZE_def MAXOPBLOCKS_def\<close>)
  then obtain t where "log_write b s1 = Ok () t" "log_inv t" "logged t = insert 100 (logged s1)" by blast
  moreover have "logged s1 = {}" by (simp add: logged_def f s(4))
  ultimately show ?thesis using s(1) 1(1) by (intro exI [of _ s] exI [of _ b] exI [of _ s1] exI [of _ t]) simp
qed



end
