(* ===== verification/Xv6_Fs.thy ===== *)
theory Xv6_Fs
  imports Xv6_Log
begin

text \<open>
  \<^verbatim>\<open>kernel/fs.c\<close>: the block allocator, the inode cache, file contents, directories and paths. Inode
  pointers are indices of the cache; the structures on disk are decoded from the bytes of their blocks.
\<close>

section \<open>Layout of the disk\<close>

definition ROOTINO :: uint where [layout_defs]: "ROOTINO = 1"
definition FSMAGIC :: uint where [layout_defs]: "FSMAGIC = 0x10203040"
definition NDIRECT :: nat where [layout_defs]: "NDIRECT = 12"
definition NINDIRECT :: nat where [layout_defs]: "NINDIRECT = BSIZE div 4"
definition MAXFILE :: nat where [layout_defs]: "MAXFILE = NDIRECT + NINDIRECT"
definition IPB :: nat where [layout_defs]: "IPB = BSIZE div 64"
definition BPB :: nat where [layout_defs]: "BPB = BSIZE * 8"
definition DIRSIZ :: nat where [layout_defs]: "DIRSIZ = 14"
definition T_DIR :: uint16 where [layout_defs]: "T_DIR = 1"
definition T_FILE :: uint16 where [layout_defs]: "T_FILE = 2"
definition T_DEVICE :: uint16 where [layout_defs]: "T_DEVICE = 3"

record superblock =
  sb_magic :: uint
  sb_size :: uint
  sb_nblocks :: uint
  sb_ninodes :: uint
  sb_nlog :: uint
  sb_logstart :: uint
  sb_inodestart :: uint
  sb_bmapstart :: uint

definition IBLOCK :: "uint \<Rightarrow> superblock \<Rightarrow> uint" where
  "IBLOCK i sb = i div of_nat IPB + sb_inodestart sb"

definition BBLOCK :: "uint \<Rightarrow> superblock \<Rightarrow> uint" where
  "BBLOCK b sb = b div of_nat BPB + sb_bmapstart sb"

definition get16 :: "block \<Rightarrow> nat \<Rightarrow> uint16" where
  "get16 d k = word_of_bytes (sub_bytes d k 2)"

definition put16 :: "nat \<Rightarrow> uint16 \<Rightarrow> block \<Rightarrow> block" where
  "put16 k w d = put_at d k (bytes_of_word 2 w)"

definition get_superblock :: "block \<Rightarrow> superblock" where
  "get_superblock d = \<lparr>sb_magic = get32 d 0, sb_size = get32 d 4, sb_nblocks = get32 d 8, sb_ninodes = get32 d 12,
     sb_nlog = get32 d 16, sb_logstart = get32 d 20, sb_inodestart = get32 d 24, sb_bmapstart = get32 d 28\<rparr>"

record dinode =
  di_type :: uint16
  di_major :: uint16
  di_minor :: uint16
  di_nlink :: uint16
  di_size :: uint
  di_addrs :: "uint list"

text \<open>The inode with index \<open>k\<close> of a block of inodes; \<^verbatim>\<open>sizeof(struct dinode)\<close> is 64.\<close>

definition get_dinode :: "block \<Rightarrow> nat \<Rightarrow> dinode" where
  "get_dinode d k = \<lparr>di_type = get16 d (64 * k), di_major = get16 d (64 * k + 2), di_minor = get16 d (64 * k + 4),
     di_nlink = get16 d (64 * k + 6), di_size = get32 d (64 * k + 8),
     di_addrs = map (\<lambda>i. get32 d (64 * k + 12 + 4 * i)) [0..<NDIRECT + 1]\<rparr>"

definition dinode_bytes :: "dinode \<Rightarrow> byte list" where
  "dinode_bytes x = bytes_of_word 2 (di_type x) @ bytes_of_word 2 (di_major x) @ bytes_of_word 2 (di_minor x)
     @ bytes_of_word 2 (di_nlink x) @ bytes_of_word 4 (di_size x) @ concat (map (bytes_of_word 4) (di_addrs x))"

definition put_dinode :: "nat \<Rightarrow> dinode \<Rightarrow> block \<Rightarrow> block" where
  "put_dinode k x d = put_at d (64 * k) (dinode_bytes x)"

section \<open>State\<close>

record inode =
  i_dev :: uint
  i_inum :: uint
  i_ref :: int
  i_lock :: sleeplock
  i_valid :: bool
  i_type :: uint16
  i_major :: uint16
  i_minor :: uint16
  i_nlink :: uint16
  i_size :: uint
  i_addrs :: "uint list"

record fs_state = log_state +
  sb :: superblock
  inodes :: "nat \<Rightarrow> inode"

type_synonym ('r, 'a) fsop = "'a fs_state_scheme \<Rightarrow> ('r, 'a fs_state_scheme) outcome"

definition upd_inode :: "nat \<Rightarrow> (inode \<Rightarrow> inode) \<Rightarrow> 'a fs_state_scheme \<Rightarrow> 'a fs_state_scheme" where
  "upd_inode i f s = s\<lparr>inodes := (inodes s)(i := f (inodes s i))\<rparr>"

definition put_i_lock :: "nat \<Rightarrow> sleeplock \<Rightarrow> 'a fs_state_scheme \<Rightarrow> 'a fs_state_scheme" where
  "put_i_lock i l = upd_inode i (\<lambda>x. x\<lparr>i_lock := l\<rparr>)"

definition set_data :: "nat \<Rightarrow> block \<Rightarrow> 'a bio_state_scheme \<Rightarrow> 'a bio_state_scheme" where
  "set_data b d = upd_buf b (\<lambda>x. x\<lparr>data := d\<rparr>)"

section \<open>Blocks\<close>

definition readsb :: "uint \<Rightarrow> (unit, 'a) fsop" where
  "readsb d s =
     bindK (bread d 1 s) (\<lambda>bp s1. brelse bp (s1\<lparr>sb := get_superblock (data (bufs s1 bp))\<rparr>))"

definition fsinit :: "uint \<Rightarrow> (unit, 'a) fsop" where
  "fsinit d s =
     bindK (readsb d s) (\<lambda>_ s1.
       if sb_magic (sb s1) \<noteq> FSMAGIC then Panic ''invalid file system''
       else initlog d (sb_logstart (sb s1)) (sb_nlog (sb s1)) s1)"

definition bzero :: "uint \<Rightarrow> uint \<Rightarrow> (unit, 'a) fsop" where
  "bzero d bno s =
     bindK (bread d bno s) (\<lambda>bp s1.
     bindK (log_write bp (set_data bp (replicate BSIZE 0) s1)) (\<lambda>_ s2. brelse bp s2))"

text \<open>Bit \<open>bi\<close> of a bitmap block.\<close>

definition bit_free :: "block \<Rightarrow> nat \<Rightarrow> bool" where
  "bit_free d bi \<longleftrightarrow> d ! (bi div 8) AND push_bit (bi mod 8) 1 = 0"

definition bit_set :: "block \<Rightarrow> nat \<Rightarrow> block" where
  "bit_set d bi = d[bi div 8 := d ! (bi div 8) OR push_bit (bi mod 8) 1]"

definition bit_clear :: "block \<Rightarrow> nat \<Rightarrow> block" where
  "bit_clear d bi = d[bi div 8 := d ! (bi div 8) AND NOT (push_bit (bi mod 8) 1)]"

text \<open>The loop of \<open>balloc\<close> over the bitmap blocks: the list holds the values of \<^verbatim>\<open>b\<close>.\<close>

fun balloc_loop :: "uint \<Rightarrow> nat list \<Rightarrow> (uint, 'a) fsop" where
  "balloc_loop d [] s = Panic ''balloc: out of blocks''"
| "balloc_loop d (b # bs) s =
     bindK (bread d (BBLOCK (of_nat b) (sb s)) s) (\<lambda>bp s1.
       case find (\<lambda>bi. bit_free (data (bufs s1 bp)) bi) [0..<min BPB (unat (sb_size (sb s1)) - b)] of
         Some bi \<Rightarrow>
           bindK (log_write bp (set_data bp (bit_set (data (bufs s1 bp)) bi) s1)) (\<lambda>_ s2.
           bindK (brelse bp s2) (\<lambda>_ s3.
           bindK (bzero d (of_nat (b + bi)) s3) (\<lambda>_ s4. Ok (of_nat (b + bi)) s4)))
       | None \<Rightarrow> bindK (brelse bp s1) (\<lambda>_ s2. balloc_loop d bs s2))"

definition balloc :: "uint \<Rightarrow> (uint, 'a) fsop" where
  "balloc d s = balloc_loop d (map (\<lambda>k. k * BPB) [0..<(unat (sb_size (sb s)) + BPB - 1) div BPB]) s"

definition bfree :: "uint \<Rightarrow> uint \<Rightarrow> (unit, 'a) fsop" where
  "bfree d b s =
     bindK (bread d (BBLOCK b (sb s)) s) (\<lambda>bp s1.
     let bi = unat b mod BPB
     in if bit_free (data (bufs s1 bp)) bi then Panic ''freeing free block''
        else bindK (log_write bp (set_data bp (bit_clear (data (bufs s1 bp)) bi) s1)) (\<lambda>_ s2. brelse bp s2))"

section \<open>Inodes\<close>

definition iinit :: "(unit, 'a) fsop" where
  "iinit s = Ok () (fold (\<lambda>i. initsleeplock (put_i_lock i) (InodeSleepLk i)) [0..<NINODE] (s\<lparr>held := held s - {IcacheLock}\<rparr>))"

text \<open>The scan of \<open>iget\<close>: the entry of the inode, or the first empty slot if there is one.\<close>

fun iget_scan :: "uint \<Rightarrow> uint \<Rightarrow> nat list \<Rightarrow> nat option \<Rightarrow> (nat \<Rightarrow> inode) \<Rightarrow> nat option \<times> nat option" where
  "iget_scan d n [] spare ic = (None, spare)"
| "iget_scan d n (i # is) spare ic =
     (if i_ref (ic i) > 0 \<and> i_dev (ic i) = d \<and> i_inum (ic i) = n then (Some i, spare)
      else iget_scan d n is (if spare = None \<and> i_ref (ic i) = 0 then Some i else spare) ic)"

definition iget :: "uint \<Rightarrow> uint \<Rightarrow> (nat, 'a) fsop" where
  "iget d n s =
     bindK (lock IcacheLock s) (\<lambda>_ s1.
       case iget_scan d n [0..<NINODE] None (inodes s1) of
         (Some i, _) \<Rightarrow> bindK (unlock IcacheLock (upd_inode i (\<lambda>x. x\<lparr>i_ref := i_ref x + 1\<rparr>) s1)) (\<lambda>_. Ok i)
       | (None, None) \<Rightarrow> Panic ''iget: no inodes''
       | (None, Some i) \<Rightarrow>
           bindK (unlock IcacheLock (upd_inode i (\<lambda>x. x\<lparr>i_dev := d, i_inum := n, i_ref := 1, i_valid := False\<rparr>) s1)) (\<lambda>_. Ok i))"

fun ialloc_loop :: "uint \<Rightarrow> uint16 \<Rightarrow> nat list \<Rightarrow> (nat, 'a) fsop" where
  "ialloc_loop d ty [] s = Panic ''ialloc: no inodes''"
| "ialloc_loop d ty (n # ns) s =
     bindK (bread d (IBLOCK (of_nat n) (sb s)) s) (\<lambda>bp s1.
     let dat = data (bufs s1 bp); k = n mod IPB
     in if di_type (get_dinode dat k) = 0
        then bindK (log_write bp (set_data bp (put16 (64 * k) ty (put_at dat (64 * k) (replicate 64 0))) s1)) (\<lambda>_ s2.
             bindK (brelse bp s2) (\<lambda>_ s3. iget d (of_nat n) s3))
        else bindK (brelse bp s1) (\<lambda>_ s2. ialloc_loop d ty ns s2))"

definition ialloc :: "uint \<Rightarrow> uint16 \<Rightarrow> (nat, 'a) fsop" where
  "ialloc d ty s = ialloc_loop d ty [1..<unat (sb_ninodes (sb s))] s"

definition inode_dinode :: "inode \<Rightarrow> dinode" where
  "inode_dinode x = \<lparr>di_type = i_type x, di_major = i_major x, di_minor = i_minor x, di_nlink = i_nlink x,
     di_size = i_size x, di_addrs = i_addrs x\<rparr>"

definition iupdate :: "nat \<Rightarrow> (unit, 'a) fsop" where
  "iupdate ip s =
     bindK (bread (i_dev (inodes s ip)) (IBLOCK (i_inum (inodes s ip)) (sb s)) s) (\<lambda>bp s1.
     let x = inodes s1 ip;
         d = put_dinode (unat (i_inum x) mod IPB) (inode_dinode x) (data (bufs s1 bp))
     in bindK (log_write bp (set_data bp d s1)) (\<lambda>_ s2. brelse bp s2))"

definition idup :: "nat \<Rightarrow> (nat, 'a) fsop" where
  "idup ip s =
     bindK (lock IcacheLock s) (\<lambda>_ s1.
     bindK (unlock IcacheLock (upd_inode ip (\<lambda>x. x\<lparr>i_ref := i_ref x + 1\<rparr>) s1)) (\<lambda>_. Ok ip))"

abbreviation acquire_inode :: "nat \<Rightarrow> (unit, 'a) fsop" where
  "acquire_inode i s \<equiv> acquiresleep (InodeSleepLk i) (InodeLockChan i) (\<lambda>t. i_lock (inodes t i)) (put_i_lock i) s"

abbreviation release_inode :: "nat \<Rightarrow> (unit, 'a) fsop" where
  "release_inode i s \<equiv> releasesleep (InodeSleepLk i) (InodeLockChan i) (put_i_lock i) s"

definition ilock :: "nat \<Rightarrow> (unit, 'a) fsop" where
  "ilock ip s =
     (if i_ref (inodes s ip) < 1 then Panic ''ilock''
      else bindK (acquire_inode ip s) (\<lambda>_ s1.
        if i_valid (inodes s1 ip) then Ok () s1
        else bindK (bread (i_dev (inodes s1 ip)) (IBLOCK (i_inum (inodes s1 ip)) (sb s1)) s1) (\<lambda>bp s2.
          let di = get_dinode (data (bufs s2 bp)) (unat (i_inum (inodes s2 ip)) mod IPB);
              s3 = upd_inode ip (\<lambda>x. x\<lparr>i_type := di_type di, i_major := di_major di, i_minor := di_minor di,
                     i_nlink := di_nlink di, i_size := di_size di, i_addrs := di_addrs di\<rparr>) s2
          in bindK (brelse bp s3) (\<lambda>_ s4.
             let s5 = upd_inode ip (\<lambda>x. x\<lparr>i_valid := True\<rparr>) s4
             in if i_type (inodes s5 ip) = 0 then Panic ''ilock: no type'' else Ok () s5))))"

definition iunlock :: "nat \<Rightarrow> (unit, 'a) fsop" where
  "iunlock ip s =
     bindK (holdingsleep (InodeSleepLk ip) (\<lambda>t. i_lock (inodes t ip)) s) (\<lambda>h s1.
       if \<not> h \<or> i_ref (inodes s1 ip) < 1 then Panic ''iunlock'' else release_inode ip s1)"

section \<open>File contents\<close>

definition bmap :: "nat \<Rightarrow> nat \<Rightarrow> (uint, 'a) fsop" where
  "bmap ip bn s =
     (if bn < NDIRECT
      then let addr = i_addrs (inodes s ip) ! bn
           in if addr = 0
              then bindK (balloc (i_dev (inodes s ip)) s) (\<lambda>a s1.
                   Ok a (upd_inode ip (\<lambda>x. x\<lparr>i_addrs := (i_addrs x)[bn := a]\<rparr>) s1))
              else Ok addr s
      else if bn - NDIRECT < NINDIRECT
      then bindK (let addr = i_addrs (inodes s ip) ! NDIRECT
                  in if addr = 0
                     then bindK (balloc (i_dev (inodes s ip)) s) (\<lambda>a s1.
                          Ok a (upd_inode ip (\<lambda>x. x\<lparr>i_addrs := (i_addrs x)[NDIRECT := a]\<rparr>) s1))
                     else Ok addr s) (\<lambda>ind s1.
           bindK (bread (i_dev (inodes s1 ip)) ind s1) (\<lambda>bp s2.
           let k = bn - NDIRECT; addr = get32 (data (bufs s2 bp)) (4 * k)
           in bindK (if addr = 0
                     then bindK (balloc (i_dev (inodes s2 ip)) s2) (\<lambda>a s3.
                          bindK (log_write bp (set_data bp (put32 (4 * k) a (data (bufs s3 bp))) s3)) (\<lambda>_. Ok a))
                     else Ok addr s2) (\<lambda>a s4.
              bindK (brelse bp s4) (\<lambda>_. Ok a))))
      else Panic ''bmap: out of range'')"

fun itrunc_direct :: "nat \<Rightarrow> nat list \<Rightarrow> (unit, 'a) fsop" where
  "itrunc_direct ip [] s = Ok () s"
| "itrunc_direct ip (i # is) s =
     (let a = i_addrs (inodes s ip) ! i
      in if a \<noteq> 0
         then bindK (bfree (i_dev (inodes s ip)) a s) (\<lambda>_ s1.
              itrunc_direct ip is (upd_inode ip (\<lambda>x. x\<lparr>i_addrs := (i_addrs x)[i := 0]\<rparr>) s1))
         else itrunc_direct ip is s)"

text \<open>The loop over the entries of the indirect block held in buffer \<open>bp\<close>.\<close>

fun itrunc_indirect :: "nat \<Rightarrow> nat \<Rightarrow> nat list \<Rightarrow> (unit, 'a) fsop" where
  "itrunc_indirect ip bp [] s = Ok () s"
| "itrunc_indirect ip bp (j # js) s =
     (let a = get32 (data (bufs s bp)) (4 * j)
      in if a \<noteq> 0 then bindK (bfree (i_dev (inodes s ip)) a s) (\<lambda>_. itrunc_indirect ip bp js)
         else itrunc_indirect ip bp js s)"

definition itrunc :: "nat \<Rightarrow> (unit, 'a) fsop" where
  "itrunc ip s =
     bindK (itrunc_direct ip [0..<NDIRECT] s) (\<lambda>_ s1.
     let ind = i_addrs (inodes s1 ip) ! NDIRECT
     in bindK (if ind \<noteq> 0
               then bindK (bread (i_dev (inodes s1 ip)) ind s1) (\<lambda>bp s2.
                    bindK (itrunc_indirect ip bp [0..<NINDIRECT] s2) (\<lambda>_ s3.
                    bindK (brelse bp s3) (\<lambda>_ s4.
                    bindK (bfree (i_dev (inodes s4 ip)) ind s4) (\<lambda>_ s5.
                    Ok () (upd_inode ip (\<lambda>x. x\<lparr>i_addrs := (i_addrs x)[NDIRECT := 0]\<rparr>) s5)))))
               else Ok () s1) (\<lambda>_ s6.
        iupdate ip (upd_inode ip (\<lambda>x. x\<lparr>i_size := 0\<rparr>) s6)))"

definition iput :: "nat \<Rightarrow> (unit, 'a) fsop" where
  "iput ip s =
     bindK (lock IcacheLock s) (\<lambda>_ s1.
     bindK (if i_ref (inodes s1 ip) = 1 \<and> i_valid (inodes s1 ip) \<and> i_nlink (inodes s1 ip) = 0
            then bindK (acquire_inode ip s1) (\<lambda>_ s2.
                 bindK (unlock IcacheLock s2) (\<lambda>_ s3.
                 bindK (itrunc ip s3) (\<lambda>_ s4.
                 bindK (iupdate ip (upd_inode ip (\<lambda>x. x\<lparr>i_type := 0\<rparr>) s4)) (\<lambda>_ s5.
                 bindK (release_inode ip (upd_inode ip (\<lambda>x. x\<lparr>i_valid := False\<rparr>) s5)) (\<lambda>_ s6.
                 lock IcacheLock s6)))))
            else Ok () s1) (\<lambda>_ s7.
     unlock IcacheLock (upd_inode ip (\<lambda>x. x\<lparr>i_ref := i_ref x - 1\<rparr>) s7)))"

definition iunlockput :: "nat \<Rightarrow> (unit, 'a) fsop" where
  "iunlockput ip s = bindK (iunlock ip s) (\<lambda>_ s1. iput ip s1)"

record file_stat =
  st_dev :: uint
  st_ino :: uint
  st_type :: uint16
  st_nlink :: uint16
  st_size :: uint64

definition stati :: "inode \<Rightarrow> file_stat" where
  "stati x = \<lparr>st_dev = i_dev x, st_ino = i_inum x, st_type = i_type x, st_nlink = i_nlink x, st_size = ucast (i_size x)\<rparr>"

text \<open>
  Where \<open>readi\<close> copies to and \<open>writei\<close> from: user memory, kernel memory, or a local variable of the
  caller. \<open>readi\<close> returns the bytes it has read together with their number; for a local variable they
  are its new value.
\<close>

datatype iodst = UserDst uint64 | KernDst uint64 | LocalDst
datatype iosrc = UserSrc uint64 | LocalSrc "byte list"

definition copy_to :: "iodst \<Rightarrow> nat \<Rightarrow> byte list \<Rightarrow> (int, 'a) kop" where
  "copy_to dst tot bs s = (case dst of
     UserDst a \<Rightarrow> either_copyout True (a + of_nat tot) bs s
   | KernDst a \<Rightarrow> either_copyout False (a + of_nat tot) bs s
   | LocalDst \<Rightarrow> Ok 0 s)"

definition copy_from :: "iosrc \<Rightarrow> nat \<Rightarrow> nat \<Rightarrow> (int \<times> byte list, 'a) kop" where
  "copy_from src tot m s = (case src of
     UserSrc a \<Rightarrow> either_copyin True (a + of_nat tot) m s
   | LocalSrc bs \<Rightarrow> Ok (0, sub_bytes bs tot m) s)"

function readi_loop :: "nat \<Rightarrow> iodst \<Rightarrow> nat \<Rightarrow> nat \<Rightarrow> nat \<Rightarrow> (nat \<times> byte list, 'a) fsop" where
  "readi_loop ip dst tot off n s =
     (if tot < n
      then bindK (bmap ip (off div BSIZE) s) (\<lambda>a s1.
           bindK (bread (i_dev (inodes s1 ip)) a s1) (\<lambda>bp s2.
           let m = min (n - tot) (BSIZE - off mod BSIZE);
               bs = sub_bytes (data (bufs s2 bp)) (off mod BSIZE) m
           in bindK (copy_to dst tot bs s2) (\<lambda>r s3.
              bindK (brelse bp s3) (\<lambda>_ s4.
                if r = -1 then Ok (tot, []) s4
                else bindK (readi_loop ip dst (tot + m) (off + m) n s4) (\<lambda>(t, rest). Ok (t, bs @ rest))))))
      else Ok (tot, []) s)"
  by pat_completeness auto
termination
  by (relation "measure (\<lambda>(ip, dst, tot, off, n, s). n - tot)") (auto simp: BSIZE_def intro!: diff_less_mono2)

declare readi_loop.simps [simp del]

definition readi :: "nat \<Rightarrow> iodst \<Rightarrow> uint \<Rightarrow> uint \<Rightarrow> (nat \<times> byte list, 'a) fsop" where
  "readi ip dst off n s =
     (let x = inodes s ip
      in if off > i_size x \<or> off + n < off then Ok (0, []) s
         else readi_loop ip dst 0 (unat off) (unat (if off + n > i_size x then i_size x - off else n)) s)"

text \<open>The loop of \<open>writei\<close> returns the final value of \<^verbatim>\<open>off\<close>.\<close>

function writei_loop :: "nat \<Rightarrow> iosrc \<Rightarrow> nat \<Rightarrow> nat \<Rightarrow> nat \<Rightarrow> (nat, 'a) fsop" where
  "writei_loop ip src tot off n s =
     (if tot < n
      then bindK (bmap ip (off div BSIZE) s) (\<lambda>a s1.
           bindK (bread (i_dev (inodes s1 ip)) a s1) (\<lambda>bp s2.
           let m = min (n - tot) (BSIZE - off mod BSIZE)
           in bindK (copy_from src tot m s2) (\<lambda>(r, bs) s3.
              let s4 = set_data bp (put_at (data (bufs s3 bp)) (off mod BSIZE) bs) s3
              in if r = -1 then bindK (brelse bp s4) (\<lambda>_. Ok off)
                 else bindK (log_write bp s4) (\<lambda>_ s5.
                      bindK (brelse bp s5) (\<lambda>_ s6. writei_loop ip src (tot + m) (off + m) n s6)))))
      else Ok off s)"
  by pat_completeness auto
termination
  by (relation "measure (\<lambda>(ip, src, tot, off, n, s). n - tot)") (auto simp: BSIZE_def intro!: diff_less_mono2)

declare writei_loop.simps [simp del]

definition writei :: "nat \<Rightarrow> iosrc \<Rightarrow> uint \<Rightarrow> uint \<Rightarrow> (int, 'a) fsop" where
  "writei ip src off n s =
     (if off > i_size (inodes s ip) \<or> off + n < off then Ok (-1) s
      else if unat (off + n) > MAXFILE * BSIZE then Ok (-1) s
      else bindK (writei_loop ip src 0 (unat off) (unat n) s) (\<lambda>off' s1.
           if n > 0
           then let s2 = (if of_nat off' > i_size (inodes s1 ip) then upd_inode ip (\<lambda>x. x\<lparr>i_size := of_nat off'\<rparr>) s1 else s1)
                in bindK (iupdate ip s2) (\<lambda>_. Ok (sint n))
           else Ok (sint n) s1))"

section \<open>Directories and paths\<close>

definition namecmp :: "byte list \<Rightarrow> byte list \<Rightarrow> int" where
  "namecmp s t = strncmp_bytes DIRSIZ s t"

record dirent =
  de_inum :: uint16
  de_name :: "byte list"

definition get_dirent :: "byte list \<Rightarrow> dirent" where
  "get_dirent bs = \<lparr>de_inum = word_of_bytes (take 2 bs), de_name = take DIRSIZ (drop 2 bs)\<rparr>"

definition dirent_bytes :: "dirent \<Rightarrow> byte list" where
  "dirent_bytes de = bytes_of_word 2 (de_inum de) @ de_name de"

text \<open>The values of \<^verbatim>\<open>off\<close> in the loops over a directory of \<open>n\<close> bytes; \<^verbatim>\<open>sizeof(struct dirent)\<close> is 16.\<close>

definition dir_offsets :: "nat \<Rightarrow> nat list" where
  "dir_offsets n = map (\<lambda>k. 16 * k) [0..<(n + 15) div 16]"

text \<open>\<open>dirlookup\<close> returns the inode and the offset of its entry.\<close>

fun dirlookup_loop :: "nat \<Rightarrow> byte list \<Rightarrow> nat list \<Rightarrow> ((nat \<times> nat) option, 'a) fsop" where
  "dirlookup_loop dp name [] s = Ok None s"
| "dirlookup_loop dp name (off # offs) s =
     bindK (readi dp LocalDst (of_nat off) 16 s) (\<lambda>(r, bs) s1.
       if r \<noteq> 16 then Panic ''dirlookup read''
       else let de = get_dirent bs
            in if de_inum de = 0 then dirlookup_loop dp name offs s1
               else if namecmp name (de_name de) = 0
               then bindK (iget (i_dev (inodes s1 dp)) (ucast (de_inum de)) s1) (\<lambda>ip s2. Ok (Some (ip, off)) s2)
               else dirlookup_loop dp name offs s1)"

definition dirlookup :: "nat \<Rightarrow> byte list \<Rightarrow> ((nat \<times> nat) option, 'a) fsop" where
  "dirlookup dp name s =
     (if i_type (inodes s dp) \<noteq> T_DIR then Panic ''dirlookup not DIR''
      else dirlookup_loop dp name (dir_offsets (unat (i_size (inodes s dp)))) s)"

text \<open>The offset of the first empty entry, or the size of the directory rounded up to whole entries.\<close>

fun dirlink_loop :: "nat \<Rightarrow> nat list \<Rightarrow> nat \<Rightarrow> (nat, 'a) fsop" where
  "dirlink_loop dp [] past s = Ok past s"
| "dirlink_loop dp (off # offs) past s =
     bindK (readi dp LocalDst (of_nat off) 16 s) (\<lambda>(r, bs) s1.
       if r \<noteq> 16 then Panic ''dirlink read''
       else if de_inum (get_dirent bs) = 0 then Ok off s1
       else dirlink_loop dp offs past s1)"

definition dirlink :: "nat \<Rightarrow> byte list \<Rightarrow> uint \<Rightarrow> (int, 'a) fsop" where
  "dirlink dp name inum s =
     bindK (dirlookup dp name s) (\<lambda>r s1.
       case r of
         Some (ip, _) \<Rightarrow> bindK (iput ip s1) (\<lambda>_. Ok (-1))
       | None \<Rightarrow>
           let offs = dir_offsets (unat (i_size (inodes s1 dp)))
           in bindK (dirlink_loop dp offs (16 * length offs) s1) (\<lambda>off s2.
              let de = \<lparr>de_inum = ucast inum, de_name = strncpy_bytes DIRSIZ name\<rparr>
              in bindK (writei dp (LocalSrc (dirent_bytes de)) (of_nat off) 16 s2) (\<lambda>w s3.
                 if w \<noteq> 16 then Panic ''dirlink'' else Ok 0 s3)))"

text \<open>Paths are the bytes of a C string without its NUL. \<open>skipelem\<close> returns the rest of the path and the
  name, of which \<^verbatim>\<open>DIRSIZ\<close> bytes are kept.\<close>

definition SLASH :: byte where "SLASH = 47"

definition skipelem :: "byte list \<Rightarrow> (byte list \<times> byte list) option" where
  "skipelem path =
     (let p = dropWhile (\<lambda>c. c = SLASH) path
      in if p = [] then None
         else let elem = takeWhile (\<lambda>c. c \<noteq> SLASH) p;
                  name = (if length elem \<ge> DIRSIZ then take DIRSIZ elem else elem)
              in Some (dropWhile (\<lambda>c. c = SLASH) (drop (length elem) p), name))"

lemma skipelem_shorter: "skipelem path = Some (rest, name) \<Longrightarrow> length rest < length path"
proof -
  assume s: "skipelem path = Some (rest, name)"
  let ?p = "dropWhile (\<lambda>c. c = SLASH) path" and ?P = "\<lambda>c. c \<noteq> SLASH"
  have p: "?p \<noteq> []" and r: "rest = dropWhile (\<lambda>c. c = SLASH) (drop (length (takeWhile ?P ?p)) ?p)"
    using s by (auto simp: skipelem_def Let_def split: if_splits)
  have "hd ?p \<noteq> SLASH" using p hd_dropWhile [of "\<lambda>c. c = SLASH" path] by simp
  then have "takeWhile ?P ?p \<noteq> []" using p by (cases ?p) auto
  then have "0 < length (takeWhile ?P ?p)" by simp
  moreover have "length rest \<le> length (drop (length (takeWhile ?P ?p)) ?p)" unfolding r by (rule length_dropWhile_le)
  moreover have "length ?p \<le> length path" by (rule length_dropWhile_le)
  moreover have "length (takeWhile ?P ?p) \<le> length ?p" by (rule length_takeWhile_le)
  ultimately show ?thesis unfolding length_drop by linarith
qed

function namex_loop :: "nat \<Rightarrow> byte list \<Rightarrow> bool \<Rightarrow> byte list \<Rightarrow> ((nat \<times> byte list) option, 'a) fsop" where
  "namex_loop ip path wantparent oldname s =
     (case skipelem path of
        None \<Rightarrow>
          if wantparent then bindK (iput ip s) (\<lambda>_. Ok None) else Ok (Some (ip, oldname)) s
      | Some (rest, name) \<Rightarrow>
          bindK (ilock ip s) (\<lambda>_ s1.
            if i_type (inodes s1 ip) \<noteq> T_DIR then bindK (iunlockput ip s1) (\<lambda>_. Ok None)
            else if wantparent \<and> rest = [] then bindK (iunlock ip s1) (\<lambda>_. Ok (Some (ip, name)))
            else bindK (dirlookup ip name s1) (\<lambda>r s2.
              case r of
                None \<Rightarrow> bindK (iunlockput ip s2) (\<lambda>_. Ok None)
              | Some (nxt, _) \<Rightarrow> bindK (iunlockput ip s2) (\<lambda>_ s3. namex_loop nxt rest wantparent name s3))))"
  by pat_completeness auto
termination
  by (relation "measure (\<lambda>(ip, path, w, nm, s). length path)") (auto dest: skipelem_shorter)

declare namex_loop.simps [simp del]

definition namex :: "byte list \<Rightarrow> bool \<Rightarrow> ((nat \<times> byte list) option, 'a) fsop" where
  "namex path wantparent s =
     bindK (if path \<noteq> [] \<and> hd path = SLASH then iget ROOTDEV ROOTINO s
            else bindK (myproc s) (\<lambda>p s1.
              case cwd (procs s1 p) of None \<Rightarrow> Panic ''kerneltrap'' | Some ip \<Rightarrow> idup ip s1)) (\<lambda>ip s1.
     namex_loop ip path wantparent [] s1)"

definition namei :: "byte list \<Rightarrow> (nat option, 'a) fsop" where
  "namei path s = bindK (namex path False s) (\<lambda>r. Ok (map_option fst r))"

definition nameiparent :: "byte list \<Rightarrow> ((nat \<times> byte list) option, 'a) fsop" where
  "nameiparent path s = namex path True s"

end
