(* ===== verification/Xv6_Console.thy ===== *)
theory Xv6_Console
  imports Xv6_Fs
begin

text \<open>
  \<^verbatim>\<open>kernel/uart.c\<close>, \<^verbatim>\<open>kernel/console.c\<close> and \<^verbatim>\<open>kernel/printf.c\<close>: the serial port, the console on top of
  it, and the kernel's formatted output. The device is seen as the bytes sent to it (\<open>uart_out\<close>), the number of
  bytes its transmit register takes before it is busy (\<open>uart_room\<close>), and the input waiting to be
  read (\<open>uart_rx\<close>).
\<close>

section \<open>State\<close>

definition ascii :: "string \<Rightarrow> byte list" where
  "ascii str = map of_char str"

definition UART_TX_BUF_SIZE :: nat where [layout_defs]: "UART_TX_BUF_SIZE = 32"
definition INPUT_BUF :: nat where [layout_defs]: "INPUT_BUF = 128"
definition BACKSPACE :: int where [layout_defs]: "BACKSPACE = 0x100"

definition Ctrl :: "int \<Rightarrow> int" where
  "Ctrl x = x - 64"

text \<open>The device switch: the console is the only driver, so a function pointer is present or null.\<close>

definition CONSOLE :: int where [layout_defs]: "CONSOLE = 1"

datatype devread = Consoleread
datatype devwrite = Consolewrite

record devsw_entry =
  dev_read :: "devread option"
  dev_write :: "devwrite option"

record console_state = fs_state +
  devsw :: "int \<Rightarrow> devsw_entry"
  tx_buf :: "nat \<Rightarrow> byte"
  tx_w :: nat
  tx_r :: nat
  cons_buf :: "nat \<Rightarrow> byte"
  cons_r :: uint
  cons_w :: uint
  cons_e :: uint
  pr_locking :: bool
  panicked :: bool
  uart_out :: "byte list"
  uart_room :: nat
  uart_rx :: "byte list"
  uart_regs :: "(nat \<times> byte) list"

type_synonym ('r, 'a) cop = "'a console_state_scheme \<Rightarrow> ('r, 'a console_state_scheme) outcome"

section \<open>The serial port\<close>

text \<open>\<open>uart_regs\<close> records the writes to the control registers. \<open>IER\<close> is register 1, \<open>FCR\<close> 2, \<open>LCR\<close> 3.\<close>

definition WriteReg :: "nat \<Rightarrow> byte \<Rightarrow> 'a console_state_scheme \<Rightarrow> 'a console_state_scheme" where
  "WriteReg reg v s = s\<lparr>uart_regs := uart_regs s @ [(reg, v)]\<rparr>"

definition uartinit :: "(unit, 'a) cop" where
  "uartinit s =
     (let s1 = WriteReg 1 0x00 s;
          s2 = WriteReg 3 0x80 s1;
          s3 = WriteReg 0 0x03 s2;
          s4 = WriteReg 1 0x00 s3;
          s5 = WriteReg 3 0x03 s4;
          s6 = WriteReg 2 (0x01 OR 0x06) s5;
          s7 = WriteReg 1 (0x01 OR 0x02) s6
      in Ok () (s7\<lparr>held := held s7 - {UartTxLock}\<rparr>))"

text \<open>Sending a byte through the transmit holding register.\<close>

definition write_THR :: "byte \<Rightarrow> 'a console_state_scheme \<Rightarrow> 'a console_state_scheme" where
  "write_THR c s = s\<lparr>uart_out := uart_out s @ [c], uart_room := uart_room s - 1\<rparr>"

text \<open>Each turn of the loop of \<open>uartstart\<close> takes a byte from the buffer, which holds less than
  \<^verbatim>\<open>UART_TX_BUF_SIZE\<close> bytes.\<close>

fun uartstart_loop :: "nat \<Rightarrow> (unit, 'a) cop" where
  "uartstart_loop 0 s = Diverge"
| "uartstart_loop (Suc k) s =
     (if tx_w s = tx_r s then Ok () s
      else if uart_room s = 0 then Ok () s
      else let c = tx_buf s (tx_r s);
               s1 = s\<lparr>tx_r := (tx_r s + 1) mod UART_TX_BUF_SIZE\<rparr>
           in bindK (wakeup UartTx s1) (\<lambda>_ s2. uartstart_loop k (write_THR c s2)))"

definition uartstart :: "(unit, 'a) cop" where
  "uartstart s = uartstart_loop (Suc UART_TX_BUF_SIZE) s"

text \<open>One turn of the loop of \<open>uartputc\<close>, with the lock held.\<close>

definition uartputc_loop :: "byte \<Rightarrow> (unit, 'a) cop" where
  "uartputc_loop c s =
     (if (tx_w s + 1) mod UART_TX_BUF_SIZE = tx_r s then sleep UartTx UartTxLock s
      else bindK (uartstart (s\<lparr>tx_buf := (tx_buf s)(tx_w s := c), tx_w := (tx_w s + 1) mod UART_TX_BUF_SIZE\<rparr>)) (\<lambda>_ s1.
           unlock UartTxLock s1))"

definition uartputc :: "byte \<Rightarrow> (unit, 'a) cop" where
  "uartputc c s =
     bindK (lock UartTxLock s) (\<lambda>_ s1. if panicked s1 then Diverge else uartputc_loop c s1)"

text \<open>The busy wait of \<open>uartputc_sync\<close> ends when the device is ready.\<close>

definition uartputc_sync :: "byte \<Rightarrow> (unit, 'a) cop" where
  "uartputc_sync c s = (if panicked s then Diverge else Ok () (write_THR c s))"

definition uartgetc :: "(int, 'a) cop" where
  "uartgetc s = (case uart_rx s of [] \<Rightarrow> Ok (-1) s | c # cs \<Rightarrow> Ok (uint c) (s\<lparr>uart_rx := cs\<rparr>))"

section \<open>Output to the console\<close>

definition consputc :: "int \<Rightarrow> (unit, 'a) cop" where
  "consputc c s =
     (if c = BACKSPACE
      then bindK (uartputc_sync 8 s) (\<lambda>_ s1. bindK (uartputc_sync 32 s1) (\<lambda>_ s2. uartputc_sync 8 s2))
      else uartputc_sync (word_of_int c) s)"

text \<open>\<open>printint\<close>: the digits are collected least significant first and printed backwards. \<open>printint_loop\<close> is
  the contents of \<^verbatim>\<open>buf\<close> after the \<^verbatim>\<open>do\<close> loop.\<close>

definition digit :: "nat \<Rightarrow> byte" where
  "digit k = (if k < 10 then 48 + of_nat k else 87 + of_nat k)"

function printint_loop :: "nat \<Rightarrow> nat \<Rightarrow> byte list" where
  "printint_loop base x = digit (x mod base) # (if x div base = 0 \<or> base \<le> 1 then [] else printint_loop base (x div base))"
  by pat_completeness auto
termination
proof (relation "measure snd")
  fix base x :: nat
  assume "\<not> (x div base = 0 \<or> base \<le> 1)"
  then have "1 < base" "0 < x" by (auto intro: gr0I)
  then show "((base, x div base), base, x) \<in> measure snd" by (simp add: div_less_dividend)
qed simp

declare printint_loop.simps [simp del]

definition printint :: "uint \<Rightarrow> nat \<Rightarrow> bool \<Rightarrow> byte list" where
  "printint xx base sign =
     (let neg = (sign \<and> sint xx < 0);
          x = (if neg then - xx else xx);
          buf = printint_loop base (unat x) @ (if neg then [45] else [])
      in rev buf)"

definition printptr :: "uint64 \<Rightarrow> byte list" where
  "printptr x = [48, 120] @ map (\<lambda>i. digit (unat (drop_bit 60 (push_bit (4 * i) x)))) [0..<16]"

datatype arg = ArgInt uint | ArgPtr uint64 | ArgStr "byte list" | ArgNull

text \<open>The characters \<open>printf\<close> sends for a format and its arguments; None when an argument is missing or has
  the wrong type, where the C function has no defined result (then \<open>printf\<close> has no result either).\<close>

fun print_str :: "arg \<Rightarrow> byte list option" where
  "print_str (ArgStr xs) = Some xs"
| "print_str ArgNull = Some (ascii ''(null)'')"
| "print_str _ = None"

fun printf_chars :: "byte list \<Rightarrow> arg list \<Rightarrow> byte list option" where
  "printf_chars [] args = Some []"
| "printf_chars (c # cs) args =
     (if c \<noteq> 37 then map_option (Cons c) (printf_chars cs args)
      else case cs of
        [] \<Rightarrow> Some []
      | d # ds \<Rightarrow>
          if d = 100 then (case args of ArgInt x # as \<Rightarrow> map_option ((@) (printint x 10 True)) (printf_chars ds as) | _ \<Rightarrow> None)
          else if d = 120 then (case args of ArgInt x # as \<Rightarrow> map_option ((@) (printint x 16 True)) (printf_chars ds as) | _ \<Rightarrow> None)
          else if d = 112 then (case args of ArgPtr x # as \<Rightarrow> map_option ((@) (printptr x)) (printf_chars ds as) | _ \<Rightarrow> None)
          else if d = 115 then (case args of a # as \<Rightarrow>
              (case print_str a of Some xs \<Rightarrow> map_option ((@) xs) (printf_chars ds as) | None \<Rightarrow> None) | _ \<Rightarrow> None)
          else if d = 37 then map_option (Cons 37) (printf_chars ds args)
          else map_option (\<lambda>r. 37 # d # r) (printf_chars ds args))"

fun consputs :: "byte list \<Rightarrow> (unit, 'a) cop" where
  "consputs [] s = Ok () s"
| "consputs (c # cs) s = bindK (consputc (uint c) s) (\<lambda>_. consputs cs)"

definition printf :: "byte list \<Rightarrow> arg list \<Rightarrow> (unit, 'a) cop" where
  "printf fmt args s =
     (let locking = pr_locking s
      in bindK (if locking then lock PrLock s else Ok () s) (\<lambda>_ s1.
         case printf_chars fmt args of
           None \<Rightarrow> Diverge
         | Some cs \<Rightarrow> bindK (consputs cs s1) (\<lambda>_ s2. if locking then unlock PrLock s2 else Ok () s2)))"

definition printfinit :: "(unit, 'a) cop" where
  "printfinit s = Ok () (s\<lparr>held := held s - {PrLock}, pr_locking := True\<rparr>)"

section \<open>The console device\<close>

text \<open>One turn per byte; a process that sleeps in \<open>uartputc\<close> goes on with \<open>uartputc_loop\<close> and the rest.\<close>

fun consolewrite_loop :: "bool \<Rightarrow> uint64 \<Rightarrow> nat \<Rightarrow> nat \<Rightarrow> (nat, 'a) cop" where
  "consolewrite_loop user_src src i 0 s = Ok i s"
| "consolewrite_loop user_src src i (Suc k) s =
     bindK (either_copyin user_src (src + of_nat i) 1 s) (\<lambda>(r, bs) s1.
       if r = -1 then Ok i s1
       else bindK (uartputc (hd bs) s1) (\<lambda>_ s2. consolewrite_loop user_src src (Suc i) k s2))"

definition consolewrite :: "bool \<Rightarrow> uint64 \<Rightarrow> int \<Rightarrow> (int, 'a) cop" where
  "consolewrite user_src src n s =
     bindK (lock ConsLock s) (\<lambda>_ s1.
     bindK (consolewrite_loop user_src src 0 (nat n) s1) (\<lambda>i s2.
     bindK (unlock ConsLock s2) (\<lambda>_. Ok (int i))))"

text \<open>The loop of \<open>consoleread\<close> from a state where \<open>i\<close> bytes have been copied and \<open>k\<close> are still wanted. A
  process that sleeps runs \<open>sleep_resume\<close> and the loop again from the same \<open>i\<close> and \<open>k\<close>.\<close>

fun consoleread_loop :: "bool \<Rightarrow> uint64 \<Rightarrow> nat \<Rightarrow> nat \<Rightarrow> (int, 'a) cop" where
  "consoleread_loop user_dst dst i 0 s = bindK (unlock ConsLock s) (\<lambda>_. Ok (int i))"
| "consoleread_loop user_dst dst i (Suc k) s =
     (if cons_r s = cons_w s
      then bindK (myproc s) (\<lambda>p s1.
           if killed (procs s1 p) then bindK (unlock ConsLock s1) (\<lambda>_. Ok (-1))
           else bindK (sleep ConsRead ConsLock s1) (\<lambda>_. Ok 0))
      else let c = cons_buf s (unat (cons_r s) mod INPUT_BUF);
               s1 = s\<lparr>cons_r := cons_r s + 1\<rparr>
           in if uint c = Ctrl 68
              then bindK (unlock ConsLock (if 0 < i then s1\<lparr>cons_r := cons_r s1 - 1\<rparr> else s1)) (\<lambda>_. Ok (int i))
              else bindK (either_copyout user_dst (dst + of_nat i) [c] s1) (\<lambda>r s2.
                if r = -1 then bindK (unlock ConsLock s2) (\<lambda>_. Ok (int i))
                else if c = 10 then bindK (unlock ConsLock s2) (\<lambda>_. Ok (int (Suc i)))
                else consoleread_loop user_dst dst (Suc i) k s2))"

definition consoleread :: "bool \<Rightarrow> uint64 \<Rightarrow> int \<Rightarrow> (int, 'a) cop" where
  "consoleread user_dst dst n s = bindK (lock ConsLock s) (\<lambda>_ s1. consoleread_loop user_dst dst 0 (nat n) s1)"

text \<open>\<open>procdump\<close> prints a line for every process in use.\<close>

definition state_name :: "procstate \<Rightarrow> byte list" where
  "state_name st = (case st of UNUSED \<Rightarrow> (ascii ''unused'') | SLEEPING \<Rightarrow> (ascii ''sleep '')
     | RUNNABLE \<Rightarrow> (ascii ''runble'') | RUNNING \<Rightarrow> (ascii ''run   '') | ZOMBIE \<Rightarrow> (ascii ''zombie''))"

fun procdump_loop :: "nat list \<Rightarrow> (unit, 'a) cop" where
  "procdump_loop [] s = Ok () s"
| "procdump_loop (p # ps) s =
     (let q = procs s p
      in if state q = UNUSED then procdump_loop ps s
         else bindK (printf (ascii ''%d %s %s'')
                [ArgInt (word_of_int (pid q)), ArgStr (state_name (state q)), ArgStr (takeWhile (\<lambda>c. c \<noteq> 0) (pname q))] s) (\<lambda>_ s1.
              bindK (printf [10] [] s1) (\<lambda>_ s2. procdump_loop ps s2)))"

definition procdump :: "(unit, 'a) cop" where
  "procdump s = bindK (printf [10] [] s) (\<lambda>_ s1. procdump_loop all_procs s1)"

text \<open>The kill-line loop of \<open>consoleintr\<close> erases at most the \<open>e - w\<close> bytes typed since the last line.\<close>

fun kill_line :: "nat \<Rightarrow> (unit, 'a) cop" where
  "kill_line 0 s = Ok () s"
| "kill_line (Suc k) s =
     (if cons_e s \<noteq> cons_w s \<and> cons_buf s (unat (cons_e s - 1) mod INPUT_BUF) \<noteq> 10
      then bindK (consputc BACKSPACE (s\<lparr>cons_e := cons_e s - 1\<rparr>)) (\<lambda>_. kill_line k)
      else Ok () s)"

definition consoleintr :: "int \<Rightarrow> (unit, 'a) cop" where
  "consoleintr c s =
     bindK (lock ConsLock s) (\<lambda>_ s1.
     bindK (if c = Ctrl 80 then procdump s1
            else if c = Ctrl 85 then kill_line (unat (cons_e s1 - cons_w s1)) s1
            else if c = Ctrl 72 \<or> c = 0x7f
            then (if cons_e s1 \<noteq> cons_w s1 then consputc BACKSPACE (s1\<lparr>cons_e := cons_e s1 - 1\<rparr>) else Ok () s1)
            else if c \<noteq> 0 \<and> cons_e s1 - cons_r s1 < of_nat INPUT_BUF
            then let c' = (if c = 13 then 10 else c)
                 in bindK (consputc c' s1) (\<lambda>_ s2.
                    let s3 = s2\<lparr>cons_buf := (cons_buf s2)(unat (cons_e s2) mod INPUT_BUF := word_of_int c'), cons_e := cons_e s2 + 1\<rparr>
                    in if c' = 10 \<or> c' = Ctrl 68 \<or> cons_e s3 = cons_r s3 + of_nat INPUT_BUF
                       then wakeup ConsRead (s3\<lparr>cons_w := cons_e s3\<rparr>)
                       else Ok () s3)
            else Ok () s1) (\<lambda>_ s4.
     unlock ConsLock s4))"

text \<open>The first loop of \<open>uartintr\<close> handles the input that is waiting.\<close>

fun uartintr_loop :: "nat \<Rightarrow> (unit, 'a) cop" where
  "uartintr_loop 0 s = Diverge"
| "uartintr_loop (Suc k) s =
     bindK (uartgetc s) (\<lambda>c s1. if c = -1 then Ok () s1 else bindK (consoleintr c s1) (\<lambda>_. uartintr_loop k))"

definition uartintr :: "(unit, 'a) cop" where
  "uartintr s =
     bindK (uartintr_loop (Suc (length (uart_rx s))) s) (\<lambda>_ s1.
     bindK (lock UartTxLock s1) (\<lambda>_ s2.
     bindK (uartstart s2) (\<lambda>_ s3. unlock UartTxLock s3)))"

definition consoleinit :: "(unit, 'a) cop" where
  "consoleinit s =
     bindK (uartinit (s\<lparr>held := held s - {ConsLock}\<rparr>)) (\<lambda>_ s1.
     Ok () (s1\<lparr>devsw := (devsw s1)(CONSOLE := \<lparr>dev_read = Some Consoleread, dev_write = Some Consolewrite\<rparr>)\<rparr>))"

end
