(* ===== verification/Xv6_File.thy ===== *)
theory Xv6_File
  imports Xv6_Console
begin

text \<open>
  \<^verbatim>\<open>kernel/pipe.c\<close> and \<^verbatim>\<open>kernel/file.c\<close>: pipes, the table of open files, and reading and writing
  through it. A pipe is named by the address of its page; its fields are kept in a typed map beside the byte
  memory. A loop that sleeps ends in \<open>Sleep\<close>, and the process goes on with the same loop when it is woken up.
\<close>

section \<open>State\<close>

definition PIPESIZE :: nat where [layout_defs]: "PIPESIZE = 512"

record pipe =
  pdata :: "nat \<Rightarrow> byte"
  nread :: uint
  nwrite :: uint
  readopen :: bool
  writeopen :: bool

datatype ftype = FD_NONE | FD_PIPE | FD_INODE | FD_DEVICE

record kfile =
  f_type :: ftype
  f_ref :: int
  f_readable :: bool
  f_writable :: bool
  f_pipe :: uint64
  f_ip :: nat
  f_off :: uint
  f_major :: int

text \<open>\<open>stat_pad\<close> is what the stack holds in the four bytes of padding of \<^verbatim>\<open>struct stat\<close>.\<close>

record file_state = console_state +
  files :: "nat \<Rightarrow> kfile"
  pipes :: "uint64 \<Rightarrow> pipe"
  stat_pad :: "byte list"

type_synonym ('r, 'a) fileop = "'a file_state_scheme \<Rightarrow> ('r, 'a file_state_scheme) outcome"

definition upd_file :: "nat \<Rightarrow> (kfile \<Rightarrow> kfile) \<Rightarrow> 'a file_state_scheme \<Rightarrow> 'a file_state_scheme" where
  "upd_file f g s = s\<lparr>files := (files s)(f := g (files s f))\<rparr>"

definition upd_pipe :: "uint64 \<Rightarrow> (pipe \<Rightarrow> pipe) \<Rightarrow> 'a file_state_scheme \<Rightarrow> 'a file_state_scheme" where
  "upd_pipe a g s = s\<lparr>pipes := (pipes s)(a := g (pipes s a))\<rparr>"

section \<open>Pipes\<close>

definition pipeclose :: "uint64 \<Rightarrow> bool \<Rightarrow> (unit, 'a) fileop" where
  "pipeclose a writable s =
     bindK (lock (PipeLock a) s) (\<lambda>_ s1.
     bindK (if writable then wakeup (PipeRead a) (upd_pipe a (\<lambda>q. q\<lparr>writeopen := False\<rparr>) s1)
            else wakeup (PipeWrite a) (upd_pipe a (\<lambda>q. q\<lparr>readopen := False\<rparr>) s1)) (\<lambda>_ s2.
       if \<not> readopen (pipes s2 a) \<and> \<not> writeopen (pipes s2 a)
       then bindK (unlock (PipeLock a) s2) (\<lambda>_ s3. kfree a s3)
       else unlock (PipeLock a) s2))"

text \<open>The \<^verbatim>\<open>for\<close> loop of \<open>pipewrite\<close> with \<open>i\<close> bytes written and \<open>k\<close> to go, by process \<open>pr\<close>.\<close>

fun pipewrite_loop :: "nat \<Rightarrow> uint64 \<Rightarrow> uint64 \<Rightarrow> nat \<Rightarrow> nat \<Rightarrow> (int, 'a) fileop" where
  "pipewrite_loop pr a addr i 0 s =
     bindK (wakeup (PipeRead a) s) (\<lambda>_ s1. bindK (unlock (PipeLock a) s1) (\<lambda>_. Ok (int i)))"
| "pipewrite_loop pr a addr i (Suc k) s =
     (if nwrite (pipes s a) = nread (pipes s a) + of_nat PIPESIZE
      then if \<not> readopen (pipes s a) \<or> killed (procs s pr)
           then bindK (unlock (PipeLock a) s) (\<lambda>_. Ok (-1))
           else bindK (wakeup (PipeRead a) s) (\<lambda>_ s1.
                bindK (sleep (PipeWrite a) (PipeLock a) s1) (\<lambda>_. Ok 0))
      else bindK (copyin (pagetable (procs s pr)) (addr + of_nat i) 1 s) (\<lambda>(r, bs) s1.
           if r = -1
           then bindK (wakeup (PipeRead a) s1) (\<lambda>_ s2. bindK (unlock (PipeLock a) s2) (\<lambda>_. Ok (int i)))
           else let s2 = upd_pipe a (\<lambda>q. q\<lparr>pdata := (pdata q)(unat (nwrite q) mod PIPESIZE := hd bs), nwrite := nwrite q + 1\<rparr>) s1
                in pipewrite_loop pr a addr (Suc i) k s2))"

definition pipewrite :: "uint64 \<Rightarrow> uint64 \<Rightarrow> int \<Rightarrow> (int, 'a) fileop" where
  "pipewrite a addr n s =
     bindK (myproc s) (\<lambda>pr s1.
     bindK (lock (PipeLock a) s1) (\<lambda>_ s2. pipewrite_loop pr a addr 0 (nat n) s2))"

fun piperead_loop :: "nat \<Rightarrow> uint64 \<Rightarrow> uint64 \<Rightarrow> nat \<Rightarrow> nat \<Rightarrow> (nat, 'a) fileop" where
  "piperead_loop pr a addr i 0 s = Ok i s"
| "piperead_loop pr a addr i (Suc k) s =
     (if nread (pipes s a) = nwrite (pipes s a) then Ok i s
      else let ch = pdata (pipes s a) (unat (nread (pipes s a)) mod PIPESIZE);
               s1 = upd_pipe a (\<lambda>q. q\<lparr>nread := nread q + 1\<rparr>) s
           in bindK (copyout (pagetable (procs s1 pr)) (addr + of_nat i) [ch] s1) (\<lambda>r s2.
              if r = -1 then Ok i s2 else piperead_loop pr a addr (Suc i) k s2))"

definition piperead_round :: "nat \<Rightarrow> uint64 \<Rightarrow> uint64 \<Rightarrow> int \<Rightarrow> (int, 'a) fileop" where
  "piperead_round pr a addr n s =
     (if nread (pipes s a) = nwrite (pipes s a) \<and> writeopen (pipes s a)
      then if killed (procs s pr) then bindK (unlock (PipeLock a) s) (\<lambda>_. Ok (-1))
           else bindK (sleep (PipeRead a) (PipeLock a) s) (\<lambda>_. Ok 0)
      else bindK (piperead_loop pr a addr 0 (nat n) s) (\<lambda>i s1.
           bindK (wakeup (PipeWrite a) s1) (\<lambda>_ s2.
           bindK (unlock (PipeLock a) s2) (\<lambda>_. Ok (int i)))))"

definition piperead :: "uint64 \<Rightarrow> uint64 \<Rightarrow> int \<Rightarrow> (int, 'a) fileop" where
  "piperead a addr n s =
     bindK (myproc s) (\<lambda>pr s1.
     bindK (lock (PipeLock a) s1) (\<lambda>_ s2. piperead_round pr a addr n s2))"

section \<open>The file table\<close>

definition fileinit :: "(unit, 'a) fileop" where
  "fileinit s = Ok () (s\<lparr>held := held s - {FtableLock}\<rparr>)"

definition free_file :: "'a file_state_scheme \<Rightarrow> nat option" where
  "free_file s = find (\<lambda>f. f_ref (files s f) = 0) [0..<NFILE]"

definition filealloc :: "(nat option, 'a) fileop" where
  "filealloc s =
     bindK (lock FtableLock s) (\<lambda>_ s1.
       case free_file s1 of
         Some f \<Rightarrow> bindK (unlock FtableLock (upd_file f (\<lambda>x. x\<lparr>f_ref := 1\<rparr>) s1)) (\<lambda>_. Ok (Some f))
       | None \<Rightarrow> bindK (unlock FtableLock s1) (\<lambda>_. Ok None))"

definition filedup :: "nat \<Rightarrow> (nat, 'a) fileop" where
  "filedup f s =
     bindK (lock FtableLock s) (\<lambda>_ s1.
       if f_ref (files s1 f) < 1 then Panic ''filedup''
       else bindK (unlock FtableLock (upd_file f (\<lambda>x. x\<lparr>f_ref := f_ref x + 1\<rparr>) s1)) (\<lambda>_. Ok f))"

definition fileclose :: "nat \<Rightarrow> (unit, 'a) fileop" where
  "fileclose f s =
     bindK (lock FtableLock s) (\<lambda>_ s1.
       if f_ref (files s1 f) < 1 then Panic ''fileclose''
       else let s2 = upd_file f (\<lambda>x. x\<lparr>f_ref := f_ref x - 1\<rparr>) s1
            in if f_ref (files s2 f) > 0 then unlock FtableLock s2
               else let ff = files s2 f
                    in bindK (unlock FtableLock (upd_file f (\<lambda>x. x\<lparr>f_ref := 0, f_type := FD_NONE\<rparr>) s2)) (\<lambda>_ s3.
                       if f_type ff = FD_PIPE then pipeclose (f_pipe ff) (f_writable ff) s3
                       else if f_type ff = FD_INODE \<or> f_type ff = FD_DEVICE
                       then bindK (begin_op s3) (\<lambda>_ s4. bindK (iput (f_ip ff) s4) (\<lambda>_ s5. end_op s5))
                       else Ok () s3))"

text \<open>The \<open>bad\<close> exit of \<open>pipealloc\<close>, from what has been allocated so far.\<close>

definition pipealloc_bad :: "nat option \<Rightarrow> nat option \<Rightarrow> uint64 \<Rightarrow> ((nat \<times> nat) option, 'a) fileop" where
  "pipealloc_bad f0 f1 a s =
     bindK (if a \<noteq> 0 then kfree a s else Ok () s) (\<lambda>_ s1.
     bindK (case f0 of Some f \<Rightarrow> fileclose f s1 | None \<Rightarrow> Ok () s1) (\<lambda>_ s2.
     bindK (case f1 of Some f \<Rightarrow> fileclose f s2 | None \<Rightarrow> Ok () s2) (\<lambda>_. Ok None)))"

definition pipealloc :: "((nat \<times> nat) option, 'a) fileop" where
  "pipealloc s =
     bindK (filealloc s) (\<lambda>r0 s1. case r0 of
       None \<Rightarrow> pipealloc_bad None None 0 s1
     | Some f0 \<Rightarrow> bindK (filealloc s1) (\<lambda>r1 s2. case r1 of
         None \<Rightarrow> pipealloc_bad (Some f0) None 0 s2
       | Some f1 \<Rightarrow> bindK (kalloc s2) (\<lambda>a s3.
           if a = 0 then pipealloc_bad (Some f0) (Some f1) 0 s3
           else let s4 = upd_pipe a (\<lambda>q. q\<lparr>readopen := True, writeopen := True, nwrite := 0, nread := 0\<rparr>) s3;
                    s5 = s4\<lparr>held := held s4 - {PipeLock a}\<rparr>;
                    s6 = upd_file f0 (\<lambda>x. x\<lparr>f_type := FD_PIPE, f_readable := True, f_writable := False, f_pipe := a\<rparr>) s5;
                    s7 = upd_file f1 (\<lambda>x. x\<lparr>f_type := FD_PIPE, f_readable := False, f_writable := True, f_pipe := a\<rparr>) s6
                in Ok (Some (f0, f1)) s7)))"

section \<open>Reading and writing files\<close>

text \<open>\<^verbatim>\<open>struct stat\<close> as the 24 bytes copied to the user.\<close>

definition stat_bytes :: "byte list \<Rightarrow> file_stat \<Rightarrow> byte list" where
  "stat_bytes pad st = bytes_of_word 4 (st_dev st) @ bytes_of_word 4 (st_ino st) @ bytes_of_word 2 (st_type st) @ bytes_of_word 2 (st_nlink st)
     @ take 4 (pad @ replicate 4 0) @ bytes_of_word 8 (st_size st)"

definition filestat :: "nat \<Rightarrow> uint64 \<Rightarrow> (int, 'a) fileop" where
  "filestat f addr s =
     bindK (myproc s) (\<lambda>p s.
       if f_type (files s f) = FD_INODE \<or> f_type (files s f) = FD_DEVICE
       then let ip = f_ip (files s f)
            in bindK (ilock ip s) (\<lambda>_ s1.
               let st = stati (inodes s1 ip)
               in bindK (iunlock ip s1) (\<lambda>_ s2.
                  bindK (copyout (pagetable (procs s2 p)) addr (stat_bytes (stat_pad s2) st) s2) (\<lambda>r.
                    Ok (if r < 0 then -1 else 0))))
       else Ok (-1) s)"

definition fileread :: "nat \<Rightarrow> uint64 \<Rightarrow> 32 word \<Rightarrow> (int, 'a) fileop" where
  "fileread f addr n s =
     (let x = files s f
      in if \<not> f_readable x then Ok (-1) s
         else case f_type x of
           FD_PIPE \<Rightarrow> piperead (f_pipe x) addr (sint n) s
         | FD_DEVICE \<Rightarrow>
             if f_major x < 0 \<or> f_major x \<ge> int NDEV then Ok (-1) s
             else (case dev_read (devsw s (f_major x)) of
               None \<Rightarrow> Ok (-1) s | Some Consoleread \<Rightarrow> consoleread True addr (sint n) s)
         | FD_INODE \<Rightarrow>
             bindK (ilock (f_ip x) s) (\<lambda>_ s1.
             bindK (readi (f_ip x) (UserDst addr) (f_off (files s1 f)) n s1) (\<lambda>(r, _) s2.
             let s3 = (if 0 < r then upd_file f (\<lambda>y. y\<lparr>f_off := f_off y + of_nat r\<rparr>) s2 else s2)
             in bindK (iunlock (f_ip x) s3) (\<lambda>_. Ok (int r))))
         | FD_NONE \<Rightarrow> Panic ''fileread'')"

definition filewrite_max :: nat where
  "filewrite_max = ((MAXOPBLOCKS - 1 - 1 - 2) div 2) * BSIZE"

text \<open>The loop returns the final value of \<open>i\<close>; a turn writes \<open>n1 > 0\<close> bytes, ends the loop or panics.\<close>

function filewrite_loop :: "nat \<Rightarrow> uint64 \<Rightarrow> nat \<Rightarrow> nat \<Rightarrow> (nat, 'a) fileop" where
  "filewrite_loop f addr i n s =
     (if i < n
      then let n1 = min (n - i) filewrite_max; ip = f_ip (files s f)
           in bindK (begin_op s) (\<lambda>_ s1.
              bindK (ilock ip s1) (\<lambda>_ s2.
              bindK (writei ip (UserSrc (addr + of_nat i)) (f_off (files s2 f)) (of_nat n1) s2) (\<lambda>r s3.
              let s4 = (if r > 0 then upd_file f (\<lambda>y. y\<lparr>f_off := f_off y + word_of_int r\<rparr>) s3 else s3)
              in bindK (iunlock ip s4) (\<lambda>_ s5.
                 bindK (end_op s5) (\<lambda>_ s6.
                   if r < 0 then Ok i s6
                   else if r \<noteq> int n1 then Panic ''short filewrite''
                   else filewrite_loop f addr (i + n1) n s6)))))
      else Ok i s)"
  by pat_completeness auto
termination
  by (relation "measure (\<lambda>(f, addr, i, n, s). n - i)")
    (auto simp: filewrite_max_def MAXOPBLOCKS_def BSIZE_def)

declare filewrite_loop.simps [simp del]

definition filewrite :: "nat \<Rightarrow> uint64 \<Rightarrow> 32 word \<Rightarrow> (int, 'a) fileop" where
  "filewrite f addr n s =
     (let x = files s f
      in if \<not> f_writable x then Ok (-1) s
         else case f_type x of
           FD_PIPE \<Rightarrow> pipewrite (f_pipe x) addr (sint n) s
         | FD_DEVICE \<Rightarrow>
             if f_major x < 0 \<or> f_major x \<ge> int NDEV then Ok (-1) s
             else (case dev_write (devsw s (f_major x)) of
               None \<Rightarrow> Ok (-1) s | Some Consolewrite \<Rightarrow> consolewrite True addr (sint n) s)
         | FD_INODE \<Rightarrow>
             bindK (filewrite_loop f addr 0 (nat (sint n)) s) (\<lambda>i. Ok (if int i = sint n then sint n else -1))
         | FD_NONE \<Rightarrow> Panic ''filewrite'')"

end
