(* ===== verification/Xv6_Process.thy ===== *)
theory Xv6_Process
  imports Xv6_File
begin

text \<open>
  The half of \<^verbatim>\<open>kernel/proc.c\<close> that uses files: \<open>userinit\<close>, \<open>fork\<close>, \<open>exit\<close>; \<^verbatim>\<open>vmprint\<close> of
  \<^verbatim>\<open>kernel/vm.c\<close>; and \<^verbatim>\<open>kernel/exec.c\<close>.
\<close>

section \<open>Trapframes\<close>

text \<open>Byte offsets of the fields of \<^verbatim>\<open>struct trapframe\<close>, which is 288 bytes long.\<close>

definition TF_kernel_satp :: uint64 where [layout_defs]: "TF_kernel_satp = 0"
definition TF_kernel_sp :: uint64 where [layout_defs]: "TF_kernel_sp = 8"
definition TF_kernel_trap :: uint64 where [layout_defs]: "TF_kernel_trap = 16"
definition TF_epc :: uint64 where [layout_defs]: "TF_epc = 24"
definition TF_kernel_hartid :: uint64 where [layout_defs]: "TF_kernel_hartid = 32"
definition TF_sp :: uint64 where [layout_defs]: "TF_sp = 48"
definition TF_a :: "nat \<Rightarrow> uint64" where [layout_defs]: "TF_a n = 112 + 8 * of_nat n"

definition get_tf :: "nat \<Rightarrow> uint64 \<Rightarrow> 'a proc_state_scheme \<Rightarrow> uint64" where
  "get_tf p k s = load64 (mem s) (trapframe (procs s p) + k)"

definition set_tf :: "nat \<Rightarrow> uint64 \<Rightarrow> uint64 \<Rightarrow> 'a proc_state_scheme \<Rightarrow> 'a proc_state_scheme" where
  "set_tf p k v s = upd_mem (\<lambda>m. store64 m (trapframe (procs s p) + k) v) s"

text \<open>\<^verbatim>\<open>safestrcpy\<close> into a character array that is a field of a structure. When the source ends before the
  \<open>n - 1\<close> bytes its NUL is copied and a second one is stored behind it.\<close>

definition safestrcpy_field :: "byte list \<Rightarrow> byte list \<Rightarrow> nat \<Rightarrow> byte list" where
  "safestrcpy_field old src n =
     (let str = takeWhile (\<lambda>c. c \<noteq> 0) src
      in put_at old 0 (if length str < n - 1 then str @ [0, 0] else take (n - 1) str @ [0]))"

section \<open>The first process\<close>

definition initcode :: "byte list" where
  "initcode =
    [0x17, 0x05, 0x00, 0x00, 0x13, 0x05, 0x45, 0x02,
     0x97, 0x05, 0x00, 0x00, 0x93, 0x85, 0x35, 0x02,
     0x93, 0x08, 0x70, 0x00, 0x73, 0x00, 0x00, 0x00,
     0x93, 0x08, 0x20, 0x00, 0x73, 0x00, 0x00, 0x00,
     0xef, 0xf0, 0x9f, 0xff, 0x2f, 0x69, 0x6e, 0x69,
     0x74, 0x00, 0x00, 0x24, 0x00, 0x00, 0x00, 0x00,
     0x00, 0x00, 0x00, 0x00]"

definition userinit :: "(unit, 'a) fileop" where
  "userinit s =
     bindK (allocproc s) (\<lambda>r s1. case r of
       None \<Rightarrow> Panic ''kerneltrap''
     | Some p \<Rightarrow>
       bindK (uvminit (pagetable (procs s1 p)) initcode (s1\<lparr>initproc := Some p\<rparr>)) (\<lambda>_ s2.
       let s3 = upd_proc p (\<lambda>q. q\<lparr>sz := PGSIZE\<rparr>) s2;
           s4 = set_tf p TF_sp PGSIZE (set_tf p TF_epc 0 s3);
           s5 = upd_proc p (\<lambda>q. q\<lparr>pname := safestrcpy_field (pname q) (ascii ''initcode'') 16\<rparr>) s4
       in bindK (namei [SLASH] s5) (\<lambda>ip s6.
          unlock (ProcLock p) (upd_proc p (\<lambda>q. q\<lparr>cwd := ip, state := RUNNABLE\<rparr>) s6))))"

section \<open>\<open>fork\<close> and \<open>exit\<close>\<close>

fun dup_files :: "nat \<Rightarrow> nat \<Rightarrow> nat list \<Rightarrow> (unit, 'a) fileop" where
  "dup_files p np [] s = Ok () s"
| "dup_files p np (i # is) s =
     (case ofile (procs s p) ! i of
        None \<Rightarrow> dup_files p np is s
      | Some f \<Rightarrow> bindK (filedup f s) (\<lambda>f' s1.
          dup_files p np is (upd_proc np (\<lambda>q. q\<lparr>ofile := (ofile q)[i := Some f']\<rparr>) s1)))"

definition fork :: "(int, 'a) fileop" where
  "fork s =
     bindK (myproc s) (\<lambda>p s. bindK (allocproc s) (\<lambda>r s1. case r of
       None \<Rightarrow> Ok (-1) s1
     | Some np \<Rightarrow>
       bindK (uvmcopy (pagetable (procs s1 p)) (pagetable (procs s1 np)) (sz (procs s1 p)) s1) (\<lambda>c s2.
         if c < 0
         then bindK (freeproc np s2) (\<lambda>_ s3. bindK (unlock (ProcLock np) s3) (\<lambda>_. Ok (-1)))
         else let s3 = upd_proc np (\<lambda>q. q\<lparr>sz := sz (procs s2 p), parent := Some p,
                         syscall_mask := syscall_mask (procs s2 p)\<rparr>) s2;
                  s4 = upd_mem (\<lambda>m. put_bytes m (trapframe (procs s3 np)) (get_bytes m (trapframe (procs s3 p)) 288)) s3;
                  s5 = set_tf np (TF_a 0) 0 s4
              in bindK (dup_files p np [0..<NOFILE] s5) (\<lambda>_ s6.
                 case cwd (procs s6 p) of
                   None \<Rightarrow> Panic ''kerneltrap''
                 | Some d \<Rightarrow> bindK (idup d s6) (\<lambda>d' s7.
                   let s8 = upd_proc np (\<lambda>q. q\<lparr>cwd := Some d', pname := safestrcpy_field (pname q) (pname (procs s7 p)) 16\<rparr>) s7;
                       i = pid (procs s8 np)
                   in bindK (unlock (ProcLock np) (upd_proc np (\<lambda>q. q\<lparr>state := RUNNABLE\<rparr>) s8)) (\<lambda>_. Ok i))))))"

fun close_files :: "nat \<Rightarrow> nat list \<Rightarrow> (unit, 'a) fileop" where
  "close_files p [] s = Ok () s"
| "close_files p (fd # fds) s =
     (case ofile (procs s p) ! fd of
        None \<Rightarrow> close_files p fds s
      | Some f \<Rightarrow> bindK (fileclose f s) (\<lambda>_ s1.
          close_files p fds (upd_proc p (\<lambda>q. q\<lparr>ofile := (ofile q)[fd := None]\<rparr>) s1)))"

text \<open>\<open>exit\<close> in two parts: closing files and the working directory, and the handover to the parent and the
  scheduler. A null \<^verbatim>\<open>initproc\<close> or parent faults.\<close>

definition exit_files :: "nat \<Rightarrow> (unit, 'a) fileop" where
  "exit_files p s =
     bindK (close_files p [0..<NOFILE] s) (\<lambda>_ s1.
     bindK (begin_op s1) (\<lambda>_ s2.
       case cwd (procs s2 p) of
         None \<Rightarrow> Panic ''kerneltrap''
       | Some d \<Rightarrow> bindK (iput d s2) (\<lambda>_ s3. bindK (end_op s3) (\<lambda>_ s4.
           Ok () (upd_proc p (\<lambda>q. q\<lparr>cwd := None\<rparr>) s4)))))"

definition exit_handover :: "nat \<Rightarrow> int \<Rightarrow> (unit, 'a) fileop" where
  "exit_handover p status s =
     (case initproc s of None \<Rightarrow> Panic ''kerneltrap'' | Some ip \<Rightarrow>
      bindK (lock (ProcLock ip) s) (\<lambda>_ s1.
      bindK (wakeup1 ip s1) (\<lambda>_ s2.
      bindK (unlock (ProcLock ip) s2) (\<lambda>_ s3.
      bindK (lock (ProcLock p) s3) (\<lambda>_ s4.
      let original_parent = parent (procs s4 p)
      in bindK (unlock (ProcLock p) s4) (\<lambda>_ s5.
         case original_parent of None \<Rightarrow> Panic ''kerneltrap'' | Some pp \<Rightarrow>
         bindK (lock (ProcLock pp) s5) (\<lambda>_ s6.
         bindK (lock (ProcLock p) s6) (\<lambda>_ s7.
         bindK (reparent p s7) (\<lambda>_ s8.
         bindK (wakeup1 pp s8) (\<lambda>_ s9.
         bindK (unlock (ProcLock pp) (upd_proc p (\<lambda>q. q\<lparr>xstate := status, state := ZOMBIE\<rparr>) s9)) (\<lambda>_ s10.
         bindK (sched s10) (\<lambda>_ _. Panic ''zombie exit''))))))))))))"

definition exit :: "int \<Rightarrow> (unit, 'a) fileop" where
  "exit status s =
     bindK (myproc s) (\<lambda>p s.
       if initproc s = Some p then Panic ''init exiting''
       else bindK (exit_files p s) (\<lambda>_ s1. exit_handover p status s1))"

section \<open>\<open>vmprint\<close>\<close>

definition fmt_dots :: "byte list" where "fmt_dots = (ascii ''..  '')"
definition fmt_pte :: "byte list" where
  "fmt_pte = (ascii ''..%d: pte %p pa %p'' @ [10])"
definition fmt_pagetable :: "byte list" where
  "fmt_pagetable = (ascii ''page table %p'' @ [10])"

primrec print_dots :: "nat \<Rightarrow> (unit, 'a) cop" where
  "print_dots 0 s = Ok () s"
| "print_dots (Suc j) s = bindK (printf fmt_dots [] s) (\<lambda>_. print_dots j)"

fun vmprint_entries :: "(uint64 \<Rightarrow> (unit, 'a) cop) \<Rightarrow> nat \<Rightarrow> uint64 \<Rightarrow> nat list \<Rightarrow> (unit, 'a) cop" where
  "vmprint_entries rec level pt [] s = Ok () s"
| "vmprint_entries rec level pt (i # is) s =
     (let pte = load64 (mem s) (pt + 8 * of_nat i)
      in if pte AND PTE_V \<noteq> 0
         then bindK (print_dots level s) (\<lambda>_ s1.
              bindK (printf fmt_pte [ArgInt (of_nat i), ArgPtr pte, ArgPtr (PTE2PA pte)] s1) (\<lambda>_ s2.
              bindK (rec (PTE2PA pte) s2) (\<lambda>_. vmprint_entries rec level pt is)))
         else vmprint_entries rec level pt is s)"

text \<open>\<open>vmprint_dfs k\<close> is the call at level \<open>3 - k\<close>.\<close>

primrec vmprint_dfs :: "nat \<Rightarrow> uint64 \<Rightarrow> (unit, 'a) cop" where
  "vmprint_dfs 0 pt s = Ok () s"
| "vmprint_dfs (Suc k) pt s = vmprint_entries (vmprint_dfs k) (3 - Suc k) pt [0..<512] s"

definition vmprint :: "uint64 \<Rightarrow> (unit, 'a) cop" where
  "vmprint pt s = bindK (printf fmt_pagetable [ArgPtr pt] s) (\<lambda>_. vmprint_dfs 3 pt)"

section \<open>\<open>exec\<close>\<close>

definition ELF_MAGIC :: uint where [layout_defs]: "ELF_MAGIC = 0x464C457F"
definition ELF_PROG_LOAD :: uint where [layout_defs]: "ELF_PROG_LOAD = 1"

definition get64 :: "byte list \<Rightarrow> nat \<Rightarrow> uint64" where
  "get64 d k = word_of_bytes (sub_bytes d k 8)"

record elfhdr =
  elf_magic :: uint
  elf_entry :: uint64
  elf_phoff :: uint64
  elf_phnum :: uint16

definition get_elfhdr :: "byte list \<Rightarrow> elfhdr" where
  "get_elfhdr d = \<lparr>elf_magic = get32 d 0, elf_entry = get64 d 24, elf_phoff = get64 d 32, elf_phnum = get16 d 56\<rparr>"

record proghdr =
  ph_type :: uint
  ph_off :: uint64
  ph_vaddr :: uint64
  ph_filesz :: uint64
  ph_memsz :: uint64

definition get_proghdr :: "byte list \<Rightarrow> proghdr" where
  "get_proghdr d = \<lparr>ph_type = get32 d 0, ph_off = get64 d 8, ph_vaddr = get64 d 16, ph_filesz = get64 d 32, ph_memsz = get64 d 40\<rparr>"

text \<open>The loop of \<open>loadseg\<close>. The counter is a \<^verbatim>\<open>uint\<close>: for a size within a page of \<open>2^32\<close> it wraps to 0
  and the loop does not end, which is the value \<open>Diverge\<close>.\<close>

function loadseg_loop :: "uint64 \<Rightarrow> uint64 \<Rightarrow> nat \<Rightarrow> uint \<Rightarrow> nat \<Rightarrow> nat \<Rightarrow> (int, 'a) fsop" where
  "loadseg_loop pt va ip offset len i s =
     (if i \<ge> 2 ^ 32 then Diverge
      else if i < len
      then bindK (walkaddr pt (va + of_nat i) s) (\<lambda>pa s1.
        if pa = 0 then Panic ''loadseg: address should exist''
        else let n = min (len - i) (unat PGSIZE)
             in bindK (readi ip (KernDst pa) (offset + of_nat i) (of_nat n) s1) (\<lambda>(r, _) s2.
                if r \<noteq> n then Ok (-1) s2 else loadseg_loop pt va ip offset len (i + unat PGSIZE) s2))
      else Ok 0 s)"
  by pat_completeness auto
termination
  by (relation "measure (\<lambda>(pt, va, ip, offset, len, i, s). len - i)") (auto simp: PGSIZE_def)

declare loadseg_loop.simps [simp del]

definition loadseg :: "uint64 \<Rightarrow> uint64 \<Rightarrow> nat \<Rightarrow> uint \<Rightarrow> uint \<Rightarrow> (int, 'a) fsop" where
  "loadseg pt va ip offset len s =
     (if va mod PGSIZE \<noteq> 0 then Panic ''loadseg: va must be page aligned''
      else loadseg_loop pt va ip offset (unat len) 0 s)"

text \<open>The \<^verbatim>\<open>bad\<close> exit of \<open>exec\<close>, from the page table built so far and the inode that is still locked.\<close>

definition exec_bad :: "uint64 \<Rightarrow> uint64 \<Rightarrow> nat option \<Rightarrow> (int, 'a) fsop" where
  "exec_bad pt usz ip s =
     bindK (if pt \<noteq> 0 then proc_freepagetable pt usz s else Ok () s) (\<lambda>_ s1.
       case ip of None \<Rightarrow> Ok (-1) s1
       | Some i \<Rightarrow> bindK (iunlockput i s1) (\<lambda>_ s2. bindK (end_op s2) (\<lambda>_. Ok (-1))))"

text \<open>Loading the segments: whether it succeeded, and the size of the image.\<close>

fun exec_segments :: "uint64 \<Rightarrow> nat \<Rightarrow> uint \<Rightarrow> nat \<Rightarrow> uint64 \<Rightarrow> (bool \<times> uint64, 'a) fsop" where
  "exec_segments pt ip off 0 usz s = Ok (True, usz) s"
| "exec_segments pt ip off (Suc k) usz s =
     bindK (readi ip LocalDst off 56 s) (\<lambda>(r, bs) s1.
       if r \<noteq> 56 then Ok (False, usz) s1
       else let ph = get_proghdr bs
            in if ph_type ph \<noteq> ELF_PROG_LOAD then exec_segments pt ip (off + 56) k usz s1
               else if ph_memsz ph < ph_filesz ph then Ok (False, usz) s1
               else if ph_vaddr ph + ph_memsz ph < ph_vaddr ph then Ok (False, usz) s1
               else bindK (uvmalloc pt usz (ph_vaddr ph + ph_memsz ph) s1) (\<lambda>sz1 s2.
                 if sz1 = 0 then Ok (False, usz) s2
                 else if ph_vaddr ph mod PGSIZE \<noteq> 0 then Ok (False, sz1) s2
                 else bindK (loadseg pt (ph_vaddr ph) ip (ucast (ph_off ph)) (ucast (ph_filesz ph)) s2) (\<lambda>l s3.
                   if l < 0 then Ok (False, sz1) s3
                   else exec_segments pt ip (off + 56) k sz1 s3)))"

text \<open>The kernel string at an address, of at most a page.\<close>

definition kstring :: "memory \<Rightarrow> uint64 \<Rightarrow> byte list" where
  "kstring m a = takeWhile (\<lambda>c. c \<noteq> 0) (get_bytes m a (unat PGSIZE))"

text \<open>Pushing the argument strings: None when the code goes to \<open>bad\<close>, else the stack pointer and \<^verbatim>\<open>ustack\<close>.\<close>

fun exec_args :: "uint64 \<Rightarrow> uint64 \<Rightarrow> uint64 list \<Rightarrow> uint64 \<Rightarrow> uint64 list \<Rightarrow> ((uint64 \<times> uint64 list) option, 'a) vm_op" where
  "exec_args pt stackbase [] sp ustack s = Ok (Some (sp, ustack)) s"
| "exec_args pt stackbase (a # as) sp ustack s =
     (if length ustack \<ge> MAXARG then Ok None s
      else let str = kstring (mem s) a;
               sp1 = sp - (of_nat (length str) + 1);
               sp2 = sp1 - sp1 mod 16
           in if sp2 < stackbase then Ok None s
              else bindK (copyout pt sp2 (str @ [0]) s) (\<lambda>r s1.
                if r < 0 then Ok None s1 else exec_args pt stackbase as sp2 (ustack @ [sp2]) s1))"

definition exec_stack :: "uint64 \<Rightarrow> uint64 \<Rightarrow> uint64 list \<Rightarrow> uint64 \<Rightarrow> ((uint64 \<times> nat) option, 'a) vm_op" where
  "exec_stack pt stackbase argv sp s =
     bindK (exec_args pt stackbase argv sp [] s) (\<lambda>r s1. case r of
       None \<Rightarrow> Ok None s1
     | Some (sp1, ustack) \<Rightarrow>
         let argc = length ustack;
             sp2 = sp1 - of_nat ((argc + 1) * 8);
             sp3 = sp2 - sp2 mod 16
         in if sp3 < stackbase then Ok None s1
            else bindK (copyout pt sp3 (concat (map (bytes_of_word 8) (ustack @ [0]))) s1) (\<lambda>c s2.
              if c < 0 then Ok None s2 else Ok (Some (sp3, argc)) s2))"

text \<open>What follows the last slash of the path.\<close>

definition last_elem :: "byte list \<Rightarrow> byte list" where
  "last_elem path = rev (takeWhile (\<lambda>c. c \<noteq> SLASH) (rev path))"

definition exec_commit :: "nat \<Rightarrow> byte list \<Rightarrow> uint64 \<Rightarrow> uint64 \<Rightarrow> uint64 \<Rightarrow> uint64 \<Rightarrow> uint64 \<Rightarrow> nat \<Rightarrow> (int, 'a) cop" where
  "exec_commit p path pt usz oldsz entry sp argc s =
     (let s1 = set_tf p (TF_a 1) sp s;
          s2 = upd_proc p (\<lambda>q. q\<lparr>pname := safestrcpy_field (pname q) (last_elem path) 16\<rparr>) s1;
          oldpagetable = pagetable (procs s2 p);
          s3 = upd_proc p (\<lambda>q. q\<lparr>pagetable := pt, sz := usz\<rparr>) s2;
          s4 = set_tf p TF_sp sp (set_tf p TF_epc entry s3)
      in bindK (proc_freepagetable oldpagetable oldsz s4) (\<lambda>_ s5.
         bindK (if pid (procs s5 p) = 1 then vmprint (pagetable (procs s5 p)) s5 else Ok () s5) (\<lambda>_.
         Ok (int argc))))"

text \<open>\<open>exec_image\<close> is \<open>exec\<close> from \<open>iunlockput\<close> on; \<open>argv\<close> is the list of the pointers before the null.\<close>

definition exec_image :: "nat \<Rightarrow> byte list \<Rightarrow> uint64 list \<Rightarrow> elfhdr \<Rightarrow> uint64 \<Rightarrow> uint64 \<Rightarrow> nat \<Rightarrow> (int, 'a) cop" where
  "exec_image p path argv elf pt usz ip s =
     bindK (iunlockput ip s) (\<lambda>_ s1.
     bindK (end_op s1) (\<lambda>_ s2.
     let oldsz = sz (procs s2 p);
         usz1 = PGROUNDUP usz
     in bindK (uvmalloc pt usz1 (usz1 + 2 * PGSIZE) s2) (\<lambda>sz1 s3.
        if sz1 = 0 then exec_bad pt usz1 None s3
        else bindK (uvmclear pt (sz1 - 2 * PGSIZE) s3) (\<lambda>_ s4.
             bindK (exec_stack pt (sz1 - PGSIZE) argv sz1 s4) (\<lambda>r s5. case r of
               None \<Rightarrow> exec_bad pt sz1 None s5
             | Some (sp, argc) \<Rightarrow> exec_commit p path pt sz1 oldsz (elf_entry elf) sp argc s5)))))"

definition exec :: "byte list \<Rightarrow> uint64 list \<Rightarrow> (int, 'a) cop" where
  "exec path argv s =
     bindK (myproc s) (\<lambda>p s.
     bindK (begin_op s) (\<lambda>_ s1.
     bindK (namei path s1) (\<lambda>r s2. case r of
       None \<Rightarrow> bindK (end_op s2) (\<lambda>_. Ok (-1))
     | Some ip \<Rightarrow>
       bindK (ilock ip s2) (\<lambda>_ s3.
       bindK (readi ip LocalDst 0 64 s3) (\<lambda>(n, bs) s4.
         if n \<noteq> 64 then exec_bad 0 0 (Some ip) s4
         else let elf = get_elfhdr bs
              in if elf_magic elf \<noteq> ELF_MAGIC then exec_bad 0 0 (Some ip) s4
                 else bindK (proc_pagetable p s4) (\<lambda>pt s5.
                   if pt = 0 then exec_bad 0 0 (Some ip) s5
                   else bindK (exec_segments pt ip (ucast (elf_phoff elf)) (unat (elf_phnum elf)) 0 s5) (\<lambda>(ok, usz) s6.
                     if \<not> ok then exec_bad pt usz (Some ip) s6
                     else exec_image p path argv elf pt usz ip s6)))))))"

end
