(* ===== verification/Xv6_Syscall.thy ===== *)
theory Xv6_Syscall
  imports Xv6_Process
begin

text \<open>
  \<^verbatim>\<open>kernel/syscall.c\<close>, \<^verbatim>\<open>kernel/sysfile.c\<close> and \<^verbatim>\<open>kernel/sysproc.c\<close>: fetching the arguments of a system
  call from the trapframe and user memory, the system calls, and the dispatcher. A system call returns the
  value for register \<^verbatim>\<open>a0\<close>.
\<close>

section \<open>Arguments\<close>

definition ret :: "int \<Rightarrow> uint64" where
  "ret r = word_of_int r"

definition fetchaddr :: "uint64 \<Rightarrow> (uint64 option, 'a) kop" where
  "fetchaddr addr s =
     bindK (myproc s) (\<lambda>p s.
       if addr \<ge> sz (procs s p) \<or> addr + 8 > sz (procs s p) then Ok None s
       else bindK (copyin (pagetable (procs s p)) addr 8 s) (\<lambda>(r, bs).
         Ok (if r \<noteq> 0 then None else Some (word_of_bytes bs))))"

text \<open>\<open>fetchstr\<close> returns its result and the bytes it has stored in the buffer.\<close>

definition fetchstr :: "uint64 \<Rightarrow> nat \<Rightarrow> (int \<times> byte list, 'a) kop" where
  "fetchstr addr n s =
     bindK (myproc s) (\<lambda>p s.
     bindK (copyinstr (pagetable (procs s p)) addr n s) (\<lambda>(err, bs).
       Ok (if err < 0 then err else int (length (takeWhile (\<lambda>c. c \<noteq> 0) bs)), bs)))"

definition argraw :: "nat \<Rightarrow> (uint64, 'a) kop" where
  "argraw n s = bindK (myproc s) (\<lambda>p s. if n \<le> 5 then Ok (get_tf p (TF_a n) s) s else Panic ''argraw'')"

definition argint :: "nat \<Rightarrow> (32 word, 'a) kop" where
  "argint n s = bindK (argraw n s) (\<lambda>v. Ok (ucast v))"

definition argaddr :: "nat \<Rightarrow> (uint64, 'a) kop" where
  "argaddr n s = argraw n s"

text \<open>The string argument, None for a negative result.\<close>

definition argstr :: "nat \<Rightarrow> nat \<Rightarrow> (byte list option, 'a) kop" where
  "argstr n maxlen s =
     bindK (argaddr n s) (\<lambda>addr s1.
     bindK (fetchstr addr maxlen s1) (\<lambda>(r, bs).
       Ok (if r < 0 then None else Some (takeWhile (\<lambda>c. c \<noteq> 0) bs))))"

section \<open>File descriptors\<close>

definition argfd :: "nat \<Rightarrow> ((nat \<times> nat) option, 'a) kop" where
  "argfd n s =
     bindK (argint n s) (\<lambda>fd s1.
     bindK (myproc s1) (\<lambda>p s1.
       if sint fd < 0 \<or> sint fd \<ge> int NOFILE then Ok None s1
       else case ofile (procs s1 p) ! unat fd of None \<Rightarrow> Ok None s1 | Some f \<Rightarrow> Ok (Some (unat fd, f)) s1))"

definition fdalloc :: "nat \<Rightarrow> (nat option, 'a) kop" where
  "fdalloc f s =
     bindK (myproc s) (\<lambda>p s.
       case find (\<lambda>fd. ofile (procs s p) ! fd = None) [0..<NOFILE] of
         None \<Rightarrow> Ok None s
       | Some fd \<Rightarrow> Ok (Some fd) (upd_proc p (\<lambda>q. q\<lparr>ofile := (ofile q)[fd := Some f]\<rparr>) s))"

definition clear_fd :: "nat \<Rightarrow> (unit, 'a) kop" where
  "clear_fd fd s = bindK (myproc s) (\<lambda>p s. Ok () (upd_proc p (\<lambda>q. q\<lparr>ofile := (ofile q)[fd := None]\<rparr>) s))"

definition sys_dup :: "(uint64, 'a) fileop" where
  "sys_dup s =
     bindK (argfd 0 s) (\<lambda>r s1. case r of None \<Rightarrow> Ok (-1) s1 | Some (_, f) \<Rightarrow>
     bindK (fdalloc f s1) (\<lambda>r s2. case r of None \<Rightarrow> Ok (-1) s2 | Some fd \<Rightarrow>
     bindK (filedup f s2) (\<lambda>_. Ok (of_nat fd))))"

definition sys_read :: "(uint64, 'a) fileop" where
  "sys_read s =
     bindK (argfd 0 s) (\<lambda>r s1. case r of None \<Rightarrow> Ok (-1) s1 | Some (_, f) \<Rightarrow>
     bindK (argint 2 s1) (\<lambda>n s2. bindK (argaddr 1 s2) (\<lambda>p s3.
     bindK (fileread f p n s3) (\<lambda>v. Ok (ret v)))))"

definition sys_write :: "(uint64, 'a) fileop" where
  "sys_write s =
     bindK (argfd 0 s) (\<lambda>r s1. case r of None \<Rightarrow> Ok (-1) s1 | Some (_, f) \<Rightarrow>
     bindK (argint 2 s1) (\<lambda>n s2. bindK (argaddr 1 s2) (\<lambda>p s3.
     bindK (filewrite f p n s3) (\<lambda>v. Ok (ret v)))))"

definition sys_close :: "(uint64, 'a) fileop" where
  "sys_close s =
     bindK (argfd 0 s) (\<lambda>r s1. case r of None \<Rightarrow> Ok (-1) s1 | Some (fd, f) \<Rightarrow>
     bindK (clear_fd fd s1) (\<lambda>_ s2. bindK (fileclose f s2) (\<lambda>_. Ok 0)))"

definition sys_fstat :: "(uint64, 'a) fileop" where
  "sys_fstat s =
     bindK (argfd 0 s) (\<lambda>r s1. case r of None \<Rightarrow> Ok (-1) s1 | Some (_, f) \<Rightarrow>
     bindK (argaddr 1 s1) (\<lambda>st s2. bindK (filestat f st s2) (\<lambda>v. Ok (ret v))))"

section \<open>Links and directories\<close>

text \<open>The end of a transaction that returns a value.\<close>

definition end_with :: "uint64 \<Rightarrow> (uint64, 'a) fsop" where
  "end_with v s = bindK (end_op s) (\<lambda>_. Ok v)"

definition sys_link_bad :: "nat \<Rightarrow> (uint64, 'a) fsop" where
  "sys_link_bad ip s =
     bindK (ilock ip s) (\<lambda>_ s1.
     bindK (iupdate ip (upd_inode ip (\<lambda>x. x\<lparr>i_nlink := i_nlink x - 1\<rparr>) s1)) (\<lambda>_ s2.
     bindK (iunlockput ip s2) (\<lambda>_. end_with (-1))))"

definition sys_link_to :: "byte list \<Rightarrow> nat \<Rightarrow> (uint64, 'a) fsop" where
  "sys_link_to new ip s =
     bindK (nameiparent new s) (\<lambda>r s1. case r of
       None \<Rightarrow> sys_link_bad ip s1
     | Some (dp, name) \<Rightarrow>
       bindK (ilock dp s1) (\<lambda>_ s2.
       bindK (if i_dev (inodes s2 dp) \<noteq> i_dev (inodes s2 ip) then Ok (-1) s2
              else dirlink dp name (i_inum (inodes s2 ip)) s2) (\<lambda>l s3.
         if l < 0 then bindK (iunlockput dp s3) (\<lambda>_. sys_link_bad ip)
         else bindK (iunlockput dp s3) (\<lambda>_ s4. bindK (iput ip s4) (\<lambda>_. end_with 0)))))"

definition sys_link :: "(uint64, 'a) fsop" where
  "sys_link s =
     bindK (argstr 0 MAXPATH s) (\<lambda>r s1. case r of None \<Rightarrow> Ok (-1) s1 | Some old \<Rightarrow>
     bindK (argstr 1 MAXPATH s1) (\<lambda>r s2. case r of None \<Rightarrow> Ok (-1) s2 | Some new \<Rightarrow>
     bindK (begin_op s2) (\<lambda>_ s3.
     bindK (namei old s3) (\<lambda>r s4. case r of None \<Rightarrow> end_with (-1) s4 | Some ip \<Rightarrow>
     bindK (ilock ip s4) (\<lambda>_ s5.
       if i_type (inodes s5 ip) = T_DIR then bindK (iunlockput ip s5) (\<lambda>_. end_with (-1))
       else bindK (iupdate ip (upd_inode ip (\<lambda>x. x\<lparr>i_nlink := i_nlink x + 1\<rparr>) s5)) (\<lambda>_ s6.
            bindK (iunlock ip s6) (\<lambda>_. sys_link_to new ip)))))))"

fun isdirempty_loop :: "nat \<Rightarrow> nat list \<Rightarrow> (bool, 'a) fsop" where
  "isdirempty_loop dp [] s = Ok True s"
| "isdirempty_loop dp (off # offs) s =
     bindK (readi dp LocalDst (of_nat off) 16 s) (\<lambda>(r, bs) s1.
       if r \<noteq> 16 then Panic ''isdirempty: readi''
       else if de_inum (get_dirent bs) \<noteq> 0 then Ok False s1
       else isdirempty_loop dp offs s1)"

definition isdirempty :: "nat \<Rightarrow> (bool, 'a) fsop" where
  "isdirempty dp s = isdirempty_loop dp (drop 2 (dir_offsets (unat (i_size (inodes s dp))))) s"

definition sys_unlink_bad :: "nat \<Rightarrow> (uint64, 'a) fsop" where
  "sys_unlink_bad dp s = bindK (iunlockput dp s) (\<lambda>_. end_with (-1))"

definition sys_unlink_entry :: "nat \<Rightarrow> nat \<Rightarrow> nat \<Rightarrow> (uint64, 'a) fsop" where
  "sys_unlink_entry dp ip off s =
     bindK (writei dp (LocalSrc (replicate 16 0)) (of_nat off) 16 s) (\<lambda>w s1.
       if w \<noteq> 16 then Panic ''unlink: writei''
       else bindK (if i_type (inodes s1 ip) = T_DIR
                   then iupdate dp (upd_inode dp (\<lambda>x. x\<lparr>i_nlink := i_nlink x - 1\<rparr>) s1) else Ok () s1) (\<lambda>_ s2.
            bindK (iunlockput dp s2) (\<lambda>_ s3.
            bindK (iupdate ip (upd_inode ip (\<lambda>x. x\<lparr>i_nlink := i_nlink x - 1\<rparr>) s3)) (\<lambda>_ s4.
            bindK (iunlockput ip s4) (\<lambda>_. end_with 0)))))"

definition sys_unlink :: "(uint64, 'a) fsop" where
  "sys_unlink s =
     bindK (argstr 0 MAXPATH s) (\<lambda>r s1. case r of None \<Rightarrow> Ok (-1) s1 | Some path \<Rightarrow>
     bindK (begin_op s1) (\<lambda>_ s2.
     bindK (nameiparent path s2) (\<lambda>r s3. case r of None \<Rightarrow> end_with (-1) s3 | Some (dp, name) \<Rightarrow>
     bindK (ilock dp s3) (\<lambda>_ s4.
       if namecmp name [46] = 0 \<or> namecmp name [46, 46] = 0 then sys_unlink_bad dp s4
       else bindK (dirlookup dp name s4) (\<lambda>r s5. case r of None \<Rightarrow> sys_unlink_bad dp s5 | Some (ip, off) \<Rightarrow>
       bindK (ilock ip s5) (\<lambda>_ s6.
         if sint (i_nlink (inodes s6 ip)) < 1 then Panic ''unlink: nlink < 1''
         else bindK (if i_type (inodes s6 ip) = T_DIR then isdirempty ip s6 else Ok True s6) (\<lambda>e s7.
           if \<not> e then bindK (iunlockput ip s7) (\<lambda>_. sys_unlink_bad dp)
           else sys_unlink_entry dp ip off s7)))))))"

section \<open>Creating and opening files\<close>

definition create_dots :: "nat \<Rightarrow> nat \<Rightarrow> (unit, 'a) fsop" where
  "create_dots dp ip s =
     bindK (iupdate dp (upd_inode dp (\<lambda>x. x\<lparr>i_nlink := i_nlink x + 1\<rparr>) s)) (\<lambda>_ s1.
     bindK (dirlink ip [46] (i_inum (inodes s1 ip)) s1) (\<lambda>r s2.
       if r < 0 then Panic ''create dots''
       else bindK (dirlink ip [46, 46] (i_inum (inodes s2 dp)) s2) (\<lambda>r s3.
         if r < 0 then Panic ''create dots'' else Ok () s3)))"

text \<open>A new file; \<open>ialloc\<close> panics itself when there is no free inode, and never returns a null pointer.\<close>

definition create_new :: "nat \<Rightarrow> byte list \<Rightarrow> uint16 \<Rightarrow> uint16 \<Rightarrow> uint16 \<Rightarrow> (nat option, 'a) fsop" where
  "create_new dp name type major minor s =
     bindK (ialloc (i_dev (inodes s dp)) type s) (\<lambda>ip s1.
     bindK (ilock ip s1) (\<lambda>_ s2.
     bindK (iupdate ip (upd_inode ip (\<lambda>x. x\<lparr>i_major := major, i_minor := minor, i_nlink := 1\<rparr>) s2)) (\<lambda>_ s3.
     bindK (if type = T_DIR then create_dots dp ip s3 else Ok () s3) (\<lambda>_ s4.
     bindK (dirlink dp name (i_inum (inodes s4 ip)) s4) (\<lambda>r s5.
       if r < 0 then Panic ''create: dirlink''
       else bindK (iunlockput dp s5) (\<lambda>_. Ok (Some ip)))))))"

definition create :: "byte list \<Rightarrow> uint16 \<Rightarrow> uint16 \<Rightarrow> uint16 \<Rightarrow> (nat option, 'a) fsop" where
  "create path type major minor s =
     bindK (nameiparent path s) (\<lambda>r s1. case r of None \<Rightarrow> Ok None s1 | Some (dp, name) \<Rightarrow>
     bindK (ilock dp s1) (\<lambda>_ s2.
     bindK (dirlookup dp name s2) (\<lambda>r s3. case r of
       Some (ip, _) \<Rightarrow>
         bindK (iunlockput dp s3) (\<lambda>_ s4.
         bindK (ilock ip s4) (\<lambda>_ s5.
           if type = T_FILE \<and> (i_type (inodes s5 ip) = T_FILE \<or> i_type (inodes s5 ip) = T_DEVICE) then Ok (Some ip) s5
           else bindK (iunlockput ip s5) (\<lambda>_. Ok None)))
     | None \<Rightarrow> create_new dp name type major minor s3)))"

definition O_WRONLY :: "32 word" where [layout_defs]: "O_WRONLY = 1"
definition O_RDWR :: "32 word" where [layout_defs]: "O_RDWR = 2"
definition O_CREATE :: "32 word" where [layout_defs]: "O_CREATE = 0x200"
definition O_TRUNC :: "32 word" where [layout_defs]: "O_TRUNC = 0x400"

text \<open>The inode to open, locked, or None after the error exits of the first half of \<open>sys_open\<close>.\<close>

definition open_inode :: "byte list \<Rightarrow> 32 word \<Rightarrow> (nat option, 'a) fsop" where
  "open_inode path omode s =
     (if omode AND O_CREATE \<noteq> 0 then create path T_FILE 0 0 s
      else bindK (namei path s) (\<lambda>r s1. case r of None \<Rightarrow> Ok None s1 | Some ip \<Rightarrow>
           bindK (ilock ip s1) (\<lambda>_ s2.
             if i_type (inodes s2 ip) = T_DIR \<and> omode \<noteq> 0 then bindK (iunlockput ip s2) (\<lambda>_. Ok None)
             else Ok (Some ip) s2)))"

definition open_file :: "nat \<Rightarrow> nat \<Rightarrow> 32 word \<Rightarrow> 'a file_state_scheme \<Rightarrow> 'a file_state_scheme" where
  "open_file f ip omode s =
     (let s1 = (if i_type (inodes s ip) = T_DEVICE
                then upd_file f (\<lambda>x. x\<lparr>f_type := FD_DEVICE, f_major := sint (i_major (inodes s ip))\<rparr>) s
                else upd_file f (\<lambda>x. x\<lparr>f_type := FD_INODE, f_off := 0\<rparr>) s)
      in upd_file f (\<lambda>x. x\<lparr>f_ip := ip, f_readable := (omode AND O_WRONLY = 0),
           f_writable := (omode AND O_WRONLY \<noteq> 0 \<or> omode AND O_RDWR \<noteq> 0)\<rparr>) s1)"

definition open_fail :: "nat \<Rightarrow> (uint64, 'a) fsop" where
  "open_fail ip s = bindK (iunlockput ip s) (\<lambda>_. end_with (-1))"

definition sys_open :: "(uint64, 'a) fileop" where
  "sys_open s =
     bindK (argstr 0 MAXPATH s) (\<lambda>r s1. case r of None \<Rightarrow> Ok (-1) s1 | Some path \<Rightarrow>
     bindK (argint 1 s1) (\<lambda>omode s2.
     bindK (begin_op s2) (\<lambda>_ s3.
     bindK (open_inode path omode s3) (\<lambda>r s4. case r of None \<Rightarrow> end_with (-1) s4 | Some ip \<Rightarrow>
       if i_type (inodes s4 ip) = T_DEVICE \<and> (sint (i_major (inodes s4 ip)) < 0 \<or> sint (i_major (inodes s4 ip)) \<ge> int NDEV)
       then open_fail ip s4
       else bindK (filealloc s4) (\<lambda>r s5. case r of None \<Rightarrow> open_fail ip s5 | Some f \<Rightarrow>
            bindK (fdalloc f s5) (\<lambda>r s6. case r of
              None \<Rightarrow> bindK (fileclose f s6) (\<lambda>_. open_fail ip)
            | Some fd \<Rightarrow>
              let s7 = open_file f ip omode s6
              in bindK (if omode AND O_TRUNC \<noteq> 0 \<and> i_type (inodes s7 ip) = T_FILE then itrunc ip s7 else Ok () s7) (\<lambda>_ s8.
                 bindK (iunlock ip s8) (\<lambda>_. end_with (of_nat fd)))))))))"

definition sys_mkdir :: "(uint64, 'a) fsop" where
  "sys_mkdir s =
     bindK (begin_op s) (\<lambda>_ s1.
     bindK (argstr 0 MAXPATH s1) (\<lambda>r s2. case r of None \<Rightarrow> end_with (-1) s2 | Some path \<Rightarrow>
     bindK (create path T_DIR 0 0 s2) (\<lambda>r s3. case r of None \<Rightarrow> end_with (-1) s3 | Some ip \<Rightarrow>
     bindK (iunlockput ip s3) (\<lambda>_. end_with 0))))"

definition sys_mknod :: "(uint64, 'a) fsop" where
  "sys_mknod s =
     bindK (begin_op s) (\<lambda>_ s1.
     bindK (argstr 0 MAXPATH s1) (\<lambda>r s2. case r of None \<Rightarrow> end_with (-1) s2 | Some path \<Rightarrow>
     bindK (argint 1 s2) (\<lambda>major s3.
     bindK (argint 2 s3) (\<lambda>minor s4.
     bindK (create path T_DEVICE (ucast major) (ucast minor) s4) (\<lambda>r s5. case r of None \<Rightarrow> end_with (-1) s5 | Some ip \<Rightarrow>
     bindK (iunlockput ip s5) (\<lambda>_. end_with 0))))))"

definition sys_chdir :: "(uint64, 'a) fsop" where
  "sys_chdir s =
     bindK (myproc s) (\<lambda>p s.
     bindK (begin_op s) (\<lambda>_ s1.
     bindK (argstr 0 MAXPATH s1) (\<lambda>r s2. case r of None \<Rightarrow> end_with (-1) s2 | Some path \<Rightarrow>
     bindK (namei path s2) (\<lambda>r s3. case r of None \<Rightarrow> end_with (-1) s3 | Some ip \<Rightarrow>
     bindK (ilock ip s3) (\<lambda>_ s4.
       if i_type (inodes s4 ip) \<noteq> T_DIR then bindK (iunlockput ip s4) (\<lambda>_. end_with (-1))
       else bindK (iunlock ip s4) (\<lambda>_ s5. case cwd (procs s5 p) of None \<Rightarrow> Panic ''kerneltrap'' | Some d \<Rightarrow>
            bindK (iput d s5) (\<lambda>_ s6.
            bindK (end_op s6) (\<lambda>_ s7. Ok 0 (upd_proc p (\<lambda>q. q\<lparr>cwd := Some ip\<rparr>) s7)))))))))"

section \<open>\<open>exec\<close> and \<open>pipe\<close>\<close>

text \<open>The loop of \<open>sys_exec\<close> that copies the arguments into pages of their own: whether it succeeded, and the
  pages allocated. \<open>k\<close> is \<^verbatim>\<open>MAXARG - i\<close>.\<close>

fun sys_exec_args :: "uint64 \<Rightarrow> nat \<Rightarrow> nat \<Rightarrow> uint64 list \<Rightarrow> (bool \<times> uint64 list, 'a) kop" where
  "sys_exec_args uargv i 0 argv s = Ok (False, argv) s"
| "sys_exec_args uargv i (Suc k) argv s =
     bindK (fetchaddr (uargv + 8 * of_nat i) s) (\<lambda>r s1. case r of None \<Rightarrow> Ok (False, argv) s1 | Some uarg \<Rightarrow>
       if uarg = 0 then Ok (True, argv) s1
       else bindK (kalloc s1) (\<lambda>pg s2.
         if pg = 0 then Ok (False, argv) s2
         else bindK (fetchstr uarg (unat PGSIZE) s2) (\<lambda>(r, bs) s3.
           let s4 = upd_mem (\<lambda>m. put_bytes m pg bs) s3
           in if r < 0 then Ok (False, argv @ [pg]) s4
              else sys_exec_args uargv (Suc i) k (argv @ [pg]) s4)))"

fun kfree_all :: "uint64 list \<Rightarrow> (unit, 'a) kop" where
  "kfree_all [] s = Ok () s"
| "kfree_all (a # as) s = bindK (kfree a s) (\<lambda>_. kfree_all as)"

definition sys_exec :: "(uint64, 'a) fileop" where
  "sys_exec s =
     bindK (argstr 0 MAXPATH s) (\<lambda>r s1. case r of None \<Rightarrow> Ok (-1) s1 | Some path \<Rightarrow>
     bindK (argaddr 1 s1) (\<lambda>uargv s2.
     bindK (sys_exec_args uargv 0 MAXARG [] s2) (\<lambda>(ok, argv) s3.
       if ok then bindK (exec path argv s3) (\<lambda>r s4. bindK (kfree_all argv s4) (\<lambda>_. Ok (ret r)))
       else bindK (kfree_all argv s3) (\<lambda>_. Ok (-1)))))"

text \<open>The two copies of descriptors to user memory at the end of \<open>sys_pipe\<close>; the second is made only when the
  first has succeeded.\<close>

definition copyout_fds :: "nat \<Rightarrow> uint64 \<Rightarrow> nat \<Rightarrow> nat \<Rightarrow> (bool, 'a) kop" where
  "copyout_fds p fdarray fd0 fd1 s =
     bindK (copyout (pagetable (procs s p)) fdarray (bytes_of_word 4 (of_nat fd0 :: 32 word)) s) (\<lambda>r s1.
       if r < 0 then Ok False s1
       else bindK (copyout (pagetable (procs s1 p)) (fdarray + 4) (bytes_of_word 4 (of_nat fd1 :: 32 word)) s1) (\<lambda>r.
         Ok (\<not> r < 0)))"

definition close_both :: "nat \<Rightarrow> nat \<Rightarrow> (uint64, 'a) fileop" where
  "close_both rfile wfile s = bindK (fileclose rfile s) (\<lambda>_ s1. bindK (fileclose wfile s1) (\<lambda>_. Ok (-1)))"

definition sys_pipe :: "(uint64, 'a) fileop" where
  "sys_pipe s =
     bindK (myproc s) (\<lambda>p s.
     bindK (argaddr 0 s) (\<lambda>fdarray s1.
     bindK (pipealloc s1) (\<lambda>r s2. case r of None \<Rightarrow> Ok (-1) s2 | Some (rfile, wfile) \<Rightarrow>
     bindK (fdalloc rfile s2) (\<lambda>r s3. case r of None \<Rightarrow> close_both rfile wfile s3 | Some fd0 \<Rightarrow>
     bindK (fdalloc wfile s3) (\<lambda>r s4. case r of
       None \<Rightarrow> bindK (clear_fd fd0 s4) (\<lambda>_. close_both rfile wfile)
     | Some fd1 \<Rightarrow>
       bindK (copyout_fds p fdarray fd0 fd1 s4) (\<lambda>ok s5.
         if ok then Ok 0 s5
         else bindK (clear_fd fd0 s5) (\<lambda>_ s6. bindK (clear_fd fd1 s6) (\<lambda>_. close_both rfile wfile))))))))"

section \<open>Processes\<close>

definition sys_exit :: "(uint64, 'a) fileop" where
  "sys_exit s = bindK (argint 0 s) (\<lambda>n s1. bindK (exit (sint n) s1) (\<lambda>_. Ok 0))"

definition sys_getpid :: "(uint64, 'a) kop" where
  "sys_getpid s = bindK (myproc s) (\<lambda>p s. Ok (ret (pid (procs s p))) s)"

definition sys_fork :: "(uint64, 'a) fileop" where
  "sys_fork s = bindK (fork s) (\<lambda>r. Ok (ret r))"

definition sys_wait :: "(uint64, 'a) kop" where
  "sys_wait s = bindK (argaddr 0 s) (\<lambda>a s1. bindK (wait a s1) (\<lambda>r. Ok (ret r)))"

text \<open>The old size goes through an \<^verbatim>\<open>int\<close>: it is truncated to 32 bits and sign-extended.\<close>

definition sys_sbrk :: "(uint64, 'a) kop" where
  "sys_sbrk s =
     bindK (argint 0 s) (\<lambda>n s1.
     bindK (myproc s1) (\<lambda>p s1.
     let addr = (ucast (sz (procs s1 p)) :: 32 word)
     in bindK (growproc n s1) (\<lambda>r. Ok (if r < 0 then -1 else scast addr))))"

text \<open>One turn of the loop of \<open>sys_sleep\<close>: \<^verbatim>\<open>ticks - ticks0 < n\<close> is an unsigned comparison.\<close>

definition sys_sleep_round :: "uint \<Rightarrow> 32 word \<Rightarrow> (uint64, 'a) kop" where
  "sys_sleep_round ticks0 n s =
     (if ticks s - ticks0 < n
      then bindK (myproc s) (\<lambda>p s1.
           if killed (procs s1 p) then bindK (unlock TicksLock s1) (\<lambda>_. Ok (-1))
           else bindK (sleep TicksChan TicksLock s1) (\<lambda>_. Ok 0))
      else bindK (unlock TicksLock s) (\<lambda>_. Ok 0))"

definition sys_sleep :: "(uint64, 'a) kop" where
  "sys_sleep s =
     bindK (argint 0 s) (\<lambda>n s1.
     bindK (lock TicksLock s1) (\<lambda>_ s2. sys_sleep_round (ticks s2) n s2))"

definition sys_kill :: "(uint64, 'a) kop" where
  "sys_kill s = bindK (argint 0 s) (\<lambda>i s1. bindK (kill (sint i) s1) (\<lambda>r. Ok (ret r)))"

definition sys_uptime :: "(uint64, 'a) kop" where
  "sys_uptime s =
     bindK (lock TicksLock s) (\<lambda>_ s1.
     let xticks = ticks s1 in bindK (unlock TicksLock s1) (\<lambda>_. Ok (ucast xticks)))"

definition sys_trace :: "(uint64, 'a) kop" where
  "sys_trace s =
     bindK (argint 0 s) (\<lambda>m s1.
     bindK (myproc s1) (\<lambda>p s1. Ok 0 (upd_proc p (\<lambda>q. q\<lparr>syscall_mask := sint m\<rparr>) s1)))"

definition sys_sysinfo :: "(uint64, 'a) kop" where
  "sys_sysinfo s =
     bindK (argaddr 0 s) (\<lambda>u_dst s1.
     bindK (count_free_kmem s1) (\<lambda>freemem s2.
     bindK (count_unused_proc s2) (\<lambda>nproc s3.
     bindK (myproc s3) (\<lambda>p s3.
     bindK (copyout (pagetable (procs s3 p)) u_dst (bytes_of_word 8 freemem @ bytes_of_word 8 nproc) s3) (\<lambda>r.
       Ok (if r < 0 then -1 else 0))))))"

section \<open>Dispatch\<close>

text \<open>The table \<^verbatim>\<open>syscalls\<close>, whose entries 1 to 23 are not null, with the names of \<^verbatim>\<open>syscallname\<close>.\<close>

datatype syscall_no = SYS_fork | SYS_exit | SYS_wait | SYS_pipe | SYS_read | SYS_kill | SYS_exec | SYS_fstat
  | SYS_chdir | SYS_dup | SYS_getpid | SYS_sbrk | SYS_sleep | SYS_uptime | SYS_open | SYS_write | SYS_mknod
  | SYS_unlink | SYS_link | SYS_mkdir | SYS_close | SYS_trace | SYS_sysinfo

definition syscall_table :: "syscall_no list" where
  "syscall_table = [SYS_fork, SYS_exit, SYS_wait, SYS_pipe, SYS_read, SYS_kill, SYS_exec, SYS_fstat,
     SYS_chdir, SYS_dup, SYS_getpid, SYS_sbrk, SYS_sleep, SYS_uptime, SYS_open, SYS_write, SYS_mknod,
     SYS_unlink, SYS_link, SYS_mkdir, SYS_close, SYS_trace, SYS_sysinfo]"

definition syscall_of :: "int \<Rightarrow> syscall_no option" where
  "syscall_of num = (if 0 < num \<and> num < int (Suc (length syscall_table)) then Some (syscall_table ! (nat num - 1)) else None)"

fun run_syscall :: "syscall_no \<Rightarrow> (uint64, 'a) fileop" where
  "run_syscall SYS_fork s = sys_fork s"
| "run_syscall SYS_exit s = sys_exit s"
| "run_syscall SYS_wait s = sys_wait s"
| "run_syscall SYS_pipe s = sys_pipe s"
| "run_syscall SYS_read s = sys_read s"
| "run_syscall SYS_kill s = sys_kill s"
| "run_syscall SYS_exec s = sys_exec s"
| "run_syscall SYS_fstat s = sys_fstat s"
| "run_syscall SYS_chdir s = sys_chdir s"
| "run_syscall SYS_dup s = sys_dup s"
| "run_syscall SYS_getpid s = sys_getpid s"
| "run_syscall SYS_sbrk s = sys_sbrk s"
| "run_syscall SYS_sleep s = sys_sleep s"
| "run_syscall SYS_uptime s = sys_uptime s"
| "run_syscall SYS_open s = sys_open s"
| "run_syscall SYS_write s = sys_write s"
| "run_syscall SYS_mknod s = sys_mknod s"
| "run_syscall SYS_unlink s = sys_unlink s"
| "run_syscall SYS_link s = sys_link s"
| "run_syscall SYS_mkdir s = sys_mkdir s"
| "run_syscall SYS_close s = sys_close s"
| "run_syscall SYS_trace s = sys_trace s"
| "run_syscall SYS_sysinfo s = sys_sysinfo s"

fun syscallname :: "syscall_no \<Rightarrow> string" where
  "syscallname SYS_fork = ''fork''"
| "syscallname SYS_exit = ''exit''"
| "syscallname SYS_wait = ''wait''"
| "syscallname SYS_pipe = ''pipe''"
| "syscallname SYS_read = ''read''"
| "syscallname SYS_kill = ''kill''"
| "syscallname SYS_exec = ''exec''"
| "syscallname SYS_fstat = ''fstat''"
| "syscallname SYS_chdir = ''chdir''"
| "syscallname SYS_dup = ''dup''"
| "syscallname SYS_getpid = ''getpid''"
| "syscallname SYS_sbrk = ''sbrk''"
| "syscallname SYS_sleep = ''sleep''"
| "syscallname SYS_uptime = ''uptime''"
| "syscallname SYS_open = ''open''"
| "syscallname SYS_write = ''write''"
| "syscallname SYS_mknod = ''mknod''"
| "syscallname SYS_unlink = ''unlink''"
| "syscallname SYS_link = ''link''"
| "syscallname SYS_mkdir = ''mkdir''"
| "syscallname SYS_close = ''close''"
| "syscallname SYS_trace = ''trace''"
| "syscallname SYS_sysinfo = ''sysinfo''"

definition proc_name :: "proc \<Rightarrow> byte list" where
  "proc_name q = takeWhile (\<lambda>c. c \<noteq> 0) (pname q)"

definition fmt_trace :: "byte list" where
  "fmt_trace = ascii ''%d: syscall %s -> %d'' @ [10]"

definition fmt_unknown :: "byte list" where
  "fmt_unknown = ascii ''%d %s: unknown sys call %d'' @ [10]"

definition syscall :: "(unit, 'a) fileop" where
  "syscall s =
     bindK (myproc s) (\<lambda>p s.
     let num = sint (ucast (get_tf p (TF_a 7) s) :: 32 word)
     in case syscall_of num of
       Some c \<Rightarrow>
         bindK (run_syscall c s) (\<lambda>v s1.
         let s2 = set_tf p (TF_a 0) v s1
         in if bit (syscall_mask (procs s2 p)) (nat num)
            then printf fmt_trace [ArgInt (word_of_int (pid (procs s2 p))), ArgStr (ascii (syscallname c)),
                   ArgInt (ucast (get_tf p (TF_a 0) s2))] s2
            else Ok () s2)
     | None \<Rightarrow>
         bindK (printf fmt_unknown [ArgInt (word_of_int (pid (procs s p))), ArgStr (proc_name (procs s p)), ArgInt (word_of_int num)] s) (\<lambda>_ s1.
         Ok () (set_tf p (TF_a 0) (-1) s1)))"

end
