(* ===== verification/Xv6_Virtio.thy ===== *)
theory Xv6_Virtio
  imports Xv6_Syscall
begin

text \<open>
  \<^verbatim>\<open>kernel/virtio_disk.c\<close>: the driver of the disk. The rings are typed fields of the state: the
  descriptor table, the ring of available requests the driver fills and the ring of used requests the device
  fills. The device is the values of its registers, its half of the rings and the log of register writes.
\<close>

section \<open>State\<close>

definition NUM :: nat where [layout_defs]: "NUM = 8"
definition VRING_DESC_F_NEXT :: uint16 where [layout_defs]: "VRING_DESC_F_NEXT = 1"
definition VRING_DESC_F_WRITE :: uint16 where [layout_defs]: "VRING_DESC_F_WRITE = 2"
definition VIRTIO_BLK_T_IN :: uint where [layout_defs]: "VIRTIO_BLK_T_IN = 0"
definition VIRTIO_BLK_T_OUT :: uint where [layout_defs]: "VIRTIO_BLK_T_OUT = 1"

record vring_desc =
  d_addr :: uint64
  d_len :: uint
  d_flags :: uint16
  d_next :: uint16

text \<open>\<open>buf_disk\<close> is \<^verbatim>\<open>b->disk\<close>; \<open>sym_data\<close> and \<open>sym_status\<close> are the addresses of \<^verbatim>\<open>b->data\<close> and
  \<^verbatim>\<open>disk.info[i].status\<close>, \<open>sym_pages\<close> the one of \<^verbatim>\<open>disk.pages\<close>.\<close>

record virtio_state = file_state +
  vdesc :: "nat \<Rightarrow> vring_desc"
  vfree :: "nat \<Rightarrow> bool"
  avail_idx :: uint16
  avail_ring :: "nat \<Rightarrow> uint16"
  used_id :: uint16
  used_elems :: "nat \<Rightarrow> uint"
  used_idx :: uint16
  info_b :: "nat \<Rightarrow> nat option"
  info_status :: "nat \<Rightarrow> byte"
  buf_disk :: "nat \<Rightarrow> bool"
  mmio :: "nat \<Rightarrow> uint"
  mmio_log :: "(nat \<times> uint) list"
  sym_data :: "nat \<Rightarrow> uint64"
  sym_status :: "nat \<Rightarrow> uint64"
  sym_pages :: uint64

type_synonym ('r, 'a) vop = "'a virtio_state_scheme \<Rightarrow> ('r, 'a virtio_state_scheme) outcome"

definition mmio_write :: "nat \<Rightarrow> uint \<Rightarrow> 'a virtio_state_scheme \<Rightarrow> 'a virtio_state_scheme" where
  "mmio_write r v s = s\<lparr>mmio_log := mmio_log s @ [(r, v)]\<rparr>"

definition upd_desc :: "nat \<Rightarrow> (vring_desc \<Rightarrow> vring_desc) \<Rightarrow> 'a virtio_state_scheme \<Rightarrow> 'a virtio_state_scheme" where
  "upd_desc i f s = s\<lparr>vdesc := (vdesc s)(i := f (vdesc s i))\<rparr>"

section \<open>Initialisation\<close>

definition unsupported_features :: uint where
  "unsupported_features = push_bit 5 1 OR push_bit 7 1 OR push_bit 11 1 OR push_bit 12 1 OR push_bit 27 1
     OR push_bit 29 1 OR push_bit 28 1"

definition virtio_disk_init :: "(unit, 'a) vop" where
  "virtio_disk_init s =
     (if mmio s 0x000 \<noteq> 0x74726976 \<or> mmio s 0x004 \<noteq> 1 \<or> mmio s 0x008 \<noteq> 2 \<or> mmio s 0x00c \<noteq> 0x554d4551
      then Panic ''could not find virtio disk''
      else let s1 = mmio_write 0x070 1 (s\<lparr>held := held s - {VdiskLock}\<rparr>);
               s2 = mmio_write 0x070 (1 OR 2) s1;
               features = mmio s2 0x010 AND NOT unsupported_features;
               s3 = mmio_write 0x020 features s2;
               s4 = mmio_write 0x070 (1 OR 2 OR 8) s3;
               s5 = mmio_write 0x070 (1 OR 2 OR 8 OR 4) s4;
               s6 = mmio_write 0x028 (ucast PGSIZE) s5;
               s7 = mmio_write 0x030 0 s6;
               m = mmio s7 0x034
           in if m = 0 then Panic ''virtio disk has no queue 0''
              else if m < of_nat NUM then Panic ''virtio disk max queue too short''
              else let s8 = mmio_write 0x038 (of_nat NUM) s7;
                       s9 = s8\<lparr>vdesc := (\<lambda>_. \<lparr>d_addr = 0, d_len = 0, d_flags = 0, d_next = 0\<rparr>), avail_idx := 0,
                              avail_ring := (\<lambda>_. 0), used_id := 0, used_elems := (\<lambda>_. 0)\<rparr>;
                       s10 = mmio_write 0x040 (ucast (drop_bit 12 (sym_pages s9))) s9
                   in Ok () (s10\<lparr>vfree := (\<lambda>i. if i < NUM then True else vfree s10 i)\<rparr>))"

section \<open>Descriptors\<close>

definition alloc_desc :: "'a virtio_state_scheme \<Rightarrow> nat option \<times> 'a virtio_state_scheme" where
  "alloc_desc s =
     (case find (vfree s) [0..<NUM] of
        None \<Rightarrow> (None, s)
      | Some i \<Rightarrow> (Some i, s\<lparr>vfree := (vfree s)(i := False)\<rparr>))"

definition free_desc :: "nat \<Rightarrow> (unit, 'a) vop" where
  "free_desc i s =
     (if i \<ge> NUM then Panic ''virtio_disk_intr 1''
      else if vfree s i then Panic ''virtio_disk_intr 2''
      else wakeup DiskFree ((upd_desc i (\<lambda>d. d\<lparr>d_addr := 0\<rparr>) s)\<lparr>vfree := (vfree s)(i := True)\<rparr>))"

text \<open>Every turn frees a descriptor that was not free, so the ninth one panics in \<open>free_desc\<close>.\<close>

fun free_chain_loop :: "nat \<Rightarrow> nat \<Rightarrow> (unit, 'a) vop" where
  "free_chain_loop 0 i s = Diverge"
| "free_chain_loop (Suc k) i s =
     bindK (free_desc i s) (\<lambda>_ s1.
       if d_flags (vdesc s1 i) AND VRING_DESC_F_NEXT \<noteq> 0
       then free_chain_loop k (unat (d_next (vdesc s1 i))) s1 else Ok () s1)"

definition free_chain :: "nat \<Rightarrow> (unit, 'a) vop" where
  "free_chain i s = free_chain_loop (Suc NUM) i s"

fun free_descs :: "nat list \<Rightarrow> (unit, 'a) vop" where
  "free_descs [] s = Ok () s"
| "free_descs (i # is) s = bindK (free_desc i s) (\<lambda>_. free_descs is)"

text \<open>The loop of \<open>alloc3_desc\<close>, with the indices found so far and \<open>k\<close> to go.\<close>

fun alloc_descs :: "nat list \<Rightarrow> nat \<Rightarrow> (nat list option, 'a) vop" where
  "alloc_descs idx 0 s = Ok (Some idx) s"
| "alloc_descs idx (Suc k) s =
     (let (r, s1) = alloc_desc s
      in case r of
           None \<Rightarrow> bindK (free_descs idx s1) (\<lambda>_. Ok None)
         | Some i \<Rightarrow> alloc_descs (idx @ [i]) k s1)"

definition alloc3_desc :: "(nat list option, 'a) vop" where
  "alloc3_desc s = alloc_descs [] 3 s"

section \<open>Requests\<close>

text \<open>The request header \<^verbatim>\<open>buf0\<close> is on the stack, at \<open>stk\<close>. The sector number is computed in 32 bits.\<close>

definition outhdr_bytes :: "bool \<Rightarrow> uint \<Rightarrow> byte list" where
  "outhdr_bytes write bno = bytes_of_word 4 (if write then VIRTIO_BLK_T_OUT else VIRTIO_BLK_T_IN) @ bytes_of_word 4 (0::uint)
     @ bytes_of_word 8 (ucast (bno * of_nat (BSIZE div 512)) :: uint64)"

definition format_request :: "nat \<Rightarrow> bool \<Rightarrow> uint64 \<Rightarrow> nat \<Rightarrow> nat \<Rightarrow> nat \<Rightarrow> 'a virtio_state_scheme \<Rightarrow> 'a virtio_state_scheme" where
  "format_request b write pa i0 i1 i2 s =
     (let s1 = upd_mem (\<lambda>m. put_bytes m pa (outhdr_bytes write (blockno (bufs s b)))) s;
          s2 = upd_desc i0 (\<lambda>_. \<lparr>d_addr = pa, d_len = 16, d_flags = VRING_DESC_F_NEXT, d_next = of_nat i1\<rparr>) s1;
          s3 = upd_desc i1 (\<lambda>_. \<lparr>d_addr = sym_data s2 b, d_len = of_nat BSIZE,
                 d_flags = (if write then 0 else VRING_DESC_F_WRITE) OR VRING_DESC_F_NEXT, d_next = of_nat i2\<rparr>) s2;
          s4 = s3\<lparr>info_status := (info_status s3)(i0 := 0)\<rparr>;
          s5 = upd_desc i2 (\<lambda>_. \<lparr>d_addr = sym_status s4 i0, d_len = 1, d_flags = VRING_DESC_F_WRITE, d_next = 0\<rparr>) s4
      in s5\<lparr>buf_disk := (buf_disk s5)(b := True), info_b := (info_b s5)(i0 := Some b)\<rparr>)"

definition publish_request :: "nat \<Rightarrow> 'a virtio_state_scheme \<Rightarrow> 'a virtio_state_scheme" where
  "publish_request i0 s =
     (let s1 = s\<lparr>avail_ring := (avail_ring s)(unat (avail_idx s) mod NUM := of_nat i0)\<rparr>;
          s2 = s1\<lparr>avail_idx := avail_idx s1 + 1\<rparr>
      in mmio_write 0x050 0 s2)"

text \<open>One turn of the wait for the device, and the end of the request.\<close>

definition virtio_wait :: "nat \<Rightarrow> nat \<Rightarrow> (unit, 'a) vop" where
  "virtio_wait b i0 s =
     (if buf_disk s b then sleep (DiskBuf b) VdiskLock s
      else bindK (free_chain i0 (s\<lparr>info_b := (info_b s)(i0 := None)\<rparr>)) (\<lambda>_ s1. unlock VdiskLock s1))"

text \<open>One turn of the loop that waits for descriptors, and the request.\<close>

definition virtio_request :: "nat \<Rightarrow> bool \<Rightarrow> uint64 \<Rightarrow> (unit, 'a) vop" where
  "virtio_request b write stk s =
     bindK (alloc3_desc s) (\<lambda>r s1. case r of
       Some [i0, i1, i2] \<Rightarrow>
         bindK (kvmpa stk s1) (\<lambda>pa s2. virtio_wait b i0 (publish_request i0 (format_request b write pa i0 i1 i2 s2)))
     | _ \<Rightarrow> sleep DiskFree VdiskLock s1)"

definition virtio_disk_rw :: "nat \<Rightarrow> bool \<Rightarrow> uint64 \<Rightarrow> (unit, 'a) vop" where
  "virtio_disk_rw b write stk s = bindK (lock VdiskLock s) (\<lambda>_ s1. virtio_request b write stk s1)"

section \<open>The interrupt handler\<close>

text \<open>\<open>used_idx\<close> goes round the ring, so the loop meets \<open>used_id mod NUM\<close> within \<^verbatim>\<open>NUM\<close> turns.\<close>

fun virtio_intr_loop :: "nat \<Rightarrow> (unit, 'a) vop" where
  "virtio_intr_loop 0 s = (if unat (used_idx s) mod NUM = unat (used_id s) mod NUM then Ok () s else Diverge)"
| "virtio_intr_loop (Suc k) s =
     (if unat (used_idx s) mod NUM = unat (used_id s) mod NUM then Ok () s
      else let i = unat (used_elems s (unat (used_idx s)))
           in if info_status s i \<noteq> 0 then Panic ''virtio_disk_intr status''
              else case info_b s i of
                None \<Rightarrow> Panic ''kerneltrap''
              | Some b \<Rightarrow>
                  bindK (wakeup (DiskBuf b) (s\<lparr>buf_disk := (buf_disk s)(b := False)\<rparr>)) (\<lambda>_ s1.
                  virtio_intr_loop k (s1\<lparr>used_idx := (used_idx s1 + 1) mod of_nat NUM\<rparr>)))"

definition virtio_disk_intr :: "(unit, 'a) vop" where
  "virtio_disk_intr s =
     bindK (lock VdiskLock s) (\<lambda>_ s1.
     bindK (virtio_intr_loop NUM s1) (\<lambda>_ s2.
     unlock VdiskLock (mmio_write 0x064 (mmio s2 0x060 AND 3) s2)))"

end
