(* ===== verification/Xv6_Trap.thy ===== *)
theory Xv6_Trap
  imports Xv6_Virtio
begin

text \<open>
  \<^verbatim>\<open>kernel/trap.c\<close>, \<^verbatim>\<open>kernel/plic.c\<close>, \<^verbatim>\<open>kernel/main.c\<close> and \<^verbatim>\<open>kernel/start.c\<close>: traps from user
  and kernel mode, device interrupts, and how the machine boots. The supervisor registers of the hart are fields of
  the state. \<open>usertrapret\<close> ends in the jump to \<^verbatim>\<open>userret\<close>; its result is the target and the two arguments.
\<close>

section \<open>State\<close>

definition SSTATUS_SPP :: uint64 where [layout_defs]: "SSTATUS_SPP = push_bit 8 1"
definition SSTATUS_SPIE :: uint64 where [layout_defs]: "SSTATUS_SPIE = push_bit 5 1"

text \<open>\<open>plic_pending\<close> are the interrupts the controller has for this hart, in the order it presents them;
  \<open>plic_log\<close> the writes to its registers. \<open>first\<close> is the static variable of \<open>forkret\<close>.\<close>

record trap_state = virtio_state +
  sstatus :: uint64
  sepc :: uint64
  scause :: uint64
  stval :: uint64
  stvec :: uint64
  sip :: uint64
  tp :: uint64
  first :: bool
  started :: bool
  plic_pending :: "uint list"
  plic_log :: "(uint64 \<times> uint) list"
  sym_kernelvec :: uint64
  sym_usertrap :: uint64
  off_uservec :: uint64
  off_userret :: uint64

type_synonym ('r, 'a) top = "'a trap_state_scheme \<Rightarrow> ('r, 'a trap_state_scheme) outcome"

definition cpuid :: "'a trap_state_scheme \<Rightarrow> uint64" where
  "cpuid s = scast (ucast (tp s) :: 32 word)"

section \<open>The interrupt controller\<close>

definition PLIC_SENABLE :: "uint64 \<Rightarrow> uint64" where "PLIC_SENABLE hart = PLIC + 0x2080 + hart * 0x100"
definition PLIC_SPRIORITY :: "uint64 \<Rightarrow> uint64" where "PLIC_SPRIORITY hart = PLIC + 0x201000 + hart * 0x2000"
definition PLIC_SCLAIM :: "uint64 \<Rightarrow> uint64" where "PLIC_SCLAIM hart = PLIC + 0x201004 + hart * 0x2000"

definition plic_write :: "uint64 \<Rightarrow> uint \<Rightarrow> 'a trap_state_scheme \<Rightarrow> 'a trap_state_scheme" where
  "plic_write a v s = s\<lparr>plic_log := plic_log s @ [(a, v)]\<rparr>"

definition plicinit :: "(unit, 'a) top" where
  "plicinit s = Ok () (plic_write (PLIC + of_nat VIRTIO0_IRQ * 4) 1 (plic_write (PLIC + of_nat UART0_IRQ * 4) 1 s))"

definition plicinithart :: "(unit, 'a) top" where
  "plicinithart s =
     (let hart = cpuid s;
          s1 = plic_write (PLIC_SENABLE hart) (push_bit UART0_IRQ 1 OR push_bit VIRTIO0_IRQ 1) s
      in Ok () (plic_write (PLIC_SPRIORITY hart) 0 s1))"

text \<open>Reading the claim register takes the next pending interrupt, 0 when there is none.\<close>

definition plic_claim :: "(uint, 'a) top" where
  "plic_claim s = (case plic_pending s of [] \<Rightarrow> Ok 0 s | irq # rest \<Rightarrow> Ok irq (s\<lparr>plic_pending := rest\<rparr>))"

definition plic_complete :: "uint \<Rightarrow> (unit, 'a) top" where
  "plic_complete irq s = Ok () (plic_write (PLIC_SCLAIM (cpuid s)) irq s)"

section \<open>Interrupts\<close>

definition trapinit :: "(unit, 'a) top" where
  "trapinit s = Ok () (s\<lparr>held := held s - {TicksLock}\<rparr>)"

definition trapinithart :: "(unit, 'a) top" where
  "trapinithart s = Ok () (s\<lparr>stvec := sym_kernelvec s\<rparr>)"

definition clockintr :: "(unit, 'a) kop" where
  "clockintr s =
     bindK (lock TicksLock s) (\<lambda>_ s1.
     bindK (wakeup TicksChan (s1\<lparr>ticks := ticks s1 + 1\<rparr>)) (\<lambda>_ s2.
     unlock TicksLock s2))"

definition devintr :: "(nat, 'a) top" where
  "devintr s =
     (if scause s AND 0x8000000000000000 \<noteq> 0 \<and> scause s AND 0xff = 9
      then bindK (plic_claim s) (\<lambda>irq s1.
           bindK (if irq = of_nat UART0_IRQ then uartintr s1
                  else if irq = of_nat VIRTIO0_IRQ then virtio_disk_intr s1
                  else if irq \<noteq> 0 then printf (ascii ''unexpected interrupt irq=%d'' @ [10]) [ArgInt irq] s1
                  else Ok () s1) (\<lambda>_ s2.
           bindK (if irq \<noteq> 0 then plic_complete irq s2 else Ok () s2) (\<lambda>_. Ok 1)))
      else if scause s = 0x8000000000000001
      then bindK (if cpuid s = 0 then clockintr s else Ok () s) (\<lambda>_ s1.
           Ok 2 (s1\<lparr>sip := sip s1 AND NOT 2\<rparr>))
      else Ok 0 s)"

section \<open>Traps\<close>

definition usertrapret :: "(uint64 \<times> uint64 \<times> uint64, 'a) top" where
  "usertrapret s =
     bindK (myproc s) (\<lambda>p s.
     let s1 = s\<lparr>sstatus := sstatus s AND NOT SSTATUS_SIE\<rparr>;
         s2 = s1\<lparr>stvec := TRAMPOLINE + off_uservec s1\<rparr>;
         s3 = set_tf p TF_kernel_satp (satp s2) s2;
         s4 = set_tf p TF_kernel_sp (kstack (procs s3 p) + PGSIZE) s3;
         s5 = set_tf p TF_kernel_trap (sym_usertrap s4) s4;
         s6 = set_tf p TF_kernel_hartid (tp s5) s5;
         s7 = s6\<lparr>sstatus := (sstatus s6 AND NOT SSTATUS_SPP) OR SSTATUS_SPIE\<rparr>;
         s8 = s7\<lparr>sepc := get_tf p TF_epc s7\<rparr>
     in Ok (TRAMPOLINE + off_userret s8, TRAPFRAME, MAKE_SATP (pagetable (procs s8 p))) s8)"

definition usertrap_syscall :: "nat \<Rightarrow> (nat, 'a) top" where
  "usertrap_syscall p s =
     bindK (if killed (procs s p) then exit (-1) s else Ok () s) (\<lambda>_ s1.
     let s2 = set_tf p TF_epc (get_tf p TF_epc s1 + 4) s1;
         s3 = s2\<lparr>sstatus := sstatus s2 OR SSTATUS_SIE\<rparr>
     in bindK (syscall s3) (\<lambda>_. Ok 0))"

definition usertrap_other :: "nat \<Rightarrow> (nat, 'a) top" where
  "usertrap_other p s =
     bindK (devintr s) (\<lambda>which_dev s1.
       if which_dev \<noteq> 0 then Ok which_dev s1
       else bindK (printf (ascii ''usertrap(): unexpected scause %p pid=%d'' @ [10])
                     [ArgPtr (scause s1), ArgInt (word_of_int (pid (procs s1 p)))] s1) (\<lambda>_ s2.
            bindK (printf (ascii ''            sepc=%p stval=%p'' @ [10]) [ArgPtr (sepc s2), ArgPtr (stval s2)] s2) (\<lambda>_ s3.
            Ok 0 (upd_proc p (\<lambda>q. q\<lparr>killed := True\<rparr>) s3))))"

definition usertrap :: "(uint64 \<times> uint64 \<times> uint64, 'a) top" where
  "usertrap s =
     (if sstatus s AND SSTATUS_SPP \<noteq> 0 then Panic ''usertrap: not from user mode''
      else let s1 = s\<lparr>stvec := sym_kernelvec s\<rparr>
           in bindK (myproc s1) (\<lambda>p s1.
              let s2 = set_tf p TF_epc (sepc s1) s1
              in bindK (if scause s2 = 8 then usertrap_syscall p s2 else usertrap_other p s2) (\<lambda>which_dev s3.
                 bindK (if killed (procs s3 p) then exit (-1) s3 else Ok () s3) (\<lambda>_ s4.
                 bindK (if which_dev = 2 then yield s4 else Ok () s4) (\<lambda>_ s5.
                 usertrapret s5)))))"

definition kerneltrap :: "(unit, 'a) top" where
  "kerneltrap s =
     (let epc = sepc s; status = sstatus s
      in if status AND SSTATUS_SPP = 0 then Panic ''kerneltrap: not from supervisor mode''
         else if sstatus s AND SSTATUS_SIE \<noteq> 0 then Panic ''kerneltrap: interrupts enabled''
         else bindK (devintr s) (\<lambda>which_dev s1.
              if which_dev = 0
              then bindK (printf (ascii ''scause %p'' @ [10]) [ArgPtr (scause s1)] s1) (\<lambda>_ s2.
                   bindK (printf (ascii ''sepc=%p stval=%p'' @ [10]) [ArgPtr (sepc s2), ArgPtr (stval s2)] s2) (\<lambda>_ _.
                   Panic ''kerneltrap''))
              else bindK (case curproc s1 of
                            Some p \<Rightarrow> if which_dev = 2 \<and> state (procs s1 p) = RUNNING then yield s1 else Ok () s1
                          | None \<Rightarrow> Ok () s1) (\<lambda>_ s2.
                   Ok () (s2\<lparr>sepc := epc, sstatus := status\<rparr>))))"

definition forkret :: "(uint64 \<times> uint64 \<times> uint64, 'a) top" where
  "forkret s =
     bindK (myproc s) (\<lambda>p s.
     bindK (unlock (ProcLock p) s) (\<lambda>_ s1.
     bindK (if first s1 then fsinit ROOTDEV (s1\<lparr>first := False\<rparr>) else Ok () s1) (\<lambda>_ s2.
     usertrapret s2)))"

section \<open>Boot\<close>

text \<open>\<^verbatim>\<open>main\<close> on hart 0 up to the call of \<open>scheduler\<close>, and on the other harts once \<open>started\<close> is set.\<close>

definition main_boot :: "(unit, 'a) top" where
  "main_boot s =
     bindK (consoleinit s) (\<lambda>_ s.
     bindK (printfinit s) (\<lambda>_ s.
     bindK (printf [10] [] s) (\<lambda>_ s.
     bindK (printf (ascii ''xv6 kernel is booting'' @ [10]) [] s) (\<lambda>_ s.
     bindK (printf [10] [] s) (\<lambda>_ s.
     bindK (kinit s) (\<lambda>_ s.
     bindK (kvminit s) (\<lambda>_ s.
     bindK (kvminithart s) (\<lambda>_ s.
     bindK (procinit s) (\<lambda>_ s.
     bindK (trapinit s) (\<lambda>_ s.
     bindK (trapinithart s) (\<lambda>_ s.
     bindK (plicinit s) (\<lambda>_ s.
     bindK (plicinithart s) (\<lambda>_ s.
     bindK (binit s) (\<lambda>_ s.
     bindK (iinit s) (\<lambda>_ s.
     bindK (fileinit s) (\<lambda>_ s.
     bindK (virtio_disk_init s) (\<lambda>_ s.
     bindK (userinit s) (\<lambda>_ s.
     Ok () (s\<lparr>started := True\<rparr>)))))))))))))))))))"

definition main_other :: "(unit, 'a) top" where
  "main_other s =
     (if \<not> started s then Diverge
      else bindK (printf (ascii ''hart %d starting'' @ [10]) [ArgInt (ucast (cpuid s))] s) (\<lambda>_ s.
           bindK (kvminithart s) (\<lambda>_ s.
           bindK (trapinithart s) (\<lambda>_ s. plicinithart s))))"

text \<open>\<^verbatim>\<open>start.c\<close>: the machine-mode registers of a hart and its part of the \<^verbatim>\<open>CLINT\<close>.\<close>

record machine =
  mstatus :: uint64
  mepc :: uint64
  m_satp :: uint64
  medeleg :: uint64
  mideleg :: uint64
  m_sie :: uint64
  mscratch :: uint64
  mtvec :: uint64
  mie :: uint64
  m_tp :: uint64
  mhartid :: uint64
  mtime :: uint64
  mtimecmp :: "uint64 \<Rightarrow> uint64"
  mscratch0 :: "nat \<Rightarrow> uint64"

definition MSTATUS_MPP_MASK :: uint64 where [layout_defs]: "MSTATUS_MPP_MASK = push_bit 11 3"
definition MSTATUS_MPP_S :: uint64 where [layout_defs]: "MSTATUS_MPP_S = push_bit 11 1"
definition MSTATUS_MIE :: uint64 where [layout_defs]: "MSTATUS_MIE = push_bit 3 1"
definition MIE_MTIE :: uint64 where [layout_defs]: "MIE_MTIE = push_bit 7 1"
definition CLINT_MTIMECMP :: "uint64 \<Rightarrow> uint64" where "CLINT_MTIMECMP hartid = CLINT + 0x4000 + 8 * hartid"

text \<open>\<open>sym_mscratch0\<close> and \<open>sym_timervec\<close> are addresses; the array \<^verbatim>\<open>mscratch0\<close> is indexed by word.\<close>

definition timerinit :: "uint64 \<Rightarrow> uint64 \<Rightarrow> machine \<Rightarrow> machine" where
  "timerinit sym_mscratch0 sym_timervec m =
     (let hid = scast (ucast (mhartid m) :: 32 word);
          interval = 1000000;
          m1 = m\<lparr>mtimecmp := (mtimecmp m)(CLINT_MTIMECMP hid := mtime m + interval)\<rparr>;
          k = 32 * unat hid;
          m2 = m1\<lparr>mscratch0 := (mscratch0 m1)(k + 4 := CLINT_MTIMECMP hid, k + 5 := interval)\<rparr>;
          m3 = m2\<lparr>mscratch := sym_mscratch0 + 8 * of_nat k\<rparr>;
          m4 = m3\<lparr>mtvec := sym_timervec\<rparr>;
          m5 = m4\<lparr>mstatus := mstatus m4 OR MSTATUS_MIE\<rparr>
      in m5\<lparr>mie := mie m5 OR MIE_MTIE\<rparr>)"

definition start :: "uint64 \<Rightarrow> uint64 \<Rightarrow> uint64 \<Rightarrow> machine \<Rightarrow> machine" where
  "start sym_main sym_mscratch0 sym_timervec m =
     (let m1 = m\<lparr>mstatus := (mstatus m AND NOT MSTATUS_MPP_MASK) OR MSTATUS_MPP_S\<rparr>;
          m2 = m1\<lparr>mepc := sym_main\<rparr>;
          m3 = m2\<lparr>m_satp := 0\<rparr>;
          m4 = m3\<lparr>medeleg := 0xffff, mideleg := 0xffff\<rparr>;
          m5 = m4\<lparr>m_sie := m_sie m4 OR push_bit 9 1 OR push_bit 5 1 OR push_bit 1 1\<rparr>;
          m6 = timerinit sym_mscratch0 sym_timervec m5
      in m6\<lparr>m_tp := scast (ucast (mhartid m6) :: 32 word)\<rparr>)"

end
