(* ===== verification/Xv6_FsSpec.thy ===== *)
theory Xv6_FsSpec
  imports Xv6_Fs
begin

text \<open>
  What \<^verbatim>\<open>kernel/fs.c\<close> promises: the contents of a file as a function of the blocks of the cache, and that
  \<open>readi\<close> returns them; allocation in the bitmap; inodes on disk; uniqueness in the inode cache; path
  elements. The proofs see the cache only through the view of \<open>Xv6_Bio\<close> and the log through \<open>log_write_view\<close>.
\<close>

section \<open>Steps on one block\<close>

lemma log_frame_fs:
  fixes s t :: "'a fs_state_scheme"
  assumes "log_frame s t"
  shows "sb t = sb s" "inodes t = inodes s" "outstanding t = outstanding s" "log_size t = log_size s" "mem t = mem s"
  using assms by (auto simp: log_frame_def)

lemma bio_frame_fs:
  fixes s t :: "'a fs_state_scheme"
  assumes "bio_frame s t"
  shows "sb t = sb s" "inodes t = inodes s" "mem t = mem s"
  using assms by (auto simp: bio_frame_def)

text \<open>A buffer that is referenced stays the buffer of its block.\<close>

definition keeps_bufs :: "'a bio_state_scheme \<Rightarrow> 'a bio_state_scheme \<Rightarrow> bool" where
  "keeps_bufs s t \<longleftrightarrow> (\<forall>m. vr (view s) m \<noteq> 0 \<longrightarrow> vr (view t) m \<noteq> 0 \<and> lookup (bufs t) m = lookup (bufs s) m)"

lemma keeps_bufs_refl [simp]: "keeps_bufs s s"
  by (simp add: keeps_bufs_def)

lemma keeps_bufs_trans: "keeps_bufs s t \<Longrightarrow> keeps_bufs t u \<Longrightarrow> keeps_bufs s u"
  by (simp add: keeps_bufs_def)

text \<open>Reading a block and releasing it.\<close>

lemma read_upd_release:
  assumes i: "binv s p" and r: "room (view s) n"
    and g: "\<forall>x. binv (g x) p = binv x p \<and> view (g x) = view x \<and> bufs (g x) = bufs x"
  obtains b s1 t where "bread ROOTDEV n s = Ok b s1" "data (bufs s1 b) = vk (view s) n" "bio_frame s s1"
    "brelse b (g s1) = Ok () t" "binv t p" "bio_frame (g s1) t" "view t = view s" "keeps_bufs s t"
proof -
  let ?v = "view s"
  obtain b s1 where 1: "bread ROOTDEV n s = Ok b s1" "binv s1 p" "bio_frame s s1" "disk s1 = disk s" "disk_log s1 = disk_log s"
    "view s1 = ?v\<lparr>vr := (vr ?v)(n := vr ?v n + 1), vl := (vl ?v)(n := True)\<rparr>"
    "lookup (bufs s1) n = Some b" "data (bufs s1 b) = vk ?v n"
    "\<forall>m. vr ?v m \<noteq> 0 \<longrightarrow> lookup (bufs s1) m = lookup (bufs s) m" by (rule bread_view [OF i r])
  let ?u = "g s1"
  have u: "binv ?u p" "view ?u = view s1" "lookup (bufs ?u) n = Some b" using g 1(2,7) by simp_all
  have k: "vl (view ?u) n" by (simp add: u(2) 1(6))
  have c: "vk (view ?u) n = vd (view ?u) n" if "vr (view ?u) n = 1"
    using that unreferenced_clean [OF i, of n] by (simp add: u(2) 1(6))
  obtain t where 2: "brelse b ?u = Ok () t" "binv t p" "bio_frame ?u t" "disk t = disk ?u" "disk_log t = disk_log ?u"
    "view t = (view ?u)\<lparr>vr := (vr (view ?u))(n := vr (view ?u) n - 1), vl := (vl (view ?u))(n := False)\<rparr>"
    "lookup (bufs t) = lookup (bufs ?u)" by (rule brelse_view [OF u(1,3) k c])
  have "\<not> vl ?v n" using r by (simp add: room_def)
  then have "(vl ?v)(n := False) = vl ?v" by (simp add: fun_upd_idem_iff)
  then have v: "view t = ?v" by (simp add: 2(6) u(2) 1(6))
  have "keeps_bufs s t" using 1(9) g by (simp add: keeps_bufs_def v 2(7))
  then show ?thesis by (rule that [OF 1(1,8,3) 2(1,2,3) v])
qed

lemma read_release:
  assumes i: "binv s p" and r: "room (view s) n"
  obtains b s1 t where "bread ROOTDEV n s = Ok b s1" "data (bufs s1 b) = vk (view s) n" "bio_frame s s1"
    "brelse b s1 = Ok () t" "binv t p" "bio_frame s t" "view t = view s" "keeps_bufs s t"
proof -
  obtain b s1 t where 1: "bread ROOTDEV n s = Ok b s1" "data (bufs s1 b) = vk (view s) n" "bio_frame s s1"
    "brelse b ((\<lambda>x. x) s1) = Ok () t" "binv t p" "bio_frame ((\<lambda>x. x) s1) t" "view t = view s" "keeps_bufs s t"
    by (rule read_upd_release [OF i r, of "\<lambda>x. x"]) simp
  show ?thesis by (rule that [OF 1(1-5) bio_frame_trans [OF 1(3,6)] 1(7,8)])
qed

text \<open>When a transaction is under way with room for one more block, and the block can be loaded.\<close>

definition can_log :: "'a log_state_scheme \<Rightarrow> nat \<Rightarrow> uint \<Rightarrow> bool" where
  "can_log s p n \<longleftrightarrow> binv s p \<and> log_inv s \<and> 1 \<le> outstanding s \<and> lh_n s < int LOGSIZE \<and> lh_n s < log_size s - 1
     \<and> room (view s) n \<and> vr (view s) n + 2 \<noteq> 0"

text \<open>Loading block \<open>n\<close>, storing \<open>d\<close> in it, \<open>log_write\<close> and \<open>brelse\<close>: how the file system changes a block.\<close>

definition store_view :: "'a log_state_scheme \<Rightarrow> uint \<Rightarrow> block \<Rightarrow> block_view" where
  "store_view s n d = (view s)\<lparr>vk := (vk (view s))(n := d),
     vr := (vr (view s))(n := vr (view s) n + (if n \<in> logged s then 0 else 1))\<rparr>"

lemma load_store:
  fixes s :: "'a log_state_scheme"
  assumes c: "can_log s p n"
  obtains b s1 s2 t where "bread ROOTDEV n s = Ok b s1" "data (bufs s1 b) = vk (view s) n" "bio_frame s s1"
    "log_write b (set_data b d s1) = Ok () s2" "brelse b s2 = Ok () t" "binv t p" "log_frame s t" "log_inv t"
    "view t = store_view s n d" "logged t = insert n (logged s)" "lh_n t = (if n \<in> logged s then lh_n s else lh_n s + 1)" "keeps_bufs s t"
proof -
  let ?v = "view s"
  have i: "binv s p" and g: "log_inv s" and o: "1 \<le> outstanding s" and n: "lh_n s < int LOGSIZE" "lh_n s < log_size s - 1"
    and r: "room ?v n" and w: "vr ?v n + 2 \<noteq> 0" using c by (auto simp: can_log_def)
  have r1: "vr ?v n + 1 \<noteq> 0" "\<not> vl ?v n" using r by (auto simp: room_def)
  obtain b s1 where 1: "bread ROOTDEV n s = Ok b s1" "binv s1 p" "bio_frame s s1" "disk s1 = disk s" "disk_log s1 = disk_log s"
    "view s1 = ?v\<lparr>vr := (vr ?v)(n := vr ?v n + 1), vl := (vl ?v)(n := True)\<rparr>"
    "lookup (bufs s1) n = Some b" "data (bufs s1 b) = vk ?v n"
    "\<forall>m. vr ?v m \<noteq> 0 \<longrightarrow> lookup (bufs s1) m = lookup (bufs s) m" by (rule bread_view [OF i r])
  have k: "vl (view s1) n" "vr (view s1) n \<noteq> 0" using r1 by (simp_all add: 1(6))
  let ?u = "upd_buf b (\<lambda>x. x\<lparr>data := d\<rparr>) s1"
  note sd = set_data_view [OF 1(2,7) k, where d = d]
  have v2: "view ?u = ?v\<lparr>vk := (vk ?v)(n := d), vr := (vr ?v)(n := vr ?v n + 1), vl := (vl ?v)(n := True)\<rparr>"
    using sd(3) by (simp add: 1(6))
  note f = bio_frame_log [OF bio_frame_trans [OF 1(3) sd(2)]]
  have lg: "logged ?u = logged s" by (simp add: logged_def f)
  have g2: "log_inv ?u" using g r1 by (auto simp: log_inv_def lg f v2)
  have l: "lookup (bufs ?u) n = Some b" using 1(7) sd(4) by simp
  have k2: "vl (view ?u) n" "vr (view ?u) n \<noteq> 0" "vr (view ?u) n + 1 \<noteq> 0" using r1 w by (simp_all add: v2 add.assoc)
  obtain s2 where 2: "log_write b ?u = Ok () s2" "binv s2 p" "log_frame ?u s2" "log_inv s2" "disk s2 = disk ?u" "disk_log s2 = disk_log ?u"
    "lookup (bufs s2) = lookup (bufs ?u)" "logged s2 = insert n (logged ?u)"
    "lh_n s2 = (if n \<in> logged ?u then lh_n ?u else lh_n ?u + 1)"
    "view s2 = (if n \<in> logged ?u then view ?u else (view ?u)\<lparr>vr := (vr (view ?u))(n := vr (view ?u) n + 1)\<rparr>)"
    by (rule log_write_view [OF sd(1) l k2(1) g2 _ _ _ k2(2,3)]) (use o n in \<open>simp_all add: f\<close>)
  let ?e = "if n \<in> logged s then 0 else (1 :: uint)"
  have v3: "view s2 = ?v\<lparr>vk := (vk ?v)(n := d), vr := (vr ?v)(n := vr ?v n + 1 + ?e), vl := (vl ?v)(n := True)\<rparr>"
    by (simp add: 2(10) lg v2)
  have pin: "n \<in> logged s \<Longrightarrow> vr ?v n \<noteq> 0" using g by (simp add: log_inv_def)
  have ref: "vr (view s2) n \<noteq> 1" using pin r1(1) by (auto simp: v3 add.assoc dest: eq_diff_eq [THEN iffD2])
  obtain t where 3: "brelse b s2 = Ok () t" "binv t p" "bio_frame s2 t" "disk t = disk s2" "disk_log t = disk_log s2"
    "view t = (view s2)\<lparr>vr := (vr (view s2))(n := vr (view s2) n - 1), vl := (vl (view s2))(n := False)\<rparr>"
    "lookup (bufs t) = lookup (bufs s2)"
    by (rule brelse_view [OF 2(2) _ _ ]) (use l 2(7) ref in \<open>auto simp: v3\<close>)
  have vl: "(vl ?v)(n := False) = vl ?v" using r1(2) by (simp add: fun_upd_idem_iff)
  have v4: "view t = store_view s n d" by (simp add: 3(6) v3 vl store_view_def)
  note f3 = bio_frame_log [OF 3(3)]
  have lt: "logged t = insert n (logged s)" using 2(8) by (simp add: logged_def f3 lg [unfolded logged_def])
  have ln: "lh_n t = (if n \<in> logged s then lh_n s else lh_n s + 1)" using 2(9) by (simp add: f3 lg f)
  have fr: "log_frame s t" using log_frame_trans [OF bio_log_frame [OF bio_frame_trans [OF 1(3) sd(2)]] log_frame_trans [OF 2(3) bio_log_frame [OF 3(3)]]] .
  have "log_inv t" using 2(4) pin r1(1) unfolding log_inv_def
    by (auto simp: f3 lt v4 2(8) lg store_view_def v3 logged_def [of s2] simp flip: logged_def)
  moreover have "keeps_bufs s t" using 1(9) r1(1) w sd(4) by (auto simp: keeps_bufs_def v4 store_view_def 3(7) 2(7))
  ultimately show ?thesis by (rule that [OF 1(1,8,3) 2(1) [folded set_data_def] 3(1,2) fr _ v4 lt ln])
qed

section \<open>The contents of a file\<close>

definition file_block :: "block_view \<Rightarrow> inode \<Rightarrow> nat \<Rightarrow> uint" where
  "file_block v x bn = (if bn < NDIRECT then i_addrs x ! bn else get32 (vk v (i_addrs x ! NDIRECT)) (4 * (bn - NDIRECT)))"

definition file_byte :: "block_view \<Rightarrow> inode \<Rightarrow> nat \<Rightarrow> byte" where
  "file_byte v x q = vk v (file_block v x (q div BSIZE)) ! (q mod BSIZE)"

text \<open>Block \<open>bn\<close> of the file is allocated and can be loaded.\<close>

definition block_ok :: "block_view \<Rightarrow> inode \<Rightarrow> nat \<Rightarrow> bool" where
  "block_ok v x bn \<longleftrightarrow> bn < MAXFILE \<and> (NDIRECT \<le> bn \<longrightarrow> i_addrs x ! NDIRECT \<noteq> 0 \<and> room v (i_addrs x ! NDIRECT))
     \<and> file_block v x bn \<noteq> 0 \<and> room v (file_block v x bn) \<and> length (vk v (file_block v x bn)) = BSIZE"

lemma bmap_view:
  fixes s :: "'a fs_state_scheme"
  assumes i: "binv s p" and d: "i_dev (inodes s ip) = ROOTDEV" and k: "block_ok (view s) (inodes s ip) bn"
  obtains t where "bmap ip bn s = Ok (file_block (view s) (inodes s ip) bn) t" "binv t p" "bio_frame s t" "view t = view s"
proof (cases "bn < NDIRECT")
  case True
  with k show ?thesis by (intro that [of s]) (auto simp: bmap_def block_ok_def file_block_def i)
next
  case False
  let ?a = "i_addrs (inodes s ip) ! NDIRECT"
  have r: "room (view s) ?a" and a: "?a \<noteq> 0" and b: "bn - NDIRECT < NINDIRECT"
    and nz: "get32 (vk (view s) ?a) (4 * (bn - NDIRECT)) \<noteq> 0"
    using False k by (auto simp: block_ok_def MAXFILE_def file_block_def)
  obtain b s1 t where 1: "bread ROOTDEV ?a s = Ok b s1" "data (bufs s1 b) = vk (view s) ?a" "bio_frame s s1"
    "brelse b s1 = Ok () t" "binv t p" "bio_frame s t" "view t = view s" "keeps_bufs s t" by (rule read_release [OF i r])
  have "bmap ip bn s = Ok (file_block (view s) (inodes s ip) bn) t"
    using False a b nz 1(1,2,4) d by (simp add: bmap_def file_block_def)
  then show ?thesis using 1 by (intro that [of t])
qed

lemma div_mod_within:
  fixes a b j :: nat
  assumes "a mod b + j < b"
  shows "(a + j) div b = a div b" "(a + j) mod b = a mod b + j"
proof -
  define q r where "q = a div b" and "r = a mod b"
  have a: "a + j = q * b + (r + j)" by (simp add: q_def r_def)
  have r: "r + j < b" using assms by (simp add: r_def)
  have "(q * b + (r + j)) div b = q" "(q * b + (r + j)) mod b = r + j" using r by (simp_all add: div_mult_self3)
  then show "(a + j) div b = a div b" "(a + j) mod b = a mod b + j" unfolding a by (simp_all add: q_def r_def)
qed

lemma file_bytes_block:
  assumes "off mod BSIZE + m \<le> BSIZE" "length (vk v (file_block v x (off div BSIZE))) = BSIZE"
  shows "sub_bytes (vk v (file_block v x (off div BSIZE))) (off mod BSIZE) m = map (file_byte v x) [off..<off + m]"
proof (rule nth_equalityI)
  show "length (sub_bytes (vk v (file_block v x (off div BSIZE))) (off mod BSIZE) m) = length (map (file_byte v x) [off..<off + m])"
    using assms by (simp add: sub_bytes_def)
  fix j
  assume "j < length (sub_bytes (vk v (file_block v x (off div BSIZE))) (off mod BSIZE) m)"
  then have j: "j < m" "off mod BSIZE + j < BSIZE" using assms by (auto simp: sub_bytes_def)
  have "(off + j) div BSIZE = off div BSIZE" "(off + j) mod BSIZE = off mod BSIZE + j"
    using div_mod_within [OF j(2)] by simp_all
  with j assms show "sub_bytes (vk v (file_block v x (off div BSIZE))) (off mod BSIZE) m ! j = map (file_byte v x) [off..<off + m] ! j"
    by (simp add: sub_bytes_def file_byte_def)
qed

lemma readi_loop_view:
  fixes s :: "'a fs_state_scheme"
  assumes "binv s p" "i_dev (inodes s ip) = ROOTDEV" "tot \<le> n"
    and "\<forall>q < n - tot. block_ok (view s) (inodes s ip) ((off + q) div BSIZE)"
  shows "\<exists>t. readi_loop ip LocalDst tot off n s = Ok (n, map (file_byte (view s) (inodes s ip)) [off..<off + (n - tot)]) t
    \<and> binv t p \<and> bio_frame s t \<and> view t = view s"
  using assms
proof (induction "n - tot" arbitrary: tot off s rule: less_induct)
  case less
  note i = less.prems(1) and d = less.prems(2) and tn = less.prems(3) and k = less.prems(4)
  show ?case
  proof (cases "tot < n")
    case False
    with tn i show ?thesis by (subst readi_loop.simps) simp
  next
    case True
    let ?x = "inodes s ip" and ?v = "view s"
    let ?a = "file_block ?v ?x (off div BSIZE)"
    define m where "m = min (n - tot) (BSIZE - off mod BSIZE)"
    have k0: "block_ok ?v ?x (off div BSIZE)" using k True by (auto dest: spec [of _ 0])
    have bs: "off mod BSIZE < BSIZE" by (simp add: BSIZE_def)
    then have m: "0 < m" "m \<le> n - tot" "off mod BSIZE + m \<le> BSIZE" using True by (auto simp: m_def)
    obtain s0 where 0: "bmap ip (off div BSIZE) s = Ok ?a s0" "binv s0 p" "bio_frame s s0" "view s0 = ?v"
      by (rule bmap_view [OF i d k0])
    have r: "room (view s0) ?a" using k0 by (simp add: block_ok_def 0(4))
    obtain b s1 s2 where 1: "bread ROOTDEV ?a s0 = Ok b s1" "data (bufs s1 b) = vk (view s0) ?a" "bio_frame s0 s1"
      "brelse b s1 = Ok () s2" "binv s2 p" "bio_frame s0 s2" "view s2 = view s0" "keeps_bufs s0 s2" by (rule read_release [OF 0(2) r])
    note f0 = bio_frame_fs [OF 0(3)] and f2 = bio_frame_fs [OF 1(6)]
    have bl: "sub_bytes (vk ?v ?a) (off mod BSIZE) m = map (file_byte ?v ?x) [off..<off + m]"
      using m(3) k0 by (intro file_bytes_block) (auto simp: block_ok_def)
    have "\<exists>t. readi_loop ip LocalDst (tot + m) (off + m) n s2
        = Ok (n, map (file_byte (view s2) (inodes s2 ip)) [off + m..<off + m + (n - (tot + m))]) t \<and> binv t p \<and> bio_frame s2 t \<and> view t = view s2"
    proof (rule less.hyps)
      show "\<forall>q < n - (tot + m). block_ok (view s2) (inodes s2 ip) ((off + m + q) div BSIZE)"
      proof (intro allI impI)
        fix q
        assume "q < n - (tot + m)"
        then have "m + q < n - tot" by simp
        with k have "block_ok ?v ?x ((off + (m + q)) div BSIZE)" by blast
        then show "block_ok (view s2) (inodes s2 ip) ((off + m + q) div BSIZE)" by (simp add: 1(7) 0(4) f2 f0 add.assoc)
      qed
    qed (use m True i d 1(5) in \<open>simp_all add: f2 f0\<close>)
    moreover have e: "off + m + (n - (tot + m)) = off + (n - tot)" using m(2) by linarith
    ultimately obtain t where t: "readi_loop ip LocalDst (tot + m) (off + m) n s2
        = Ok (n, map (file_byte ?v ?x) [off + m..<off + (n - tot)]) t" "binv t p" "bio_frame s2 t" "view t = ?v"
      using e by (auto simp: 1(7) 0(4) f2 f0)
    have e2: "off + m + (n - tot - m) = off + (n - tot)" using m(2) by linarith
    have ap: "[off..<off + (n - tot)] = [off..<off + m] @ [off + m..<off + (n - tot)]"
      using upt_add_eq_append [of off "off + m" "n - tot - m", unfolded e2] by simp
    have "readi_loop ip LocalDst tot off n s = Ok (n, map (file_byte ?v ?x) [off..<off + (n - tot)]) t"
      unfolding ap map_append
      by (subst readi_loop.simps) (simp add: True 0(1) d f0 1(1,2,4) 0(4) copy_to_def bl t(1) Let_def flip: m_def)
    then show ?thesis using t bio_frame_trans [OF bio_frame_trans [OF 0(3) 1(6)] t(3)] by blast
  qed
qed

text \<open>How many bytes a read of \<open>n\<close> bytes at \<open>off\<close> gets.\<close>

definition read_count :: "inode \<Rightarrow> uint \<Rightarrow> uint \<Rightarrow> nat" where
  "read_count x off n = (if off > i_size x \<or> off + n < off then 0 else min (unat n) (unat (i_size x) - unat off))"

lemma readi_view:
  fixes s :: "'a fs_state_scheme"
  assumes "binv s p" "i_dev (inodes s ip) = ROOTDEV"
    and "\<forall>q < unat (i_size (inodes s ip)). block_ok (view s) (inodes s ip) (q div BSIZE)"
  shows "\<exists>t. readi ip LocalDst off n s = Ok (read_count (inodes s ip) off n,
      map (file_byte (view s) (inodes s ip)) [unat off..<unat off + read_count (inodes s ip) off n]) t
    \<and> binv t p \<and> bio_frame s t \<and> view t = view s"
proof (cases "off > i_size (inodes s ip) \<or> off + n < off")
  case True
  then show ?thesis using assms(1) by (auto simp: readi_def read_count_def)
next
  case False
  let ?x = "inodes s ip"
  let ?n = "if off + n > i_size ?x then i_size ?x - off else n"
  have o: "off \<le> i_size ?x" "off \<le> off + n" using False by auto
  have "unat n < 2 ^ 32" using unsigned_less [of n] by simp
  then have un: "unat (off + n) = unat off + unat n" using o(2) by (simp add: word_le_nat_alt unat_plus_if' split: if_splits)
  have m: "unat ?n = read_count ?x off n" using False o un by (auto simp: read_count_def unat_sub word_less_nat_alt word_le_nat_alt)
  then have "\<forall>q < unat ?n - 0. block_ok (view s) ?x ((unat off + q) div BSIZE)"
    using assms(3) False o by (auto simp: read_count_def)
  from readi_loop_view [OF assms(1,2) _ this] have "\<exists>t. readi_loop ip LocalDst 0 (unat off) (unat ?n) s
      = Ok (unat ?n, map (file_byte (view s) ?x) [unat off..<unat off + (unat ?n - 0)]) t \<and> binv t p \<and> bio_frame s t \<and> view t = view s"
    by simp
  then show ?thesis using False m by (simp add: readi_def Let_def del: if_split)
qed


text \<open>A booted system with one inode in the cache, in the middle of an operation.\<close>

definition demo_sb :: superblock where
  "demo_sb = \<lparr>sb_magic = FSMAGIC, sb_size = 1000, sb_nblocks = 954, sb_ninodes = 200, sb_nlog = 30, sb_logstart = 2,
     sb_inodestart = 32, sb_bmapstart = 45\<rparr>"

definition demo_inode :: "uint \<Rightarrow> uint list \<Rightarrow> inode" where
  "demo_inode n as = \<lparr>i_dev = ROOTDEV, i_inum = 7, i_ref = 1, i_lock = \<lparr>sl_locked = True, sl_pid = 5\<rparr>, i_valid = True,
     i_type = T_FILE, i_major = 0, i_minor = 0, i_nlink = 1, i_size = n, i_addrs = as\<rparr>"

definition demo_fs :: "(uint \<Rightarrow> block) \<Rightarrow> inode \<Rightarrow> fs_state" where
  "demo_fs dk x = log_state.extend (demo_log dk) \<lparr>sb = demo_sb, inodes = (\<lambda>_. x)\<rparr>"

lemma demo_fs_boot:
  obtains s where "binit (demo_fs dk x) = Ok () s" "binv s 3" "view s = \<lparr>vk = dk, vd = dk, vr = (\<lambda>_. 0), vl = (\<lambda>_. False)\<rparr>"
    "sb s = demo_sb" "inodes s = (\<lambda>_. x)" "outstanding s = 1" "lh_n s = 0" "log_size s = 30"
proof -
  have h: "held (demo_fs dk x) = {}" "curproc (demo_fs dk x) = Some 3" "\<forall>b \<le> NBUF. bufs (demo_fs dk x) b = zero_buf"
    by (simp_all add: demo_fs_def log_state.defs demo_log_def bio_state.defs demo_bio_def demo_ps_def proc_state.defs)
  have d: "disk (demo_fs dk x) = dk" by (simp add: demo_fs_def log_state.defs demo_log_def bio_state.defs)
  obtain s where s: "binit (demo_fs dk x) = Ok () s" "binv s 3" "disk s = disk (demo_fs dk x)"
    "view s = \<lparr>vk = disk (demo_fs dk x), vd = disk (demo_fs dk x), vr = (\<lambda>_. 0), vl = (\<lambda>_. False)\<rparr>"
    using binit_ok [OF h] by metis
  have "held s = {}" using s(2) by (simp add: binv_def)
  then have f: "s = (demo_fs dk x)\<lparr>bufs := bufs s\<rparr>" using binit_frame [OF h(1) s(1)] by simp
  have "sb s = demo_sb" "inodes s = (\<lambda>_. x)" "outstanding s = 1" "lh_n s = 0" "log_size s = 30"
    by (subst f, simp add: demo_fs_def log_state.defs demo_log_def bio_state.defs)+
  then show ?thesis using that s d by simp
qed


section \<open>Allocation of blocks\<close>

text \<open>A process inside an operation that may still change the blocks of \<open>B\<close>, while it holds the locks of the blocks of \<open>L\<close>: the log
  and the cache have room for those of \<open>B\<close> that are not in the transaction, and no reference count is near its end. The
  operation keeps this as long as it changes no block outside \<open>B\<close>.\<close>

definition in_op :: "'a log_state_scheme \<Rightarrow> nat \<Rightarrow> uint set \<Rightarrow> uint set \<Rightarrow> bool" where
  "in_op s p L B \<longleftrightarrow> binv s p \<and> log_inv s \<and> 1 \<le> outstanding s
     \<and> lh_n s + int (card (B - logged s)) < int LOGSIZE \<and> lh_n s + int (card (B - logged s)) < log_size s - 1
     \<and> (\<forall>n. vl (view s) n \<longleftrightarrow> n \<in> L) \<and> (\<forall>n \<in> L. vr (view s) n \<noteq> 0 \<and> (n \<in> logged s \<longrightarrow> vr (view s) n \<noteq> 1)) \<and> card ({m. vr (view s) m \<noteq> 0} \<union> B) < NBUF
     \<and> (\<forall>m. unat (vr (view s) m) + (if m \<in> logged s then 0 else 1) + (if m \<in> L then 1 else 2) < 2 ^ 32)"

lemma in_opD:
  assumes "in_op s p L B"
  shows "binv s p" "n \<notin> L \<Longrightarrow> can_log s p n" "n \<notin> L \<Longrightarrow> room (view s) n"
proof -
  note q = assms [unfolded in_op_def]
  show "binv s p" using q by blast
  have "{m. vr (view s) m \<noteq> 0} \<subseteq> {m. vr (view s) m \<noteq> 0} \<union> B" by blast
  then have c: "card {m. vr (view s) m \<noteq> 0} < NBUF" using q card_mono [of "{m. vr (view s) m \<noteq> 0} \<union> B"] by (auto intro: le_less_trans)
  assume n: "n \<notin> L"
  have "unat (vr (view s) n) + (if n \<in> logged s then 0 else 1) + (if n \<in> L then 1 else 2) < 2 ^ 32" using q by blast
  then have u: "unat (vr (view s) n) + 2 < 2 ^ 32" using n by (simp split: if_splits)
  have "unat (vr (view s) n + 1) = unat (vr (view s) n) + 1" "unat (vr (view s) n + 2) = unat (vr (view s) n) + 2"
    using u by (simp_all add: unat_plus_if')
  then have w: "vr (view s) n + 1 \<noteq> 0" "vr (view s) n + 2 \<noteq> 0" by auto
  show r: "room (view s) n" using q w c n by (auto simp: room_def)
  have "lh_n s < int LOGSIZE" "lh_n s < log_size s - 1" using q by linarith+
  then show "can_log s p n" using q r w by (auto simp: can_log_def)
qed

lemma in_op_read:
  fixes s t :: "'a log_state_scheme"
  assumes "in_op s p L B" "binv t p" "bio_frame s t" "view t = view s"
  shows "in_op t p L B"
proof -
  have e: "logged t = logged s" "log_inv t = log_inv s" "outstanding t = outstanding s" "lh_n t = lh_n s" "log_size t = log_size s"
    using bio_frame_log [OF assms(3)] assms(4) by (simp_all add: log_inv_def logged_def)
  show ?thesis using assms(1,2) unfolding in_op_def e assms(4) by blast
qed

text \<open>The bookkeeping when block \<open>n\<close> enters the transaction.\<close>

lemma in_op_logs:
  fixes s t :: "'a log_state_scheme"
  assumes q: "in_op s p L B" and n: "n \<in> B" and t: "binv t p" "log_inv t" "outstanding t = outstanding s" "log_size t = log_size s"
    "vl (view t) = vl (view s)" "vr (view t) = (vr (view s))(n := vr (view s) n + (if n \<in> logged s then 0 else 1))"
    "logged t = insert n (logged s)" "lh_n t = (if n \<in> logged s then lh_n s else lh_n s + 1)"
  shows "in_op t p L B"
proof -
  note q = q [unfolded in_op_def]
  let ?r = "vr (view s)" and ?l = "logged s"
  have u: "unat (?r n) + (if n \<in> ?l then 0 else 1) + (if n \<in> L then 1 else 2) < 2 ^ 32" using q by blast
  have p: "n \<in> ?l \<Longrightarrow> ?r n \<noteq> 0" using q by (simp add: log_inv_def)
  have r: "unat (vr (view t) n) = unat (?r n) + (if n \<in> ?l then 0 else 1)" using u by (simp add: t(6) unat_plus_if' split: if_splits)
  then have nz: "?r m \<noteq> 0 \<Longrightarrow> vr (view t) m \<noteq> 0" for m using r by (cases "m = n") (auto simp: t(6))
  have c: "lh_n t + int (card (B - logged t)) = lh_n s + int (card (B - ?l))"
  proof (cases "n \<in> ?l")
    case True
    then show ?thesis by (simp add: t(7,8) insert_absorb)
  next
    case False
    have "B - ?l = insert n (B - insert n ?l)" using False n by blast
    then have "card (B - ?l) = Suc (card (B - insert n ?l))" by (metis DiffE card_insert_disjoint finite insertI1)
    then show ?thesis using False by (simp add: t(7,8))
  qed
  have "{m. vr (view t) m \<noteq> 0} \<union> B \<subseteq> {m. ?r m \<noteq> 0} \<union> B" using n by (auto simp: t(6))
  then have "card ({m. vr (view t) m \<noteq> 0} \<union> B) \<le> card ({m. ?r m \<noteq> 0} \<union> B)" by (intro card_mono) auto
  moreover have "unat (vr (view t) m) + (if m \<in> logged t then 0 else 1) + (if m \<in> L then 1 else 2) < 2 ^ 32" for m
  proof (cases "m = n")
    case True
    then show ?thesis using u r by (simp add: t(7))
  next
    case False
    then have "vr (view t) m = ?r m" "m \<in> logged t \<longleftrightarrow> m \<in> ?l" by (simp_all add: t(6,7))
    with q show ?thesis by (simp only:)
  qed
  moreover have "\<forall>m \<in> L. vr (view t) m \<noteq> 0 \<and> (m \<in> logged t \<longrightarrow> vr (view t) m \<noteq> 1)"
    using q nz by (auto simp: t(6,7))
  ultimately show ?thesis using q t(1-5) unfolding in_op_def c by (auto intro: le_less_trans)
qed

lemma store_block:
  fixes s :: "'a log_state_scheme"
  assumes q: "in_op s p L B" and n: "n \<in> B" "n \<notin> L"
  obtains b s1 s2 t where "bread ROOTDEV n s = Ok b s1" "data (bufs s1 b) = vk (view s) n" "bio_frame s s1"
    "log_write b (set_data b d s1) = Ok () s2" "brelse b s2 = Ok () t" "in_op t p L B" "log_frame s t"
    "vk (view t) = (vk (view s))(n := d)" "vd (view t) = vd (view s)" "logged t = insert n (logged s)" "keeps_bufs s t"
proof -
  obtain b s1 s2 t where 1: "bread ROOTDEV n s = Ok b s1" "data (bufs s1 b) = vk (view s) n" "bio_frame s s1"
    "log_write b (set_data b d s1) = Ok () s2" "brelse b s2 = Ok () t" "binv t p" "log_frame s t" "log_inv t"
    "view t = store_view s n d" "logged t = insert n (logged s)" "lh_n t = (if n \<in> logged s then lh_n s else lh_n s + 1)" "keeps_bufs s t"
    by (rule load_store [OF in_opD(2) [OF q n(2)]])
  have "outstanding t = outstanding s" "log_size t = log_size s" using 1(7) by (auto simp: log_frame_def)
  then have "in_op t p L B" using 1(6,8,10,11) by (intro in_op_logs [OF q n(1)]) (simp_all add: 1(9) store_view_def)
  then show ?thesis using 1 by (intro that [of b s1 s2 t]) (simp_all add: 1(9) store_view_def)
qed

lemma bzero_view:
  fixes s :: "'a fs_state_scheme"
  assumes q: "in_op s p L B" and n: "n \<in> B" "n \<notin> L"
  obtains t where "bzero ROOTDEV n s = Ok () t" "in_op t p L B" "log_frame s t" "vk (view t) = (vk (view s))(n := replicate BSIZE 0)"
    "vd (view t) = vd (view s)" "logged t = insert n (logged s)" "keeps_bufs s t"
proof -
  obtain b s1 s2 t where 1: "bread ROOTDEV n s = Ok b s1" "data (bufs s1 b) = vk (view s) n" "bio_frame s s1"
    "log_write b (set_data b (replicate BSIZE 0) s1) = Ok () s2" "brelse b s2 = Ok () t" "in_op t p L B" "log_frame s t"
    "vk (view t) = (vk (view s))(n := replicate BSIZE 0)" "vd (view t) = vd (view s)" "logged t = insert n (logged s)" "keeps_bufs s t"
    by (rule store_block [OF q n])
  then have "bzero ROOTDEV n s = Ok () t" by (simp add: bzero_def)
  with 1 show ?thesis by (intro that [of t])
qed

text \<open>The bitmap.\<close>

definition block_free :: "block_view \<Rightarrow> superblock \<Rightarrow> nat \<Rightarrow> bool" where
  "block_free v su a = bit_free (vk v (BBLOCK (of_nat a) su)) (a mod BPB)"

lemma bit_free_iff: "bit_free d i \<longleftrightarrow> \<not> bit (d ! (i div 8)) (i mod 8)"
  by (simp add: bit_free_def push_bit_eq_mult and_exp_eq_0_iff_not_bit)

lemma bit_free_set_clear:
  assumes "i div 8 < length d" "j div 8 < length d"
  shows "bit_free (bit_set d i) j \<longleftrightarrow> j \<noteq> i \<and> bit_free d j" "bit_free (bit_clear d i) j \<longleftrightarrow> j = i \<or> bit_free d j"
proof -
  have e: "j div 8 = i div 8 \<Longrightarrow> j mod 8 = i mod 8 \<longleftrightarrow> j = i" by (metis div_mult_mod_eq)
  have m: "i mod 8 < 8" "j mod 8 < 8" by simp_all
  show "bit_free (bit_set d i) j \<longleftrightarrow> j \<noteq> i \<and> bit_free d j"
    using assms e m by (auto simp: bit_free_iff bit_set_def nth_list_update bit_or_iff bit_exp_iff push_bit_eq_mult)
  show "bit_free (bit_clear d i) j \<longleftrightarrow> j = i \<or> bit_free d j"
    using assms e m by (auto simp: bit_free_iff bit_clear_def nth_list_update bit_and_iff bit_not_iff bit_exp_iff push_bit_eq_mult)
qed

lemma BBLOCK_nat: "a < 2 ^ 32 \<Longrightarrow> BBLOCK (of_nat a) su = of_nat (a div BPB) + sb_bmapstart su"
proof -
  assume a: "a < 2 ^ 32"
  have "unat (of_nat a div of_nat BPB :: uint) = a div BPB"
    using a by (simp add: unat_div_distrib unat_of_nat take_bit_nat_eq_self BPB_def BSIZE_def)
  moreover have "a div BPB < 2 ^ 32" using a div_le_dividend [of a BPB] by linarith
  then have "unat (of_nat (a div BPB) :: uint) = a div BPB" by (simp add: unat_of_nat take_bit_nat_eq_self)
  ultimately have "of_nat a div of_nat BPB = (of_nat (a div BPB) :: uint)" by (simp add: word_unat_eq_iff)
  then show ?thesis by (simp add: BBLOCK_def)
qed

lemma balloc_skip:
  fixes s :: "'a fs_state_scheme"
  assumes "in_op s p L B" and "\<forall>b \<in> set pre. BBLOCK (of_nat b) (sb s) \<notin> L"
    and "\<forall>b \<in> set pre. \<forall>bi < min BPB (unat (sb_size (sb s)) - b). \<not> bit_free (vk (view s) (BBLOCK (of_nat b) (sb s))) bi"
  shows "\<exists>t. balloc_loop ROOTDEV (pre @ post) s = balloc_loop ROOTDEV post t \<and> in_op t p L B \<and> bio_frame s t \<and> view t = view s
    \<and> keeps_bufs s t"
  using assms
proof (induction pre arbitrary: s)
  case Nil
  then show ?case by auto
next
  case (Cons b pre)
  let ?n = "BBLOCK (of_nat b) (sb s)"
  obtain c s1 t where 1: "bread ROOTDEV ?n s = Ok c s1" "data (bufs s1 c) = vk (view s) ?n" "bio_frame s s1"
    "brelse c s1 = Ok () t" "binv t p" "bio_frame s t" "view t = view s" "keeps_bufs s t"
    by (rule read_release [OF in_opD(1,3) [OF Cons.prems(1)]]) (use Cons.prems(2) in auto)
  note f1 = bio_frame_fs [OF 1(3)] and ft = bio_frame_fs [OF 1(6)]
  have "find (bit_free (vk (view s) ?n)) [0..<min BPB (unat (sb_size (sb s)) - b)] = None"
    using Cons.prems(3) by (auto simp: find_None_iff)
  then have e: "balloc_loop ROOTDEV ((b # pre) @ post) s = balloc_loop ROOTDEV (pre @ post) t"
    using 1(1,2,4) by (simp add: f1)
  have "\<exists>u. balloc_loop ROOTDEV (pre @ post) t = balloc_loop ROOTDEV post u \<and> in_op u p L B \<and> bio_frame t u \<and> view u = view t \<and> keeps_bufs t u"
    by (rule Cons.IH [OF in_op_read [OF Cons.prems(1) 1(5,6,7)]]) (use Cons.prems(2,3) in \<open>simp_all add: ft 1(7)\<close>)
  then show ?case unfolding e using 1(6,7) bio_frame_trans keeps_bufs_trans [OF 1(8)] by fastforce
qed

lemma BPB_pos: "0 < BPB"
  by (simp add: BPB_def BSIZE_def)

lemma BBLOCK_within:
  assumes "bi < BPB" "j * BPB + bi < 2 ^ 32"
  shows "BBLOCK (of_nat (j * BPB + bi)) su = BBLOCK (of_nat (j * BPB)) su"
proof -
  have l: "j * BPB < 2 ^ 32" using assms by linarith
  have e: "(j * BPB + bi) div BPB = j" "j * BPB div BPB = j" using assms(1) by simp_all
  show ?thesis unfolding BBLOCK_nat [OF assms(2)] BBLOCK_nat [OF l] e ..
qed

lemma block_free_within:
  assumes "bi < BPB" "j * BPB + bi < 2 ^ 32"
  shows "block_free v su (j * BPB + bi) = bit_free (vk v (BBLOCK (of_nat (j * BPB)) su)) bi"
  using assms(1) unfolding block_free_def BBLOCK_within [OF assms] by simp

lemma bitmap_split:
  assumes "a < n"
  shows "map (\<lambda>k. k * BPB) [0..<(n + BPB - 1) div BPB]
    = map (\<lambda>k. k * BPB) [0..<a div BPB] @ (a div BPB * BPB) # map (\<lambda>k. k * BPB) [Suc (a div BPB)..<(n + BPB - 1) div BPB]"
proof -
  let ?k = "a div BPB" and ?m = "(n + BPB - 1) div BPB"
  have "?k * BPB < n" using assms div_times_less_eq_dividend [of a BPB] by linarith
  then have "Suc ?k * BPB \<le> n + BPB - 1" by simp
  then have "Suc ?k \<le> ?m" using BPB_pos by (simp only: less_eq_div_iff_mult_less_eq)
  then have "?k < ?m" by simp
  then have "[0..<?m] = [0..<?k] @ ?k # [Suc ?k..<?m]" using upt_conv_Cons [of ?k ?m] upt_add_eq_append [of 0 ?k "?m - ?k"] by simp
  then show ?thesis by simp
qed

lemma full_blocks_before:
  assumes a: "a < unat (sb_size su)" and us: "\<forall>b < a. \<not> block_free v su b"
  shows "\<forall>b \<in> set (map (\<lambda>k. k * BPB) [0..<a div BPB]). \<forall>bi < min BPB (unat (sb_size su) - b). \<not> bit_free (vk v (BBLOCK (of_nat b) su)) bi"
proof (intro ballI allI impI)
  fix b bi
  assume b: "b \<in> set (map (\<lambda>k. k * BPB) [0..<a div BPB])" and bi: "bi < min BPB (unat (sb_size su) - b)"
  from b have "b \<in> (\<lambda>k. k * BPB) ` {0..<a div BPB}" by simp
  then obtain j where "j \<in> {0..<a div BPB}" and jb: "b = j * BPB" by blast
  then have j: "b = j * BPB" "j < a div BPB" by simp_all
  have "Suc j * BPB \<le> a div BPB * BPB" using j(2) by (intro mult_le_mono1) simp
  then have "Suc j * BPB \<le> a" by (rule order.trans) (rule div_times_less_eq_dividend)
  then have "BPB + j * BPB \<le> a" by simp
  moreover have "bi < BPB" using bi by simp
  ultimately have lt: "j * BPB + bi < a" by linarith
  have "unat (sb_size su) < 2 ^ 32" using unsigned_less [of "sb_size su"] by simp
  with lt us a bi block_free_within [of bi j v su] show "\<not> bit_free (vk v (BBLOCK (of_nat b) su)) bi" by (simp add: j)
qed

lemma find_upt: "i < n \<Longrightarrow> P i \<Longrightarrow> (\<And>j. j < i \<Longrightarrow> \<not> P j) \<Longrightarrow> find P [0..<n] = Some i"
  by (auto simp: find_Some_iff intro!: exI [of _ i])

lemma balloc_view:
  fixes s :: "'a fs_state_scheme"
  assumes q: "in_op s p L B" and B: "{BBLOCK (of_nat a) (sb s), of_nat a} \<subseteq> B - L" and bl: "\<forall>b < a. BBLOCK (of_nat b) (sb s) \<notin> L" and a: "a < unat (sb_size (sb s))" and fr: "block_free (view s) (sb s) a"
    and us: "\<forall>b < a. \<not> block_free (view s) (sb s) b"
  shows "\<exists>t. balloc ROOTDEV s = Ok (of_nat a) t \<and> in_op t p L B \<and> log_frame s t \<and> keeps_bufs s t
    \<and> vk (view t) = (vk (view s))(BBLOCK (of_nat a) (sb s) := bit_set (vk (view s) (BBLOCK (of_nat a) (sb s))) (a mod BPB),
                                  of_nat a := replicate BSIZE 0)
    \<and> logged t = logged s \<union> {BBLOCK (of_nat a) (sb s), of_nat a}"
proof -
  let ?N = "unat (sb_size (sb s))" and ?k = "a div BPB" and ?bi = "a mod BPB"
  define post where "post = map (\<lambda>k. k * BPB) [Suc ?k..<(?N + BPB - 1) div BPB]"
  have N: "?N < 2 ^ 32" using unsigned_less [of "sb_size (sb s)"] by simp
  let ?n = "BBLOCK (of_nat (?k * BPB)) (sb s)"
  let ?d = "bit_set (vk (view s) ?n) ?bi"
  have ab: "?k * BPB + ?bi = a" "?bi < BPB" by (simp_all add: BPB_pos)
  note fw = block_free_within [where v = "view s" and su = "sb s"]
  have nb: "BBLOCK (of_nat a) (sb s) = ?n" using BBLOCK_within [of ?bi ?k "sb s"] ab a N by simp
  have bp: "\<forall>b \<in> set (map (\<lambda>k. k * BPB) [0..<?k]). BBLOCK (of_nat b) (sb s) \<notin> L"
  proof
    fix b assume "b \<in> set (map (\<lambda>k. k * BPB) [0..<?k])"
    then have "b \<in> (\<lambda>k. k * BPB) ` {0..<?k}" by simp
    then obtain j where "b = j * BPB" "j \<in> {0..<?k}" by blast
    then have "b < ?k * BPB" using BPB_pos by simp
    then have "b < a" using ab(1) by linarith
    then show "BBLOCK (of_nat b) (sb s) \<notin> L" using bl by blast
  qed
  obtain s0 where 0: "balloc ROOTDEV s = balloc_loop ROOTDEV ((?k * BPB) # post) s0"
    "in_op s0 p L B" "bio_frame s s0" "view s0 = view s" "keeps_bufs s s0"
    unfolding balloc_def bitmap_split [OF a, folded post_def]
    using balloc_skip [OF q _ full_blocks_before [OF a us], of "(?k * BPB) # post"] bp by blast
  note f0 = bio_frame_fs [OF 0(3)]
  have fd: "find (bit_free (vk (view s) ?n)) [0..<min BPB (?N - ?k * BPB)] = Some ?bi"
  proof (rule find_upt)
    have "?bi < ?N - ?k * BPB" using ab a by linarith
    with ab(2) show "?bi < min BPB (?N - ?k * BPB)" by simp
    show "bit_free (vk (view s) ?n) ?bi" using fr by (simp add: block_free_def nb)
    fix j assume "j < ?bi"
    then have lt: "?k * BPB + j < a" "j < BPB" using ab by linarith+
    with us fw [of j ?k] a N show "\<not> bit_free (vk (view s) ?n) j" by simp
  qed
  obtain b s1 s2 s3 where 1: "bread ROOTDEV ?n s0 = Ok b s1" "data (bufs s1 b) = vk (view s0) ?n" "bio_frame s0 s1"
    "log_write b (set_data b ?d s1) = Ok () s2" "brelse b s2 = Ok () s3" "in_op s3 p L B" "log_frame s0 s3"
    "vk (view s3) = (vk (view s0))(?n := ?d)" "vd (view s3) = vd (view s0)" "logged s3 = insert ?n (logged s0)" "keeps_bufs s0 s3"
    by (rule store_block [OF 0(2), of ?n]) (use B nb in auto)
  obtain t where 2: "bzero ROOTDEV (of_nat a) s3 = Ok () t" "in_op t p L B" "log_frame s3 t"
    "vk (view t) = (vk (view s3))(of_nat a := replicate BSIZE 0)" "vd (view t) = vd (view s3)" "logged t = insert (of_nat a) (logged s3)" "keeps_bufs s3 t"
    by (rule bzero_view [OF 1(6), of "of_nat a"]) (use B in auto)
  note f1 = bio_frame_fs [OF 1(3)]
  have "balloc ROOTDEV s = Ok (of_nat a) t"
    unfolding 0(1) balloc_loop.simps(2) f0 using 1(1,2,4,5) 2(1) fd ab(1) by (simp add: f1 f0 0(4))
  moreover have "logged s0 = logged s" using bio_frame_log [OF 0(3)] by (simp add: logged_def)
  ultimately show ?thesis
    using 2 1 0 log_frame_trans [OF bio_log_frame [OF 0(3)] log_frame_trans [OF 1(7) 2(3)]]
      keeps_bufs_trans [OF 0(5) keeps_bufs_trans [OF 1(11) 2(7)]] by (auto simp: nb)
qed


lemma in_op_demo:
  fixes s :: fs_state
  assumes "binv s 3" "view s = \<lparr>vk = dk, vd = dk, vr = (\<lambda>_. 0), vl = (\<lambda>_. False)\<rparr>" "outstanding s = 1" "lh_n s = 0" "log_size s = 30"
    "card B < 29"
  shows "in_op s 3 {} B"
  using assms by (simp add: in_op_def log_inv_def logged_def LOGSIZE_def NBUF_def MAXOPBLOCKS_def)


text \<open>C22. \<^verbatim>\<open>bfree\<close> of a block whose bit is already clear panics; otherwise, inside a transaction, it clears that bit and
  no other and puts the bitmap block in the transaction, so that the block is free again.\<close>

theorem bfree_checks_and_clears:
  fixes s :: "'a fs_state_scheme"
  assumes q: "in_op s p {} B" and n: "BBLOCK (of_nat a) (sb s) \<in> B" and a: "a < 2 ^ 32" and l: "length (vk (view s) (BBLOCK (of_nat a) (sb s))) = BSIZE"
  shows "(block_free (view s) (sb s) a \<longrightarrow> bfree ROOTDEV (of_nat a) s = Panic ''freeing free block'') \<and>
    (\<not> block_free (view s) (sb s) a \<longrightarrow> (\<exists>t. bfree ROOTDEV (of_nat a) s = Ok () t \<and> in_op t p {} B \<and> log_frame s t
      \<and> (\<forall>n. n \<noteq> BBLOCK (of_nat a) (sb s) \<longrightarrow> vk (view t) n = vk (view s) n)
      \<and> (\<forall>b < 2 ^ 32. block_free (view t) (sb s) b \<longleftrightarrow> b = a \<or> block_free (view s) (sb s) b)))"
proof -
  let ?n = "BBLOCK (of_nat a) (sb s)" and ?d = "bit_clear (vk (view s) (BBLOCK (of_nat a) (sb s))) (a mod BPB)"
  obtain b s1 s2 t where 1: "bread ROOTDEV ?n s = Ok b s1" "data (bufs s1 b) = vk (view s) ?n" "bio_frame s s1"
    "log_write b (set_data b ?d s1) = Ok () s2" "brelse b s2 = Ok () t" "in_op t p {} B" "log_frame s t"
    "vk (view t) = (vk (view s))(?n := ?d)" "vd (view t) = vd (view s)" "logged t = insert ?n (logged s)" "keeps_bufs s t"
    by (rule store_block [OF q n]) simp
  have u: "unat (of_nat a :: uint) = a" using a by (simp add: unat_of_nat take_bit_nat_eq_self)
  have f: "block_free (view t) (sb s) c \<longleftrightarrow> c = a \<or> block_free (view s) (sb s) c" if c: "c < 2 ^ 32" for c
  proof (cases "BBLOCK (of_nat c) (sb s) = ?n")
    case True
    then have "(of_nat (c div BPB) :: uint) = of_nat (a div BPB)" using BBLOCK_nat [OF c] BBLOCK_nat [OF a] by simp
    moreover have "c div BPB < 2 ^ 32" "a div BPB < 2 ^ 32" using a c div_le_dividend [of _ BPB] le_less_trans by blast+
    ultimately have "c div BPB = a div BPB" by (simp add: word_unat_eq_iff unat_of_nat take_bit_nat_eq_self)
    then have "c mod BPB = a mod BPB \<longleftrightarrow> c = a" by (metis div_mult_mod_eq)
    moreover have "x mod BPB div 8 < BSIZE" for x using mod_less_divisor [OF BPB_pos, of x] by (simp add: BPB_def less_mult_imp_div_less)
    ultimately show ?thesis using l by (simp add: block_free_def True 1(8) bit_free_set_clear(2))
  next
    case False
    then show ?thesis by (auto simp: block_free_def 1(8))
  qed
  show ?thesis using 1 f u by (auto simp: bfree_def block_free_def Let_def)
qed

theorem bfree_checks_and_clears_witness:
  "\<exists>s. binit (demo_fs ((\<lambda>_. replicate BSIZE 0)(45 := [255, 3] @ replicate (BSIZE - 2) 0)) (demo_inode 0 (replicate 13 0))) = Ok () s
     \<and> bfree ROOTDEV 10 s = Panic ''freeing free block'' \<and> (\<exists>t. bfree ROOTDEV 9 s = Ok () t \<and> block_free (view t) (sb s) 9)"
proof -
  let ?dk = "(\<lambda>_. replicate BSIZE 0)(45 := [255, 3] @ replicate (BSIZE - 2) 0) :: uint \<Rightarrow> block" and ?x = "demo_inode 0 (replicate 13 0)"
  obtain s where s: "binit (demo_fs ?dk ?x) = Ok () s" "binv s 3" "view s = \<lparr>vk = ?dk, vd = ?dk, vr = (\<lambda>_. 0), vl = (\<lambda>_. False)\<rparr>"
    "sb s = demo_sb" "inodes s = (\<lambda>_. ?x)" "outstanding s = 1" "lh_n s = 0" "log_size s = 30" by (rule demo_fs_boot)
  have q: "in_op s 3 {} {45}"
    by (rule in_op_demo) (use s(2,3,6-8) in \<open>simp_all add: NBUF_def MAXOPBLOCKS_def\<close>)
  have bl: "BBLOCK (of_nat b) (sb s) = 45" "b mod BPB = b" if "b \<le> 10" for b
    using that by (simp_all add: BBLOCK_nat BPB_def BSIZE_def s(4) demo_sb_def)
  have l: "length (vk (view s) (BBLOCK (of_nat b) (sb s))) = BSIZE" if "b \<le> 10" for b
    using bl(1) [OF that] by (simp add: s(3) BSIZE_def)
  have g: "block_free (view s) (sb s) b = bit_free ([255, 3] @ replicate (BSIZE - 2) 0) b" if "b \<le> 10" for b
    unfolding block_free_def bl [OF that] by (simp add: s(3))
  have f: "block_free (view s) (sb s) 10" "\<not> block_free (view s) (sb s) 9" by (simp_all add: g bit_free_def)
  show ?thesis
    using bfree_checks_and_clears [OF q, of 10] bfree_checks_and_clears [OF q, of 9] bl(1) [of 10] bl(1) [of 9] l [of 10] l [of 9] f s(1) by auto
qed

section \<open>Inodes on disk\<close>

lemma sub_put_inside:
  "k + length bs \<le> length d \<Longrightarrow> o1 + n \<le> length bs \<Longrightarrow> sub_bytes (put_at d k bs) (k + o1) n = sub_bytes bs o1 n"
  by (simp add: sub_bytes_def put_at_def)

lemma sub_bytes_words:
  "i < length as \<Longrightarrow> sub_bytes (concat (map (bytes_of_word w) as)) (w * i) w = bytes_of_word w (as ! i)"
proof (induction as arbitrary: i)
  case Nil
  then show ?case by simp
next
  case (Cons a as)
  then show ?case by (cases i) (simp_all add: sub_bytes_def)
qed

lemma length_words: "length (concat (map (bytes_of_word w) as)) = w * length as"
  by (induction as) simp_all

lemma length_dinode_bytes: "length (di_addrs x) = NDIRECT + 1 \<Longrightarrow> length (dinode_bytes x) = 64"
  by (simp add: dinode_bytes_def length_words NDIRECT_def)

lemma sub_dinode_bytes:
  "sub_bytes (dinode_bytes x) 0 2 = bytes_of_word 2 (di_type x)" "sub_bytes (dinode_bytes x) 2 2 = bytes_of_word 2 (di_major x)"
  "sub_bytes (dinode_bytes x) 4 2 = bytes_of_word 2 (di_minor x)" "sub_bytes (dinode_bytes x) 6 2 = bytes_of_word 2 (di_nlink x)"
  "sub_bytes (dinode_bytes x) 8 4 = bytes_of_word 4 (di_size x)"
  "i < length (di_addrs x) \<Longrightarrow> sub_bytes (dinode_bytes x) (12 + 4 * i) 4 = bytes_of_word 4 (di_addrs x ! i)"
  using sub_bytes_words [of i "di_addrs x" 4] by (simp_all add: dinode_bytes_def sub_bytes_def)

lemma get_put_dinode:
  assumes l: "length (di_addrs x) = NDIRECT + 1" and k: "64 * k + 64 \<le> length d"
  shows "get_dinode (put_dinode k x d) k = x"
    and "j \<noteq> k \<Longrightarrow> 64 * j + 64 \<le> length d \<Longrightarrow> get_dinode (put_dinode k x d) j = get_dinode d j"
proof -
  have b: "length (dinode_bytes x) = 64" using l by (rule length_dinode_bytes)
  have e: "sub_bytes (put_dinode k x d) (64 * k + o1) n = sub_bytes (dinode_bytes x) o1 n" if "o1 + n \<le> 64" for o1 n
    using that b k by (simp add: put_dinode_def sub_put_inside)
  have a: "map (\<lambda>i. get32 (put_dinode k x d) (64 * k + 12 + 4 * i)) [0..<NDIRECT + 1] = di_addrs x"
  proof (rule nth_equalityI)
    fix i
    assume "i < length (map (\<lambda>i. get32 (put_dinode k x d) (64 * k + 12 + 4 * i)) [0..<NDIRECT + 1])"
    then have i: "i < NDIRECT + 1" by simp
    then have "get32 (put_dinode k x d) (64 * k + (12 + 4 * i)) = di_addrs x ! i"
      using e [of "12 + 4 * i" 4] l sub_dinode_bytes(6) [of i x] by (simp add: get32_def NDIRECT_def)
    then show "map (\<lambda>i. get32 (put_dinode k x d) (64 * k + 12 + 4 * i)) [0..<NDIRECT + 1] ! i = di_addrs x ! i"
      using i by (simp add: add.assoc del: upt_Suc)
  qed (simp add: l)
  have z: "sub_bytes (put_dinode k x d) (64 * k) 2 = bytes_of_word 2 (di_type x)" using e [of 0 2] sub_dinode_bytes(1) [of x] by simp
  show "get_dinode (put_dinode k x d) k = x"
    unfolding get_dinode_def a
    by (rule dinode.equality) (simp_all add: get16_def get32_def e sub_dinode_bytes z del: add_2_eq_Suc')
  show "get_dinode (put_dinode k x d) j = get_dinode d j" if "j \<noteq> k" "64 * j + 64 \<le> length d"
  proof -
    have "sub_bytes (put_dinode k x d) (64 * j + o1) n = sub_bytes d (64 * j + o1) n" if o: "o1 + n \<le> 64" for o1 n
    proof -
      have "64 * j + o1 + n \<le> 64 * k \<or> 64 * k + 64 \<le> 64 * j + o1" using \<open>j \<noteq> k\<close> o by presburger
      then show ?thesis using k o b \<open>64 * j + 64 \<le> length d\<close> unfolding put_dinode_def by (intro sub_put_other) auto
    qed
    note f = this
    have f0: "sub_bytes (put_dinode k x d) (64 * j) 2 = sub_bytes d (64 * j) 2" using f [of 0 2] by simp
    have "get32 (put_dinode k x d) (64 * j + 12 + 4 * i) = get32 d (64 * j + 12 + 4 * i)" if "i < NDIRECT + 1" for i
      using f [of "12 + 4 * i" 4] that by (simp add: get32_def NDIRECT_def add.assoc)
    then have "map (\<lambda>i. get32 (put_dinode k x d) (64 * j + 12 + 4 * i)) [0..<NDIRECT + 1] = map (\<lambda>i. get32 d (64 * j + 12 + 4 * i)) [0..<NDIRECT + 1]"
      by (intro map_cong) auto
    then show ?thesis unfolding get_dinode_def by (simp add: get16_def get32_def f f0 del: upt_Suc map_eq_conv add_2_eq_Suc')
  qed
qed

lemma upd_inode_sel [simp]:
  "held (upd_inode i f s) = held s" "procs (upd_inode i f s) = procs s" "curproc (upd_inode i f s) = curproc s"
  "bufs (upd_inode i f s) = bufs s" "disk (upd_inode i f s) = disk s" "sb (upd_inode i f s) = sb s"
  "inodes (upd_inode i f s) = (inodes s)(i := f (inodes s i))" "view (upd_inode i f s) = view s"
  "binv (upd_inode i f s) p = binv s p" "log_inv (upd_inode i f s) = log_inv s" "outstanding (upd_inode i f s) = outstanding s"
  "lh_n (upd_inode i f s) = lh_n s" "log_size (upd_inode i f s) = log_size s" "logged (upd_inode i f s) = logged s"
  by (simp_all add: upd_inode_def view_def binv_def log_inv_def logged_def)

lemma in_op_upd_inode [simp]: "in_op (upd_inode i f s) p L B = in_op s p L B"
  by (simp add: in_op_def)

lemma keeps_bufs_upd_inode [simp]: "keeps_bufs (upd_inode i f s) t = keeps_bufs s t" "keeps_bufs s (upd_inode i f t) = keeps_bufs s t"
  by (simp_all add: keeps_bufs_def)

interpretation il: sleep_lock "InodeSleepLk i" "InodeLockChan i" "\<lambda>s. i_lock (inodes s i)" "put_i_lock i" for i
  by unfold_locales (simp_all add: put_i_lock_def upd_inode_def)

lemma iupdate_view:
  fixes s :: "'a fs_state_scheme"
  assumes q: "in_op s p L B" and n: "IBLOCK (i_inum (inodes s ip)) (sb s) \<in> B - L" and d: "i_dev (inodes s ip) = ROOTDEV"
  obtains t where "iupdate ip s = Ok () t" "in_op t p L B" "log_frame s t"
    "vk (view t) = (vk (view s))(IBLOCK (i_inum (inodes s ip)) (sb s) :=
       put_dinode (unat (i_inum (inodes s ip)) mod IPB) (inode_dinode (inodes s ip)) (vk (view s) (IBLOCK (i_inum (inodes s ip)) (sb s))))"
    "logged t = insert (IBLOCK (i_inum (inodes s ip)) (sb s)) (logged s)"
proof -
  let ?n = "IBLOCK (i_inum (inodes s ip)) (sb s)"
  let ?d = "put_dinode (unat (i_inum (inodes s ip)) mod IPB) (inode_dinode (inodes s ip)) (vk (view s) ?n)"
  obtain b s1 s2 t where 1: "bread ROOTDEV ?n s = Ok b s1" "data (bufs s1 b) = vk (view s) ?n" "bio_frame s s1"
    "log_write b (set_data b ?d s1) = Ok () s2" "brelse b s2 = Ok () t" "in_op t p L B" "log_frame s t"
    "vk (view t) = (vk (view s))(?n := ?d)" "vd (view t) = vd (view s)" "logged t = insert ?n (logged s)" "keeps_bufs s t"
    by (rule store_block [OF q]) (use n in auto)
  have "iupdate ip s = Ok () t" using 1(1,2,4,5) d by (simp add: iupdate_def bio_frame_fs [OF 1(3)])
  with 1 show ?thesis by (intro that [of t])
qed

lemma inode_slot: "j mod IPB < IPB" "j < IPB \<Longrightarrow> 64 * j + 64 \<le> BSIZE"
  by (simp_all add: IPB_def BSIZE_def)

lemma ilock_fills:
  fixes s :: "'a fs_state_scheme"
  assumes b: "binv s p" and y: "inodes s ip = y" "i_dev y = ROOTDEV" "1 \<le> i_ref y" "\<not> i_valid y" "\<not> sl_locked (i_lock y)"
    and r: "room (view s) (IBLOCK (i_inum y) (sb s))"
    and x: "x = get_dinode (vk (view s) (IBLOCK (i_inum y) (sb s))) (unat (i_inum y) mod IPB)" "di_type x \<noteq> 0"
  obtains u where "ilock ip s = Ok () u" "binv u p" "view u = view s" "inode_dinode (inodes u ip) = x" "i_valid (inodes u ip)"
    "i_dev (inodes u ip) = ROOTDEV" "sb u = sb s" "inodes u = (inodes s)(ip := inodes u ip)" "i_ref (inodes u ip) = i_ref y"
    "i_inum (inodes u ip) = i_inum y"
proof -
  let ?n = "IBLOCK (i_inum y) (sb s)" and ?l = "\<lparr>sl_locked = True, sl_pid = pid (procs s p)\<rparr>"
  let ?v = "put_i_lock ip ?l s"
  have h: "held s = {}" "curproc s = Some p" using b by (auto simp: binv_def)
  have a: "acquire_inode ip s = Ok () ?v" using il.take_free [of ip s p] h y by simp
  let ?f = "\<lambda>z. z\<lparr>i_type := di_type x, i_major := di_major x, i_minor := di_minor x, i_nlink := di_nlink x, i_size := di_size x, i_addrs := di_addrs x\<rparr>"
  have bv: "binv ?v p" "room (view ?v) ?n" using b r by (simp_all add: put_i_lock_def)
  obtain c s1 w where 1: "bread ROOTDEV ?n ?v = Ok c s1" "data (bufs s1 c) = vk (view ?v) ?n" "bio_frame ?v s1"
    "brelse c (upd_inode ip ?f s1) = Ok () w" "binv w p" "bio_frame (upd_inode ip ?f s1) w" "view w = view ?v" "keeps_bufs ?v w"
    by (rule read_upd_release [OF bv, of "upd_inode ip ?f"]) simp
  note f1 = bio_frame_fs [OF 1(3)] and fw = bio_frame_fs [OF 1(6)]
  have iv: "inodes ?v ip = y\<lparr>i_lock := ?l\<rparr>" "sb ?v = sb s" "view ?v = view s" using y(1) by (simp_all add: put_i_lock_def)
  have iw: "inodes w ip = ?f (y\<lparr>i_lock := ?l\<rparr>)" by (simp add: fw f1 iv(1) del: upd_inode_sel(2))
  have "ilock ip s = Ok () (upd_inode ip (\<lambda>x. x\<lparr>i_valid := True\<rparr>) w)"
    using y 1(1,2,4) x by (simp add: ilock_def a iv f1 iw Let_def)
  then show ?thesis
  proof (rule that)
    show "sb (upd_inode ip (\<lambda>x. x\<lparr>i_valid := True\<rparr>) w) = sb s" by (simp add: fw f1 iv(2))
    show "inodes (upd_inode ip (\<lambda>x. x\<lparr>i_valid := True\<rparr>) w) = (inodes s)(ip := inodes (upd_inode ip (\<lambda>x. x\<lparr>i_valid := True\<rparr>) w) ip)"
      by (simp add: upd_inode_def fw f1 put_i_lock_def)
  qed (simp_all add: 1(5,7) iw iv(3) inode_dinode_def y(2))
qed

text \<open>C23. \<^verbatim>\<open>iupdate\<close> writes the in-memory inode to its slot of the inode block, as part of the transaction, and changes no
  other inode and no other block. Whenever the cache entry is later recycled and filled for the same inode, \<^verbatim>\<open>ilock\<close>
  reads exactly the fields that were written.\<close>

theorem iupdate_ilock_roundtrip:
  fixes s :: "'a fs_state_scheme"
  assumes q: "in_op s p {} B" and n: "IBLOCK (i_inum (inodes s ip)) (sb s) \<in> B" and x: "i_dev (inodes s ip) = ROOTDEV" "i_type (inodes s ip) \<noteq> 0"
    and l: "length (i_addrs (inodes s ip)) = NDIRECT + 1" "length (vk (view s) (IBLOCK (i_inum (inodes s ip)) (sb s))) = BSIZE"
    and y: "i_dev y = ROOTDEV" "i_inum y = i_inum (inodes s ip)" "1 \<le> i_ref y" "\<not> i_valid y" "\<not> sl_locked (i_lock y)"
  shows "\<exists>t. iupdate ip s = Ok () t \<and> log_frame s t
    \<and> (\<forall>n. n \<noteq> IBLOCK (i_inum (inodes s ip)) (sb s) \<longrightarrow> vk (view t) n = vk (view s) n)
    \<and> (\<forall>j < IPB. j \<noteq> unat (i_inum (inodes s ip)) mod IPB \<longrightarrow> get_dinode (vk (view t) (IBLOCK (i_inum (inodes s ip)) (sb s))) j
         = get_dinode (vk (view s) (IBLOCK (i_inum (inodes s ip)) (sb s))) j)
    \<and> (\<exists>u. ilock i2 (upd_inode i2 (\<lambda>_. y) t) = Ok () u \<and> inode_dinode (inodes u i2) = inode_dinode (inodes s ip) \<and> i_valid (inodes u i2))"
proof -
  let ?m = "i_inum (inodes s ip)"
  let ?n = "IBLOCK ?m (sb s)" and ?j = "unat ?m mod IPB" and ?x = "inode_dinode (inodes s ip)"
  obtain t where t: "iupdate ip s = Ok () t" "in_op t p {} B" "log_frame s t"
    "vk (view t) = (vk (view s))(?n := put_dinode ?j ?x (vk (view s) ?n))" "logged t = insert ?n (logged s)"
    by (rule iupdate_view [OF q _ x(1)]) (use n in simp)
  have lx: "length (di_addrs ?x) = NDIRECT + 1" using l(1) by (simp add: inode_dinode_def)
  have lj: "64 * ?j + 64 \<le> length (vk (view s) ?n)" using inode_slot l(2) by simp
  note gp = get_put_dinode [OF lx lj]
  have other: "\<forall>j < IPB. j \<noteq> ?j \<longrightarrow> get_dinode (vk (view t) ?n) j = get_dinode (vk (view s) ?n) j"
    using gp(2) inode_slot(2) l(2) by (simp add: t(4))
  let ?u = "upd_inode i2 (\<lambda>_. y) t"
  have sbt: "sb t = sb s" using log_frame_fs(1) [OF t(3)] .
  have bu: "binv ?u p" "room (view ?u) (IBLOCK (i_inum y) (sb ?u))" using in_opD(1,3) [OF t(2)] by simp_all
  have gd: "?x = get_dinode (vk (view ?u) (IBLOCK (i_inum y) (sb ?u))) (unat (i_inum y) mod IPB)"
    using gp(1) by (simp add: y(2) t(4) sbt)
  have ty: "di_type ?x \<noteq> 0" using x(2) by (simp add: inode_dinode_def)
  have uy: "inodes ?u i2 = y" by simp
  obtain u where "ilock i2 ?u = Ok () u" "inode_dinode (inodes u i2) = ?x" "i_valid (inodes u i2)"
    by (rule ilock_fills [OF bu(1) uy y(1,3-5) bu(2) gd ty]) simp
  with t other show ?thesis by auto
qed

theorem iupdate_ilock_roundtrip_witness:
  "\<exists>s t u. binit (demo_fs (\<lambda>_. replicate BSIZE 0) (demo_inode 77 (replicate 13 9))) = Ok () s \<and> iupdate 0 s = Ok () t
     \<and> ilock 1 (upd_inode 1 (\<lambda>_. (demo_inode 0 [])\<lparr>i_valid := False, i_lock := \<lparr>sl_locked = False, sl_pid = 0\<rparr>\<rparr>) t) = Ok () u
     \<and> inode_dinode (inodes u 1) = inode_dinode (demo_inode 77 (replicate 13 9))"
proof -
  let ?dk = "\<lambda>_ :: uint. replicate BSIZE 0 :: block" and ?x = "demo_inode 77 (replicate 13 9)"
  obtain s where s: "binit (demo_fs ?dk ?x) = Ok () s" "binv s 3" "view s = \<lparr>vk = ?dk, vd = ?dk, vr = (\<lambda>_. 0), vl = (\<lambda>_. False)\<rparr>"
    "sb s = demo_sb" "inodes s = (\<lambda>_. ?x)" "outstanding s = 1" "lh_n s = 0" "log_size s = 30" by (rule demo_fs_boot)
  have q: "in_op s 3 {} {32}"
    by (rule in_op_demo) (use s(2,3,6-8) in \<open>simp_all add: NBUF_def MAXOPBLOCKS_def\<close>)
  show ?thesis
    using iupdate_ilock_roundtrip [OF q, of 0 "(demo_inode 0 [])\<lparr>i_valid := False, i_lock := \<lparr>sl_locked = False, sl_pid = 0\<rparr>\<rparr>" 1] s(1)
    by (auto simp: s(3-5) demo_inode_def NDIRECT_def T_FILE_def IBLOCK_def demo_sb_def IPB_def BSIZE_def)
qed

section \<open>The inode cache\<close>

text \<open>No two entries in use are for the same inode.\<close>

definition icache_unique :: "(nat \<Rightarrow> inode) \<Rightarrow> bool" where
  "icache_unique ic \<longleftrightarrow> (\<forall>i < NINODE. 0 \<le> i_ref (ic i)) \<and> (\<forall>i < NINODE. \<forall>j < NINODE. 0 < i_ref (ic i) \<longrightarrow> 0 < i_ref (ic j)
     \<longrightarrow> i_dev (ic i) = i_dev (ic j) \<longrightarrow> i_inum (ic i) = i_inum (ic j) \<longrightarrow> i = j)"

text \<open>The references held on an inode.\<close>

definition inode_refs :: "(nat \<Rightarrow> inode) \<Rightarrow> uint \<Rightarrow> uint \<Rightarrow> int" where
  "inode_refs ic d n = (\<Sum>i<NINODE. if 0 < i_ref (ic i) \<and> i_dev (ic i) = d \<and> i_inum (ic i) = n then i_ref (ic i) else 0)"

lemma iget_scan_found:
  "iget_scan d n is sp ic = (Some i, r) \<Longrightarrow> i \<in> set is \<and> 0 < i_ref (ic i) \<and> i_dev (ic i) = d \<and> i_inum (ic i) = n"
  by (induction "is" arbitrary: sp) (auto split: if_splits)

lemma iget_scan_spare:
  "iget_scan d n is sp ic = (None, r) \<Longrightarrow>
     (\<forall>i \<in> set is. \<not> (0 < i_ref (ic i) \<and> i_dev (ic i) = d \<and> i_inum (ic i) = n)) \<and>
     (\<forall>i. r = Some i \<longrightarrow> sp = Some i \<or> i \<in> set is \<and> i_ref (ic i) = 0) \<and>
     (r = None \<longrightarrow> sp = None \<and> (\<forall>i \<in> set is. i_ref (ic i) \<noteq> 0))"
  by (induction "is" arbitrary: sp) (fastforce split: if_splits)+

lemma inode_refs_upd:
  assumes i: "i < NINODE" and x: "0 < i_ref x"
    and y: "0 \<le> i_ref (ic i)" "0 < i_ref (ic i) \<Longrightarrow> i_dev x = i_dev (ic i) \<and> i_inum x = i_inum (ic i)"
  shows "inode_refs (ic(i := x)) d n = inode_refs ic d n + (if i_dev x = d \<and> i_inum x = n then i_ref x - i_ref (ic i) else 0)"
proof -
  let ?w = "\<lambda>z. if 0 < i_ref z \<and> i_dev z = d \<and> i_inum z = n then i_ref z else 0"
  have e: "inode_refs c d n = ?w (c i) + (\<Sum>j \<in> {..<NINODE} - {i}. ?w (c j))" for c
    unfolding inode_refs_def using i by (subst sum.remove [of _ i]) auto
  have "(\<Sum>j \<in> {..<NINODE} - {i}. ?w ((ic(i := x)) j)) = (\<Sum>j \<in> {..<NINODE} - {i}. ?w (ic j))" by (rule sum.cong) auto
  then show ?thesis using x y by (cases "0 < i_ref (ic i)") (auto simp: e)
qed

lemma icache_unique_upd:
  assumes u: "icache_unique ic" and i: "i < NINODE" and x: "0 < i_ref x"
    and n: "\<forall>j < NINODE. j \<noteq> i \<longrightarrow> \<not> (0 < i_ref (ic j) \<and> i_dev (ic j) = i_dev x \<and> i_inum (ic j) = i_inum x)"
  shows "icache_unique (ic(i := x))"
  using assms unfolding icache_unique_def by (auto split: if_splits)

text \<open>C24. \<^verbatim>\<open>iget\<close> keeps at most one entry of the cache per inode: it returns the entry in use for the inode with one more
  reference, or else takes an unused slot, marks it invalid and gives it one reference; it panics exactly when the inode
  is not cached and no slot is free. The references to the inode grow by one, those to any other stay the same.\<close>

theorem iget_keeps_cache_unique:
  fixes s :: "'a fs_state_scheme"
  assumes h: "IcacheLock \<notin> held s" and u: "icache_unique (inodes s)"
  shows "(iget d n s = Panic ''iget: no inodes'' \<and> (\<forall>i < NINODE. 0 < i_ref (inodes s i) \<and> (i_dev (inodes s i), i_inum (inodes s i)) \<noteq> (d, n)))
    \<or> (\<exists>i x. i < NINODE \<and> iget d n s = Ok i (s\<lparr>inodes := (inodes s)(i := x)\<rparr>) \<and> i_dev x = d \<and> i_inum x = n
        \<and> icache_unique ((inodes s)(i := x))
        \<and> (0 < i_ref (inodes s i) \<and> x = (inodes s i)\<lparr>i_ref := i_ref (inodes s i) + 1\<rparr> \<or> i_ref (inodes s i) = 0 \<and> i_ref x = 1 \<and> \<not> i_valid x)
        \<and> (\<forall>d' n'. inode_refs ((inodes s)(i := x)) d' n' = inode_refs (inodes s) d' n' + (if (d', n') = (d, n) then 1 else 0)))"
proof -
  let ?t = "s\<lparr>held := insert IcacheLock (held s)\<rparr>"
  have fin: "unlock IcacheLock (upd_inode i f ?t) = Ok () (s\<lparr>inodes := (inodes s)(i := f (inodes s i))\<rparr>)" for i f
    using h by (simp add: upd_inode_def unlock_held)
  obtain r sp where sc: "iget_scan d n [0..<NINODE] None (inodes s) = (r, sp)" by fastforce
  show ?thesis
  proof (cases r)
    case (Some i)
    let ?x = "(inodes s i)\<lparr>i_ref := i_ref (inodes s i) + 1\<rparr>"
    have i: "i < NINODE" "0 < i_ref (inodes s i)" "i_dev (inodes s i) = d" "i_inum (inodes s i) = n"
      using iget_scan_found [OF sc [unfolded Some]] by auto
    have e: "iget d n s = Ok i (s\<lparr>inodes := (inodes s)(i := ?x)\<rparr>)" using h sc Some fin [of i] by (simp add: iget_def lock_free)
    have un: "icache_unique ((inodes s)(i := ?x))" using u i by (intro icache_unique_upd) (auto simp: icache_unique_def)
    have rf: "inode_refs ((inodes s)(i := ?x)) d' n' = inode_refs (inodes s) d' n' + (if (d', n') = (d, n) then 1 else 0)" for d' n'
      using i by (subst inode_refs_upd) auto
    have f: "i_dev ?x = d" "i_inum ?x = n" using i by simp_all
    show ?thesis by (rule disjI2, rule exI [of _ i], rule exI [of _ ?x])
        (intro conjI allI i(1) e f un rf disjI1 [OF conjI [OF i(2) refl]])
  next
    case None
    note sp = iget_scan_spare [OF sc [unfolded None]]
    show ?thesis
    proof (cases sp)
      case None
      have "0 < i_ref (inodes s i)" if i: "i < NINODE" for i
      proof -
        have "0 \<le> i_ref (inodes s i)" using u i unfolding icache_unique_def by blast
        moreover have "i_ref (inodes s i) \<noteq> 0" using sp None i by simp
        ultimately show ?thesis by simp
      qed
      moreover have "iget d n s = Panic ''iget: no inodes''" using h sc \<open>r = None\<close> None by (simp add: iget_def lock_free)
      ultimately show ?thesis using sp by auto
    next
      case (Some i)
      let ?x = "(inodes s i)\<lparr>i_dev := d, i_inum := n, i_ref := 1, i_valid := False\<rparr>"
      have i: "i < NINODE" "i_ref (inodes s i) = 0" using sp Some by auto
      have e: "iget d n s = Ok i (s\<lparr>inodes := (inodes s)(i := ?x)\<rparr>)" using h sc \<open>r = None\<close> Some fin [of i] by (simp add: iget_def lock_free)
      have un: "icache_unique ((inodes s)(i := ?x))" using u i sp by (intro icache_unique_upd) auto
      have rf: "inode_refs ((inodes s)(i := ?x)) d' n' = inode_refs (inodes s) d' n' + (if (d', n') = (d, n) then 1 else 0)" for d' n'
        using i by (subst inode_refs_upd) auto
      have f: "i_dev ?x = d" "i_inum ?x = n" "i_ref ?x = 1" "\<not> i_valid ?x" by simp_all
      show ?thesis by (rule disjI2, rule exI [of _ i], rule exI [of _ ?x])
          (intro conjI allI i(1) e f un rf disjI2 [OF conjI [OF i(2) conjI [OF f(3,4)]]])
    qed
  qed
qed

theorem iget_keeps_cache_unique_witness:
  "\<exists>s i x. binit (demo_fs (\<lambda>_. replicate BSIZE 0) ((demo_inode 0 [])\<lparr>i_ref := 0\<rparr>)) = Ok () s
     \<and> iget ROOTDEV 12 s = Ok i (s\<lparr>inodes := (inodes s)(i := x)\<rparr>) \<and> i_ref x = 1 \<and> i_inum x = 12"
proof -
  let ?dk = "\<lambda>_ :: uint. replicate BSIZE 0 :: block" and ?x = "(demo_inode 0 [])\<lparr>i_ref := 0\<rparr>"
  obtain s where s: "binit (demo_fs ?dk ?x) = Ok () s" "binv s 3" "view s = \<lparr>vk = ?dk, vd = ?dk, vr = (\<lambda>_. 0), vl = (\<lambda>_. False)\<rparr>"
    "sb s = demo_sb" "inodes s = (\<lambda>_. ?x)" "outstanding s = 1" "lh_n s = 0" "log_size s = 30" by (rule demo_fs_boot)
  have h: "IcacheLock \<notin> held s" using s(2) by (simp add: binv_def)
  have u: "icache_unique (inodes s)" by (simp add: s(5) icache_unique_def)
  have z: "\<not> (\<forall>i < NINODE. 0 < i_ref (inodes s i) \<and> (i_dev (inodes s i), i_inum (inodes s i)) \<noteq> (ROOTDEV, 12))"
    by (auto simp: s(5) NINODE_def intro!: exI [of _ 0])
  from iget_keeps_cache_unique [OF h u, of ROOTDEV 12] z show ?thesis using s(1) by (auto simp: s(5))
qed

section \<open>Path names\<close>

text \<open>The names \<open>skipelem\<close> hands out one after the other, as \<open>namex\<close> calls it.\<close>

function path_elems :: "byte list \<Rightarrow> byte list list" where
  "path_elems path = (case skipelem path of None \<Rightarrow> [] | Some (rest, name) \<Rightarrow> name # path_elems rest)"
  by pat_completeness auto
termination by (relation "measure length") (auto dest: skipelem_shorter)

declare path_elems.simps [simp del]

text \<open>The parts of a path between the slashes, some of them empty.\<close>

fun split_slash :: "byte list \<Rightarrow> byte list list" where
  "split_slash [] = [[]]"
| "split_slash (c # cs) = (if c = SLASH then [] # split_slash cs
     else (case split_slash cs of [] \<Rightarrow> [[c]] | p # ps \<Rightarrow> (c # p) # ps))"

lemma split_slash_not_nil [simp]: "split_slash path \<noteq> []"
  by (induction path) (auto split: list.splits)

lemma split_slash_skip: "filter (\<lambda>p. p \<noteq> []) (split_slash (dropWhile (\<lambda>c. c = SLASH) path)) = filter (\<lambda>p. p \<noteq> []) (split_slash path)"
  by (induction path) auto

lemma split_slash_cut:
  "split_slash path = (case dropWhile (\<lambda>c. c \<noteq> SLASH) path of
     [] \<Rightarrow> [path] | c # r \<Rightarrow> takeWhile (\<lambda>c. c \<noteq> SLASH) path # split_slash r)"
  by (induction path) (auto simp del: dropWhile_eq_Nil_conv split: list.splits)

text \<open>C26. The names that \<^verbatim>\<open>skipelem\<close> yields until it returns null are the non-empty parts of the path between slashes,
  in order, each cut to \<^verbatim>\<open>DIRSIZ\<close> bytes; leading, trailing and repeated slashes make no difference.\<close>

theorem skipelem_yields_path_components:
  "path_elems path = map (take DIRSIZ) (filter (\<lambda>p. p \<noteq> []) (split_slash path))"
proof (induction path rule: path_elems.induct)
  case (1 path)
  define p where "p = dropWhile (\<lambda>c. c = SLASH) path"
  define e where "e = takeWhile (\<lambda>c. c \<noteq> SLASH) p"
  define r where "r = dropWhile (\<lambda>c. c \<noteq> SLASH) p"
  have sp: "filter (\<lambda>q. q \<noteq> []) (split_slash path) = filter (\<lambda>q. q \<noteq> []) (split_slash p)" by (simp add: p_def split_slash_skip)
  have tk: "(if length e \<ge> DIRSIZ then take DIRSIZ e else e) = take DIRSIZ e" by simp
  have dr: "drop (length e) p = r" unfolding e_def r_def by (rule dropWhile_eq_drop [symmetric])
  show ?case
  proof (cases "p = []")
    case True
    then have "skipelem path = None" by (simp add: skipelem_def p_def [symmetric])
    then show ?thesis using True by (subst path_elems.simps) (simp add: sp)
  next
    case False
    then have sk: "skipelem path = Some (dropWhile (\<lambda>c. c = SLASH) r, take DIRSIZ e)"
      unfolding skipelem_def p_def [symmetric] Let_def e_def [symmetric] tk dr by simp
    have "hd p \<noteq> SLASH" using False hd_dropWhile [of "\<lambda>c. c = SLASH" path] by (simp add: p_def)
    then have ne: "e \<noteq> []" using False by (cases p) (auto simp: e_def)
    have "filter (\<lambda>q. q \<noteq> []) (split_slash p) = e # filter (\<lambda>q. q \<noteq> []) (split_slash r)"
    proof (cases r)
      case Nil
      then have "e = p" using takeWhile_dropWhile_id [of "\<lambda>c. c \<noteq> SLASH" p] by (simp add: e_def r_def)
      with Nil ne show ?thesis unfolding split_slash_cut [of p] r_def [symmetric] by simp
    next
      case (Cons c q)
      then have "c = SLASH" using hd_dropWhile [of "\<lambda>c. c \<noteq> SLASH" p] by (simp add: r_def)
      with Cons ne show ?thesis unfolding split_slash_cut [of p] r_def [symmetric] e_def [symmetric] by simp
    qed
    then show ?thesis using "1.IH" [OF sk refl] by (subst path_elems.simps) (simp add: sk sp split_slash_skip)
  qed
qed

end
