(* ===== verification/Xv6_Ring.thy ===== *)
theory Xv6_Ring
  imports Xv6_File Xv6_FsSpec
begin

text \<open>
  The ring buffers of the kernel as queues of bytes: the buffer of a pipe, the output buffer of the serial port and
  the input buffer of the console. What a ring holds is read off its array and indices; the locale \<open>byte_queue\<close> is
  what its users rely on, and is interpreted for the two queues written and read byte by byte.
\<close>

section \<open>The bytes of a ring\<close>

definition ring_bytes :: "nat \<Rightarrow> (nat \<Rightarrow> byte) \<Rightarrow> nat \<Rightarrow> nat \<Rightarrow> byte list" where
  "ring_bytes N buf r d = map (\<lambda>k. buf ((r + k) mod N)) [0..<d]"

lemma length_ring_bytes [simp]: "length (ring_bytes N buf r d) = d"
  by (simp add: ring_bytes_def)

lemma ring_bytes_0 [simp]: "ring_bytes N buf r 0 = []"
  by (simp add: ring_bytes_def)

lemma ring_slots_differ:
  fixes r k d N :: nat
  assumes "k < d" "d < N"
  shows "(r + k) mod N \<noteq> (r + d) mod N"
proof
  assume "(r + k) mod N = (r + d) mod N"
  then have "(r + d) mod N = (r + k) mod N" by simp
  then have "N dvd r + d - (r + k)" using assms by (subst (asm) mod_eq_dvd_iff_nat) auto
  then have "N dvd d - k" by simp
  with assms show False using nat_dvd_not_less [of "d - k" N] by simp
qed

lemma ring_push:
  assumes "d < N"
  shows "ring_bytes N (buf((r + d) mod N := c)) r (Suc d) = ring_bytes N buf r d @ [c]"
  using ring_slots_differ [OF _ assms, of _ r] by (simp add: ring_bytes_def)

lemma ring_pop: "ring_bytes N buf r (Suc d) = buf (r mod N) # ring_bytes N buf (Suc r) d"
  by (simp add: ring_bytes_def upt_conv_Cons map_Suc_upt [symmetric] del: upt_Suc)

lemma ring_mod:
  assumes "N dvd M"
  shows "ring_bytes N buf (r mod M) d = ring_bytes N buf r d"
proof -
  have "(r mod M + k) mod N = (r + k) mod N" for k
    using mod_add_left_eq [of "r mod M" N k] mod_add_left_eq [of r N k] assms by (simp add: mod_mod_cancel)
  then show ?thesis by (simp add: ring_bytes_def)
qed

lemma ring_take: "k \<le> d \<Longrightarrow> ring_bytes N buf r k = take k (ring_bytes N buf r d)"
  by (simp add: ring_bytes_def take_map)

section \<open>Queues of bytes\<close>

locale byte_queue =
  fixes contents :: "'q \<Rightarrow> byte list" and inv :: "'q \<Rightarrow> bool" and cap :: nat
    and push :: "byte \<Rightarrow> 'q \<Rightarrow> 'q" and front :: "'q \<Rightarrow> byte" and pop :: "'q \<Rightarrow> 'q"
  assumes bound: "inv q \<Longrightarrow> length (contents q) \<le> cap"
    and push: "inv q \<Longrightarrow> length (contents q) < cap \<Longrightarrow> inv (push c q) \<and> contents (push c q) = contents q @ [c]"
    and pop: "inv q \<Longrightarrow> contents q \<noteq> [] \<Longrightarrow> inv (pop q) \<and> contents q = front q # contents (pop q)"
begin

text \<open>Pushing the bytes of a list, and popping a number of bytes.\<close>

fun pushes :: "byte list \<Rightarrow> 'q \<Rightarrow> 'q" where
  "pushes [] q = q"
| "pushes (c # cs) q = pushes cs (push c q)"

fun pops :: "nat \<Rightarrow> 'q \<Rightarrow> 'q" where
  "pops 0 q = q"
| "pops (Suc k) q = pops k (pop q)"

lemma pushes_contents:
  "inv q \<Longrightarrow> length (contents q) + length cs \<le> cap \<Longrightarrow>
   inv (pushes cs q) \<and> contents (pushes cs q) = contents q @ cs"
  by (induction cs arbitrary: q) (auto simp: push)

lemma pops_contents:
  "inv q \<Longrightarrow> k \<le> length (contents q) \<Longrightarrow> inv (pops k q) \<and> contents (pops k q) = drop k (contents q)"
proof (induction k arbitrary: q)
  case (Suc k)
  then have "contents q \<noteq> []" by auto
  note p = pop [OF Suc.prems(1) this]
  have "k \<le> length (contents (pop q))" using Suc.prems(2) arg_cong [OF conjunct2 [OF p], of length] by simp
  from Suc.IH [OF conjunct1 [OF p] this] p show ?case by (metis drop_Suc_Cons pops.simps(2))
qed simp

text \<open>First in, first out: what is pushed comes out in order once what was there before has been taken.\<close>

lemma fifo:
  assumes "inv q" "length (contents q) + length cs \<le> cap"
  shows "contents (pops (length (contents q)) (pushes cs q)) = cs"
  using pushes_contents [OF assms] pops_contents [of "pushes cs q" "length (contents q)"] by simp

end

text \<open>The buffer of a pipe. The counters run through all 32-bit values and wrap around.\<close>

definition pipe_bytes :: "pipe \<Rightarrow> byte list" where
  "pipe_bytes q = ring_bytes PIPESIZE (pdata q) (unat (nread q)) (unat (nwrite q - nread q))"

definition pipe_ok :: "pipe \<Rightarrow> bool" where
  "pipe_ok q \<longleftrightarrow> unat (nwrite q - nread q) \<le> PIPESIZE"

definition pipe_push :: "byte \<Rightarrow> pipe \<Rightarrow> pipe" where
  "pipe_push c q = q\<lparr>pdata := (pdata q)(unat (nwrite q) mod PIPESIZE := c), nwrite := nwrite q + 1\<rparr>"

definition pipe_pop :: "pipe \<Rightarrow> pipe" where
  "pipe_pop q = q\<lparr>nread := nread q + 1\<rparr>"

definition pipe_front :: "pipe \<Rightarrow> byte" where
  "pipe_front q = pdata q (unat (nread q) mod PIPESIZE)"

lemma unat_Suc_uint: "unat (x :: uint) < 512 \<Longrightarrow> unat (x + 1) = Suc (unat x)"
  by (simp add: unat_plus_if')

lemma unat_ahead: "unat (w :: uint) mod 512 = (unat r + unat (w - r)) mod 512"
proof -
  have "unat w = (unat r + unat (w - r)) mod 2 ^ 32" using unat_word_ariths(1) [of r "w - r"] by simp
  also have "\<dots> mod 512 = (unat r + unat (w - r)) mod 512" by (rule mod_mod_cancel) simp
  finally show ?thesis .
qed

lemma unat_Suc_ring: "ring_bytes 512 buf (unat ((r :: uint) + 1)) d = ring_bytes 512 buf (Suc (unat r)) d"
proof -
  have "unat (r + 1) = Suc (unat r) mod 2 ^ 32" using unat_word_ariths(1) [of r 1] by simp
  then show ?thesis using ring_mod [of 512 "2 ^ 32" buf "Suc (unat r)" d] by simp
qed

lemma unat_pred: "unat (d :: uint) \<noteq> 0 \<Longrightarrow> unat d = Suc (unat (d - 1))"
  using unat_minus_one [of d] by fastforce

interpretation pq: byte_queue pipe_bytes pipe_ok PIPESIZE pipe_push pipe_front pipe_pop
proof unfold_locales
  fix q :: pipe and c :: byte
  define d where "d = nwrite q - nread q"
  have d1: "nwrite q + 1 - nread q = d + 1" "nwrite q - (nread q + 1) = d - 1" by (simp_all add: d_def)
  show "length (pipe_bytes q) \<le> PIPESIZE" if "pipe_ok q" using that by (simp add: pipe_ok_def pipe_bytes_def)
  show "pipe_ok (pipe_push c q) \<and> pipe_bytes (pipe_push c q) = pipe_bytes q @ [c]"
    if "length (pipe_bytes q) < PIPESIZE"
  proof -
    have d: "unat d < 512" using that by (simp add: pipe_bytes_def PIPESIZE_def d_def)
    have "unat (nwrite q) mod 512 = (unat (nread q) + unat d) mod 512" unfolding d_def by (rule unat_ahead)
    with d ring_push [of "unat d" 512 "pdata q" "unat (nread q)" c] show ?thesis
      by (simp add: pipe_ok_def pipe_push_def pipe_bytes_def PIPESIZE_def d1 unat_Suc_uint flip: d_def)
  qed
  show "pipe_ok (pipe_pop q) \<and> pipe_bytes q = pipe_front q # pipe_bytes (pipe_pop q)"
    if "pipe_ok q" "pipe_bytes q \<noteq> []"
  proof -
    have "length (pipe_bytes q) \<noteq> 0" using that(2) by simp
    then have "unat d \<noteq> 0" by (simp add: pipe_bytes_def d_def)
    then have e: "unat d = Suc (unat (d - 1))" by (rule unat_pred)
    have "ring_bytes 512 (pdata q) (unat (nread q)) (unat d) =
      pdata q (unat (nread q) mod 512) # ring_bytes 512 (pdata q) (unat (nread q + 1)) (unat (d - 1))"
      unfolding e unat_Suc_ring by (rule ring_pop)
    with that(1) e show ?thesis
      by (simp add: pipe_ok_def pipe_pop_def pipe_front_def pipe_bytes_def PIPESIZE_def d1 flip: d_def)
  qed
qed

lemma pipe_full: "pipe_ok q \<Longrightarrow> nwrite q = nread q + of_nat PIPESIZE \<longleftrightarrow> length (pipe_bytes q) = PIPESIZE"
proof -
  have "unat (512 :: uint) = 512" by simp
  then have "nwrite q - nread q = 512 \<longleftrightarrow> unat (nwrite q - nread q) = 512" using word_unat_eq_iff by metis
  moreover have "nwrite q = nread q + 512 \<longleftrightarrow> nwrite q - nread q = 512" by (auto simp: algebra_simps)
  ultimately show ?thesis by (simp add: pipe_bytes_def PIPESIZE_def)
qed

lemma pipe_empty: "nread q = nwrite q \<longleftrightarrow> pipe_bytes q = []"
proof -
  have "pipe_bytes q = [] \<longleftrightarrow> length (pipe_bytes q) = 0" by simp
  also have "\<dots> \<longleftrightarrow> nwrite q - nread q = 0" by (simp only: pipe_bytes_def length_ring_bytes unat_eq_zero)
  finally show ?thesis by auto
qed

section \<open>Pipes as queues\<close>

lemma upd_pipe_id [simp]: "upd_pipe a (\<lambda>q. q) s = s"
  by (simp add: upd_pipe_def)

lemma upd_pipe_sel [simp]:
  "pipes (upd_pipe a f s) a = f (pipes s a)" "b \<noteq> a \<Longrightarrow> pipes (upd_pipe a f s) b = pipes s b"
  "mem (upd_pipe a f s) = mem s" "sym_end (upd_pipe a f s) = sym_end s" "procs (upd_pipe a f s) = procs s"
  "held (upd_pipe a f s) = held s" "curproc (upd_pipe a f s) = curproc s"
  by (simp_all add: upd_pipe_def)

lemma space_eq:
  assumes "mem t = mem s" "sym_end t = sym_end s"
  shows "pt_wf t pt fl = pt_wf s pt fl" "uspace_wf t pt fl = uspace_wf s pt fl"
  using assms by (simp_all add: pt_wf_def uspace_wf_def page_ok_def)

lemma space_upd_pipe [simp]:
  "pt_wf (upd_pipe a f s) pt fl = pt_wf s pt fl" "uspace_wf (upd_pipe a f s) pt fl = uspace_wf s pt fl"
  by (rule space_eq; simp)+

lemma pushes_flags [simp]:
  "readopen (pq.pushes cs q) = readopen q" "writeopen (pq.pushes cs q) = writeopen q"
  by (induction cs arbitrary: q) (simp_all add: pipe_push_def)

lemma uread_Suc: "uread m pt va (Suc n) = the (uload m pt va) # uread m pt (va + 1) n"
  using uread_append [of m pt va 1 n] by (simp add: uread_def)

lemma uread_take: "uread m pt va (min r l) = take r (uread m pt va l)"
  by (cases "r \<le> l") (simp_all add: uread_def take_map min_def)

text \<open>The loop of \<^verbatim>\<open>pipewrite\<close> pushes bytes until it is done, the pipe is full or the user's memory ends.\<close>

lemma pipewrite_loop_eq:
  fixes s :: "'a file_state_scheme" and addr :: uint64 and i k :: nat
  assumes "pt_wf s pt fl" "0 < sym_end s" "pagetable (procs s pr) = pt" "pipe_ok (pipes s a)"
  defines "r \<equiv> PIPESIZE - length (pipe_bytes (pipes s a))" and "l \<equiv> mapped_prefix (mem s) pt (addr + of_nat i) k"
  shows "pipewrite_loop pr a addr i k s =
    pipewrite_loop pr a addr (i + min r l) (if r < k \<and> r \<le> l then k - r else 0)
      (upd_pipe a (pq.pushes (uread (mem s) pt (addr + of_nat i) (min r l))) s)"
  using assms(1-4) unfolding r_def l_def
proof (induction k arbitrary: i s)
  case 0
  then show ?case by (simp add: uread_def)
next
  case (Suc k)
  let ?q = "pipes s a" and ?va = "addr + of_nat i"
  define n where "n = length (pipe_bytes ?q)"
  have le: "n \<le> PIPESIZE" using pq.bound Suc.prems(4) by (simp add: n_def)
  show ?case
  proof (cases "n = PIPESIZE")
    case True
    then show ?thesis unfolding n_def [symmetric] by (simp add: uread_def)
  next
    case False
    then have nf: "nwrite ?q \<noteq> nread ?q + of_nat PIPESIZE" and lt: "n < PIPESIZE" "0 < PIPESIZE - n"
      using pipe_full [OF Suc.prems(4)] le by (simp_all add: n_def)
    note ci = copyin_spec [OF Suc.prems(1,2), of ?va 1]
    show ?thesis
    proof (cases "uload (mem s) pt ?va")
      case None
      then have "pipewrite_loop pr a addr i (Suc k) s = pipewrite_loop pr a addr i 0 s"
        using nf ci Suc.prems(3) by simp
      with None lt show ?thesis unfolding n_def [symmetric] by (simp add: uread_def)
    next
      case (Some c)
      let ?t = "upd_pipe a (pipe_push c) s"
      have p: "pipe_ok (pipe_push c ?q)" "pipe_bytes (pipe_push c ?q) = pipe_bytes ?q @ [c]"
        using pq.push [OF Suc.prems(4), of c] lt(1) by (simp_all add: n_def)
      have "pipewrite_loop pr a addr i (Suc k) s = pipewrite_loop pr a addr (Suc i) k ?t"
        using nf ci Suc.prems(3) Some by (simp add: uread_def pipe_push_def [abs_def] Let_def)
      moreover define l where "l = mapped_prefix (mem s) pt (?va + 1) k"
      moreover define r where "r = PIPESIZE - Suc n"
      moreover have va: "addr + of_nat (Suc i) = ?va + 1" by simp
      moreover have "PIPESIZE - n = Suc r" "mapped_prefix (mem s) pt ?va (Suc k) = Suc l"
        using lt(1) Some by (simp_all add: r_def l_def)
      moreover have "upd_pipe a (pq.pushes bs) ?t = upd_pipe a (pq.pushes (c # bs)) s" for bs
        by (simp add: upd_pipe_def)
      moreover note Suc.IH [of ?t "Suc i", unfolded va]
      ultimately show ?thesis using Suc.prems p Some
        unfolding n_def [symmetric] by (simp add: n_def [symmetric] uread_Suc del: pipewrite_loop.simps pq.pushes.simps)
    qed
  qed
qed

lemma sleep_eq:
  assumes "curproc s = Some p" "held s = {lk}" "lk \<noteq> ProcLock p"
  shows "sleep c lk s = Sleep ((upd_proc p (\<lambda>q. q\<lparr>chan := Some c, state := SLEEPING\<rparr>) s)\<lparr>held := {ProcLock p}\<rparr>)"
proof -
  have "insert (ProcLock p) (held s) - {lk} = {ProcLock p}" using assms by auto
  then show ?thesis using assms by (simp add: sleep_def myproc_def sched_def lock_free unlock_held upd_proc_def Let_def)
qed

text \<open>C30. \<^verbatim>\<open>pipewrite\<close> appends the user's bytes to the queue the pipe holds, in order and without loss, also when the
  counters wrap around. If the bytes fit, or the user's memory ends before the pipe is full, it returns how many it
  wrote and wakes the readers; otherwise it fills the pipe and then sleeps until a reader makes room, or returns -1 when
  there is no reader left or the process was killed. It changes no other pipe and no memory.\<close>

theorem pipewrite_appends:
  fixes s :: "'a file_state_scheme" and addr :: uint64 and n :: int
  assumes "curproc s = Some p" "held s = {}" "pipe_ok (pipes s a)"
    and "pt_wf s (pagetable (procs s p)) fl" "0 < sym_end s"
  defines "bs \<equiv> uread (mem s) (pagetable (procs s p)) addr (mapped_prefix (mem s) (pagetable (procs s p)) addr (nat n))"
    and "r \<equiv> PIPESIZE - length (pipe_bytes (pipes s a))"
  shows "\<exists>t. pipe_ok (pipes t a) \<and> pipe_bytes (pipes t a) = pipe_bytes (pipes s a) @ take r bs \<and>
    (\<forall>b. b \<noteq> a \<longrightarrow> pipes t b = pipes s b) \<and> mem t = mem s \<and>
    (if \<not> (r < nat n \<and> r \<le> length bs)
     then pipewrite a addr n s = Ok (int (length bs)) t \<and> held t = {} \<and> procs t = wake (PipeRead a) {..<NPROC} (procs s)
     else if \<not> readopen (pipes s a) \<or> killed (procs s p)
     then pipewrite a addr n s = Ok (-1) t \<and> held t = {} \<and> procs t = procs s
     else pipewrite a addr n s = Sleep t \<and> held t = {ProcLock p} \<and>
       (\<forall>q. q \<noteq> p \<longrightarrow> procs t q = wake (PipeRead a) {..<NPROC} (procs s) q) \<and>
       state (procs t p) = SLEEPING \<and> chan (procs t p) = Some (PipeWrite a))"
proof -
  let ?pt = "pagetable (procs s p)" and ?l = "mapped_prefix (mem s) (pagetable (procs s p)) addr (nat n)"
  let ?s = "s\<lparr>held := {PipeLock a}\<rparr>"
  have l: "length bs = ?l" by (simp add: bs_def uread_def)
  have tk: "uread (mem s) ?pt addr (min r ?l) = take r bs" unfolding bs_def by (rule uread_take)
  let ?u = "upd_pipe a (pq.pushes (take r bs)) ?s"
  have "length (pipe_bytes (pipes s a)) \<le> PIPESIZE" using pq.bound assms(3) by blast
  then have q: "pipe_ok (pq.pushes (take r bs) (pipes s a))"
    "pipe_bytes (pq.pushes (take r bs) (pipes s a)) = pipe_bytes (pipes s a) @ take r bs"
    using pq.pushes_contents [OF assms(3), of "take r bs"] by (simp_all add: r_def)
  have w: "pt_wf ?s ?pt fl" "0 < sym_end ?s" "pagetable (procs ?s p) = ?pt" "pipe_ok (pipes ?s a)"
    using assms space_eq(1) [of ?s s] by simp_all
  have eq: "pipewrite a addr n s =
    pipewrite_loop p a addr (min r ?l) (if r < nat n \<and> r \<le> ?l then nat n - r else 0) ?u"
    using pipewrite_loop_eq [OF w, of addr 0 "nat n"] assms(1,2) tk
    by (simp add: pipewrite_def myproc_def lock_free r_def del: pipewrite_loop.simps)
  have np: "no_plock ?u" by (simp add: no_plock_def)
  note wk = wakeup_eq [OF np, of "PipeRead a"]
  show ?thesis
  proof (cases "r < nat n \<and> r \<le> ?l")
    case False
    have lt: "?l \<le> nat n" by (rule mapped_prefix_le)
    have "min r ?l = ?l" using False lt by auto
    then have "pipewrite a addr n s = Ok (int (length bs)) (?u\<lparr>procs := wake (PipeRead a) {..<NPROC} (procs s), held := {}\<rparr>)"
      unfolding eq if_not_P [OF False] using wk by (simp add: unlock_held l)
    then show ?thesis using False q by (intro exI [of _ "?u\<lparr>procs := wake (PipeRead a) {..<NPROC} (procs s), held := {}\<rparr>"]) (simp add: l)
  next
    case True
    then obtain k where k: "nat n - r = Suc k" by (cases "nat n - r") auto
    have ln: "length (take r bs) = r" using True by (simp add: l)
    then have "length (pipe_bytes (pipes ?u a)) = PIPESIZE"
      using q(2) \<open>length (pipe_bytes (pipes s a)) \<le> PIPESIZE\<close> by (simp add: r_def)
    then have full: "nwrite (pipes ?u a) = nread (pipes ?u a) + of_nat PIPESIZE" using pipe_full q(1) by simp
    have eq': "pipewrite a addr n s = pipewrite_loop p a addr r (Suc k) ?u" using eq True k by simp
    show ?thesis
    proof (cases "\<not> readopen (pipes s a) \<or> killed (procs s p)")
      case True2: True
      then have "pipewrite a addr n s = Ok (-1) (?u\<lparr>held := {}\<rparr>)"
        unfolding eq' using full by (auto simp: unlock_held)
      then show ?thesis using True True2 q by (intro exI [of _ "?u\<lparr>held := {}\<rparr>"]) (simp add: l)
    next
      case False2: False
      let ?v = "?u\<lparr>procs := wake (PipeRead a) {..<NPROC} (procs s)\<rparr>"
      let ?w = "(upd_proc p (\<lambda>q. q\<lparr>chan := Some (PipeWrite a), state := SLEEPING\<rparr>) ?v)\<lparr>held := {ProcLock p}\<rparr>"
      have "sleep (PipeWrite a) (PipeLock a) ?v = Sleep ?w" by (rule sleep_eq) (use assms in simp_all)
      then have "pipewrite a addr n s = Sleep ?w" unfolding eq' using full wk False2 by simp
      then show ?thesis using True False2 q by (intro exI [of _ ?w]) (simp add: l upd_proc_def)
    qed
  qed
qed

text \<open>A process 3 with one page of zeroes at address 0, for the examples below.\<close>

definition demo_cons :: console_state where
  "demo_cons = fs_state.extend (demo_fs (\<lambda>_. replicate BSIZE 0) (demo_inode 0 (replicate 13 0)))
     \<lparr>devsw = (\<lambda>_. \<lparr>dev_read = None, dev_write = None\<rparr>), tx_buf = (\<lambda>_. 0), tx_w = 0, tx_r = 0, cons_buf = (\<lambda>_. 0),
      cons_r = 0, cons_w = 0, cons_e = 0, pr_locking = True, panicked = False, uart_out = [], uart_room = 1, uart_rx = [],
      uart_regs = []\<rparr>"

definition demo_pipe :: pipe where
  "demo_pipe = \<lparr>pdata = (\<lambda>_. 7), nread = - 1, nwrite = 1, readopen = True, writeopen = True\<rparr>"

definition demo_file :: file_state where
  "demo_file = console_state.extend demo_cons
     \<lparr>files = (\<lambda>_. \<lparr>f_type = FD_NONE, f_ref = 0, f_readable = False, f_writable = False, f_pipe = 0, f_ip = 0, f_off = 0, f_major = 0\<rparr>),
      pipes = (\<lambda>_. demo_pipe), stat_pad = []\<rparr>"

lemma demo_file_simps:
  "held demo_file = {}" "curproc demo_file = Some 3" "pipes demo_file = (\<lambda>_. demo_pipe)"
  by (simp_all add: demo_file_def console_state.defs demo_cons_def fs_state.defs demo_fs_def log_state.defs demo_log_def
      bio_state.defs demo_bio_def demo_ps_def proc_state.defs)

lemma demo_pipe_bytes: "pipe_ok demo_pipe" "pipe_bytes demo_pipe = [7, 7]"
  by (simp_all add: demo_pipe_def pipe_ok_def pipe_bytes_def PIPESIZE_def ring_bytes_def upt_rec)

lemma demo_file_space:
  obtains s :: file_state and fl pt where "uspace_wf s pt fl" "curproc s = Some 3" "held s = {}"
    "pipes s = (\<lambda>_. demo_pipe)" "procs s = (\<lambda>_. demo_proc\<lparr>pagetable := pt\<rparr>)"
    "\<forall>x. uload (mem s) pt x = (if vpn x = 0 then Some 0 else None)"
proof -
  obtain u :: vm_state and pt fl where u: "uspace_wf u pt fl"
    "\<forall>x. uload (mem u) pt x = (if vpn x = 0 then Some 0 else None)" using demo_mapped by blast
  let ?s = "demo_file\<lparr>mem := mem u, sym_end := sym_end u, procs := (\<lambda>_. demo_proc\<lparr>pagetable := pt\<rparr>)\<rparr>"
  have "uspace_wf ?s pt fl" using u(1) space_eq(2) [of ?s u] by simp
  then show ?thesis by (rule that) (simp_all add: demo_file_simps u(2))
qed

theorem pipewrite_appends_witness:
  "\<exists>(s :: file_state) t. pipewrite 0x81000000 10 3 s = Ok 3 t \<and> pipe_bytes (pipes s 0x81000000) = [7, 7] \<and>
     pipe_bytes (pipes t 0x81000000) = [7, 7, 0, 0, 0]"
proof -
  obtain s :: file_state and fl pt where s: "uspace_wf s pt fl" "curproc s = Some 3" "held s = {}"
    "pipes s = (\<lambda>_. demo_pipe)" "procs s = (\<lambda>_. demo_proc\<lparr>pagetable := pt\<rparr>)"
    "\<forall>x. uload (mem s) pt x = (if vpn x = 0 then Some 0 else None)" by (rule demo_file_space)
  have pt: "pagetable (procs s 3) = pt" by (simp add: s(5))
  have n: "nat 3 = Suc (Suc (Suc 0))" by simp
  have "mapped_prefix (mem s) pt 10 (nat 3) = 3" "uread (mem s) pt 10 3 = [0, 0, 0]"
    unfolding n numeral_3_eq_3 by (simp_all add: uread_def s(6))
  moreover have "PIPESIZE - length (pipe_bytes (pipes s 0x81000000)) = 510" by (simp add: s(4) demo_pipe_bytes PIPESIZE_def)
  moreover have "pipe_ok (pipes s 0x81000000)" by (simp add: s(4) demo_pipe_bytes)
  ultimately have "\<exists>t. pipewrite 0x81000000 10 3 s = Ok 3 t \<and> pipe_bytes (pipes t 0x81000000) = [7, 7, 0, 0, 0]"
    using pipewrite_appends [OF s(2,3), where a = "0x81000000" and fl = fl and addr = 10 and n = 3] uspace_wf_pt [OF s(1)]
    by (auto simp: pt s(4) demo_pipe_bytes)
  then show ?thesis using s(4) demo_pipe_bytes(2) by metis
qed

lemma ustore_Nil [simp]: "ustore f va [] = f"
  by (simp add: ustore_def fun_eq_iff)

lemma copyout_byte:
  assumes "uspace_wf s pt fl"
  shows "\<exists>m. copyout pt va [c] s = Ok (if uload (mem s) pt va = None then -1 else 0) (s\<lparr>mem := m\<rparr>) \<and>
    uspace_wf (s\<lparr>mem := m\<rparr>) pt fl \<and>
    (\<forall>x. uload m pt x = ustore (uload (mem s) pt) va (if uload (mem s) pt va = None then [] else [c]) x)"
  using copyout_spec [OF assms, of "[c]" va] by (cases "uload (mem s) pt va") simp_all

lemma mapped_prefix_None:
  "(\<And>x. uload m' pt x = None \<longleftrightarrow> uload m pt x = None) \<Longrightarrow> mapped_prefix m' pt va n = mapped_prefix m pt va n"
  by (induction n arbitrary: va) simp_all

text \<open>The loop of \<^verbatim>\<open>piperead\<close> pops a byte before it copies it out, so the byte that cannot be copied is lost.\<close>

lemma piperead_loop_eq:
  fixes s :: "'a file_state_scheme"
  assumes "uspace_wf s pt fl" "pagetable (procs s pr) = pt" "pipe_ok (pipes s a)"
    and "m = min k (length (pipe_bytes (pipes s a)))" "l = mapped_prefix (mem s) pt (addr + of_nat i) m"
  shows "\<exists>mm. piperead_loop pr a addr i k s =
      Ok (i + l) (upd_pipe a (pq.pops (if l = m then m else Suc l)) (s\<lparr>mem := mm\<rparr>)) \<and>
    uspace_wf (s\<lparr>mem := mm\<rparr>) pt fl \<and>
    (\<forall>x. uload mm pt x = ustore (uload (mem s) pt) (addr + of_nat i) (take l (pipe_bytes (pipes s a))) x)"
  using assms
proof (induction k arbitrary: i s m l)
  case 0
  then show ?case by (intro exI [of _ "mem s"]) simp
next
  case (Suc k)
  let ?q = "pipes s a" and ?va = "addr + of_nat i"
  show ?case
  proof (cases "pipe_bytes ?q")
    case Nil
    then have "nread ?q = nwrite ?q" by (simp add: pipe_empty)
    with Nil Suc.prems show ?thesis by (intro exI [of _ "mem s"]) simp
  next
    case (Cons c cs)
    then have ne: "nread ?q \<noteq> nwrite ?q" by (simp add: pipe_empty)
    have pp: "pipe_ok (pipe_pop ?q)" "pipe_front ?q = c" "pipe_bytes (pipe_pop ?q) = cs"
      using pq.pop [OF Suc.prems(3)] Cons by simp_all
    define t where "t = upd_pipe a pipe_pop s"
    have t: "uspace_wf t pt fl" "mem t = mem s" "procs t = procs s" "pipes t a = pipe_pop ?q"
      using Suc.prems(1) by (simp_all add: t_def)
    obtain m1 where m1: "copyout pt ?va [c] t = Ok (if uload (mem s) pt ?va = None then -1 else 0) (t\<lparr>mem := m1\<rparr>)"
      "uspace_wf (t\<lparr>mem := m1\<rparr>) pt fl"
      "\<forall>x. uload m1 pt x = ustore (uload (mem s) pt) ?va (if uload (mem s) pt ?va = None then [] else [c]) x"
      using copyout_byte [OF t(1), of ?va c] unfolding t(2) by (elim exE conjE)
    have st: "piperead_loop pr a addr i (Suc k) s = (if uload (mem s) pt ?va = None then Ok i (t\<lparr>mem := m1\<rparr>)
        else piperead_loop pr a addr (Suc i) k (t\<lparr>mem := m1\<rparr>))"
      using ne m1(1) Suc.prems(2) pp(2)
      by (simp add: t_def pipe_pop_def [abs_def] pipe_front_def Let_def)
    have wf: "uspace_wf (s\<lparr>mem := mm\<rparr>) pt fl" if "uspace_wf (t\<lparr>mem := mm\<rparr>) pt fl" for mm
      using that space_eq(2) [of "s\<lparr>mem := mm\<rparr>" "t\<lparr>mem := mm\<rparr>"] by (simp add: t_def)
    define m' where "m' = min k (length cs)"
    have m: "m = Suc m'" using Suc.prems(4) Cons by (simp add: m'_def)
    show ?thesis
    proof (cases "uload (mem s) pt ?va")
      case None
      then have l: "l = 0" "l \<noteq> m" using Suc.prems(5) m by simp_all
      have e: "piperead_loop pr a addr i (Suc k) s = Ok (i + l) (t\<lparr>mem := m1\<rparr>)" using st None l by simp
      have "uload m1 pt x = ustore (uload (mem s) pt) ?va (take l (pipe_bytes ?q)) x" for x using m1(3) None l by simp
      moreover have "t\<lparr>mem := m1\<rparr> = upd_pipe a (pq.pops (if l = m then m else Suc l)) (s\<lparr>mem := m1\<rparr>)"
        by (simp add: l m t_def upd_pipe_def)
      ultimately show ?thesis using e wf [OF m1(2)] by (intro exI [of _ m1] conjI) simp_all
    next
      case (Some d)
      define l' where "l' = mapped_prefix (mem s) pt (?va + 1) m'"
      have l: "l = Suc l'" using Suc.prems(5) Some by (simp add: m l'_def)
      have l'_len: "l' \<le> length cs" using mapped_prefix_le [of "mem s" pt "?va + 1" m'] by (simp add: l'_def m'_def)
      have va: "addr + of_nat (Suc i) = ?va + 1" by simp
      have u1: "uload m1 pt = ustore (uload (mem s) pt) ?va [c]" using m1(3) Some by (simp add: fun_eq_iff)
      have "l' = mapped_prefix m1 pt (?va + 1) m'" unfolding l'_def
        by (rule mapped_prefix_None [symmetric]) (use Some in \<open>auto simp: u1 ustore_def unat_eq_zero\<close>)
      then obtain mm where mm: "piperead_loop pr a addr (Suc i) k (t\<lparr>mem := m1\<rparr>) =
          Ok (Suc i + l') (upd_pipe a (pq.pops (if l' = m' then m' else Suc l')) (t\<lparr>mem := mm\<rparr>))"
        "uspace_wf (t\<lparr>mem := mm\<rparr>) pt fl"
        "\<forall>x. uload mm pt x = ustore (uload m1 pt) (?va + 1) (take l' cs) x"
        using Suc.IH [OF m1(2), of m' l' "Suc i", unfolded va] pp Suc.prems(2) by (auto simp: m'_def t(3,4))
      have "uload mm pt x = ustore (uload (mem s) pt) ?va (take l (pipe_bytes ?q)) x" for x
        using mm(3) ustore_append [of "[c]" "take l' cs" "uload (mem s) pt" ?va x] pq.bound [OF Suc.prems(3)] l'_len
        by (simp add: u1 l Cons PIPESIZE_def)
      moreover have "upd_pipe a (pq.pops (if l' = m' then m' else Suc l')) (t\<lparr>mem := mm\<rparr>) =
          upd_pipe a (pq.pops (if l = m then m else Suc l)) (s\<lparr>mem := mm\<rparr>)"
        by (simp add: l m t_def upd_pipe_def)
      ultimately show ?thesis using st Some mm(1) wf [OF mm(2)] by (intro exI [of _ mm] conjI) (simp_all add: l)
    qed
  qed
qed

text \<open>C31. \<^verbatim>\<open>piperead\<close> takes bytes from the front of the queue and stores them, in order, in the user's buffer: as many as
  were asked for and the pipe holds. On an empty pipe it sleeps while there is a writer, returns -1 if the process was
  killed, and returns 0 at the end of the stream. When a byte of the buffer is not mapped it returns the number of bytes
  stored before it, and the byte it had taken for that address is lost. It wakes the writers and changes no other pipe.\<close>

theorem piperead_takes:
  fixes s :: "'a file_state_scheme" and addr :: uint64 and n :: int
  assumes "curproc s = Some p" "held s = {}" "pipe_ok (pipes s a)" "uspace_wf s (pagetable (procs s p)) fl"
  defines "m \<equiv> min (nat n) (length (pipe_bytes (pipes s a)))"
  defines "l \<equiv> mapped_prefix (mem s) (pagetable (procs s p)) addr m"
  shows "if pipe_bytes (pipes s a) = [] \<and> writeopen (pipes s a)
    then if killed (procs s p) then piperead a addr n s = Ok (-1) s
         else \<exists>t. piperead a addr n s = Sleep t \<and> held t = {ProcLock p} \<and> pipes t = pipes s \<and> mem t = mem s \<and>
                state (procs t p) = SLEEPING \<and> chan (procs t p) = Some (PipeRead a) \<and> (\<forall>q. q \<noteq> p \<longrightarrow> procs t q = procs s q)
    else \<exists>t. piperead a addr n s = Ok (int l) t \<and> held t = {} \<and> uspace_wf t (pagetable (procs s p)) fl \<and>
           pipe_ok (pipes t a) \<and> pipe_bytes (pipes t a) = drop (if l = m then m else Suc l) (pipe_bytes (pipes s a)) \<and>
           (\<forall>b. b \<noteq> a \<longrightarrow> pipes t b = pipes s b) \<and> procs t = wake (PipeWrite a) {..<NPROC} (procs s) \<and>
           (\<forall>x. uload (mem t) (pagetable (procs s p)) x =
                ustore (uload (mem s) (pagetable (procs s p))) addr (take l (pipe_bytes (pipes s a))) x)"
proof -
  let ?pt = "pagetable (procs s p)" and ?s = "s\<lparr>held := {PipeLock a}\<rparr>"
  have start: "piperead a addr n s = piperead_round p a addr n ?s"
    using assms(1,2) by (simp add: piperead_def myproc_def lock_free)
  show ?thesis
  proof (cases "pipe_bytes (pipes s a) = [] \<and> writeopen (pipes s a)")
    case True
    then have e: "nread (pipes s a) = nwrite (pipes s a) \<and> writeopen (pipes s a)" by (simp add: pipe_empty)
    let ?w = "(upd_proc p (\<lambda>q. q\<lparr>chan := Some (PipeRead a), state := SLEEPING\<rparr>) ?s)\<lparr>held := {ProcLock p}\<rparr>"
    have "sleep (PipeRead a) (PipeLock a) ?s = Sleep ?w" by (rule sleep_eq) (use assms in simp_all)
    moreover have "s\<lparr>held := {}\<rparr> = s" using assms(2) by (metis held_restore)
    ultimately show ?thesis unfolding if_P [OF True] start
      using e by (auto simp: piperead_round_def unlock_held upd_proc_def)
  next
    case False
    have w: "uspace_wf ?s ?pt fl" using assms(4) space_eq(2) [of ?s s] by simp
    obtain mm where mm: "piperead_loop p a addr 0 (nat n) ?s =
        Ok l (upd_pipe a (pq.pops (if l = m then m else Suc l)) (?s\<lparr>mem := mm\<rparr>))" "uspace_wf (?s\<lparr>mem := mm\<rparr>) ?pt fl"
      "\<forall>x. uload mm ?pt x = ustore (uload (mem s) ?pt) addr (take l (pipe_bytes (pipes s a))) x"
      using piperead_loop_eq [OF w, of p a m "nat n" l addr 0] assms(3) by (auto simp: m_def l_def)
    let ?k = "if l = m then m else Suc l"
    let ?u = "upd_pipe a (pq.pops ?k) (?s\<lparr>mem := mm\<rparr>)" and ?ps = "wake (PipeWrite a) {..<NPROC} (procs s)"
    have "wakeup (PipeWrite a) ?u = Ok () (?u\<lparr>procs := ?ps\<rparr>)" using wakeup_eq [of ?u] by (simp add: no_plock_def)
    moreover have "\<not> (nread (pipes s a) = nwrite (pipes s a) \<and> writeopen (pipes s a))" using False by (simp add: pipe_empty)
    ultimately have r: "piperead a addr n s = Ok (int l) (?u\<lparr>procs := ?ps, held := {}\<rparr>)"
      unfolding start using mm(1) by (auto simp: piperead_round_def unlock_held)
    have "l \<le> m" "m \<le> length (pipe_bytes (pipes s a))" unfolding l_def by (rule mapped_prefix_le) (simp add: m_def)
    then have "?k \<le> length (pipe_bytes (pipes s a))" by auto
    note q = pq.pops_contents [OF assms(3) this]
    have "uspace_wf (?u\<lparr>procs := ?ps, held := {}\<rparr>) ?pt fl"
      using mm(2) space_eq(2) [of "?u\<lparr>procs := ?ps, held := {}\<rparr>" "?s\<lparr>mem := mm\<rparr>"] by simp
    then show ?thesis unfolding if_not_P [OF False] using r q mm(3)
      by (intro exI [of _ "?u\<lparr>procs := ?ps, held := {}\<rparr>"] conjI) simp_all
  qed
qed

theorem piperead_takes_witness:
  "\<exists>(s :: file_state) t u. pipe_bytes (pipes s 0x81000000) = [7, 7] \<and>
     piperead 0x81000000 4094 5 s = Ok 2 t \<and> pipe_bytes (pipes t 0x81000000) = [] \<and>
     piperead 0x81000000 4095 5 s = Ok 1 u \<and> pipe_bytes (pipes u 0x81000000) = []"
proof -
  obtain s :: file_state and fl pt where s: "uspace_wf s pt fl" "curproc s = Some 3" "held s = {}"
    "pipes s = (\<lambda>_. demo_pipe)" "procs s = (\<lambda>_. demo_proc\<lparr>pagetable := pt\<rparr>)"
    "\<forall>x. uload (mem s) pt x = (if vpn x = 0 then Some 0 else None)" by (rule demo_file_space)
  have pt: "pagetable (procs s 3) = pt" by (simp add: s(5))
  have m: "mapped_prefix (mem s) pt 4094 (Suc (Suc 0)) = Suc (Suc 0)" "mapped_prefix (mem s) pt 4095 (Suc (Suc 0)) = Suc 0"
    by (simp_all add: s(6))
  have ok: "pipe_ok (pipes s 0x81000000)" by (simp add: s(4) demo_pipe_bytes)
  note th = piperead_takes [OF s(2,3) ok, where fl = fl and n = 5, unfolded pt, OF s(1)]
  have "\<exists>t. piperead 0x81000000 4094 5 s = Ok 2 t \<and> pipe_bytes (pipes t 0x81000000) = []"
    using th [of 4094] m by (auto simp: s(4) demo_pipe_bytes)
  moreover have "\<exists>t. piperead 0x81000000 4095 5 s = Ok 1 t \<and> pipe_bytes (pipes t 0x81000000) = []"
    using th [of 4095] m by (auto simp: s(4) demo_pipe_bytes)
  ultimately show ?thesis using s(4) demo_pipe_bytes(2) by metis
qed

section \<open>The output of the serial port\<close>

text \<open>The transmit buffer as a queue: an array with the places of the next write and the next read. One of its
  \<^verbatim>\<open>UART_TX_BUF_SIZE\<close> slots stays empty.\<close>

type_synonym tx_ring = "(nat \<Rightarrow> byte) \<times> nat \<times> nat"

fun tx_contents :: "tx_ring \<Rightarrow> byte list" where
  "tx_contents (buf, w, r) = ring_bytes UART_TX_BUF_SIZE buf r ((w + UART_TX_BUF_SIZE - r) mod UART_TX_BUF_SIZE)"

fun tx_inv :: "tx_ring \<Rightarrow> bool" where
  "tx_inv (buf, w, r) = (w < UART_TX_BUF_SIZE \<and> r < UART_TX_BUF_SIZE)"

fun tx_push :: "byte \<Rightarrow> tx_ring \<Rightarrow> tx_ring" where
  "tx_push c (buf, w, r) = (buf(w := c), (w + 1) mod UART_TX_BUF_SIZE, r)"

fun tx_pop :: "tx_ring \<Rightarrow> tx_ring" where
  "tx_pop (buf, w, r) = (buf, w, (r + 1) mod UART_TX_BUF_SIZE)"

fun tx_front :: "tx_ring \<Rightarrow> byte" where
  "tx_front (buf, w, r) = buf r"

lemma mod_32:
  fixes w r :: nat
  assumes "w < 32" "r < 32"
  shows "(w + 32 - r) mod 32 = (if r \<le> w then w - r else w + 32 - r)" "(w + 1) mod 32 = (if w = 31 then 0 else w + 1)"
proof -
  have "(w + 32 - r) mod 32 = w - r" if "r \<le> w"
  proof -
    have "w + 32 - r = w - r + 32" using that by simp
    then show ?thesis using assms by (simp only: mod_add_self2) simp
  qed
  then show "(w + 32 - r) mod 32 = (if r \<le> w then w - r else w + 32 - r)" using assms by auto
  show "(w + 1) mod 32 = (if w = 31 then 0 else w + 1)" using assms by auto
qed

lemma tx_distance:
  fixes w r :: nat
  assumes "w < 32" "r < 32"
  shows "(w + 32 - r) mod 32 < 31 \<Longrightarrow> ((w + 1) mod 32 + 32 - r) mod 32 = Suc ((w + 32 - r) mod 32)"
    and "w = (r + (w + 32 - r) mod 32) mod 32"
    and "w \<noteq> r \<Longrightarrow> (w + 32 - r) mod 32 = Suc ((w + 32 - (r + 1) mod 32) mod 32)"
proof -
  have s: "(w + 1) mod 32 < 32" "(r + 1) mod 32 < 32" by simp_all
  show "((w + 1) mod 32 + 32 - r) mod 32 = Suc ((w + 32 - r) mod 32)" if "(w + 32 - r) mod 32 < 31"
    using that unfolding mod_32(1) [OF assms] mod_32(1) [OF s(1) assms(2)] unfolding mod_32(2) [OF assms]
    using assms by (auto split: if_splits)
  show "w = (r + (w + 32 - r) mod 32) mod 32"
    unfolding mod_32(1) [OF assms] using assms by auto
  show "(w + 32 - r) mod 32 = Suc ((w + 32 - (r + 1) mod 32) mod 32)" if "w \<noteq> r"
    using that unfolding mod_32(1) [OF assms] mod_32(1) [OF assms(1) s(2)] unfolding mod_32(2) [OF assms(2,2)]
    using assms by (auto split: if_splits)
qed

interpretation tq: byte_queue tx_contents tx_inv 31 tx_push tx_front tx_pop
proof unfold_locales
  fix q :: tx_ring and c :: byte
  obtain buf w r where q: "q = (buf, w, r)" by (cases q)
  show "length (tx_contents q) \<le> 31" by (simp add: q UART_TX_BUF_SIZE_def less_Suc_eq_le [symmetric])
  show "tx_inv (tx_push c q) \<and> tx_contents (tx_push c q) = tx_contents q @ [c]"
    if "tx_inv q" "length (tx_contents q) < 31"
  proof -
    have h: "w < 32" "r < 32" "(w + 32 - r) mod 32 < 31" using that by (simp_all add: q UART_TX_BUF_SIZE_def)
    have "ring_bytes 32 (buf(w := c)) r (Suc ((w + 32 - r) mod 32)) = ring_bytes 32 buf r ((w + 32 - r) mod 32) @ [c]"
      using ring_push [of "(w + 32 - r) mod 32" 32 buf r c] h(3) tx_distance(2) [OF h(1,2)] by simp
    with h show ?thesis unfolding q tx_push.simps tx_contents.simps UART_TX_BUF_SIZE_def tx_distance(1) [OF h]
      by (simp add: UART_TX_BUF_SIZE_def)
  qed
  show "tx_inv (tx_pop q) \<and> tx_contents q = tx_front q # tx_contents (tx_pop q)" if "tx_inv q" "tx_contents q \<noteq> []"
  proof -
    have h: "w < 32" "r < 32" using that by (simp_all add: q UART_TX_BUF_SIZE_def)
    have "length (tx_contents q) \<noteq> 0" using that(2) by simp
    then have "w \<noteq> r" by (auto simp: q UART_TX_BUF_SIZE_def)
    note d = tx_distance(3) [OF h this]
    show ?thesis unfolding q tx_pop.simps tx_contents.simps UART_TX_BUF_SIZE_def d
      using h ring_mod [of 32 32 buf "r + 1"] by (simp add: ring_pop UART_TX_BUF_SIZE_def)
  qed
qed

abbreviation tx_ring :: "'a console_state_scheme \<Rightarrow> tx_ring" where
  "tx_ring s \<equiv> (tx_buf s, tx_w s, tx_r s)"

lemma tx_empty: "tx_inv (tx_ring s) \<Longrightarrow> tx_w s = tx_r s \<longleftrightarrow> tx_contents (tx_ring s) = []"
proof -
  assume "tx_inv (tx_ring s)"
  then have h: "tx_w s < 32" "tx_r s < 32" by (simp_all add: UART_TX_BUF_SIZE_def)
  have "tx_contents (tx_ring s) = [] \<longleftrightarrow> length (tx_contents (tx_ring s)) = 0" by (rule length_0_conv [symmetric])
  also have "\<dots> \<longleftrightarrow> tx_w s = tx_r s"
    unfolding tx_contents.simps length_ring_bytes UART_TX_BUF_SIZE_def mod_32(1) [OF h] using h by auto
  finally show ?thesis by blast
qed

lemma tx_full:
  assumes "tx_inv (tx_ring s)"
  shows "(tx_w s + 1) mod UART_TX_BUF_SIZE = tx_r s \<longleftrightarrow> length (tx_contents (tx_ring s)) = 31"
proof -
  have "tx_w s < 32" "tx_r s < 32" using assms by (simp_all add: UART_TX_BUF_SIZE_def)
  then have "(tx_w s + 1) mod 32 = tx_r s \<longleftrightarrow> (tx_w s + 32 - tx_r s) mod 32 = 31" using mod_32 [of "tx_w s" "tx_r s"] by auto
  then show ?thesis by (simp add: UART_TX_BUF_SIZE_def)
qed

declare tx_contents.simps [simp del] tx_inv.simps [simp del]

text \<open>The state after \<open>k\<close> bytes of the transmit buffer were handed to the device.\<close>

definition tx_sent :: "nat \<Rightarrow> 'a console_state_scheme \<Rightarrow> 'a console_state_scheme \<Rightarrow> bool" where
  "tx_sent k s t \<longleftrightarrow> tx_inv (tx_ring t) \<and> tx_contents (tx_ring t) = drop k (tx_contents (tx_ring s)) \<and>
     uart_out t = uart_out s @ take k (tx_contents (tx_ring s)) \<and> uart_room t = uart_room s - k \<and>
     held t = held s \<and> procs t = (if k = 0 then procs s else wake UartTx {..<NPROC} (procs s))"

lemma tx_sent_order: "tx_sent k s t \<Longrightarrow> uart_out t @ tx_contents (tx_ring t) = uart_out s @ tx_contents (tx_ring s)"
  by (simp add: tx_sent_def)

lemma wake_wake [simp]: "wake c A (wake c A ps) = wake c A ps"
  by (auto simp: wake_def fun_eq_iff)

lemma uartstart_loop_sends:
  fixes s :: "'a console_state_scheme"
  assumes "tx_inv (tx_ring s)" "no_plock s" "length (tx_contents (tx_ring s)) < f"
  shows "\<exists>t. uartstart_loop f s = Ok () t \<and> tx_sent (min (uart_room s) (length (tx_contents (tx_ring s)))) s t"
  using assms
proof (induction f arbitrary: s)
  case (Suc f)
  show ?case
  proof (cases "tx_contents (tx_ring s) = [] \<or> uart_room s = 0")
    case True
    then have "uartstart_loop (Suc f) s = Ok () s" using tx_empty [OF Suc.prems(1)] by auto
    with True Suc.prems(1) show ?thesis by (auto simp: tx_sent_def)
  next
    case False
    let ?s = "(s\<lparr>tx_r := (tx_r s + 1) mod UART_TX_BUF_SIZE, procs := wake UartTx {..<NPROC} (procs s)\<rparr>)"
    let ?u = "write_THR (tx_buf s (tx_r s)) ?s"
    have p: "tx_inv (tx_ring ?u)" "tx_contents (tx_ring s) = tx_buf s (tx_r s) # tx_contents (tx_ring ?u)"
      using tq.pop [OF Suc.prems(1)] False by (simp_all add: write_THR_def)
    have "wakeup UartTx (s\<lparr>tx_r := (tx_r s + 1) mod UART_TX_BUF_SIZE\<rparr>) = Ok () ?s"
      using wakeup_eq [of "s\<lparr>tx_r := (tx_r s + 1) mod UART_TX_BUF_SIZE\<rparr>" UartTx] Suc.prems(2) by (simp add: no_plock_def)
    then have e: "uartstart_loop (Suc f) s = uartstart_loop f ?u"
      using False tx_empty [OF Suc.prems(1)] by (simp add: Let_def)
    have np: "no_plock ?u" using Suc.prems(2) by (simp add: no_plock_def write_THR_def)
    have lt: "length (tx_contents (tx_ring ?u)) < f" using Suc.prems(3) unfolding p(2) by simp
    obtain t where t: "uartstart_loop f ?u = Ok () t" "tx_sent (min (uart_room ?u) (length (tx_contents (tx_ring ?u)))) ?u t"
      using Suc.IH [OF p(1) np lt] by blast
    define k where "k = min (uart_room ?u) (length (tx_contents (tx_ring ?u)))"
    have k: "min (uart_room s) (length (tx_contents (tx_ring s))) = Suc k"
      using False unfolding p(2) by (auto simp: k_def write_THR_def)
    have "tx_sent (Suc k) s t"
      using t(2) unfolding k_def [symmetric] tx_sent_def p(2) by (simp add: write_THR_def)
    then show ?thesis unfolding e k using t(1) by blast
  qed
qed simp

text \<open>C27. Output to the serial port keeps its order and the loops that send it end. \<^verbatim>\<open>uartstart\<close> always returns, after
  handing the device as many of the queued bytes as it takes, oldest first. \<^verbatim>\<open>uartputc\<close> on a buffer with room queues its
  byte behind the others and starts the device, so that the bytes sent followed by the bytes queued are those before
  and then the new one; on a full buffer the process sleeps until \<^verbatim>\<open>uartstart\<close> makes room.\<close>

theorem uart_output_in_order:
  fixes s :: "'a console_state_scheme"
  assumes "tx_inv (tx_ring s)" "no_plock s"
  shows "(\<exists>t. uartstart s = Ok () t \<and> tx_sent (min (uart_room s) (length (tx_contents (tx_ring s)))) s t)
    \<and> (UartTxLock \<notin> held s \<and> \<not> panicked s \<and> length (tx_contents (tx_ring s)) < 31 \<longrightarrow>
      (\<exists>t. uartputc c s = Ok () t \<and> tx_inv (tx_ring t) \<and> held t = held s \<and>
        uart_out t @ tx_contents (tx_ring t) = uart_out s @ tx_contents (tx_ring s) @ [c]))
    \<and> (held s = {} \<and> curproc s = Some p \<and> \<not> panicked s \<and> length (tx_contents (tx_ring s)) = 31 \<longrightarrow>
      (\<exists>t. uartputc c s = Sleep t \<and> held t = {ProcLock p} \<and> state (procs t p) = SLEEPING \<and> chan (procs t p) = Some UartTx))"
proof (intro conjI impI)
  have st: "\<exists>t. uartstart s = Ok () t \<and> tx_sent (min (uart_room s) (length (tx_contents (tx_ring s)))) s t"
    if "tx_inv (tx_ring s)" "no_plock s" for s :: "'a console_state_scheme"
    unfolding uartstart_def by (rule uartstart_loop_sends [OF that]) (use tq.bound [OF that(1)] in \<open>simp add: UART_TX_BUF_SIZE_def\<close>)
  show "\<exists>t. uartstart s = Ok () t \<and> tx_sent (min (uart_room s) (length (tx_contents (tx_ring s)))) s t" using st assms .
  show "\<exists>t. uartputc c s = Ok () t \<and> tx_inv (tx_ring t) \<and> held t = held s \<and>
        uart_out t @ tx_contents (tx_ring t) = uart_out s @ tx_contents (tx_ring s) @ [c]"
    if h: "UartTxLock \<notin> held s \<and> \<not> panicked s \<and> length (tx_contents (tx_ring s)) < 31"
  proof -
    let ?s = "s\<lparr>held := insert UartTxLock (held s), tx_buf := (tx_buf s)(tx_w s := c), tx_w := (tx_w s + 1) mod UART_TX_BUF_SIZE\<rparr>"
    have p: "tx_inv (tx_ring ?s)" "tx_contents (tx_ring ?s) = tx_contents (tx_ring s) @ [c]"
      using tq.push [OF assms(1), of c] h by simp_all
    have "no_plock ?s" using assms(2) by (auto simp: no_plock_def)
    from st [OF p(1) this] obtain t k where t: "uartstart ?s = Ok () t" "tx_sent k ?s t" by blast
    have "uartputc c s = Ok () (t\<lparr>held := held s\<rparr>)"
      using h t tx_full [OF assms(1)] by (simp add: uartputc_def uartputc_loop_def lock_free unlock_held tx_sent_def)
    moreover have "uart_out t @ tx_contents (tx_ring t) = uart_out s @ tx_contents (tx_ring s) @ [c]"
      using tx_sent_order [OF t(2)] p(2) by simp
    moreover have "tx_inv (tx_ring t)" using t(2) by (simp add: tx_sent_def)
    ultimately show ?thesis by (intro exI [of _ "t\<lparr>held := held s\<rparr>"]) simp
  qed
  show "\<exists>t. uartputc c s = Sleep t \<and> held t = {ProcLock p} \<and> state (procs t p) = SLEEPING \<and> chan (procs t p) = Some UartTx"
    if h: "held s = {} \<and> curproc s = Some p \<and> \<not> panicked s \<and> length (tx_contents (tx_ring s)) = 31"
  proof -
    have "sleep UartTx UartTxLock (s\<lparr>held := {UartTxLock}\<rparr>) =
      Sleep ((upd_proc p (\<lambda>q. q\<lparr>chan := Some UartTx, state := SLEEPING\<rparr>) (s\<lparr>held := {UartTxLock}\<rparr>))\<lparr>held := {ProcLock p}\<rparr>)"
      by (rule sleep_eq) (use h in simp_all)
    then show ?thesis using h tx_full [OF assms(1)]
      by (simp add: uartputc_def uartputc_loop_def lock_free upd_proc_def)
  qed
qed

lemma demo_file_tx: "tx_ring demo_file = (\<lambda>_. 0, 0, 0)" "panicked demo_file = False" "uart_room demo_file = 1" "uart_out demo_file = []"
  "tx_contents (\<lambda>_. 0, 0, 0) = []" "tx_inv (\<lambda>_. 0, 0, 0)"
  by (simp_all add: demo_file_def console_state.defs demo_cons_def fs_state.defs UART_TX_BUF_SIZE_def tx_contents.simps tx_inv.simps)

theorem uart_output_in_order_witness:
  "\<exists>t. uartputc 65 demo_file = Ok () t \<and> uart_out t @ tx_contents (tx_ring t) = [65]"
proof -
  have "no_plock demo_file" by (simp add: no_plock_def demo_file_simps)
  then show ?thesis using uart_output_in_order [of demo_file 65 0] demo_file_tx by (auto simp: demo_file_simps)
qed

text \<open>C29. A write to the console while the transmit buffer is full panics: \<^verbatim>\<open>consolewrite\<close> holds \<^verbatim>\<open>cons.lock\<close> over the call
  of \<^verbatim>\<open>uartputc\<close>, which sleeps with that second lock held, and \<^verbatim>\<open>sched\<close> refuses to switch.\<close>

theorem consolewrite_full_buffer_panics:
  fixes s :: "'a console_state_scheme"
  assumes "curproc s = Some p" "held s = {}" "\<not> panicked s" "tx_inv (tx_ring s)" "length (tx_contents (tx_ring s)) = 31"
    and "0 < n" "pt_wf s (pagetable (procs s p)) fl" "0 < sym_end s" "uload (mem s) (pagetable (procs s p)) src \<noteq> None"
  shows "consolewrite True src n s = Panic ''sched locks''"
proof -
  let ?s = "s\<lparr>held := {ConsLock}\<rparr>"
  obtain k where k: "nat n = Suc k" using assms(6) by (cases "nat n") auto
  have w: "pt_wf ?s (pagetable (procs s p)) fl" "0 < sym_end ?s" using assms(7,8) space_eq(1) [of ?s s] by simp_all
  have "\<exists>c. copyin (pagetable (procs s p)) src 1 ?s = Ok (0, [c]) ?s"
    using copyin_spec [OF w, of src 1] assms(9) by (auto simp: uread_def Let_def)
  then obtain c where c: "copyin (pagetable (procs s p)) src 1 ?s = Ok (0, [c]) ?s" by blast
  let ?h = "insert (ProcLock p) {UartTxLock, ConsLock} - {UartTxLock}"
  have "card ?h = 2" by (simp add: insert_Diff_if)
  then have "sleep UartTx UartTxLock (s\<lparr>held := {UartTxLock, ConsLock}\<rparr>) = Panic ''sched locks''"
    using assms(1) by (simp add: sleep_def myproc_def sched_def lock_free unlock_held upd_proc_def Let_def)
  then have "uartputc c ?s = Panic ''sched locks''"
    using assms(3,5) tx_full [OF assms(4)] by (simp add: uartputc_def uartputc_loop_def lock_free)
  then show ?thesis using assms(1,2) c k by (simp add: consolewrite_def lock_free either_copyin_def myproc_def)
qed

theorem consolewrite_full_buffer_panics_witness:
  "\<exists>s :: file_state. consolewrite True 0 1 s = Panic ''sched locks''"
proof -
  obtain s :: file_state and fl pt where s: "uspace_wf s pt fl" "curproc s = Some 3" "held s = {}"
    "pipes s = (\<lambda>_. demo_pipe)" "procs s = (\<lambda>_. demo_proc\<lparr>pagetable := pt\<rparr>)"
    "\<forall>x. uload (mem s) pt x = (if vpn x = 0 then Some 0 else None)" by (rule demo_file_space)
  let ?s = "s\<lparr>panicked := False, tx_w := 31, tx_r := 0\<rparr>"
  have "pt_wf ?s pt fl" "0 < sym_end ?s" using uspace_wf_pt [OF s(1)] space_eq(1) [of ?s s] by simp_all
  then have "consolewrite True 0 1 ?s = Panic ''sched locks''"
    by (intro consolewrite_full_buffer_panics [of ?s 3 1 fl 0])
      (simp_all add: s tx_inv.simps tx_contents.simps UART_TX_BUF_SIZE_def)
  then show ?thesis by blast
qed

end
