(* ===== verification/Xv6_ConsoleSpec.thy ===== *)
theory Xv6_ConsoleSpec
  imports Xv6_Ring
begin

text \<open>
  What the console promises: \<^verbatim>\<open>consoleintr\<close> edits a line that the reader does not see, and hands it over as a whole.
  The three indices of the input ring are read as two byte strings: the input handed over and not yet read, and the
  line being edited.
\<close>

section \<open>Output of the kernel\<close>

definition uart_sends :: "byte list \<Rightarrow> 'a console_state_scheme \<Rightarrow> 'a console_state_scheme" where
  "uart_sends cs s = s\<lparr>uart_out := uart_out s @ cs, uart_room := uart_room s - length cs\<rparr>"

lemma uart_sends_Nil [simp]: "uart_sends [] s = s"
  by (simp add: uart_sends_def)

lemma uart_sends_append: "uart_sends ds (uart_sends cs s) = uart_sends (cs @ ds) s"
  by (simp add: uart_sends_def)

lemma uart_sends_sel [simp]:
  "held (uart_sends cs s) = held s" "panicked (uart_sends cs s) = panicked s" "pr_locking (uart_sends cs s) = pr_locking s"
  "procs (uart_sends cs s) = procs s" "cons_buf (uart_sends cs s) = cons_buf s" "cons_r (uart_sends cs s) = cons_r s"
  "cons_w (uart_sends cs s) = cons_w s" "cons_e (uart_sends cs s) = cons_e s" "uart_out (uart_sends cs s) = uart_out s @ cs"
  by (simp_all add: uart_sends_def)

lemma consputc_eq:
  assumes "\<not> panicked s"
  shows "consputc BACKSPACE s = Ok () (uart_sends [8, 32, 8] s)"
    and "c \<noteq> BACKSPACE \<Longrightarrow> consputc c s = Ok () (uart_sends [word_of_int c] s)"
  using assms by (simp_all add: consputc_def uartputc_sync_def write_THR_def uart_sends_def)

lemma consputs_eq: "\<not> panicked s \<Longrightarrow> consputs cs s = Ok () (uart_sends cs s)"
proof (induction cs arbitrary: s)
  case (Cons c cs)
  have "uint c \<noteq> BACKSPACE" using uint_bounded [of c] by (auto simp: BACKSPACE_def)
  with Cons show ?case by (simp add: consputc_eq(2) uart_sends_append)
qed simp

lemma printf_eq:
  assumes "\<not> panicked s" "pr_locking s \<Longrightarrow> PrLock \<notin> held s" "printf_chars fmt args = Some cs"
  shows "printf fmt args s = Ok () (uart_sends cs s)"
proof (cases "pr_locking s")
  case True
  have "(uart_sends cs (s\<lparr>held := insert PrLock (held s)\<rparr>))\<lparr>held := held s\<rparr> = uart_sends cs s" by (simp add: uart_sends_def)
  then show ?thesis using assms True by (simp add: printf_def lock_free unlock_held consputs_eq)
next
  case False
  then show ?thesis using assms by (simp add: printf_def consputs_eq)
qed

lemma procdump_loop_prints:
  "\<not> panicked s \<Longrightarrow> (pr_locking s \<Longrightarrow> PrLock \<notin> held s) \<Longrightarrow> \<exists>cs. procdump_loop ps s = Ok () (uart_sends cs s)"
proof (induction ps arbitrary: s)
  case Nil
  then show ?case by (intro exI [of _ "[]"]) simp
next
  case (Cons p ps)
  let ?q = "procs s p"
  obtain cs where 1: "printf_chars (ascii ''%d %s %s'') [ArgInt (word_of_int (pid ?q)), ArgStr (state_name (state ?q)),
      ArgStr (takeWhile (\<lambda>c. c \<noteq> 0) (pname ?q))] = Some cs"
    by (simp add: ascii_def of_char_def)
  have 2: "printf_chars [10] [] = Some [10]" by simp
  let ?t = "uart_sends [10] (uart_sends cs s)"
  obtain ds where ds: "procdump_loop ps ?t = Ok () (uart_sends ds ?t)" using Cons.IH [of ?t] Cons.prems by auto
  obtain es where es: "procdump_loop ps s = Ok () (uart_sends es s)" using Cons.IH [of s] Cons.prems by auto
  show ?case
  proof (cases "state ?q = UNUSED")
    case False
    then have "procdump_loop (p # ps) s = Ok () (uart_sends (cs @ [10] @ ds) s)"
      using printf_eq [OF _ _ 1, of s] printf_eq [OF _ _ 2, of "uart_sends cs s"] ds Cons.prems
      by (simp add: Let_def uart_sends_append del: printf_chars.simps)
    then show ?thesis by blast
  qed (use es in auto)
qed

lemma procdump_prints:
  assumes "\<not> panicked s" "pr_locking s \<Longrightarrow> PrLock \<notin> held s"
  shows "\<exists>cs. procdump s = Ok () (uart_sends cs s)"
proof -
  have 2: "printf_chars [10] [] = Some [10]" by simp
  obtain ds where "procdump_loop all_procs (uart_sends [10] s) = Ok () (uart_sends ds (uart_sends [10] s))"
    using procdump_loop_prints [of "uart_sends [10] s" all_procs] assms by auto
  then show ?thesis using printf_eq [OF assms 2] by (auto simp: procdump_def uart_sends_append)
qed

section \<open>The line being edited\<close>

lemma ring_concat: "ring_bytes N buf r (a + b) = ring_bytes N buf r a @ ring_bytes N buf (r + a) b"
  by (rule nth_equalityI) (auto simp: ring_bytes_def nth_append add.assoc)

lemma ring_other_slot:
  assumes "d \<le> j" "j < N"
  shows "ring_bytes N (buf((r + j) mod N := c)) r d = ring_bytes N buf r d"
  using ring_slots_differ [of _ j N r] assms by (auto simp: ring_bytes_def)

text \<open>The input ready for the reader, and the line that can still be edited.\<close>

definition committed :: "'a console_state_scheme \<Rightarrow> byte list" where
  "committed s = ring_bytes INPUT_BUF (cons_buf s) (unat (cons_r s)) (unat (cons_w s - cons_r s))"

definition editing :: "'a console_state_scheme \<Rightarrow> byte list" where
  "editing s = ring_bytes INPUT_BUF (cons_buf s) (unat (cons_w s)) (unat (cons_e s - cons_w s))"

definition cons_ok :: "'a console_state_scheme \<Rightarrow> bool" where
  "cons_ok s \<longleftrightarrow> length (committed s) + length (editing s) \<le> INPUT_BUF \<and> 10 \<notin> set (editing s)"

lemma cons_lengths: "length (committed s) = unat (cons_w s - cons_r s)" "length (editing s) = unat (cons_e s - cons_w s)"
  by (simp_all add: committed_def editing_def)

lemma unat_ring_ahead: "ring_bytes 128 buf (unat (w :: uint)) d = ring_bytes 128 buf (unat r + unat (w - r)) d"
proof -
  have "unat w = (unat r + unat (w - r)) mod 2 ^ 32" using unat_word_ariths(1) [of r "w - r"] by simp
  then show ?thesis using ring_mod [of 128 "2 ^ 32" buf "unat r + unat (w - r)" d] by simp
qed

lemma unat_mod_ahead: "unat (w :: uint) mod 128 = (unat r + unat (w - r)) mod 128"
proof -
  have "unat w = (unat r + unat (w - r)) mod 2 ^ 32" using unat_word_ariths(1) [of r "w - r"] by simp
  also have "\<dots> mod 128 = (unat r + unat (w - r)) mod 128" by (rule mod_mod_cancel) simp
  finally show ?thesis .
qed

lemma unat_distance:
  fixes r w e :: uint
  assumes "unat (w - r) + unat (e - w) \<le> 128"
  shows "unat (e - r) = unat (w - r) + unat (e - w)"
proof -
  have "e - r = (w - r) + (e - w)" by simp
  then show ?thesis using assms by (simp only: unat_plus_if') simp
qed

lemma cons_total:
  "length (committed s) + length (editing s) \<le> INPUT_BUF \<Longrightarrow>
   unat (cons_e s - cons_r s) = length (committed s) + length (editing s)"
  unfolding cons_lengths by (rule unat_distance) (simp add: INPUT_BUF_def)

lemma cons_full:
  assumes "length (committed s) + length (editing s) \<le> INPUT_BUF"
  shows "cons_e s = cons_r s + of_nat INPUT_BUF \<longleftrightarrow> length (committed s) + length (editing s) = INPUT_BUF"
    and "cons_e s - cons_r s < of_nat INPUT_BUF \<longleftrightarrow> length (committed s) + length (editing s) < INPUT_BUF"
proof -
  have "cons_e s = cons_r s + 128 \<longleftrightarrow> cons_e s - cons_r s = 128" by (auto simp: algebra_simps)
  also have "\<dots> \<longleftrightarrow> unat (cons_e s - cons_r s) = unat (128 :: uint)" by (rule word_unat_eq_iff)
  finally show "cons_e s = cons_r s + of_nat INPUT_BUF \<longleftrightarrow> length (committed s) + length (editing s) = INPUT_BUF"
    using cons_total [OF assms] by (simp add: INPUT_BUF_def)
  show "cons_e s - cons_r s < of_nat INPUT_BUF \<longleftrightarrow> length (committed s) + length (editing s) < INPUT_BUF"
    using cons_total [OF assms] by (simp add: INPUT_BUF_def word_less_nat_alt)
qed

text \<open>\<^verbatim>\<open>consoleintr\<close> on a character that goes into the buffer, before and after it is handed over.\<close>

lemma cons_insert:
  fixes s :: "'a console_state_scheme" and c :: byte
  assumes "cons_ok s" "length (committed s) + length (editing s) < INPUT_BUF"
  defines "t \<equiv> s\<lparr>cons_buf := (cons_buf s)(unat (cons_e s) mod INPUT_BUF := c), cons_e := cons_e s + 1\<rparr>"
  shows "committed t = committed s" "editing t = editing s @ [c]"
    and "committed (t\<lparr>cons_w := cons_e t\<rparr>) = committed s @ editing s @ [c]" "editing (t\<lparr>cons_w := cons_e t\<rparr>) = []"
proof -
  define a b where "a = unat (cons_w s - cons_r s)" and "b = unat (cons_e s - cons_w s)"
  have lt: "a + b < 128" using assms(2) by (simp add: cons_lengths a_def b_def INPUT_BUF_def)
  have er: "unat (cons_e s - cons_r s) = a + b" unfolding a_def b_def
    by (rule unat_distance) (use lt in \<open>simp add: a_def b_def\<close>)
  have slot: "unat (cons_e s) mod 128 = (unat (cons_r s) + (a + b)) mod 128" "unat (cons_e s) mod 128 = (unat (cons_w s) + b) mod 128"
    using unat_mod_ahead [of "cons_e s" "cons_r s"] unat_mod_ahead [of "cons_e s" "cons_w s"] er by (simp_all add: b_def)
  have b1: "unat (cons_e s + 1 - cons_w s) = Suc b" "unat (cons_e s + 1 - cons_r s) = Suc (a + b)"
    using lt er unat_Suc_uint [of "cons_e s - cons_w s"] unat_Suc_uint [of "cons_e s - cons_r s"]
    by (simp_all add: b_def add_diff_eq diff_add_eq)
  show c: "committed t = committed s"
    unfolding committed_def INPUT_BUF_def t_def using ring_other_slot [of a "a + b" 128] lt
    by (simp add: slot(1) INPUT_BUF_def flip: a_def)
  show e: "editing t = editing s @ [c]"
    unfolding editing_def INPUT_BUF_def t_def using ring_push [of b 128] lt
    by (simp add: slot(2) INPUT_BUF_def b1 flip: b_def)
  show "editing (t\<lparr>cons_w := cons_e t\<rparr>) = []" by (simp add: editing_def)
  have "committed (t\<lparr>cons_w := cons_e t\<rparr>) = ring_bytes 128 (cons_buf t) (unat (cons_r s)) (a + Suc b)"
    by (simp add: committed_def t_def INPUT_BUF_def b1)
  also have "\<dots> = committed t @ editing t"
    unfolding ring_concat by (simp add: committed_def editing_def t_def INPUT_BUF_def b1 a_def unat_ring_ahead [of _ "cons_w s" _ "cons_r s"])
  finally show "committed (t\<lparr>cons_w := cons_e t\<rparr>) = committed s @ editing s @ [c]" unfolding c e .
qed

lemma cons_erase:
  assumes "editing s \<noteq> []"
  shows "committed (s\<lparr>cons_e := cons_e s - 1\<rparr>) = committed s" "editing (s\<lparr>cons_e := cons_e s - 1\<rparr>) = butlast (editing s)"
proof -
  have "length (editing s) \<noteq> 0" using assms by simp
  then have "unat (cons_e s - cons_w s) \<noteq> 0" by (simp add: cons_lengths)
  from unat_pred [OF this] have e: "unat (cons_e s - cons_w s) = Suc (unat (cons_e s - 1 - cons_w s))" by (simp add: algebra_simps)
  show "editing (s\<lparr>cons_e := cons_e s - 1\<rparr>) = butlast (editing s)"
    unfolding butlast_conv_take cons_lengths using ring_take [of "unat (cons_e s - 1 - cons_w s)" "unat (cons_e s - cons_w s)"]
    by (simp add: editing_def e)
qed (simp add: committed_def)

lemma cons_frame [simp]:
  "committed (uart_sends cs s) = committed s" "editing (uart_sends cs s) = editing s"
  "committed (s\<lparr>held := h\<rparr>) = committed s" "editing (s\<lparr>held := h\<rparr>) = editing s"
  "committed (s\<lparr>procs := ps\<rparr>) = committed s" "editing (s\<lparr>procs := ps\<rparr>) = editing s"
  by (simp_all add: committed_def editing_def)

lemma kill_line_eq:
  assumes "\<not> panicked s" "10 \<notin> set (editing s)" "k = length (editing s)"
  shows "\<exists>t. kill_line k s = Ok () t \<and> committed t = committed s \<and> editing t = [] \<and> held t = held s \<and>
    cons_r t = cons_r s \<and> procs t = procs s"
  using assms
proof (induction k arbitrary: s)
  case (Suc k)
  then have ne: "editing s \<noteq> []" by auto
  let ?s = "s\<lparr>cons_e := cons_e s - 1\<rparr>"
  let ?u = "uart_sends [8, 32, 8] ?s"
  have "last (editing s) = cons_buf s (unat (cons_e s - 1) mod INPUT_BUF)"
  proof -
    have d: "unat (cons_e s - cons_w s) = Suc (unat (cons_e s - 1 - cons_w s))"
      using unat_pred [of "cons_e s - cons_w s"] Suc.prems(3) by (simp add: cons_lengths algebra_simps)
    show ?thesis using unat_mod_ahead [of "cons_e s - 1" "cons_w s"] by (simp add: editing_def ring_bytes_def d INPUT_BUF_def)
  qed
  then have nl: "cons_buf s (unat (cons_e s - 1) mod INPUT_BUF) \<noteq> 10" using Suc.prems(2) last_in_set [OF ne] by auto
  have "cons_e s \<noteq> cons_w s" using Suc.prems(3) by (auto simp: cons_lengths)
  then have e: "kill_line (Suc k) s = kill_line k ?u" using nl Suc.prems(1) by (simp add: consputc_eq)
  have "\<exists>t. kill_line k ?u = Ok () t \<and> committed t = committed ?u \<and> editing t = [] \<and> held t = held ?u \<and>
    cons_r t = cons_r ?u \<and> procs t = procs ?u"
    using Suc.prems by (intro Suc.IH) (auto simp: cons_erase [OF ne] dest: in_set_butlastD)
  then show ?case unfolding e by (simp add: cons_erase [OF ne])
qed auto

text \<open>What a typed character does to the input handed over and the line being edited.\<close>

definition line_edit :: "int \<Rightarrow> byte list \<times> byte list \<Rightarrow> byte list \<times> byte list" where
  "line_edit c = (\<lambda>(com, ed).
     if c = Ctrl 80 then (com, ed)
     else if c = Ctrl 85 then (com, [])
     else if c = Ctrl 72 \<or> c = 0x7f then (com, butlast ed)
     else if c = 0 \<or> INPUT_BUF \<le> length com + length ed then (com, ed)
     else let d = (if c = 13 then 10 else c); l = ed @ [word_of_int d]
          in if d = 10 \<or> d = Ctrl 68 \<or> length com + length l = INPUT_BUF then (com @ l, []) else (com, l))"

definition line_step :: "int \<Rightarrow> 'a console_state_scheme \<Rightarrow> 'a console_state_scheme \<Rightarrow> bool" where
  "line_step c s t \<longleftrightarrow> cons_ok t \<and> (committed t, editing t) = line_edit c (committed s, editing s) \<and> held t = held s \<and>
     cons_r t = cons_r s \<and> procs t = (if committed t = committed s then procs s else wake ConsRead {..<NPROC} (procs s))"

lemma consoleintr_insert:
  fixes s :: "'a console_state_scheme" and c :: int
  assumes "cons_ok s" "length (committed s) + length (editing s) < INPUT_BUF" "no_plock s" "\<not> panicked s"
    and "0 < c" "c < 256" "c \<notin> {Ctrl 80, Ctrl 85, Ctrl 72, 0x7f}"
    and d_def: "d = (if c = 13 then 10 else c)" and t_def: "t = (uart_sends [word_of_int d] s)
     \<lparr>cons_buf := (cons_buf s)(unat (cons_e s) mod INPUT_BUF := word_of_int d), cons_e := cons_e s + 1\<rparr>"
  shows "\<exists>u. (if d = 10 \<or> d = Ctrl 68 \<or> cons_e t = cons_r t + of_nat INPUT_BUF then wakeup ConsRead (t\<lparr>cons_w := cons_e t\<rparr>)
      else Ok () t) = Ok () u \<and> line_step c s u"
proof -
  have ok: "cons_ok (uart_sends [word_of_int d] s)" using assms(1) by (simp add: cons_ok_def)
  note ins = cons_insert [OF ok, of "word_of_int d", simplified, OF assms(2), folded t_def]
  have dw: "word_of_int d = (10 :: byte) \<longleftrightarrow> d = 10"
  proof
    assume "word_of_int d = (10 :: byte)"
    then have "uint (word_of_int d :: byte) = uint (10 :: byte)" by simp
    then show "d = 10" using assms(5,6) by (simp add: d_def uint_word_of_int split: if_splits)
  qed simp
  have full: "cons_e t = cons_r t + of_nat INPUT_BUF \<longleftrightarrow> length (committed s) + Suc (length (editing s)) = INPUT_BUF"
    using cons_full(1) [of t] assms(2) ins by simp
  have le: "line_edit c (committed s, editing s) = (if d = 10 \<or> d = Ctrl 68 \<or> length (committed s) + Suc (length (editing s)) = INPUT_BUF
      then (committed s @ editing s @ [word_of_int d], []) else (committed s, editing s @ [word_of_int d]))"
    using assms(2,5,7) by (auto simp: line_edit_def Let_def d_def)
  have np: "no_plock (t\<lparr>cons_w := cons_e t\<rparr>)" using assms(3) by (simp add: t_def no_plock_def)
  show ?thesis
  proof (cases "d = 10 \<or> d = Ctrl 68 \<or> cons_e t = cons_r t + of_nat INPUT_BUF")
    case True
    let ?u = "t\<lparr>cons_w := cons_e t, procs := wake ConsRead {..<NPROC} (procs s)\<rparr>"
    have "wakeup ConsRead (t\<lparr>cons_w := cons_e t\<rparr>) = Ok () ?u" using wakeup_eq [OF np, of ConsRead] by (simp add: t_def)
    moreover have "line_step c s ?u" using True assms(2) ins le full by (auto simp: line_step_def cons_ok_def t_def)
    ultimately show ?thesis using True by simp
  next
    case False
    moreover have "line_step c s t" using False assms(1,2) ins le full dw by (auto simp: line_step_def cons_ok_def t_def)
    ultimately show ?thesis by simp
  qed
qed

text \<open>C28. The console's line discipline. For every character the serial port can deliver, \<^verbatim>\<open>consoleintr\<close> returns, keeps the
  ring within its 128 bytes, and does to the pair of strings (input handed over, line being edited) what \<open>line_edit\<close>
  says: control-U empties the line, backspace and delete drop its last character, a carriage return counts as newline,
  other characters are appended; newline, control-D and a full ring hand the line over and wake the readers. Input
  already handed over cannot be erased, and characters typed on a full ring are dropped.\<close>

theorem console_line_discipline:
  fixes s :: "'a console_state_scheme"
  assumes "cons_ok s" "ConsLock \<notin> held s" "PrLock \<notin> held s" "no_plock s" "\<not> panicked s" "0 \<le> c" "c < 256"
  shows "\<exists>t. consoleintr c s = Ok () t \<and> line_step c s t"
proof -
  let ?s = "s\<lparr>held := insert ConsLock (held s)\<rparr>"
  have s: "cons_ok ?s" "no_plock ?s" "\<not> panicked ?s" "length (committed ?s) + length (editing ?s) \<le> INPUT_BUF"
    using assms(1,4,5) by (auto simp: cons_ok_def no_plock_def)
  have fin: "\<exists>t. consoleintr c s = Ok () t \<and> line_step c s t" if u: "line_step c ?s u"
    and b: "consoleintr c s = bindK (Ok () u) (\<lambda>_ s4. unlock ConsLock s4)" for u
  proof (intro exI [of _ "u\<lparr>held := held s\<rparr>"] conjI)
    show "consoleintr c s = Ok () (u\<lparr>held := held s\<rparr>)" using u b assms(2) by (simp add: line_step_def unlock_held)
    show "line_step c s (u\<lparr>held := held s\<rparr>)" using u by (simp add: line_step_def cons_ok_def)
  qed
  consider (p) "c = Ctrl 80" | (u) "c = Ctrl 85" | (h) "c = Ctrl 72 \<or> c = 0x7f"
    | (ins) "c \<notin> {Ctrl 80, Ctrl 85, Ctrl 72, 0x7f}" "c \<noteq> 0" "length (committed ?s) + length (editing ?s) < INPUT_BUF"
    | (drop) "c \<notin> {Ctrl 80, Ctrl 85, Ctrl 72, 0x7f}" "c = 0 \<or> \<not> length (committed ?s) + length (editing ?s) < INPUT_BUF" by auto
  then show ?thesis
  proof cases
    case p
    obtain cs where "procdump ?s = Ok () (uart_sends cs ?s)" using procdump_prints [of ?s] assms(3,5) by auto
    moreover have "line_step c ?s (uart_sends cs ?s)" using s(1) p by (simp add: line_step_def cons_ok_def line_edit_def)
    ultimately show ?thesis using fin [of "uart_sends cs ?s"] p assms(2) by (simp add: consoleintr_def lock_free)
  next
    case u
    have "10 \<notin> set (editing ?s)" using s(1) by (simp add: cons_ok_def)
    from kill_line_eq [OF s(3) this refl] obtain t where t: "kill_line (length (editing ?s)) ?s = Ok () t"
      "committed t = committed ?s" "editing t = []" "held t = held ?s" "cons_r t = cons_r ?s" "procs t = procs ?s" by blast
    then have "line_step c ?s t" using s(1) u by (simp add: line_step_def cons_ok_def line_edit_def Ctrl_def)
    moreover have "consoleintr c s = bindK (Ok () t) (\<lambda>_ s4. unlock ConsLock s4)"
      using t(1) u assms(2) by (simp add: consoleintr_def lock_free Ctrl_def cons_lengths)
    ultimately show ?thesis by (rule fin)
  next
    case h
    show ?thesis
    proof (cases "editing ?s = []")
      case True
      then have "length (editing ?s) = 0" by simp
      then have "cons_e s = cons_w s" by (simp add: cons_lengths unat_eq_zero)
      then have "consoleintr c s = bindK (Ok () ?s) (\<lambda>_ s4. unlock ConsLock s4)"
        using h assms(2) by (auto simp: consoleintr_def lock_free Ctrl_def)
      moreover have "line_step c ?s ?s" using s(1) h True by (auto simp: line_step_def line_edit_def Ctrl_def)
      ultimately show ?thesis by (rule fin [rotated])
    next
      case False
      let ?u = "uart_sends [8, 32, 8] (?s\<lparr>cons_e := cons_e ?s - 1\<rparr>)"
      note er = cons_erase [OF False]
      have "cons_e s \<noteq> cons_w s" using False by (auto simp: editing_def)
      then have "consoleintr c s = bindK (Ok () ?u) (\<lambda>_ s4. unlock ConsLock s4)"
        using h assms(2,5) by (auto simp: consoleintr_def lock_free Ctrl_def consputc_eq)
      moreover have "line_step c ?s ?u"
        using s(1) h er by (auto simp: line_step_def line_edit_def cons_ok_def Ctrl_def dest: in_set_butlastD)
      ultimately show ?thesis by (rule fin [rotated])
    qed
  next
    case ins
    define d where "d = (if c = 13 then 10 else c)"
    define t where "t = (uart_sends [word_of_int d] ?s)
      \<lparr>cons_buf := (cons_buf ?s)(unat (cons_e ?s) mod INPUT_BUF := word_of_int d), cons_e := cons_e ?s + 1\<rparr>"
    have c: "0 < c" "d \<noteq> BACKSPACE" using ins(2) assms(6,7) by (auto simp: BACKSPACE_def d_def)
    obtain u where u: "(if d = 10 \<or> d = Ctrl 68 \<or> cons_e t = cons_r t + of_nat INPUT_BUF
        then wakeup ConsRead (t\<lparr>cons_w := cons_e t\<rparr>) else Ok () t) = Ok () u" "line_step c ?s u"
      using consoleintr_insert [OF s(1) ins(3) s(2,3) c(1) assms(7) ins(1) d_def t_def] by (elim exE conjE)
    have "consoleintr c s = bindK (if d = 10 \<or> d = Ctrl 68 \<or> cons_e t = cons_r t + of_nat INPUT_BUF
        then wakeup ConsRead (t\<lparr>cons_w := cons_e t\<rparr>) else Ok () t) (\<lambda>_ s4. unlock ConsLock s4)"
      using ins c(2) cons_full(2) [OF s(4)] assms(2,5) unfolding t_def
      by (simp add: consoleintr_def lock_free Let_def consputc_eq flip: d_def)
    then have "consoleintr c s = bindK (Ok () u) (\<lambda>_ s4. unlock ConsLock s4)" unfolding u(1) .
    then show ?thesis using u(2) by (rule fin [rotated])
  next
    case drop
    then have "consoleintr c s = bindK (Ok () ?s) (\<lambda>_ s4. unlock ConsLock s4)"
      using cons_full(2) [OF s(4)] assms(2) by (auto simp: consoleintr_def lock_free)
    moreover have "line_step c ?s ?s" using s(1) drop by (auto simp: line_step_def line_edit_def)
    ultimately show ?thesis by (rule fin [rotated])
  qed
qed

theorem console_line_discipline_witness:
  "\<exists>t u. consoleintr 65 demo_file = Ok () t \<and> committed t = [] \<and> editing t = [65] \<and>
     consoleintr 13 demo_file = Ok () u \<and> committed u = [10] \<and> editing u = []"
proof -
  have d: "committed demo_file = []" "editing demo_file = []"
    by (simp_all add: committed_def editing_def demo_file_def console_state.defs demo_cons_def fs_state.defs)
  have "no_plock demo_file" "cons_ok demo_file" by (simp_all add: no_plock_def demo_file_simps cons_ok_def d)
  then show ?thesis
    using console_line_discipline [of demo_file 65] console_line_discipline [of demo_file 13] demo_file_tx(2)
    by (auto simp: demo_file_simps line_step_def line_edit_def d Ctrl_def INPUT_BUF_def)
qed

end
