(* ===== verification/Xv6_Ulib.thy ===== *)
theory Xv6_Ulib
  imports Xv6_Console
begin

text \<open>
  The C library of the user programs: \<^verbatim>\<open>user/ulib.c\<close> over a byte memory and \<^verbatim>\<open>user/printf.c\<close>. Routines that have a
  namesake in the kernel end in \<open>_u\<close>. Input comes from successive calls of \<^verbatim>\<open>read\<close> on a stream: \<open>read_call\<close> returns
  some of the bytes that are left, at least one unless none is left or none is asked for, and the schedule of short reads is part of
  the stream, so that a property of a program that reads holds for every way the bytes may arrive.
\<close>

section \<open>Input streams\<close>

type_synonym stream_in = "byte list \<times> nat list"

fun read_call :: "nat \<Rightarrow> stream_in \<Rightarrow> byte list \<times> stream_in" where
  "read_call n (xs, []) = (take n xs, (drop n xs, []))"
| "read_call n (xs, k # ks) = (take (min n (Suc k)) xs, (drop (min n (Suc k)) xs, ks))"

lemma read_call_split:
  assumes "read_call n (xs, ks) = (bs, (ys, ls))"
  shows "xs = bs @ ys" "length bs \<le> n" "bs = [] \<longleftrightarrow> n = 0 \<or> xs = []"
  using assms by (cases ks; auto)+

section \<open>Strings and memory\<close>

partial_function (option) strcpy :: "memory \<Rightarrow> uint64 \<Rightarrow> uint64 \<Rightarrow> memory option" where
  "strcpy m s t = (let m' = m(s := m t) in if m t \<noteq> 0 then strcpy m' (s + 1) (t + 1) else Some m')"

partial_function (option) strcmp :: "memory \<Rightarrow> uint64 \<Rightarrow> uint64 \<Rightarrow> int option" where
  "strcmp m p q = (if m p \<noteq> 0 \<and> m p = m q then strcmp m (p + 1) (q + 1) else Some (uint (m p) - uint (m q)))"

partial_function (option) strlen_u_loop :: "memory \<Rightarrow> uint64 \<Rightarrow> nat \<Rightarrow> nat option" where
  "strlen_u_loop m s n = (if m (s + of_nat n) = 0 then Some n else strlen_u_loop m s (Suc n))"

definition strlen_u :: "memory \<Rightarrow> uint64 \<Rightarrow> nat option" where
  "strlen_u m s = strlen_u_loop m s 0"

function memset_u_loop :: "memory \<Rightarrow> uint64 \<Rightarrow> byte \<Rightarrow> nat \<Rightarrow> nat \<Rightarrow> memory" where
  "memset_u_loop m cdst c i n = (if i < n then memset_u_loop (m(cdst + of_nat i := c)) cdst c (Suc i) n else m)"
  by pat_completeness auto
termination by (relation "measure (\<lambda>(m, d, c, i, n). n - i)") auto

declare memset_u_loop.simps [simp del]

definition memset_u :: "memory \<Rightarrow> uint64 \<Rightarrow> uint \<Rightarrow> uint \<Rightarrow> memory" where
  "memset_u m dst c n = memset_u_loop m dst (ucast c) 0 (unat n)"

text \<open>\<open>Some 0\<close> is the null pointer, returned when the character does not occur.\<close>

partial_function (option) strchr :: "memory \<Rightarrow> uint64 \<Rightarrow> byte \<Rightarrow> uint64 option" where
  "strchr m s c = (if m s = 0 then Some 0 else if m s = c then Some s else strchr m (s + 1) c)"

text \<open>\<open>gets\<close> with \<open>i\<close> bytes in the buffer returns the bytes it stores before the NUL.\<close>

function gets_loop :: "int \<Rightarrow> byte list \<Rightarrow> stream_in \<Rightarrow> byte list \<times> stream_in" where
  "gets_loop mx buf st =
     (if int (length buf) + 1 < mx
      then case read_call 1 st of
          ([], st') \<Rightarrow> (buf, st')
        | (c # _, st') \<Rightarrow> if c = 10 \<or> c = 13 then (buf @ [c], st') else gets_loop mx (buf @ [c]) st'
      else (buf, st))"
  by pat_completeness auto
termination by (relation "measure (\<lambda>(mx, buf, st). nat (mx - int (length buf)))") auto

declare gets_loop.simps [simp del]

definition gets :: "int \<Rightarrow> stream_in \<Rightarrow> byte list \<times> stream_in" where
  "gets mx st = gets_loop mx [] st"

fun atoi_loop :: "uint \<Rightarrow> byte list \<Rightarrow> uint" where
  "atoi_loop n [] = n"
| "atoi_loop n (c # cs) = (if 48 \<le> c \<and> c \<le> 57 then atoi_loop (n * 10 + ucast c - 48) cs else n)"

text \<open>The argument is the string without its NUL; the result is the 32 bits of the \<^verbatim>\<open>int\<close>.\<close>

definition atoi :: "byte list \<Rightarrow> uint" where
  "atoi s = atoi_loop 0 s"

definition memmove_u :: "memory \<Rightarrow> uint64 \<Rightarrow> uint64 \<Rightarrow> int \<Rightarrow> memory" where
  "memmove_u m dst src n =
     (if src > dst then copy_forward m dst src (nat n)
      else copy_backward m (dst + of_int n) (src + of_int n) (nat n))"

fun memcmp_u_loop :: "memory \<Rightarrow> uint64 \<Rightarrow> uint64 \<Rightarrow> nat \<Rightarrow> int" where
  "memcmp_u_loop m p1 p2 0 = 0"
| "memcmp_u_loop m p1 p2 (Suc n) =
     (if m p1 \<noteq> m p2 then uint (m p1) - uint (m p2) else memcmp_u_loop m (p1 + 1) (p2 + 1) n)"

definition memcmp_u :: "memory \<Rightarrow> uint64 \<Rightarrow> uint64 \<Rightarrow> uint \<Rightarrow> int" where
  "memcmp_u m s1 s2 n = memcmp_u_loop m s1 s2 (unat n)"

definition memcpy_u :: "memory \<Rightarrow> uint64 \<Rightarrow> uint64 \<Rightarrow> uint \<Rightarrow> memory" where
  "memcpy_u m dst src n = memmove_u m dst src (sint n)"

section \<open>Formatted output\<close>

definition digits_u :: "nat \<Rightarrow> byte" where
  "digits_u k = (if k < 10 then 48 + of_nat k else 55 + of_nat k)"

function printint_u_loop :: "nat \<Rightarrow> nat \<Rightarrow> byte list" where
  "printint_u_loop b x = digits_u (x mod b) # (if x div b = 0 \<or> b \<le> 1 then [] else printint_u_loop b (x div b))"
  by pat_completeness auto
termination
proof (relation "measure snd")
  fix b x :: nat
  assume "\<not> (x div b = 0 \<or> b \<le> 1)"
  then have "1 < b" "0 < x" by (auto intro: gr0I)
  then show "((b, x div b), b, x) \<in> measure snd" by (simp add: div_less_dividend)
qed simp

declare printint_u_loop.simps [simp del]

definition printint_u :: "uint \<Rightarrow> nat \<Rightarrow> bool \<Rightarrow> byte list" where
  "printint_u xx b sg =
     (let neg = (sg \<and> sint xx < 0);
          x = (if neg then - xx else xx);
          buf = printint_u_loop b (unat x) @ (if neg then [45] else [])
      in rev buf)"

definition printptr_u :: "uint64 \<Rightarrow> byte list" where
  "printptr_u x = [48, 120] @ map (\<lambda>i. digits_u (unat (drop_bit 60 (push_bit (4 * i) x)))) [0..<16]"

text \<open>\<open>vprintf\<close> as its loop over the format with the variable \<^verbatim>\<open>state\<close>, which is true after a percent sign. The result
  is what is written to the file; None when an argument is missing or of the wrong kind.\<close>

fun conv_u :: "byte \<Rightarrow> arg list \<Rightarrow> (byte list \<times> arg list) option" where
  "conv_u c as =
     (if c = 100 then (case as of ArgInt x # bs \<Rightarrow> Some (printint_u x 10 True, bs) | _ \<Rightarrow> None)
      else if c = 108 then (case as of ArgPtr x # bs \<Rightarrow> Some (printint_u (ucast x) 10 False, bs) | _ \<Rightarrow> None)
      else if c = 120 then (case as of ArgInt x # bs \<Rightarrow> Some (printint_u x 16 False, bs) | _ \<Rightarrow> None)
      else if c = 112 then (case as of ArgPtr x # bs \<Rightarrow> Some (printptr_u x, bs) | _ \<Rightarrow> None)
      else if c = 115 then (case as of a # bs \<Rightarrow> map_option (\<lambda>xs. (xs, bs)) (print_str a) | _ \<Rightarrow> None)
      else if c = 99 then (case as of ArgInt x # bs \<Rightarrow> Some ([ucast x], bs) | _ \<Rightarrow> None)
      else if c = 37 then Some ([c], as)
      else Some ([37, c], as))"

fun vprintf :: "bool \<Rightarrow> byte list \<Rightarrow> arg list \<Rightarrow> byte list option" where
  "vprintf st [] as = Some []"
| "vprintf False (c # cs) as = (if c = 37 then vprintf True cs as else map_option (Cons c) (vprintf False cs as))"
| "vprintf True (c # cs) as =
     (case conv_u c as of None \<Rightarrow> None | Some (out, bs) \<Rightarrow> map_option (append out) (vprintf False cs bs))"

definition printf_u :: "byte list \<Rightarrow> arg list \<Rightarrow> byte list option" where
  "printf_u fmt as = vprintf False fmt as"

section \<open>Numbers\<close>

lemma atoi_loop_append:
  "\<forall>c \<in> set ds. 48 \<le> c \<and> c \<le> 57 \<Longrightarrow> atoi_loop n (ds @ cs) = atoi_loop (atoi_loop n ds) cs"
  by (induction ds arbitrary: n) simp_all

lemma digits_u_decimal:
  assumes "k < 10"
  shows "48 \<le> digits_u k \<and> digits_u k \<le> 57" "ucast (digits_u k) = 48 + (of_nat k :: uint)" "digit k = digits_u k"
proof -
  have "k \<in> {0, 1, 2, 3, 4, 5, 6, 7, 8, 9}" using assms by auto
  then show "48 \<le> digits_u k \<and> digits_u k \<le> 57" "ucast (digits_u k) = 48 + (of_nat k :: uint)" by (auto simp: digits_u_def)
  show "digit k = digits_u k" using assms by (simp add: digit_def digits_u_def)
qed

lemma printint_u_loop_digits: "c \<in> set (printint_u_loop 10 x) \<Longrightarrow> 48 \<le> c \<and> c \<le> 57"
proof (induction "10 :: nat" x rule: printint_u_loop.induct)
  case (1 x)
  have "x mod 10 < 10" by simp
  then show ?case using 1 digits_u_decimal(1) [of "x mod 10"] by (subst (asm) (2) printint_u_loop.simps) (auto split: if_splits)
qed

lemma atoi_printint_loop: "atoi_loop 0 (rev (printint_u_loop 10 x)) = of_nat x"
proof (induction "10 :: nat" x rule: printint_u_loop.induct)
  case (1 x)
  have d: "x mod 10 < 10" by simp
  have e: "of_nat x = of_nat (x div 10) * 10 + (of_nat (x mod 10) :: uint)"
    by (metis div_mult_mod_eq of_nat_add of_nat_mult of_nat_numeral)
  show ?case
  proof (cases "x div 10 = 0")
    case True
    then have "x < 10" by auto
    then show ?thesis using digits_u_decimal [of x] by (subst printint_u_loop.simps) simp
  next
    case False
    have "rev (printint_u_loop 10 x) = rev (printint_u_loop 10 (x div 10)) @ [digits_u (x mod 10)]"
      using False by (subst printint_u_loop.simps) simp
    moreover have "atoi_loop 0 (rev (printint_u_loop 10 (x div 10)) @ [digits_u (x mod 10)]) =
      atoi_loop (of_nat (x div 10)) [digits_u (x mod 10)]"
      using printint_u_loop_digits 1 False by (subst atoi_loop_append) auto
    ultimately show ?thesis unfolding e using digits_u_decimal [OF d] by simp
  qed
qed

lemma printint_loop_eq: "printint_loop 10 x = printint_u_loop 10 x"
proof (induction "10 :: nat" x rule: printint_u_loop.induct)
  case (1 x)
  have "x mod 10 < 10" by simp
  with 1 show ?case by (subst printint_loop.simps, subst printint_u_loop.simps) (auto simp: digits_u_decimal(3))
qed


end
