(* ===== verification/Xv6_Filters.thy ===== *)
theory Xv6_Filters
  imports Xv6_Ulib
begin

text \<open>
  Programs that filter a stream: \<^verbatim>\<open>user/grep.c\<close> with its pattern matcher, and \<^verbatim>\<open>user/wc.c\<close>. Patterns and lines are byte
  strings without their NUL. The matcher is compared with the language a pattern denotes, the programs with what they
  should print for the whole input, however it is split over calls of \<^verbatim>\<open>read\<close>.
\<close>

section \<open>The pattern matcher\<close>

text \<open>The bytes of \<^verbatim>\<open>*\<close>, \<^verbatim>\<open>.\<close>, \<^verbatim>\<open>$\<close> and \<^verbatim>\<open>^\<close>.\<close>

abbreviation STAR :: byte where "STAR \<equiv> 42"
abbreviation DOT :: byte where "DOT \<equiv> 46"
abbreviation DOLLAR :: byte where "DOLLAR \<equiv> 36"
abbreviation CARET :: byte where "CARET \<equiv> 94"

function (sequential) matchhere :: "byte list \<Rightarrow> byte list \<Rightarrow> bool"
  and matchstar :: "byte \<Rightarrow> byte list \<Rightarrow> byte list \<Rightarrow> bool" where
  "matchhere [] text = True"
| "matchhere (c # re) text =
     (if re \<noteq> [] \<and> hd re = STAR then matchstar c (tl re) text
      else if c = DOLLAR \<and> re = [] then text = []
      else if text \<noteq> [] \<and> (c = DOT \<or> c = hd text) then matchhere re (tl text)
      else False)"
| "matchstar c re text =
     (if matchhere re text then True
      else if text \<noteq> [] \<and> (hd text = c \<or> c = DOT) then matchstar c re (tl text)
      else False)"
  by pat_completeness auto
termination
  by (relation "measure (case_sum (\<lambda>(re, text). 2 * (length re + length text)) (\<lambda>(c, re, text). Suc (2 * (length re + length text))))")
    (auto simp: neq_Nil_conv)

declare matchhere.simps [simp del] matchstar.simps [simp del]

fun match_loop :: "byte list \<Rightarrow> byte list \<Rightarrow> bool" where
  "match_loop re [] = matchhere re []"
| "match_loop re (c # text) = (if matchhere re (c # text) then True else match_loop re text)"

definition match :: "byte list \<Rightarrow> byte list \<Rightarrow> bool" where
  "match re text = (if re \<noteq> [] \<and> hd re = CARET then matchhere (tl re) text else match_loop re text)"

section \<open>What a pattern means\<close>

datatype item = One byte | Many byte

text \<open>A pattern is a list of items, some of them starred, and perhaps a final dollar sign.\<close>

fun items :: "byte list \<Rightarrow> item list \<times> bool" where
  "items [] = ([], False)"
| "items [c] = (if c = DOLLAR then ([], True) else ([One c], False))"
| "items (c # d # re) =
     (if d = STAR then let (is, e) = items re in (Many c # is, e) else let (is, e) = items (d # re) in (One c # is, e))"

definition sat :: "byte \<Rightarrow> byte \<Rightarrow> bool" where
  "sat c x \<longleftrightarrow> c = DOT \<or> x = c"

fun lang :: "item list \<Rightarrow> byte list set" where
  "lang [] = {[]}"
| "lang (One c # is) = {x # w | x w. sat c x \<and> w \<in> lang is}"
| "lang (Many c # is) = {u @ w | u w. (\<forall>x \<in> set u. sat c x) \<and> w \<in> lang is}"

text \<open>A text starts with an instance of the pattern, which is the whole text when the pattern ends in a dollar sign.\<close>

definition starts_with :: "byte list \<Rightarrow> byte list \<Rightarrow> bool" where
  "starts_with re text \<longleftrightarrow> (\<exists>w v. text = w @ v \<and> w \<in> lang (fst (items re)) \<and> (snd (items re) \<longrightarrow> v = []))"

lemma starts_with_Nil: "starts_with [] text"
  by (simp add: starts_with_def)

lemma starts_with_dollar: "starts_with [DOLLAR] text \<longleftrightarrow> text = []"
  by (simp add: starts_with_def)

lemma starts_with_One:
  assumes "\<not> (c = DOLLAR \<and> re = [])" "re = [] \<or> hd re \<noteq> STAR"
  shows "starts_with (c # re) text \<longleftrightarrow> (\<exists>x t. text = x # t \<and> sat c x \<and> starts_with re t)"
proof -
  have "items (c # re) = (One c # fst (items re), snd (items re))"
    using assms by (cases re) (auto split: prod.splits)
  then have e: "starts_with (c # re) text \<longleftrightarrow>
      (\<exists>w v. text = w @ v \<and> w \<in> lang (One c # fst (items re)) \<and> (snd (items re) \<longrightarrow> v = []))" by (simp add: starts_with_def)
  show ?thesis
  proof
    assume "starts_with (c # re) text"
    then obtain x w v where "text = x # w @ v" "sat c x" "w \<in> lang (fst (items re))" "snd (items re) \<longrightarrow> v = []"
      unfolding e lang.simps mem_Collect_eq by (metis append_Cons)
    then show "\<exists>x t. text = x # t \<and> sat c x \<and> starts_with re t" unfolding starts_with_def by blast
  next
    assume "\<exists>x t. text = x # t \<and> sat c x \<and> starts_with re t"
    then obtain x w v where "text = x # w @ v" "sat c x" "w \<in> lang (fst (items re))" "snd (items re) \<longrightarrow> v = []"
      unfolding starts_with_def by blast
    then show "starts_with (c # re) text" unfolding e by (intro exI [of _ "x # w"] exI [of _ v]) simp
  qed
qed

lemma starts_with_Many:
  "starts_with (c # STAR # re) text \<longleftrightarrow> (\<exists>u v. text = u @ v \<and> (\<forall>x \<in> set u. sat c x) \<and> starts_with re v)"
proof -
  have "items (c # STAR # re) = (Many c # fst (items re), snd (items re))" by (auto split: prod.splits)
  then have e: "starts_with (c # STAR # re) text \<longleftrightarrow>
      (\<exists>w v. text = w @ v \<and> w \<in> lang (Many c # fst (items re)) \<and> (snd (items re) \<longrightarrow> v = []))" by (simp add: starts_with_def)
  show ?thesis
  proof
    assume "starts_with (c # STAR # re) text"
    then obtain u w v where "text = u @ w @ v" "\<forall>x \<in> set u. sat c x" "w \<in> lang (fst (items re))" "snd (items re) \<longrightarrow> v = []"
      unfolding e lang.simps mem_Collect_eq by (metis append_assoc)
    then show "\<exists>u v. text = u @ v \<and> (\<forall>x \<in> set u. sat c x) \<and> starts_with re v" unfolding starts_with_def by blast
  next
    assume "\<exists>u v. text = u @ v \<and> (\<forall>x \<in> set u. sat c x) \<and> starts_with re v"
    then obtain u w v where "text = u @ w @ v" "\<forall>x \<in> set u. sat c x" "w \<in> lang (fst (items re))" "snd (items re) \<longrightarrow> v = []"
      unfolding starts_with_def by blast
    then show "starts_with (c # STAR # re) text" unfolding e by (intro exI [of _ "u @ w"] exI [of _ v]) auto
  qed
qed

lemma many_unfold:
  "(\<exists>u v. text = u @ v \<and> (\<forall>x \<in> set u. sat c x) \<and> P v) \<longleftrightarrow>
   P text \<or> (\<exists>x t. text = x # t \<and> sat c x \<and> (\<exists>u v. t = u @ v \<and> (\<forall>x \<in> set u. sat c x) \<and> P v))"
proof
  assume "\<exists>u v. text = u @ v \<and> (\<forall>x \<in> set u. sat c x) \<and> P v"
  then obtain u v where "text = u @ v" "\<forall>x \<in> set u. sat c x" "P v" by blast
  then show "P text \<or> (\<exists>x t. text = x # t \<and> sat c x \<and> (\<exists>u v. t = u @ v \<and> (\<forall>x \<in> set u. sat c x) \<and> P v))"
    by (cases u) auto
next
  assume "P text \<or> (\<exists>x t. text = x # t \<and> sat c x \<and> (\<exists>u v. t = u @ v \<and> (\<forall>x \<in> set u. sat c x) \<and> P v))"
  then show "\<exists>u v. text = u @ v \<and> (\<forall>x \<in> set u. sat c x) \<and> P v"
  proof (elim disjE exE conjE)
    assume "P text"
    then show ?thesis by (intro exI [of _ "[]"] exI [of _ "text"]) simp
  next
    fix x t u v
    assume "text = x # t" "sat c x" "t = u @ v" "\<forall>x \<in> set u. sat c x" "P v"
    then show ?thesis by (intro exI [of _ "x # u"] exI [of _ v]) simp
  qed
qed

lemma matchhere_iff: "matchhere re text \<longleftrightarrow> starts_with re text"
  and matchstar_iff: "matchstar c re text \<longleftrightarrow> (\<exists>u v. text = u @ v \<and> (\<forall>x \<in> set u. sat c x) \<and> starts_with re v)"
proof (induction re "text" and c re "text" rule: matchhere_matchstar.induct)
  case (1 tx)
  then show ?case by (simp add: matchhere.simps starts_with_Nil)
next
  case (2 c re tx)
  consider (star) r where "re = STAR # r" | (dollar) "c = DOLLAR" "re = []"
    | (one) "re = [] \<or> hd re \<noteq> STAR" "\<not> (c = DOLLAR \<and> re = [])" by (cases re) auto
  then show ?case
  proof cases
    case star
    then show ?thesis using 2 by (simp add: matchhere.simps starts_with_Many)
  next
    case dollar
    then show ?thesis by (simp add: matchhere.simps starts_with_dollar)
  next
    case one
    then have "matchhere (c # re) tx \<longleftrightarrow> tx \<noteq> [] \<and> (c = DOT \<or> c = hd tx) \<and> matchhere re (tl tx)"
      by (auto simp: matchhere.simps)
    then show ?thesis using 2 one unfolding starts_with_One [OF one(2,1)]
      by (cases tx) (auto simp: sat_def)
  qed
next
  case (3 c re tx)
  then show ?case unfolding many_unfold [of tx] by (cases tx) (auto simp: matchstar.simps [of c re] sat_def)
qed

text \<open>C33. The matcher decides the language of the pattern: \<^verbatim>\<open>match\<close> finds a text exactly when some part of it (the
  beginning, after \<^verbatim>\<open>^\<close>; up to the end, before \<^verbatim>\<open>$\<close>) is in the language where a character stands for itself, a dot for any
  character and a starred character for any number of them. The recursion of \<^verbatim>\<open>matchhere\<close> and \<^verbatim>\<open>matchstar\<close> always ends.\<close>

theorem match_decides_language:
  "match re text \<longleftrightarrow>
     (if re \<noteq> [] \<and> hd re = CARET then starts_with (tl re) text
      else \<exists>u v. text = u @ v \<and> starts_with re v)"
proof -
  have "match_loop re text \<longleftrightarrow> (\<exists>u v. text = u @ v \<and> starts_with re v)"
  proof (induction "text")
    case (Cons c tx)
    have "(\<exists>u v. c # tx = u @ v \<and> starts_with re v) \<longleftrightarrow> starts_with re (c # tx) \<or> (\<exists>u v. tx = u @ v \<and> starts_with re v)"
      by (auto simp: Cons_eq_append_conv)
    with Cons show ?case by (simp add: matchhere_iff)
  qed (simp add: matchhere_iff)
  then show ?thesis unfolding match_def matchhere_iff by presburger
qed

section \<open>grep\<close>

text \<open>\<^verbatim>\<open>strchr(p, '\n')\<close> on the bytes from \<open>p\<close> to the NUL at the end of the buffer.\<close>

definition find_nl :: "byte list \<Rightarrow> nat option" where
  "find_nl p = (let k = length (takeWhile (\<lambda>c. c \<noteq> 0 \<and> c \<noteq> 10) p)
                in if k < length p \<and> p ! k = 10 then Some k else None)"

text \<open>The inner loop of \<open>grep\<close>: what is written, and the bytes left from \<open>p\<close> on.\<close>

function grep_scan :: "byte list \<Rightarrow> byte list \<Rightarrow> byte list \<times> byte list" where
  "grep_scan pat p =
     (case find_nl p of
        None \<Rightarrow> ([], p)
      | Some k \<Rightarrow> let (out, r) = grep_scan pat (drop (Suc k) p)
                  in (if match pat (take k p) then (take (Suc k) p @ out, r) else (out, r)))"
  by pat_completeness auto
termination
  by (relation "measure (\<lambda>(pat, p). length p)") (auto simp: find_nl_def Let_def split: if_splits)

declare grep_scan.simps [simp del]

text \<open>The outer loop, with the \<open>m\<close> bytes of the unfinished line in the buffer. The results are the bytes written.\<close>

function grep :: "byte list \<Rightarrow> byte list \<Rightarrow> stream_in \<Rightarrow> byte list" where
  "grep pat buf (xs, ks) =
     (case read_call (1024 - length buf - 1) (xs, ks) of
        (bs, (ys, ls)) \<Rightarrow>
          if bs = [] then []
          else let (out, p) = grep_scan pat (buf @ bs) in out @ grep pat p (ys, ls))"
  by pat_completeness auto
termination
  by (relation "measure (\<lambda>(pat, buf, xs, ks). length xs)") (auto dest!: sym [THEN read_call_split(1)] read_call_split(1))

declare grep.simps [simp del]

text \<open>\<^verbatim>\<open>main\<close>: the bytes written to standard output, those written to standard error, and the exit status. \<open>fs\<close> is what
  \<^verbatim>\<open>open\<close> finds for a name.\<close>

fun grep_files :: "byte list \<Rightarrow> (byte list \<Rightarrow> stream_in option) \<Rightarrow> byte list list \<Rightarrow> byte list \<times> byte list \<times> int" where
  "grep_files pat fs [] = ([], [], 0)"
| "grep_files pat fs (n # ns) =
     (case fs n of
        None \<Rightarrow> (ascii ''grep: cannot open '' @ n @ [10], [], 1)
      | Some st \<Rightarrow> let (out, err, code) = grep_files pat fs ns in (grep pat [] st @ out, err, code))"

definition grep_main :: "byte list list \<Rightarrow> stream_in \<Rightarrow> (byte list \<Rightarrow> stream_in option) \<Rightarrow> byte list \<times> byte list \<times> int" where
  "grep_main argv stdin fs =
     (if length argv \<le> 1 then ([], ascii ''usage: grep pattern [file ...]'' @ [10], 1)
      else if length argv \<le> 2 then (grep (argv ! 1) [] stdin, [], 0)
      else grep_files (argv ! 1) fs (drop 2 argv))"

text \<open>The lines of an input, and what follows the last newline.\<close>

fun lines_of :: "byte list \<Rightarrow> byte list list \<times> byte list" where
  "lines_of [] = ([], [])"
| "lines_of (c # cs) = (case lines_of cs of (ls, r) \<Rightarrow>
     if c = 10 then ([] # ls, r) else (case ls of [] \<Rightarrow> ([], c # r) | l # ls' \<Rightarrow> ((c # l) # ls', r)))"

definition matching_lines :: "byte list \<Rightarrow> byte list list \<Rightarrow> byte list" where
  "matching_lines pat ls = concat (map (\<lambda>l. l @ [10]) (filter (match pat) ls))"

lemma lines_of_line: "10 \<notin> set l \<Longrightarrow> lines_of (l @ 10 # p) = (l # fst (lines_of p), snd (lines_of p))"
  by (induction l) (auto split: prod.splits)

lemma lines_of_rest: "10 \<notin> set p \<Longrightarrow> lines_of p = ([], p)"
  by (induction p) auto

lemma lines_of_no_newline: "10 \<notin> set (snd (lines_of p))"
  by (induction p) (auto split: prod.splits list.splits)

lemma lines_of_subset: "set (snd (lines_of p)) \<subseteq> set p"
  by (induction p) (auto split: prod.splits list.splits)

lemma lines_of_append:
  "lines_of (p @ q) = (fst (lines_of p) @ fst (lines_of (snd (lines_of p) @ q)), snd (lines_of (snd (lines_of p) @ q)))"
proof (induction p)
  case (Cons c p)
  obtain ls r where p: "lines_of p = (ls, r)" by fastforce
  obtain ms t where q: "lines_of (r @ q) = (ms, t)" by fastforce
  show ?case using Cons by (cases ls) (simp_all add: p q split: list.splits)
qed simp

lemma find_nl_Some: "find_nl p = Some k \<Longrightarrow> k < length p \<and> p ! k = 10 \<and> 10 \<notin> set (take k p) \<and> 0 \<notin> set (take k p)"
  by (auto simp: find_nl_def Let_def takeWhile_eq_take [symmetric] split: if_splits dest: set_takeWhileD)

lemma find_nl_None:
  assumes "0 \<notin> set p" "find_nl p = None"
  shows "10 \<notin> set p"
proof
  assume "10 \<in> set p"
  then obtain l r where p: "p = l @ 10 # r" "10 \<notin> set l" by (metis split_list_first)
  have "takeWhile (\<lambda>c. c \<noteq> 0 \<and> c \<noteq> 10) p = l" using p assms(1) by (auto simp: takeWhile_append)
  with p assms(2) show False by (simp add: find_nl_def Let_def)
qed

lemma grep_scan_lines:
  "0 \<notin> set p \<Longrightarrow> grep_scan pat p = (matching_lines pat (fst (lines_of p)), snd (lines_of p))"
proof (induction pat p rule: grep_scan.induct)
  case (1 pat p)
  show ?case
  proof (cases "find_nl p")
    case None
    with lines_of_rest [OF find_nl_None [OF 1(2)]] show ?thesis
      by (simp add: grep_scan.simps [of pat p] matching_lines_def)
  next
    case (Some k)
    note k = find_nl_Some [OF this]
    have p: "p = take k p @ 10 # drop (Suc k) p" using k id_take_nth_drop [of k p] by simp
    have "take (Suc k) p = take k p @ [10]" using k by (simp add: take_Suc_conv_app_nth)
    moreover have "lines_of p = (take k p # fst (lines_of (drop (Suc k) p)), snd (lines_of (drop (Suc k) p)))"
      by (subst p, subst lines_of_line) (use k in simp_all)
    moreover have "0 \<notin> set (drop (Suc k) p)" using 1(2) in_set_dropD by metis
    ultimately show ?thesis using 1(1) [OF Some] Some
      by (simp add: grep_scan.simps [of pat p] matching_lines_def)
  qed
qed

text \<open>Every line, and what follows the last one, fits the buffer of \<open>grep\<close> with its newline.\<close>

definition lines_fit :: "byte list \<Rightarrow> bool" where
  "lines_fit xs \<longleftrightarrow> (\<forall>l \<in> set (snd (lines_of xs) # fst (lines_of xs)). length l \<le> 1022)"

lemma lines_fit_append: "lines_fit (p @ q) \<Longrightarrow> lines_fit (snd (lines_of p) @ q)"
  by (auto simp: lines_fit_def lines_of_append [of p q])

lemma lines_fit_buffer:
  assumes "lines_fit (b @ xs)" "10 \<notin> set b"
  shows "length b \<le> 1022"
proof -
  let ?l = "hd (fst (lines_of (b @ xs)) @ [snd (lines_of (b @ xs))])"
  have "length b \<le> length ?l" using assms(2)
  proof (induction b)
    case (Cons c b)
    then show ?case by (cases "fst (lines_of (b @ xs))") (auto split: prod.splits)
  qed simp
  also have "?l \<in> set (snd (lines_of (b @ xs)) # fst (lines_of (b @ xs)))"
    by (cases "fst (lines_of (b @ xs))") auto
  then have "length ?l \<le> 1022" by (rule bspec [OF assms(1) [unfolded lines_fit_def]])
  finally show ?thesis .
qed

lemma grep_lines:
  assumes "0 \<notin> set (buf @ xs)" "10 \<notin> set buf" "lines_fit (buf @ xs)"
  shows "grep pat buf (xs, ks) = matching_lines pat (fst (lines_of (buf @ xs)))"
  using assms
proof (induction "length xs" arbitrary: buf xs ks rule: less_induct)
  case less
  have room: "1024 - length buf - 1 \<noteq> 0" using lines_fit_buffer [OF less(4,3)] by simp
  obtain bs ys ls where r: "read_call (1024 - length buf - 1) (xs, ks) = (bs, (ys, ls))" by (metis prod.exhaust)
  note sp = read_call_split [OF r]
  show ?case
  proof (cases "bs = []")
    case True
    then have "xs = []" using sp(3) room by simp
    with True r less(3) show ?thesis by (simp add: grep.simps lines_of_rest matching_lines_def)
  next
    case False
    let ?p = "snd (lines_of (buf @ bs))"
    have "0 \<notin> set (buf @ bs)" using less(2) sp(1) by simp
    note sc = grep_scan_lines [OF this]
    note sub = lines_of_subset [of "buf @ bs"]
    have "grep pat ?p (ys, ls) = matching_lines pat (fst (lines_of (?p @ ys)))"
    proof (rule less(1))
      show "length ys < length xs" using sp(1) False by simp
      show "0 \<notin> set (?p @ ys)" using less(2) sp(1) sub by auto
      show "lines_fit (?p @ ys)" using lines_fit_append [of "buf @ bs" ys] less(4) sp(1) by simp
    qed (rule lines_of_no_newline)
    moreover have "lines_of (buf @ xs) = (fst (lines_of (buf @ bs)) @ fst (lines_of (?p @ ys)), snd (lines_of (?p @ ys)))"
      using lines_of_append [of "buf @ bs" ys] sp(1) by simp
    ultimately show ?thesis using r False sc by (simp add: grep.simps [of pat buf] matching_lines_def)
  qed
qed

text \<open>C34. \<^verbatim>\<open>grep\<close> prints the matching lines. For an input without NUL bytes whose lines have at most 1022 bytes, it writes
  exactly the lines the pattern matches, each with its newline and in order, however the input is split over calls of
  \<^verbatim>\<open>read\<close>. A last line without a newline is not printed even if it matches.\<close>

theorem grep_prints_matching_lines:
  assumes "0 \<notin> set xs" "lines_fit xs"
  shows "grep pat [] (xs, ks) = matching_lines pat (fst (lines_of xs))"
  using grep_lines [of "[]" xs] assms by simp

theorem grep_prints_matching_lines_witness:
  "grep [97, 42, 36] [] ([98, 10, 99, 97, 10, 97], [0, 0, 5]) = [98, 10, 99, 97, 10] \<and>
   grep [94, 97] [] ([98, 10, 97, 98, 10], [1]) = [97, 98, 10]"
  using grep_prints_matching_lines [of "[98, 10, 99, 97, 10, 97]" "[97, 42, 36]" "[0, 0, 5]"]
    grep_prints_matching_lines [of "[98, 10, 97, 98, 10]" "[94, 97]" "[1]"]
  by (simp add: lines_fit_def matching_lines_def match_def matchhere.simps matchstar.simps)

section \<open>wc\<close>

record wc_counts =
  wc_l :: uint
  wc_w :: uint
  wc_c :: uint
  inword :: bool

text \<open>\<^verbatim>\<open>strchr(" \r\t\n\v", c)\<close>\<close>

definition wc_space :: "byte \<Rightarrow> bool" where
  "wc_space c \<longleftrightarrow> c \<in> {32, 13, 9, 10, 11}"

definition wc_byte :: "wc_counts \<Rightarrow> byte \<Rightarrow> wc_counts" where
  "wc_byte a x =
     (let a1 = a\<lparr>wc_c := wc_c a + 1\<rparr>;
          a2 = (if x = 10 then a1\<lparr>wc_l := wc_l a1 + 1\<rparr> else a1)
      in if wc_space x then a2\<lparr>inword := False\<rparr>
         else if \<not> inword a2 then a2\<lparr>wc_w := wc_w a2 + 1, inword := True\<rparr> else a2)"

function wc_loop :: "wc_counts \<Rightarrow> stream_in \<Rightarrow> wc_counts" where
  "wc_loop a (xs, ks) =
     (case read_call 512 (xs, ks) of
        (bs, (ys, ls)) \<Rightarrow> if bs = [] then a else wc_loop (foldl wc_byte a bs) (ys, ls))"
  by pat_completeness auto
termination
  by (relation "measure (\<lambda>(a, xs, ks). length xs)") (auto dest!: sym [THEN read_call_split(1)] read_call_split(1))

declare wc_loop.simps [simp del]

text \<open>\<open>wc\<close> on an input without read errors: the line it prints.\<close>

definition wc :: "stream_in \<Rightarrow> byte list \<Rightarrow> byte list option" where
  "wc st name =
     (let a = wc_loop \<lparr>wc_l = 0, wc_w = 0, wc_c = 0, inword = False\<rparr> st
      in printf_u (ascii ''%d %d %d %s'' @ [10]) [ArgInt (wc_l a), ArgInt (wc_w a), ArgInt (wc_c a), ArgStr name])"

text \<open>The words of an input: its longest runs of bytes that are not white space.\<close>

fun words_of :: "byte list \<Rightarrow> byte list list" where
  "words_of [] = []"
| "words_of (x # xs) =
     (if wc_space x then words_of xs
      else (case xs of
          [] \<Rightarrow> [[x]]
        | y # ys \<Rightarrow> if wc_space y then [x] # words_of xs
                    else (case words_of xs of [] \<Rightarrow> [[x]] | u # us \<Rightarrow> (x # u) # us)))"

definition goes_on :: "byte list \<Rightarrow> nat" where
  "goes_on xs = (if xs \<noteq> [] \<and> \<not> wc_space (hd xs) then 1 else 0)"

lemma words_of_goes_on: "goes_on xs \<le> length (words_of xs)"
  by (cases xs) (auto simp: goes_on_def Suc_le_eq split: list.splits)

lemma words_of_Cons:
  assumes "\<not> wc_space x"
  shows "length (words_of (x # xs)) = Suc (length (words_of xs) - goes_on xs)"
proof (cases xs)
  case Nil
  then show ?thesis using assms by (simp add: goes_on_def)
next
  case (Cons y ys)
  show ?thesis
  proof (cases "wc_space y")
    case True
    then show ?thesis using assms Cons by (simp add: goes_on_def)
  next
    case False
    then have g: "goes_on xs = 1" using Cons by (simp add: goes_on_def)
    then obtain u us where u: "words_of xs = u # us" using words_of_goes_on [of xs] by (cases "words_of xs") auto
    have "words_of (x # xs) = (x # u) # us"
      using assms False Cons u by (subst words_of.simps(2)) (simp del: words_of.simps)
    then show ?thesis using u g by simp
  qed
qed

lemma wc_loop_foldl: "wc_loop a (xs, ks) = foldl wc_byte a xs"
proof (induction "length xs" arbitrary: a xs ks rule: less_induct)
  case less
  obtain bs ys ls where r: "read_call 512 (xs, ks) = (bs, (ys, ls))" by (metis prod.exhaust)
  note sp = read_call_split [OF r]
  show ?case
  proof (cases "bs = []")
    case True
    then show ?thesis using sp(3) r by (simp add: wc_loop.simps)
  next
    case False
    then have "length ys < length xs" using sp(1) by simp
    from less [OF this] show ?thesis using False r sp(1) by (simp add: wc_loop.simps [of a])
  qed
qed

lemma wc_byte_counts:
  "wc_c (foldl wc_byte a xs) = wc_c a + of_nat (length xs)"
  "wc_l (foldl wc_byte a xs) = wc_l a + of_nat (count_list xs 10)"
  by (induction xs arbitrary: a) (simp_all add: wc_byte_def Let_def)

lemma wc_byte_words:
  "wc_w (foldl wc_byte a xs) = wc_w a + of_nat (length (words_of xs) - (if inword a then goes_on xs else 0))"
proof (induction xs arbitrary: a)
  case (Cons x xs)
  show ?case
  proof (cases "wc_space x")
    case True
    then have "wc_w (wc_byte a x) = wc_w a" "\<not> inword (wc_byte a x)" "goes_on (x # xs) = 0"
      by (simp_all add: wc_byte_def Let_def goes_on_def)
    then show ?thesis using Cons True by simp
  next
    case False
    then have "wc_w (wc_byte a x) = wc_w a + (if inword a then 0 else 1)" "inword (wc_byte a x)" "goes_on (x # xs) = 1"
      by (simp_all add: wc_byte_def Let_def goes_on_def)
    then show ?thesis using Cons words_of_Cons [OF False, of xs] by (simp del: words_of.simps)
  qed
qed (simp add: goes_on_def)

text \<open>\<^verbatim>\<open>wc\<close> counts lines, words and bytes. It prints, as 32-bit decimal numbers, the number of newlines, of words (longest
  runs without white space) and of bytes of the whole input and then the name, however the input is split over calls of
  \<^verbatim>\<open>read\<close>, so that a word cut in two by a read counts once.\<close>

theorem wc_counts_lines_words_bytes:
  "wc (xs, ks) name = Some (printint_u (of_nat (count_list xs 10)) 10 True @ [32] @ printint_u (of_nat (length (words_of xs))) 10 True
     @ [32] @ printint_u (of_nat (length xs)) 10 True @ [32] @ name @ [10])"
  by (simp add: wc_def wc_loop_foldl wc_byte_counts wc_byte_words printf_u_def ascii_def of_char_def Let_def)

end
