(* ===== verification/Xv6_Umalloc.thy ===== *)
theory Xv6_Umalloc
  imports Xv6_Prelude
begin

text \<open>
  \<^verbatim>\<open>user/umalloc.c\<close>: the allocator of the user programs, a circular list of free blocks in the order of their addresses.
  Addresses are natural numbers (a user address space is far smaller than 64 bits), sizes are in units of the 16 bytes of
  a header and kept to 32 bits. The loops of \<open>free\<close> and \<open>malloc\<close> are partial functions; the theorem shows
  that they end.
\<close>

section \<open>State\<close>

text \<open>\<open>hptr\<close> and \<open>hsize\<close> are the fields of the header at an address, \<open>freep\<close> is null before the first call, \<open>base\<close> is
  the address of the static variable \<^verbatim>\<open>base\<close>, \<open>brk\<close> is the end of the process and \<open>lim\<close> how far it can grow.\<close>

record heap =
  hptr :: "nat \<Rightarrow> nat"
  hsize :: "nat \<Rightarrow> nat"
  freep :: nat
  base :: nat
  brk :: nat
  lim :: nat

text \<open>The system call \<^verbatim>\<open>sbrk\<close> as the process sees it, with a 32-bit argument: the old end, or -1 (None) when there is no
  memory. Shrinking below zero has no effect.\<close>

definition sbrk_u :: "uint \<Rightarrow> heap \<Rightarrow> nat option \<times> heap" where
  "sbrk_u n h =
     (if 0 < sint n
      then if brk h + unat n \<le> lim h then (Some (brk h), h\<lparr>brk := brk h + unat n\<rparr>) else (None, h)
      else if nat (- sint n) \<le> brk h then (Some (brk h), h\<lparr>brk := brk h - nat (- sint n)\<rparr>)
      else (Some (brk h), h))"

section \<open>Operations\<close>

definition stops :: "heap \<Rightarrow> nat \<Rightarrow> nat \<Rightarrow> bool" where
  "stops h bp p \<longleftrightarrow> bp > p \<and> bp < hptr h p \<or> p \<ge> hptr h p \<and> (bp > p \<or> bp < hptr h p)"

partial_function (option) free_find :: "heap \<Rightarrow> nat \<Rightarrow> nat \<Rightarrow> nat option" where
  "free_find h bp p = (if stops h bp p then Some p else free_find h bp (hptr h p))"

definition free_at :: "nat \<Rightarrow> nat \<Rightarrow> heap \<Rightarrow> heap" where
  "free_at bp p h =
     (let q = hptr h p;
          h1 = (if bp + 16 * hsize h bp = q
                then h\<lparr>hsize := (hsize h)(bp := (hsize h bp + hsize h q) mod 2 ^ 32), hptr := (hptr h)(bp := hptr h q)\<rparr>
                else h\<lparr>hptr := (hptr h)(bp := q)\<rparr>);
          h2 = (if p + 16 * hsize h1 p = bp
                then h1\<lparr>hsize := (hsize h1)(p := (hsize h1 p + hsize h1 bp) mod 2 ^ 32), hptr := (hptr h1)(p := hptr h1 bp)\<rparr>
                else h1\<lparr>hptr := (hptr h1)(p := bp)\<rparr>)
      in h2\<lparr>freep := p\<rparr>)"

definition free :: "nat \<Rightarrow> heap \<Rightarrow> heap option" where
  "free ap h = map_option (\<lambda>p. free_at (ap - 16) p h) (free_find h (ap - 16) (freep h))"

text \<open>Null (0) when there is no memory.\<close>

definition morecore :: "nat \<Rightarrow> heap \<Rightarrow> (nat \<times> heap) option" where
  "morecore nu0 h =
     (let nu = (if nu0 < 4096 then 4096 else nu0)
      in case sbrk_u (of_nat (nu * 16)) h of
           (None, h1) \<Rightarrow> Some (0, h1)
         | (Some hp, h1) \<Rightarrow> map_option (\<lambda>h2. (freep h2, h2)) (free (hp + 16) (h1\<lparr>hsize := (hsize h1)(hp := nu)\<rparr>)))"

partial_function (option) malloc_loop :: "nat \<Rightarrow> nat \<Rightarrow> nat \<Rightarrow> heap \<Rightarrow> (nat \<times> heap) option" where
  "malloc_loop nunits prevp p h =
     (if hsize h p \<ge> nunits
      then if hsize h p = nunits then Some (p + 16, h\<lparr>hptr := (hptr h)(prevp := hptr h p), freep := prevp\<rparr>)
           else let p' = p + 16 * (hsize h p - nunits)
                in Some (p' + 16, h\<lparr>hsize := (hsize h)(p := hsize h p - nunits, p' := nunits), freep := prevp\<rparr>)
      else if p = freep h
      then Option.bind (morecore nunits h) (\<lambda>(p1, h1).
             if p1 = 0 then Some (0, h1) else malloc_loop nunits p1 (hptr h1 p1) h1)
      else malloc_loop nunits p (hptr h p) h)"

definition malloc_units :: "uint \<Rightarrow> nat" where
  "malloc_units nbytes = (unat nbytes + 16 - 1) div 16 + 1"

definition malloc :: "uint \<Rightarrow> heap \<Rightarrow> (nat \<times> heap) option" where
  "malloc nbytes h =
     (let nunits = malloc_units nbytes;
          h1 = (if freep h = 0
                then h\<lparr>hptr := (hptr h)(base h := base h), freep := base h, hsize := (hsize h)(base h := 0)\<rparr> else h)
      in malloc_loop nunits (freep h1) (hptr h1 (freep h1)) h1)"

section \<open>The ring of free blocks\<close>

text \<open>\<open>linked h L e\<close>: the blocks of \<open>L\<close>, given as address and size, are linked in this order and the last points to \<open>e\<close>.\<close>

type_synonym blocks = "(nat \<times> nat) list"

definition head :: "blocks \<Rightarrow> nat \<Rightarrow> nat" where
  "head L e = (case L of [] \<Rightarrow> e | b # _ \<Rightarrow> fst b)"

fun linked :: "heap \<Rightarrow> blocks \<Rightarrow> nat \<Rightarrow> bool" where
  "linked h [] e = True"
| "linked h ((a, s) # L) e = (hsize h a = s \<and> hptr h a = head L e \<and> linked h L e)"

lemma head_simps [simp]: "head [] e = e" "head ((a, s) # L) e = a" "head (L @ M) e = head L (head M e)"
  by (cases L; simp add: head_def)+

lemma linked_append: "linked h (L @ M) e \<longleftrightarrow> linked h L (head M e) \<and> linked h M e"
  by (induction L) auto

lemma linked_frame:
  "(\<And>a. a \<in> fst ` set L \<Longrightarrow> hptr h' a = hptr h a \<and> hsize h' a = hsize h a) \<Longrightarrow> linked h' L e = linked h L e"
  by (induction L) auto

lemma linked_upd:
  assumes "bp \<notin> fst ` set L" "\<forall>c. c \<noteq> bp \<longrightarrow> hptr h' c = hptr h c \<and> hsize h' c = hsize h c"
  shows "linked h' L e = linked h L e"
proof (rule linked_frame)
  fix c
  assume "c \<in> fst ` set L"
  then have "c \<noteq> bp" using assms(1) by blast
  then show "hptr h' c = hptr h c \<and> hsize h' c = hsize h c" using assms(2) by blast
qed

lemma linked_member: "linked h L e \<Longrightarrow> (a, s) \<in> set L \<Longrightarrow> hsize h a = s"
  by (induction L) auto

text \<open>The blocks lie one behind the other, and no two of them touch.\<close>

definition apart :: "blocks \<Rightarrow> bool" where
  "apart L = sorted_wrt (\<lambda>(a, s) (b, t). a + 16 * s < b) L"

lemma apart_append: "apart (L @ M) \<longleftrightarrow> apart L \<and> apart M \<and> (\<forall>(a, s) \<in> set L. \<forall>(b, t) \<in> set M. a + 16 * s < b)"
  by (auto simp: apart_def sorted_wrt_append)

lemma apart_Cons: "apart ((a, s) # L) \<longleftrightarrow> apart L \<and> (\<forall>(b, t) \<in> set L. a + 16 * s < b)"
  by (auto simp: apart_def)

lemma apart_distinct: "apart L \<Longrightarrow> distinct (map fst L)"
  by (induction L) (force simp: apart_Cons)+

text \<open>The invariant: the ring starts with the empty block \<open>base\<close>, below all others; the others have at least one
  unit and end before \<open>brk\<close>.\<close>

definition ring :: "heap \<Rightarrow> blocks \<Rightarrow> bool" where
  "ring h L \<longleftrightarrow> (\<exists>F. L = (base h, 0) # F \<and> linked h L (base h) \<and> apart L \<and> freep h \<in> fst ` set L \<and>
     (\<forall>(a, s) \<in> set F. 0 < s \<and> a + 16 * s \<le> brk h))"

definition heap_ok :: "heap \<Rightarrow> bool" where
  "heap_ok h \<longleftrightarrow> 0 < base h \<and> base h < brk h \<and> brk h \<le> lim h \<and> lim h \<le> 2 ^ 36"

text \<open>The bytes of the free blocks.\<close>

definition block_bytes :: "nat \<Rightarrow> nat \<Rightarrow> nat set" where
  "block_bytes a s = {a..<a + 16 * s}"

definition free_bytes :: "blocks \<Rightarrow> nat set" where
  "free_bytes L = (\<Union>(a, s) \<in> set L. block_bytes a s)"

section \<open>free\<close>

lemma free_find_stop: "stops h bp p \<Longrightarrow> free_find h bp p = Some p"
  by (subst free_find.simps) simp

lemma free_find_skip:
  "linked h L e \<Longrightarrow> (\<And>a s. (a, s) \<in> set L \<Longrightarrow> \<not> stops h bp a) \<Longrightarrow> L \<noteq> [] \<Longrightarrow>
   free_find h bp (head L e) = free_find h bp e"
proof (induction L)
  case (Cons b L)
  obtain a s where b: "b = (a, s)" by (cases b)
  have "\<not> stops h bp a" using Cons.prems(2) [of a s] by (simp add: b)
  then have "free_find h bp a = free_find h bp (head L e)" using Cons.prems(1) by (subst free_find.simps) (simp add: b)
  also have "\<dots> = free_find h bp e"
  proof (cases "L = []")
    case False
    then show ?thesis using Cons by (auto simp: b)
  qed simp
  finally show ?case by (simp add: b)
qed simp

text \<open>Where the loop of \<open>free\<close> stops, from wherever it starts.\<close>

lemma free_find_place:
  assumes L: "L = xs @ (a, s) # ys" and lk: "linked h L (head L 0)" and ap: "apart L"
    and lo: "a < bp" and hi: "\<forall>(b, t) \<in> set ys. bp < b" and bs: "head L 0 \<le> a" and st: "p \<in> fst ` set L"
  shows "free_find h bp p = Some a"
proof -
  let ?B = "head L 0"
  have lx: "linked h xs a" and la: "hptr h a = head ys ?B" and ly: "linked h ys ?B"
    using lk unfolding L by (simp_all add: linked_append)
  have ax: "\<forall>(b, t) \<in> set xs. b + 16 * t < a" "apart xs" "apart ys"
    using ap unfolding L by (auto simp: apart_append apart_Cons)
  have at: "free_find h bp a = Some a"
  proof (rule free_find_stop)
    show "stops h bp a" using la lo hi bs by (cases ys) (auto simp: stops_def)
  qed
  have nx: "\<not> stops h bp b" if m: "(b, t) \<in> set xs" for b t
  proof -
    obtain u w where x: "xs = u @ (b, t) # w" using split_list [OF m] by blast
    have "hptr h b = head w a" using lx by (simp add: x linked_append)
    moreover have "b < head w a \<and> head w a \<le> a"
      using ax unfolding x by (cases w) (auto simp: apart_append apart_Cons)
    ultimately show ?thesis using lo by (auto simp: stops_def)
  qed
  have ny: "\<not> stops h bp b" if m: "(b, t) \<in> set ys" for b t
  proof -
    obtain u w where y: "ys = u @ (b, t) # w" using split_list [OF m] by blast
    have "hptr h b = head w ?B" using ly by (simp add: y linked_append)
    moreover have "w \<noteq> [] \<Longrightarrow> b < head w ?B" using ax(3) unfolding y by (cases w) (auto simp: apart_append apart_Cons)
    moreover have "bp < b" using hi m by auto
    ultimately show ?thesis using lo bs by (cases "w = []") (auto simp: stops_def)
  qed
  have fx: "free_find h bp b = Some a" if m: "(b, t) \<in> set xs" for b t
  proof -
    obtain u w where x: "xs = u @ (b, t) # w" using split_list [OF m] by blast
    have "linked h ((b, t) # w) a" using lx by (simp add: x linked_append)
    then have "free_find h bp (head ((b, t) # w) a) = free_find h bp a" by (rule free_find_skip) (use nx in \<open>auto simp: x\<close>)
    then show ?thesis using at by simp
  qed
  have fb: "free_find h bp ?B = Some a"
  proof (cases xs)
    case (Cons c zs)
    then have "?B = fst c" by (cases c) (simp add: L)
    then show ?thesis using fx [of "fst c" "snd c"] by (simp add: Cons)
  qed (use at in \<open>simp add: L\<close>)
  have fy: "free_find h bp b = Some a" if m: "(b, t) \<in> set ys" for b t
  proof -
    obtain u w where y: "ys = u @ (b, t) # w" using split_list [OF m] by blast
    have "linked h ((b, t) # w) ?B" using ly by (simp add: y linked_append)
    then have "free_find h bp (head ((b, t) # w) ?B) = free_find h bp ?B" by (rule free_find_skip) (use ny in \<open>auto simp: y\<close>)
    then show ?thesis using fb by simp
  qed
  show ?thesis using st fx fy at by (auto simp: L)
qed

lemma free_bytes_simps [simp]:
  "free_bytes [] = {}" "free_bytes ((a, s) # L) = block_bytes a s \<union> free_bytes L" "free_bytes (L @ M) = free_bytes L \<union> free_bytes M"
  by (auto simp: free_bytes_def)

lemma block_bytes_join: "block_bytes a s \<union> block_bytes (a + 16 * s) n = block_bytes a (s + n)"
  by (auto simp: block_bytes_def)

text \<open>The first half of \<open>free\<close>: the block is put in front of the blocks behind it, and joined with the first of them if
  they touch.\<close>

lemma link_right:
  fixes h :: heap and bp n B ub :: nat and ys :: blocks
  assumes lk: "linked h ys B" and ap: "apart ys" and n: "hsize h bp = n" and B: "B < bp"
    and hi: "\<forall>(b, t) \<in> set ys. bp + 16 * n \<le> b \<and> b + 16 * t \<le> ub" and lim: "bp + 16 * n \<le> ub" "ub \<le> 2 ^ 36"
  defines "q \<equiv> head ys B"
  defines "h1 \<equiv> (if bp + 16 * hsize h bp = q
                then h\<lparr>hsize := (hsize h)(bp := (hsize h bp + hsize h q) mod 2 ^ 32), hptr := (hptr h)(bp := hptr h q)\<rparr>
                else h\<lparr>hptr := (hptr h)(bp := q)\<rparr>)"
  shows "\<exists>n' ys'. linked h1 ((bp, n') # ys') B \<and> apart ((bp, n') # ys') \<and> set ys' \<subseteq> set ys \<and> n \<le> n' \<and> bp + 16 * n' \<le> ub \<and>
    free_bytes ((bp, n') # ys') = block_bytes bp n \<union> free_bytes ys \<and>
    (\<forall>c. c \<noteq> bp \<longrightarrow> hptr h1 c = hptr h c \<and> hsize h1 c = hsize h c)"
proof (cases "bp + 16 * n = q")
  case True
  then obtain t zs where ys: "ys = (q, t) # zs" using B by (cases ys) (auto simp: q_def)
  have t: "q + 16 * t \<le> ub" "hsize h q = t" "hptr h q = head zs B" "linked h zs B" "\<forall>(b, u) \<in> set zs. q + 16 * t < b"
    using hi lk ap by (auto simp: ys apart_Cons)
  have sm: "(n + t) mod 2 ^ 32 = n + t" using t(1) lim B True by (intro mod_less) simp
  have h1: "hsize h1 = (hsize h)(bp := n + t)" "hptr h1 = (hptr h)(bp := head zs B)"
    using True t(2,3) sm by (simp_all add: h1_def n)
  have "bp \<notin> fst ` set zs" using t(5) True by force
  then have "linked h1 zs B" using linked_upd [of bp zs h1 h B] t(4) by (simp add: h1)
  then have "linked h1 ((bp, n + t) # zs) B" by (simp add: h1)
  moreover have "apart ((bp, n + t) # zs)" using ap t(5) True by (auto simp: ys apart_Cons)
  moreover have "free_bytes ((bp, n + t) # zs) = block_bytes bp n \<union> free_bytes ys"
    using block_bytes_join [of bp n t] True by (auto simp: ys)
  ultimately show ?thesis using t(1) True h1 by (intro exI [of _ "n + t"] exI [of _ zs]) (auto simp: ys)
next
  case False
  then have h1: "hsize h1 = hsize h" "hptr h1 = (hptr h)(bp := q)" by (simp_all add: h1_def n)
  have lt: "\<forall>(b, t) \<in> set ys. bp + 16 * n < b"
  proof (cases ys)
    case (Cons c zs)
    obtain b t where c: "c = (b, t)" by (cases c)
    have "bp + 16 * n < b" using hi False by (auto simp: Cons c q_def)
    moreover have "\<forall>(d, u) \<in> set zs. b + 16 * t < d" using ap by (simp add: Cons c apart_Cons)
    ultimately show ?thesis by (auto simp: Cons c)
  qed simp
  have "bp \<notin> fst ` set ys" using lt by force
  then have "linked h1 ys B" using linked_upd [of bp ys h1 h B] lk by (simp add: h1)
  then have "linked h1 ((bp, n) # ys) B" by (simp add: h1 n q_def)
  moreover have "apart ((bp, n) # ys)" using ap lt by (auto simp: apart_Cons)
  ultimately show ?thesis using lim h1 by (intro exI [of _ n] exI [of _ ys]) auto
qed

lemma apart_below: "apart (L @ (a, s) # M) \<Longrightarrow> (b, t) \<in> set L \<Longrightarrow> b + 16 * t < a"
  by (auto simp: apart_append apart_Cons)

lemma ringD:
  assumes "ring h L"
  shows "head L e = base h" "linked h L (base h)" "apart L" "freep h \<in> fst ` set L" "(base h, 0) \<in> set L"
    and "(a, s) \<in> set L \<Longrightarrow> a + 16 * s \<le> brk h \<or> a = base h \<and> s = 0" "(a, s) \<in> set L \<Longrightarrow> base h \<le> a"
    and "(a, s) \<in> set L \<Longrightarrow> a \<noteq> base h \<Longrightarrow> 0 < s" "(base h, s) \<in> set L \<Longrightarrow> s = 0"
  using assms unfolding ring_def by (elim exE conjE; force simp: apart_Cons)+

lemma ringI:
  assumes "linked h L (base h)" "apart L" "head L 0 = base h" "L \<noteq> []" "freep h \<in> fst ` set L"
    and "\<And>a s. (a, s) \<in> set L \<Longrightarrow> if a = base h then s = 0 else 0 < s \<and> a + 16 * s \<le> brk h"
  shows "ring h L"
proof -
  obtain c F where c: "L = c # F" using assms(4) by (cases L) auto
  moreover obtain s where "c = (base h, s)" using assms(3) by (cases c) (simp add: c)
  ultimately have L: "L = (base h, 0) # F" using assms(6) [of "base h" s] by simp
  have "0 < s \<and> a + 16 * s \<le> brk h" if m: "(a, s) \<in> set F" for a s
  proof -
    have "base h < a" using assms(2) m by (auto simp: L apart_Cons)
    then show ?thesis using assms(6) [of a s] m by (simp add: L)
  qed
  then show ?thesis unfolding ring_def using L assms(1,2,5) by (intro exI [of _ F]) auto
qed

lemma free_at_frame:
  assumes "hptr h a = q" "hsize h a = s" "a \<noteq> bp" "c \<noteq> bp" "c \<noteq> a \<or> a + 16 * s \<noteq> bp"
  shows "hsize (free_at bp a h) c = hsize h c"
  using assms by (auto simp: free_at_def Let_def)

text \<open>The second half: the block in front gets the new one as its successor, or swallows it if they touch.\<close>

lemma free_at_ring:
  assumes r: "ring h L" and ok: "heap_ok h" and L: "L = xs @ (a, s) # ys" and bp: "a < bp" "a + 16 * s \<le> bp"
    and hi: "\<forall>(b, t) \<in> set ys. bp + 16 * n \<le> b" and n: "hsize h bp = n" "0 < n" "bp + 16 * n \<le> brk h"
  shows "\<exists>L'. ring (free_at bp a h) L' \<and> free_bytes L' = free_bytes L \<union> block_bytes bp n \<and> (\<exists>(b, t) \<in> set L'. n \<le> t)"
proof -
  let ?B = "base h"
  note R = ringD [OF r]
  have lk: "linked h xs a" "hsize h a = s" "hptr h a = head ys ?B" "linked h ys ?B" and ap: "apart xs" "apart ys"
    using R(2,3) by (simp_all add: L linked_append apart_append apart_Cons)
  have hi2: "\<forall>(b, t) \<in> set ys. bp + 16 * n \<le> b \<and> b + 16 * t \<le> brk h"
  proof (intro ballI, clarify)
    fix b t
    assume m: "(b, t) \<in> set ys"
    then have "bp + 16 * n \<le> b" using hi by auto
    moreover have "?B \<le> a" using R(7) [of a s] by (simp add: L)
    ultimately show "bp + 16 * n \<le> b \<and> b + 16 * t \<le> brk h" using R(6) [of b t] m bp(1) by (auto simp: L)
  qed
  have Bbp: "?B < bp" using R(7) [of a s] bp(1) by (simp add: L)
  define h1 where "h1 = (if bp + 16 * hsize h bp = head ys ?B
      then h\<lparr>hsize := (hsize h)(bp := (hsize h bp + hsize h (head ys ?B)) mod 2 ^ 32), hptr := (hptr h)(bp := hptr h (head ys ?B))\<rparr>
      else h\<lparr>hptr := (hptr h)(bp := head ys ?B)\<rparr>)"
  have b36: "brk h \<le> 2 ^ 36" using ok by (auto simp: heap_ok_def)
  obtain n' ys' where h1: "linked h1 ((bp, n') # ys') ?B" "apart ((bp, n') # ys')" "set ys' \<subseteq> set ys" "n \<le> n'"
    "bp + 16 * n' \<le> brk h" "free_bytes ((bp, n') # ys') = block_bytes bp n \<union> free_bytes ys"
    "\<forall>c. c \<noteq> bp \<longrightarrow> hptr h1 c = hptr h c \<and> hsize h1 c = hsize h c"
    using link_right [OF lk(4) ap(2) n(1) Bbp hi2 n(3) b36, folded h1_def] by (elim exE conjE)
  let ?h = "free_at bp a h"
  have B: "hsize h1 bp = n'" "hptr h1 bp = head ys' ?B" "linked h1 ys' ?B" "\<forall>(b, t) \<in> set ys'. bp + 16 * n' < b" "apart ys'"
    using h1(1,2) by (auto simp: apart_Cons)
  have xa: "\<forall>(b, t) \<in> set xs. b + 16 * t < a" using R(3) by (auto simp: L apart_append)
  have eq: "?h = (if a + 16 * s = bp then h1\<lparr>hsize := (hsize h1)(a := (s + n') mod 2 ^ 32), hptr := (hptr h1)(a := head ys' ?B)\<rparr>
      else h1\<lparr>hptr := (hptr h1)(a := bp)\<rparr>)\<lparr>freep := a\<rparr>"
    using h1(7) bp(1) lk(2,3) B(1,2) by (simp add: free_at_def Let_def flip: h1_def)
  have f: "base ?h = ?B" "brk ?h = brk h" "freep ?h = a" by (simp_all add: eq h1_def)
  have out: "c \<noteq> a \<and> c \<noteq> bp" if "c \<in> fst ` set xs" for c using that xa bp(1) by force
  have ya: "a \<notin> fst ` set ys'" using B(4) bp(1) by force
  have mem: "if c = ?B then d = 0 else 0 < d \<and> c + 16 * d \<le> brk h" if "(c, d) \<in> set L \<or> (c, d) \<in> set xs \<or> (c, d) \<in> set ys'" for c d
    using that R(6) [of c d] R(8) [of c d] R(9) [of d] h1(3) by (auto simp: L)
  show ?thesis
  proof (cases "a + 16 * s = bp")
    case True
    define L' where "L' = xs @ (a, s + n') # ys'"
    have "0 < a" using R(7) [of a s] ok by (simp add: L heap_ok_def)
    then have sm: "(s + n') mod 2 ^ 32 = s + n'" using True h1(5) b36 by (intro mod_less) simp
    have hs: "hsize ?h = (hsize h1)(a := s + n')" "hptr ?h = (hptr h1)(a := head ys' ?B)" using True sm by (simp_all add: eq)
    have "linked ?h xs a" using linked_frame [of xs ?h h a] lk(1) out hs h1(7) by simp
    moreover have "linked ?h ys' ?B" using linked_upd [of a ys' ?h h1 ?B] B(3) ya hs by simp
    ultimately have lk': "linked ?h L' ?B" by (simp add: L'_def linked_append hs)
    have ap': "apart L'" using ap(1) B(4,5) xa True by (fastforce simp: L'_def apart_append apart_Cons)
    have "0 < s" using True bp(1) by (cases s) auto
    then have an: "a \<noteq> ?B" using R(9) [of s] by (auto simp: L)
    have "ring ?h L'"
    proof (rule ringI)
      show "head L' 0 = base ?h" using R(1) [of 0] an by (cases xs) (auto simp: L'_def L f)
      show "if c = base ?h then d = 0 else 0 < d \<and> c + 16 * d \<le> brk ?h" if "(c, d) \<in> set L'" for c d
        using that mem [of c d] \<open>0 < s\<close> an True h1(5) by (auto simp: L'_def f split: if_splits)
    qed (use lk' ap' in \<open>simp_all add: f L'_def\<close>)
    moreover have "free_bytes L' = free_bytes L \<union> block_bytes bp n"
      using h1(6) block_bytes_join [of a s n'] True by (auto simp: L'_def L)
    ultimately show ?thesis using h1(4) by (intro exI [of _ L']) (auto simp: L'_def)
  next
    case False
    define L' where "L' = xs @ (a, s) # (bp, n') # ys'"
    have hs: "hsize ?h = hsize h1" "hptr ?h = (hptr h1)(a := bp)" using False by (simp_all add: eq)
    have "linked ?h xs a" using linked_frame [of xs ?h h a] lk(1) out hs h1(7) by simp
    moreover have "linked ?h ((bp, n') # ys') ?B" using linked_upd [of a "(bp, n') # ys'" ?h h1 ?B] h1(1) ya hs bp(1) by simp
    ultimately have lk': "linked ?h L' ?B" using h1(7) bp(1) lk(2) by (simp add: L'_def linked_append hs)
    have ap': "apart L'" using ap(1) h1(2) B(4) xa False bp(2) by (fastforce simp: L'_def apart_append apart_Cons)
    have "ring ?h L'"
    proof (rule ringI)
      show "head L' 0 = base ?h" unfolding f using R(1) [of 0] by (cases xs) (auto simp: L'_def L)
      show "if c = base ?h then d = 0 else 0 < d \<and> c + 16 * d \<le> brk ?h" if "(c, d) \<in> set L'" for c d
        using that mem [of c d] Bbp n(2) h1(4,5) by (auto simp: L'_def f L split: if_splits)
    qed (use lk' ap' in \<open>simp_all add: f L'_def\<close>)
    moreover have "free_bytes L' = free_bytes L \<union> block_bytes bp n" using h1(6) by (auto simp: L'_def L)
    ultimately show ?thesis using h1(4) by (intro exI [of _ L']) (auto simp: L'_def)
  qed
qed

lemma split_below:
  assumes "apart L" "(c, d) \<in> set L" "c < bp"
  obtains xs a s ys where "L = xs @ (a, s) # ys" "a < bp" "\<forall>(b, t) \<in> set ys. bp \<le> b"
proof -
  let ?P = "\<lambda>b. fst b < bp"
  have ne: "takeWhile ?P L \<noteq> []"
  proof (cases L)
    case (Cons e M)
    then have "fst e \<le> c" using assms(1,2) by (cases e) (auto simp: apart_Cons)
    then show ?thesis using assms(3) Cons by simp
  qed (use assms(2) in simp)
  obtain xs a s where x: "takeWhile ?P L = xs @ [(a, s)]" using ne by (metis prod.exhaust rev_exhaust)
  have L: "L = xs @ (a, s) # dropWhile ?P L" using takeWhile_dropWhile_id [of ?P L] x by simp
  have "a < bp" using x set_takeWhileD [of "(a, s)" ?P L] by simp
  moreover have "\<forall>(b, t) \<in> set (dropWhile ?P L). bp \<le> b"
  proof (cases "dropWhile ?P L")
    case (Cons e M)
    then have "\<not> fst e < bp" using hd_dropWhile [of ?P L] by simp
    moreover have "apart (e # M)" using assms(1) apart_append [of "xs @ [(a, s)]" "e # M"] L Cons by simp
    ultimately show ?thesis unfolding Cons by (cases e) (force simp: apart_Cons)
  next
    case Nil
    then show ?thesis by (simp only: list.set ball_simps)
  qed
  ultimately show ?thesis using that [OF L] by blast
qed

lemma free_ring:
  assumes r: "ring h L" and ok: "heap_ok h" and n: "hsize h bp = n" "0 < n" "bp + 16 * n \<le> brk h" and lo: "base h < bp"
    and dis: "block_bytes bp n \<inter> free_bytes L = {}"
  shows "\<exists>h' L'. free (bp + 16) h = Some h' \<and> ring h' L' \<and> free_bytes L' = free_bytes L \<union> block_bytes bp n \<and>
    base h' = base h \<and> brk h' = brk h \<and> lim h' = lim h \<and> (\<exists>(b, t) \<in> set L'. n \<le> t) \<and>
    (\<forall>c. c \<notin> free_bytes L \<union> block_bytes bp n \<longrightarrow> hsize h' c = hsize h c)"
proof -
  note R = ringD [OF r]
  obtain xs a s ys where L: "L = xs @ (a, s) # ys" and a: "a < bp" and y: "\<forall>(b, t) \<in> set ys. bp \<le> b"
    by (rule split_below [OF R(3) R(5) lo])
  have "a + 16 * s \<le> bp"
  proof (rule ccontr)
    assume "\<not> a + 16 * s \<le> bp"
    then have "bp \<in> block_bytes a s \<and> bp \<in> block_bytes bp n" using a n(2) by (simp add: block_bytes_def)
    then show False using dis by (auto simp: L)
  qed
  moreover have hi: "\<forall>(b, t) \<in> set ys. bp + 16 * n \<le> b"
  proof (intro ballI, clarify, rule ccontr)
    fix b t
    assume m: "(b, t) \<in> set ys" and nle: "\<not> bp + 16 * n \<le> b"
    have b: "bp \<le> b" using m y by auto
    then have "0 < t" using R(8) [of b t] lo m by (simp add: L)
    then have "b \<in> block_bytes b t \<and> b \<in> block_bytes bp n" using b nle by (simp add: block_bytes_def)
    moreover have "block_bytes b t \<subseteq> free_bytes L" using m by (auto simp: L free_bytes_def)
    ultimately show False using dis by blast
  qed
  ultimately obtain L' where L': "ring (free_at bp a h) L'" "free_bytes L' = free_bytes L \<union> block_bytes bp n" "\<exists>(b, t) \<in> set L'. n \<le> t"
    using free_at_ring [OF r ok L a _ _ n] by blast
  have "free_find h bp (freep h) = Some a"
  proof (rule free_find_place [OF L _ R(3) a _ _ R(4)])
    show "linked h L (head L 0)" using R(1,2) by simp
    show "\<forall>(b, t) \<in> set ys. bp < b" using hi n(2) by fastforce
    show "head L 0 \<le> a" using R(1) R(7) [of a s] by (simp add: L)
  qed
  then have "free (bp + 16) h = Some (free_at bp a h)" by (simp add: free_def)
  moreover have "base (free_at bp a h) = base h" "brk (free_at bp a h) = brk h" "lim (free_at bp a h) = lim h"
    by (simp_all add: free_at_def Let_def)
  moreover have "hsize (free_at bp a h) c = hsize h c" if c: "c \<notin> free_bytes L \<union> block_bytes bp n" for c
  proof (rule free_at_frame)
    show "hptr h a = head ys (base h)" "hsize h a = s" using R(2) by (simp_all add: L linked_append)
    show "c \<noteq> bp" using c n(2) by (auto simp: block_bytes_def)
    have "a \<in> block_bytes a s" if "a + 16 * s = bp" using that a by (simp add: block_bytes_def)
    then show "c \<noteq> a \<or> a + 16 * s \<noteq> bp" using c by (auto simp: L)
  qed (use a in simp)
  ultimately show ?thesis using L' by blast
qed

section \<open>malloc\<close>

text \<open>The search from the block after \<open>prev\<close> skips blocks that are too small, up to \<open>freep\<close>.\<close>

lemma malloc_loop_skip:
  "linked h L e \<Longrightarrow> (\<And>a s. (a, s) \<in> set L \<Longrightarrow> s < nu \<and> a \<noteq> freep h) \<Longrightarrow>
   malloc_loop nu prev (head L e) h = malloc_loop nu (if L = [] then prev else fst (last L)) e h"
proof (induction L arbitrary: prev)
  case (Cons b L)
  obtain a s where b: "b = (a, s)" by (cases b)
  have "s < nu" "a \<noteq> freep h" "hsize h a = s" "hptr h a = head L e" using Cons.prems(1) Cons.prems(2) [of a s] by (simp_all add: b)
  then have "malloc_loop nu prev a h = malloc_loop nu a (head L e) h" by (subst malloc_loop.simps) simp
  also have "\<dots> = malloc_loop nu (if L = [] then a else fst (last L)) e h" using Cons.prems by (intro Cons.IH) (auto simp: b)
  finally show ?case by (simp add: b)
qed simp

lemma apart_disjoint:
  assumes "apart (ps @ (a, s) # qs)"
  shows "block_bytes a s \<inter> free_bytes ps = {}" "block_bytes a s \<inter> free_bytes qs = {}"
  using assms unfolding apart_append apart_Cons free_bytes_def block_bytes_def by fastforce+

lemma pred_unique:
  assumes r: "ring h L" and L: "L = ps @ (a, s) # qs" and ps: "ps \<noteq> []" and x: "x \<in> fst ` set L" "hptr h x = a"
  shows "x = fst (last ps)"
proof -
  note R = ringD [OF r]
  have d: "distinct (map fst L)" by (rule apart_distinct [OF R(3)])
  obtain t where "(x, t) \<in> set L" using x(1) by auto
  from split_list [OF this] obtain u w where u: "L = u @ (x, t) # w" by blast
  have "hptr h x = head w (base h)" using R(2) by (simp add: u linked_append)
  then have hw: "head w (base h) = a" using x(2) by simp
  have "base h \<in> fst ` set ps" using R(1) [of 0] ps by (cases ps) (auto simp: L head_def)
  then have "a \<noteq> base h" using d by (auto simp: L)
  then obtain s' w' where w: "w = (a, s') # w'" using hw by (cases w) auto
  have "length (u @ [(x, t)]) = length ps"
  proof (rule ccontr)
    assume ne: "length (u @ [(x, t)]) \<noteq> length ps"
    have "map fst L ! length (u @ [(x, t)]) = a" unfolding u w by (simp add: nth_append)
    moreover have "map fst L ! length ps = a" unfolding L by (simp add: nth_append)
    moreover have "length (u @ [(x, t)]) < length (map fst L)" "length ps < length (map fst L)" by (simp add: u w) (simp add: L)
    ultimately show False using ne nth_eq_iff_index_eq [OF d] by metis
  qed
  moreover have "(u @ [(x, t)]) @ (a, s') # w' = ps @ (a, s) # qs" using L u w by simp
  ultimately have "u @ [(x, t)] = ps" using append_eq_append_conv [of "u @ [(x, t)]" ps] by blast
  then show ?thesis by auto
qed

text \<open>Taking the block at \<open>a\<close>, or its end, out of the ring.\<close>

lemma take_block:
  assumes r: "ring h L" and L: "L = ps @ (a, s) # qs" and nu: "0 < nu" "nu \<le> s"
    and prev: "prev \<in> fst ` set L" "hptr h prev = a"
  shows "\<exists>ap h' L'. malloc_loop nu prev a h = Some (ap, h') \<and> 16 \<le> ap \<and> ring h' L' \<and> hsize h' (ap - 16) = nu \<and>
    block_bytes (ap - 16) nu \<subseteq> block_bytes a s \<and> free_bytes L' = free_bytes L - block_bytes (ap - 16) nu \<and>
    base h' = base h \<and> brk h' = brk h \<and> lim h' = lim h \<and> base h < ap - 16 \<and>
    (\<forall>c. c \<notin> block_bytes a s \<longrightarrow> hsize h' c = hsize h c)"
proof -
  note R = ringD [OF r]
  have a: "a \<noteq> base h" using R(9) [of s] nu by (auto simp: L)
  then have ps: "ps \<noteq> []" using R(1) [of 0] by (auto simp: L)
  have ba: "base h < a" using R(7) [of a s] a by (simp add: L)
  have pv: "prev = fst (last ps)" by (rule pred_unique [OF r L ps prev])
  have sz: "hsize h a = s" "hptr h a = head qs (base h)" using R(2) by (simp_all add: L linked_append)
  have d: "distinct (map fst L)" by (rule apart_distinct [OF R(3)])
  have dj: "block_bytes a s \<inter> free_bytes ps = {}" "block_bytes a s \<inter> free_bytes qs = {}"
    using apart_disjoint [of ps a s qs] R(3) by (simp_all add: L)
  show ?thesis
  proof (cases "s = nu")
    case True
    let ?h = "h\<lparr>hptr := (hptr h)(prev := hptr h a), freep := prev\<rparr>"
    obtain p0 c where p0: "ps = p0 @ [c]" using ps by (metis rev_exhaust)
    obtain t where c: "c = (prev, t)" using pv p0 by (cases c) auto
    have e: "malloc_loop nu prev a h = Some (a + 16, ?h)" using sz True by (subst malloc_loop.simps) simp
    have lk: "linked h p0 prev" "hsize h prev = t" "linked h qs (base h)"
      using R(2) unfolding L p0 c by (simp_all add: linked_append)
    have o: "prev \<notin> fst ` set p0" "prev \<notin> fst ` set qs" using d unfolding L p0 c by auto
    have "linked ?h p0 prev" "linked ?h qs (base h)"
      using linked_upd [OF o(1), of ?h h prev] linked_upd [OF o(2), of ?h h "base h"] lk by simp_all
    then have lk': "linked ?h (ps @ qs) (base h)" unfolding p0 c using sz lk(2) by (simp add: linked_append)
    have "ring ?h (ps @ qs)"
    proof (rule ringI)
      show "apart (ps @ qs)" using R(3) by (auto simp: L apart_append apart_Cons)
      show "head (ps @ qs) 0 = base ?h" using R(1) [of 0] ps by (cases ps) (auto simp: L head_def)
      show "if b = base ?h then u = 0 else 0 < u \<and> b + 16 * u \<le> brk ?h" if "(b, u) \<in> set (ps @ qs)" for b u
        using that R(6) [of b u] R(8) [of b u] R(9) [of u] by (auto simp: L)
    qed (use lk' ps p0 c in simp_all)
    moreover have "free_bytes (ps @ qs) = free_bytes L - block_bytes a nu" using dj True by (auto simp: L)
    ultimately show ?thesis using e sz True ba by (intro exI [of _ "a + 16"] exI [of _ ?h] exI [of _ "ps @ qs"]) simp
  next
    case False
    then have lt: "nu < s" using nu by simp
    let ?p = "a + 16 * (s - nu)"
    let ?h = "h\<lparr>hsize := (hsize h)(a := s - nu, ?p := nu), freep := prev\<rparr>" and ?L = "ps @ (a, s - nu) # qs"
    have e: "malloc_loop nu prev a h = Some (?p + 16, ?h)" using sz lt by (subst malloc_loop.simps) (simp add: Let_def)
    have po: "?p \<noteq> b" if m: "(b, t) \<in> set L" for b t
    proof -
      have "b < a \<or> b = a \<or> a + 16 * s < b" using m R(3) by (auto simp: L apart_append apart_Cons)
      then show ?thesis using lt nu(1) by auto
    qed
    have o: "a \<notin> fst ` set ps" "a \<notin> fst ` set qs" using d by (auto simp: L)
    have pq: "?p \<notin> fst ` set ps" "?p \<notin> fst ` set qs" using po by (force simp: L)+
    have fr: "linked ?h M e = linked h M e" if "a \<notin> fst ` set M" "?p \<notin> fst ` set M" for M e
    proof (rule linked_frame)
      fix c
      assume "c \<in> fst ` set M"
      then have "c \<noteq> a" "c \<noteq> ?p" using that by blast+
      then show "hptr ?h c = hptr h c \<and> hsize ?h c = hsize h c" by simp
    qed
    have "linked ?h ps a = linked h ps a" "linked ?h qs (base h) = linked h qs (base h)"
      using fr [OF o(1) pq(1)] fr [OF o(2) pq(2)] by blast+
    then have lk': "linked ?h ?L (base h)" using R(2) lt nu(1) sz by (simp add: L linked_append)
    have "ring ?h ?L"
    proof (rule ringI)
      show "apart ?L" using R(3) lt by (fastforce simp: L apart_append apart_Cons)
      show "head ?L 0 = base ?h" using R(1) [of 0] by (simp add: L)
      show "if b = base ?h then u = 0 else 0 < u \<and> b + 16 * u \<le> brk ?h" if "(b, u) \<in> set ?L" for b u
        using that R(6) [of b u] R(8) [of b u] R(9) [of u] R(6) [of a s] a lt by (auto simp: L)
      show "freep ?h \<in> fst ` set ?L" using prev(1) by (auto simp: L)
    qed (use lk' in simp_all)
    moreover have bb: "block_bytes a s = block_bytes a (s - nu) \<union> block_bytes ?p nu" "block_bytes a (s - nu) \<inter> block_bytes ?p nu = {}"
      using lt by (auto simp: block_bytes_def)
    moreover have "free_bytes ?L = free_bytes L - block_bytes ?p nu" using dj bb by (auto simp: L)
    moreover have "a \<in> block_bytes a s" "?p \<in> block_bytes a s" using nu lt by (auto simp: block_bytes_def)
    ultimately show ?thesis using e ba lt nu(1)
      by (intro exI [of _ "?p + 16"] exI [of _ ?h] exI [of _ ?L]) auto
  qed
qed

text \<open>The ring in the order in which \<open>malloc\<close> searches it: from the block after \<open>freep\<close> to \<open>freep\<close> itself.\<close>

lemma ring_rotate:
  assumes r: "ring h L"
  obtains R u where "linked h R (freep h)" "hsize h (freep h) = u" "hptr h (freep h) = head R (freep h)"
    "set (R @ [(freep h, u)]) = set L" "freep h \<notin> fst ` set R"
proof -
  note R = ringD [OF r]
  obtain u where "(freep h, u) \<in> set L" using R(4) by auto
  from split_list [OF this] obtain xs ys where L: "L = xs @ (freep h, u) # ys" by blast
  have hx: "head xs (freep h) = base h" using R(1) [of 0] by (simp add: L)
  have 1: "linked h (ys @ xs) (freep h)" "hsize h (freep h) = u" "hptr h (freep h) = head (ys @ xs) (freep h)"
    using R(2) by (simp_all add: L linked_append hx)
  have 2: "freep h \<notin> fst ` set (ys @ xs)" using apart_distinct [OF R(3)] by (auto simp: L)
  have 3: "set ((ys @ xs) @ [(freep h, u)]) = set L" by (auto simp: L)
  show ?thesis by (rule that [OF 1 3 2])
qed

lemma malloc_search:
  assumes r: "ring h L" and ft: "\<exists>(b, t) \<in> set L. nu \<le> t"
  obtains a s prev where "(a, s) \<in> set L" "nu \<le> s" "prev \<in> fst ` set L" "hptr h prev = a"
    "malloc_loop nu (freep h) (hptr h (freep h)) h = malloc_loop nu prev a h"
proof -
  obtain R u where R: "linked h R (freep h)" "hsize h (freep h) = u" "hptr h (freep h) = head R (freep h)"
    "set (R @ [(freep h, u)]) = set L" "freep h \<notin> fst ` set R" by (rule ring_rotate [OF r])
  let ?P = "\<lambda>c. nu \<le> snd c" and ?R = "R @ [(freep h, u)]"
  have "\<exists>c \<in> set ?R. ?P c" unfolding R(4) using ft by force
  from split_list_first_prop [OF this] obtain us c ws where c: "?R = us @ c # ws" "?P c" "\<forall>y \<in> set us. \<not> ?P y" by blast
  obtain a s where as: "c = (a, s)" by (cases c)
  have lk: "linked h ?R (hptr h (freep h))" using R(1,2) by (simp add: linked_append)
  then have us: "linked h us a" unfolding c(1) as by (simp add: linked_append)
  have "head ?R 0 = head us a" unfolding c(1) as by simp
  then have hd: "head us a = hptr h (freep h)" using R(3) by simp
  let ?prev = "if us = [] then freep h else fst (last us)"
  have sub: "set us \<subseteq> set R"
  proof -
    have "us = take (length us) ?R" unfolding c(1) by simp
    moreover have "length us \<le> length R" using arg_cong [OF c(1), of length] by simp
    ultimately have "us = take (length us) R" by simp
    then show ?thesis using set_take_subset by metis
  qed
  have "malloc_loop nu (freep h) (head us a) h = malloc_loop nu ?prev a h"
  proof (rule malloc_loop_skip [OF us])
    fix b t
    assume m: "(b, t) \<in> set us"
    then have "b \<noteq> freep h" using R(5) sub by force
    then show "t < nu \<and> b \<noteq> freep h" using c(3) m by auto
  qed
  moreover have "hptr h ?prev = a"
  proof (cases us rule: rev_cases)
    case Nil
    then show ?thesis using hd by simp
  next
    case (snoc vs d)
    then show ?thesis using us by (cases d) (simp add: linked_append)
  qed
  moreover have "?prev \<in> fst ` set L"
  proof (cases "us = []")
    case False
    then have "last us \<in> set R" using sub by auto
    then show ?thesis using False R(4) by auto
  qed (use ringD(4) [OF r] in simp)
  moreover have "(a, s) \<in> set L" unfolding R(4) [symmetric] c(1) as by simp
  ultimately show ?thesis using that c(2) hd as by simp
qed

lemma malloc_no_fit:
  assumes r: "ring h L" and ft: "\<forall>(b, t) \<in> set L. t < nu"
  shows "malloc_loop nu (freep h) (hptr h (freep h)) h = Option.bind (morecore nu h) (\<lambda>(p1, h1).
     if p1 = 0 then Some (0, h1) else malloc_loop nu p1 (hptr h1 p1) h1)"
proof -
  obtain R u where R: "linked h R (freep h)" "hsize h (freep h) = u" "hptr h (freep h) = head R (freep h)"
    "set (R @ [(freep h, u)]) = set L" "freep h \<notin> fst ` set R" by (rule ring_rotate [OF r])
  have "t < nu" if m: "(b, t) \<in> set (R @ [(freep h, u)])" for b t using m ft unfolding R(4) by auto
  then have "u < nu" and "\<And>b t. (b, t) \<in> set R \<Longrightarrow> t < nu \<and> b \<noteq> freep h" using R(5) by force+
  then have "malloc_loop nu (freep h) (head R (freep h)) h = malloc_loop nu (if R = [] then freep h else fst (last R)) (freep h) h"
    by (intro malloc_loop_skip [OF R(1)]) blast
  also have "\<dots> = Option.bind (morecore nu h) (\<lambda>(p1, h1). if p1 = 0 then Some (0, h1) else malloc_loop nu p1 (hptr h1 p1) h1)"
    using \<open>u < nu\<close> R(2) by (subst malloc_loop.simps) simp
  finally show ?thesis using R(3) by simp
qed

section \<open>Correctness\<close>

text \<open>\<open>A\<close> are the blocks handed out, with their headers: they carry their size, lie inside the process and overlap neither a
  free block nor each other.\<close>

definition handed_out :: "heap \<Rightarrow> blocks \<Rightarrow> (nat \<times> nat) set \<Rightarrow> bool" where
  "handed_out h L A \<longleftrightarrow> (\<forall>b n. (b, n) \<in> A \<longrightarrow> hsize h b = n \<and> 0 < n \<and> base h < b \<and> b + 16 * n \<le> brk h \<and>
     block_bytes b n \<inter> free_bytes L = {} \<and>
     (\<forall>c m. (c, m) \<in> A \<longrightarrow> (c, m) \<noteq> (b, n) \<longrightarrow> block_bytes b n \<inter> block_bytes c m = {}))"

definition heap_inv :: "heap \<Rightarrow> (nat \<times> nat) set \<Rightarrow> bool" where
  "heap_inv h A \<longleftrightarrow> heap_ok h \<and> (if freep h = 0 then A = {} else \<exists>L. ring h L \<and> handed_out h L A)"

lemma block_start: "0 < n \<Longrightarrow> b \<in> block_bytes b n"
  by (simp add: block_bytes_def)

lemma ring_freep: "ring h L \<Longrightarrow> heap_ok h \<Longrightarrow> freep h \<noteq> 0"
  using ringD(4,7) [of h L] by (fastforce simp: heap_ok_def)

lemma handed_out_mono:
  assumes A: "handed_out h L A" and h: "base h' = base h" "brk h \<le> brk h'" "free_bytes L' \<subseteq> free_bytes L \<union> N"
    and N: "\<forall>b n. (b, n) \<in> A \<longrightarrow> block_bytes b n \<inter> N = {}" and sz: "\<forall>c. c \<notin> free_bytes L \<union> N \<longrightarrow> hsize h' c = hsize h c"
  shows "handed_out h' L' A"
  unfolding handed_out_def
proof (intro allI impI)
  fix b n
  assume m: "(b, n) \<in> A"
  have b: "hsize h b = n" "0 < n" "base h < b" "b + 16 * n \<le> brk h" "block_bytes b n \<inter> free_bytes L = {}"
    "\<forall>c m. (c, m) \<in> A \<longrightarrow> (c, m) \<noteq> (b, n) \<longrightarrow> block_bytes b n \<inter> block_bytes c m = {}"
    using A [unfolded handed_out_def, rule_format, OF m] by blast+
  have N': "block_bytes b n \<inter> N = {}" using N m by auto
  have "b \<notin> free_bytes L \<union> N" using b(5) N' block_start [OF b(2), of b] by blast
  then have "hsize h' b = n" using sz b(1) by simp
  then show "hsize h' b = n \<and> 0 < n \<and> base h' < b \<and> b + 16 * n \<le> brk h' \<and> block_bytes b n \<inter> free_bytes L' = {} \<and>
     (\<forall>c m. (c, m) \<in> A \<longrightarrow> (c, m) \<noteq> (b, n) \<longrightarrow> block_bytes b n \<inter> block_bytes c m = {})"
    using b h N' by auto
qed

lemma handed_out_insert:
  assumes A: "handed_out h L A" and b: "hsize h b = n" "0 < n" "base h < b" "b + 16 * n \<le> brk h" "block_bytes b n \<inter> free_bytes L = {}"
    and dj: "\<forall>c m. (c, m) \<in> A \<longrightarrow> block_bytes c m \<inter> block_bytes b n = {}"
  shows "handed_out h L (insert (b, n) A)"
  unfolding handed_out_def
proof (intro allI impI)
  fix c m
  assume "(c, m) \<in> insert (b, n) A"
  then consider "c = b" "m = n" | "(c, m) \<in> A" by blast
  then show "hsize h c = m \<and> 0 < m \<and> base h < c \<and> c + 16 * m \<le> brk h \<and> block_bytes c m \<inter> free_bytes L = {} \<and>
    (\<forall>d k. (d, k) \<in> insert (b, n) A \<longrightarrow> (d, k) \<noteq> (c, m) \<longrightarrow> block_bytes c m \<inter> block_bytes d k = {})"
  proof cases
    case 1
    then show ?thesis using b dj by blast
  next
    case 2
    then show ?thesis using A [unfolded handed_out_def, rule_format, OF 2] dj by blast
  qed
qed

lemma malloc_fit:
  assumes r: "ring h L" and ok: "heap_ok h" and A: "handed_out h L A" and nu: "0 < nu" and ft: "\<exists>(b, t) \<in> set L. nu \<le> t"
  shows "\<exists>ap h'. malloc_loop nu (freep h) (hptr h (freep h)) h = Some (ap, h') \<and> ap \<noteq> 0 \<and> heap_inv h' (insert (ap - 16, nu) A) \<and>
    (\<forall>b n. (b, n) \<in> A \<longrightarrow> block_bytes b n \<inter> block_bytes (ap - 16) nu = {})"
proof -
  obtain a s prev where a: "(a, s) \<in> set L" "nu \<le> s" "prev \<in> fst ` set L" "hptr h prev = a"
    "malloc_loop nu (freep h) (hptr h (freep h)) h = malloc_loop nu prev a h" by (rule malloc_search [OF r ft])
  obtain ps qs where L: "L = ps @ (a, s) # qs" using split_list [OF a(1)] by blast
  obtain ap h' L' where t: "malloc_loop nu prev a h = Some (ap, h')" "16 \<le> ap" "ring h' L'" "hsize h' (ap - 16) = nu"
    "block_bytes (ap - 16) nu \<subseteq> block_bytes a s" "free_bytes L' = free_bytes L - block_bytes (ap - 16) nu"
    "base h' = base h" "brk h' = brk h" "lim h' = lim h" "base h < ap - 16" "\<forall>c. c \<notin> block_bytes a s \<longrightarrow> hsize h' c = hsize h c"
    using take_block [OF r L nu a(2,3,4)] by (elim exE conjE)
  have sub: "block_bytes a s \<subseteq> free_bytes L" by (auto simp: L)
  have A': "handed_out h' L' A"
    by (rule handed_out_mono [OF A, where N = "{}"]) (use t(6,7,8,11) sub in auto)
  have dj: "\<forall>b n. (b, n) \<in> A \<longrightarrow> block_bytes b n \<inter> block_bytes (ap - 16) nu = {}"
    using A t(5) sub by (fastforce simp: handed_out_def)
  have "ap - 16 + 16 * nu \<le> a + 16 * s"
  proof -
    have "ap - 16 + 16 * nu - 1 \<in> block_bytes (ap - 16) nu" using nu by (simp add: block_bytes_def)
    then have "ap - 16 + 16 * nu - 1 \<in> block_bytes a s" using t(5) by blast
    then have "ap - 16 + 16 * nu - 1 < a + 16 * s" by (simp add: block_bytes_def)
    then show ?thesis using nu by linarith
  qed
  also have "a + 16 * s \<le> brk h" using ringD(6) [OF r a(1)] nu a(2) by auto
  finally have "handed_out h' L' (insert (ap - 16, nu) A)"
    by (intro handed_out_insert [OF A' t(4) nu]) (use t(6,7,8,10) dj in auto)
  moreover have ok': "heap_ok h'" using ok t(7,8,9) by (simp add: heap_ok_def)
  ultimately have "heap_inv h' (insert (ap - 16, nu) A)"
    using ring_freep [OF t(3)] t(3) by (auto simp: heap_inv_def)
  then show ?thesis using t(1,2) a(5) dj by auto
qed

lemma sint_small:
  assumes "unat (w :: uint) < 2 ^ 31"
  shows "sint w = int (unat w)"
proof -
  have "int (unat w) < int (2 ^ 31)" using assms by (simp only: of_nat_less_iff)
  then have "uint w < 2 ^ 31" by simp
  then have "signed_take_bit 31 (uint w) = uint w" using uint_ge_0 [of w] by (intro signed_take_bit_int_eq_self) linarith+
  then show ?thesis by (simp add: sint_uint)
qed

text \<open>New core: the end of the process moves up and the memory below it becomes a free block.\<close>

lemma morecore_ring:
  assumes r: "ring h L" and ok: "heap_ok h" and A: "handed_out h L A" and nu: "nu * 16 < 2 ^ 31"
  defines "m \<equiv> max nu 4096"
  shows "if brk h + 16 * m \<le> lim h
    then \<exists>h' L'. morecore nu h = Some (freep h', h') \<and> ring h' L' \<and> heap_ok h' \<and> handed_out h' L' A \<and> (\<exists>(b, t) \<in> set L'. nu \<le> t)
    else morecore nu h = Some (0, h)"
proof -
  let ?n = "of_nat (m * 16) :: uint"
  have m: "(if nu < 4096 then 4096 else nu) = m" "0 < m" "nu \<le> m" "m * 16 < 2 ^ 31" using nu by (auto simp: m_def)
  have n: "unat ?n = m * 16" unfolding unat_of_nat by (rule mod_less) (use m(4) in simp)
  then have "sint ?n = int (m * 16)" using sint_small [of ?n] m(4) by (simp only:)
  then have n0: "0 < sint ?n" using m(2) by linarith
  show ?thesis
  proof (cases "brk h + 16 * m \<le> lim h")
    case False
    then have "sbrk_u ?n h = (None, h)" using n n0 by (simp add: sbrk_u_def mult.commute)
    with False m(1) show ?thesis by (simp add: morecore_def Let_def)
  next
    case True
    let ?g = "h\<lparr>brk := brk h + 16 * m, hsize := (hsize h)(brk h := m)\<rparr>"
    have "sbrk_u ?n h = (Some (brk h), h\<lparr>brk := brk h + 16 * m\<rparr>)" using True n n0 by (simp add: sbrk_u_def mult.commute)
    then have e: "morecore nu h = map_option (\<lambda>h2. (freep h2, h2)) (free (brk h + 16) ?g)"
      using m(1) by (simp add: morecore_def Let_def)
    note R = ringD [OF r]
    have bo: "b < brk h" if "(b, t) \<in> set L" for b t
      using R(6) [OF that] R(8) [OF that] ok by (cases "b = base h") (auto simp: heap_ok_def)
    then have "brk h \<notin> fst ` set L" by force
    then have "linked ?g L (base h)" using linked_upd [of "brk h" L ?g h "base h"] R(2) by simp
    then have rg: "ring ?g L"
      using R by (intro ringI) (auto simp: head_def split: list.splits dest: R(6,8,9))
    have ok': "heap_ok ?g" using ok True by (simp add: heap_ok_def)
    have "free_bytes L \<subseteq> {..<brk h}" using R(6) ok by (fastforce simp: free_bytes_def block_bytes_def heap_ok_def)
    then have dj: "block_bytes (brk h) m \<inter> free_bytes L = {}" by (auto simp: block_bytes_def)
    obtain h' L' where f: "free (brk h + 16) ?g = Some h'" "ring h' L'" "free_bytes L' = free_bytes L \<union> block_bytes (brk h) m"
      "base h' = base ?g" "brk h' = brk ?g" "lim h' = lim ?g" "\<exists>(b, t) \<in> set L'. m \<le> t"
      "\<forall>c. c \<notin> free_bytes L \<union> block_bytes (brk h) m \<longrightarrow> hsize h' c = hsize ?g c"
      using free_ring [OF rg ok', of "brk h" m] dj m(2) ok by (auto simp: heap_ok_def)
    have "handed_out h' L' A"
    proof (rule handed_out_mono [OF A, where N = "block_bytes (brk h) m"])
      show "\<forall>b n. (b, n) \<in> A \<longrightarrow> block_bytes b n \<inter> block_bytes (brk h) m = {}"
        using A by (fastforce simp: handed_out_def block_bytes_def)
      show "\<forall>c. c \<notin> free_bytes L \<union> block_bytes (brk h) m \<longrightarrow> hsize h' c = hsize h c"
        using f(8) block_start [OF m(2), of "brk h"] by auto
    qed (use f in simp_all)
    moreover have "heap_ok h'" using ok' f(4,5,6) by (simp add: heap_ok_def)
    moreover obtain b t where "(b, t) \<in> set L'" "m \<le> t" using f(7) by auto
    then have "\<exists>(b, t) \<in> set L'. nu \<le> t" using m(3) by (intro bexI [of _ "(b, t)"]) simp_all
    ultimately show ?thesis using True e f(1,2) by (auto intro!: exI [of _ L'])
  qed
qed

lemma malloc_init:
  assumes "heap_inv h A" "freep h = 0"
  shows "ring (h\<lparr>hptr := (hptr h)(base h := base h), freep := base h, hsize := (hsize h)(base h := 0)\<rparr>) [(base h, 0)]"
    and "handed_out h' L A"
  using assms by (auto simp: heap_inv_def heap_ok_def handed_out_def ring_def apart_def)

text \<open>What a call of \<open>malloc\<close> for \<open>nu\<close> units may return: null if the process could not grow, or a block that overlaps
  no other.\<close>

definition malloc_good :: "heap \<Rightarrow> nat \<Rightarrow> (nat \<times> nat) set \<Rightarrow> nat \<Rightarrow> heap \<Rightarrow> bool" where
  "malloc_good h nu A ap h' \<longleftrightarrow>
     (if ap = 0 then heap_inv h' A \<and> lim h < brk h + 16 * max nu 4096
      else heap_inv h' (insert (ap - 16, nu) A) \<and> (\<forall>b n. (b, n) \<in> A \<longrightarrow> block_bytes b n \<inter> block_bytes (ap - 16) nu = {}))"

lemma malloc_loop_good:
  assumes r: "ring h L" and ok: "heap_ok h" and A: "handed_out h L A" and nu: "0 < nu" "nu * 16 < 2 ^ 31"
  shows "\<exists>ap h'. malloc_loop nu (freep h) (hptr h (freep h)) h = Some (ap, h') \<and> malloc_good h nu A ap h'"
proof (cases "\<exists>(b, t) \<in> set L. nu \<le> t")
  case True
  from malloc_fit [OF r ok A nu(1) this] show ?thesis unfolding malloc_good_def by (elim exE conjE) auto
next
  case False
  then have "\<forall>(b, t) \<in> set L. t < nu" by (auto simp: not_le)
  note e = malloc_no_fit [OF r this]
  show ?thesis
  proof (cases "brk h + 16 * max nu 4096 \<le> lim h")
    case True
    then obtain h1 L1 where m: "morecore nu h = Some (freep h1, h1)" "ring h1 L1" "heap_ok h1" "handed_out h1 L1 A"
      "\<exists>(b, t) \<in> set L1. nu \<le> t" using morecore_ring [OF r ok A nu(2)] by (simp only: if_True) blast
    have "freep h1 \<noteq> 0" by (rule ring_freep [OF m(2,3)])
    then have "malloc_loop nu (freep h) (hptr h (freep h)) h = malloc_loop nu (freep h1) (hptr h1 (freep h1)) h1"
      unfolding e using m(1) by simp
    with malloc_fit [OF m(2,3,4) nu(1) m(5)] show ?thesis unfolding malloc_good_def by (elim exE conjE) auto
  next
    case no: False
    then have "morecore nu h = Some (0, h)" using morecore_ring [OF r ok A nu(2)] by simp
    then have "malloc_loop nu (freep h) (hptr h (freep h)) h = Some (0, h)" unfolding e by simp
    moreover have "heap_inv h A" using r ok A ring_freep [OF r ok] by (auto simp: heap_inv_def)
    ultimately show ?thesis using no by (auto simp: malloc_good_def)
  qed
qed

lemma free_good:
  assumes inv: "heap_inv h A" and m: "(bp, n) \<in> A"
  shows "\<exists>h'. free (bp + 16) h = Some h' \<and> heap_inv h' (A - {(bp, n)})"
proof -
  have "freep h \<noteq> 0" using inv m by (auto simp: heap_inv_def split: if_splits)
  then obtain L where L: "ring h L" "handed_out h L A" and ok: "heap_ok h" using inv by (auto simp: heap_inv_def)
  note b = L(2) [unfolded handed_out_def, rule_format, OF m]
  obtain h' L' where f: "free (bp + 16) h = Some h'" "ring h' L'" "free_bytes L' = free_bytes L \<union> block_bytes bp n"
    "base h' = base h" "brk h' = brk h" "lim h' = lim h" "\<forall>c. c \<notin> free_bytes L \<union> block_bytes bp n \<longrightarrow> hsize h' c = hsize h c"
    using free_ring [OF L(1) ok, of bp n] b by blast
  have sub: "handed_out h L (A - {(bp, n)})" using L(2) unfolding handed_out_def by blast
  have "\<forall>c k. (c, k) \<in> A - {(bp, n)} \<longrightarrow> block_bytes c k \<inter> block_bytes bp n = {}" using b by blast
  then have "handed_out h' L' (A - {(bp, n)})"
    by (intro handed_out_mono [OF sub, where N = "block_bytes bp n"]) (use f in auto)
  moreover have "heap_ok h'" using ok f(4-6) by (simp add: heap_ok_def)
  ultimately show ?thesis using f(1,2) ring_freep [OF f(2)] by (auto simp: heap_inv_def)
qed



text \<open>A request of nearly 4 GB makes \<^verbatim>\<open>morecore\<close> ask for no memory: \<^verbatim>\<open>nu * sizeof(Header)\<close> is cut to the 32 bits of the
  argument of \<^verbatim>\<open>sbrk\<close>, which for \<open>0xfffffff0\<close> bytes leaves 0. \<^verbatim>\<open>malloc\<close> then returns a block of that size that lies
  beyond the end of the process.\<close>

theorem malloc_huge_beyond_end:
  assumes "heap_ok h" "freep h = 0"
  shows "\<exists>h'. malloc 0xfffffff0 h = Some (brk h + 16, h') \<and> brk h' = brk h"
proof -
  have u: "malloc_units 0xfffffff0 = 2 ^ 28" by (simp add: malloc_units_def)
  let ?g = "h\<lparr>hptr := (hptr h)(base h := base h), freep := base h, hsize := (hsize h)(base h := 0)\<rparr>"
  let ?k = "?g\<lparr>hsize := (hsize ?g)(brk h := 2 ^ 28)\<rparr>"
  let ?f = "?k\<lparr>hptr := (hptr ?k)(brk h := base h, base h := brk h), freep := base h\<rparr>"
  have b: "base h < brk h" "0 < base h" using assms(1) by (simp_all add: heap_ok_def)
  have "free_find ?k (brk h) (base h) = Some (base h)" by (rule free_find_stop) (use b in \<open>simp add: stops_def\<close>)
  moreover have "free_at (brk h) (base h) ?k = ?f" using b by (simp add: free_at_def Let_def fun_upd_twist)
  ultimately have "free (brk h + 16) ?k = Some ?f" by (simp add: free_def)
  then have mc: "morecore (2 ^ 28) ?g = Some (base h, ?f)" by (simp add: morecore_def sbrk_u_def Let_def)
  have "malloc 0xfffffff0 h = malloc_loop (2 ^ 28) (base h) (base h) ?g" using assms(2) u by (simp add: malloc_def Let_def)
  also have "\<dots> = malloc_loop (2 ^ 28) (base h) (brk h) ?f"
    by (subst malloc_loop.simps, subst mc) (use b in simp)
  also have "\<dots> = Some (brk h + 16, ?f\<lparr>hptr := (hptr ?f)(base h := hptr ?f (brk h)), freep := base h\<rparr>)"
    by (subst malloc_loop.simps) simp
  finally show ?thesis by simp
qed

theorem malloc_huge_beyond_end_witness:
  "\<exists>h'. malloc 0xfffffff0 \<lparr>hptr = (\<lambda>_. 0), hsize = (\<lambda>_. 0), freep = 0, base = 0x1000, brk = 0x3000, lim = 0x100000\<rparr> = Some (0x3010, h') \<and>
     brk h' = 0x3000"
  using malloc_huge_beyond_end [of "\<lparr>hptr = (\<lambda>_. 0), hsize = (\<lambda>_. 0), freep = 0, base = 0x1000, brk = 0x3000, lim = 0x100000\<rparr>"]
  by (simp add: heap_ok_def)

end
