(* ===== verification/Xv6_Sh.thy ===== *)
theory Xv6_Sh
  imports Xv6_Ulib Xv6_Syscall
begin

text \<open>
  The shell, \<^verbatim>\<open>user/sh.c\<close>. A line is the list of its bytes before the NUL, and the pointers \<^verbatim>\<open>s\<close>, \<^verbatim>\<open>q\<close>, \<^verbatim>\<open>eq\<close>
  into it are indices; \<^verbatim>\<open>es\<close> is the length of the line. What \<^verbatim>\<open>runcmd\<close> and \<^verbatim>\<open>main\<close> do is a tree of system calls
  that branches on the results and, at a fork, into the child and the parent. Allocation of the nodes of a command
  succeeds: the shell does not test what \<^verbatim>\<open>malloc\<close> returns.
\<close>

section \<open>Commands\<close>

definition MAXARGS :: nat where "MAXARGS = 10"

datatype cmd = EXEC "(nat \<times> nat) list" | REDIR cmd nat nat uint nat | PIPE cmd cmd | LIST cmd cmd | BACK cmd

section \<open>Tokens\<close>

definition whitespace :: "byte list" where "whitespace = [32, 9, 13, 10, 11]"
definition symbols :: "byte list" where "symbols = ascii ''<|>&;()''"

definition char_at :: "byte list \<Rightarrow> nat \<Rightarrow> byte" where
  "char_at b s = (if s < length b then b ! s else 0)"

function skip_ws :: "byte list \<Rightarrow> nat \<Rightarrow> nat" where
  "skip_ws b s = (if s < length b \<and> char_at b s \<in> set whitespace then skip_ws b (Suc s) else s)"
  by pat_completeness auto
termination by (relation "measure (\<lambda>(b, s). length b - s)") auto

function skip_word :: "byte list \<Rightarrow> nat \<Rightarrow> nat" where
  "skip_word b s =
     (if s < length b \<and> char_at b s \<notin> set whitespace \<and> char_at b s \<notin> set symbols then skip_word b (Suc s) else s)"
  by pat_completeness auto
termination by (relation "measure (\<lambda>(b, s). length b - s)") auto

declare skip_ws.simps [simp del] skip_word.simps [simp del]

text \<open>\<open>gettoken\<close> returns the token, \<^verbatim>\<open>*q\<close>, \<^verbatim>\<open>*eq\<close> and the new \<^verbatim>\<open>*ps\<close>.\<close>

definition gettoken :: "byte list \<Rightarrow> nat \<Rightarrow> byte \<times> nat \<times> nat \<times> nat" where
  "gettoken b s0 =
     (let q = skip_ws b s0;
          c = char_at b q;
          r = (if c = 0 then (c, q)
               else if c \<in> set (ascii ''|();&<'') then (c, Suc q)
               else if c = of_char CHR ''>'' then (if char_at b (Suc q) = of_char CHR ''>'' then (of_char CHR ''+'', Suc (Suc q)) else (c, Suc q))
               else (of_char CHR ''a'', skip_word b q))
      in (fst r, q, snd r, skip_ws b (snd r)))"

abbreviation token :: "byte list \<Rightarrow> nat \<Rightarrow> byte" where "token b s \<equiv> fst (gettoken b s)"
abbreviation tok_q :: "byte list \<Rightarrow> nat \<Rightarrow> nat" where "tok_q b s \<equiv> fst (snd (gettoken b s))"
abbreviation tok_eq :: "byte list \<Rightarrow> nat \<Rightarrow> nat" where "tok_eq b s \<equiv> fst (snd (snd (gettoken b s)))"
abbreviation after :: "byte list \<Rightarrow> nat \<Rightarrow> nat" where "after b s \<equiv> snd (snd (snd (gettoken b s)))"

text \<open>\<open>peek\<close> also moves \<^verbatim>\<open>*ps\<close> to \<^term>\<open>skip_ws b s\<close>, whatever it returns.\<close>

definition peek :: "byte list \<Rightarrow> nat \<Rightarrow> byte list \<Rightarrow> bool" where
  "peek b s toks \<longleftrightarrow> char_at b (skip_ws b s) \<noteq> 0 \<and> char_at b (skip_ws b s) \<in> set toks"

lemma skip_ws_ge: "s \<le> skip_ws b s"
proof (induction b s rule: skip_ws.induct)
  case (1 b s)
  then show ?case by (subst skip_ws.simps) (auto dest: Suc_leD)
qed

lemma skip_word_ge: "s \<le> skip_word b s"
proof (induction b s rule: skip_word.induct)
  case (1 b s)
  then show ?case by (subst skip_word.simps) (auto dest: Suc_leD)
qed

lemma skip_ws_stop: "skip_ws b s < length b \<Longrightarrow> char_at b (skip_ws b s) \<notin> set whitespace"
proof (induction b s rule: skip_ws.induct)
  case (1 b s)
  then show ?case by (cases "s < length b \<and> char_at b s \<in> set whitespace") (auto simp: skip_ws.simps [of b s])
qed

lemma char_at_nonzero: "char_at b s \<noteq> 0 \<Longrightarrow> s < length b"
  by (simp add: char_at_def split: if_splits)

lemma symbols_cases: "c \<in> set symbols \<longleftrightarrow> c \<in> set (ascii ''|();&<'') \<or> c = of_char CHR ''>''"
  by (auto simp: symbols_def ascii_def)

lemma after_gt:
  assumes "token b s \<noteq> 0"
  shows "s < after b s" "s < length b"
proof -
  let ?q = "skip_ws b s"
  have c: "char_at b ?q \<noteq> 0" using assms by (auto simp: gettoken_def Let_def split: if_splits)
  then have l: "?q < length b" by (rule char_at_nonzero)
  then show "s < length b" using skip_ws_ge [of s b] by simp
  have w: "char_at b ?q \<notin> set whitespace" using l by (rule skip_ws_stop)
  have word: "?q < skip_word b ?q" if "char_at b ?q \<notin> set (ascii ''|();&<'')" "char_at b ?q \<noteq> of_char CHR ''>''"
    using that w l skip_word_ge [of "Suc ?q" b] symbols_cases by (subst skip_word.simps) simp
  have "?q < fst (snd (snd (gettoken b s)))"
    using c word by (simp add: gettoken_def Let_def)
  also have "\<dots> \<le> after b s" by (simp add: gettoken_def Let_def skip_ws_ge)
  finally show "s < after b s" using skip_ws_ge [of s b] by simp
qed

lemma skip_ws_idem [simp]: "skip_ws b (skip_ws b s) = skip_ws b s"
proof (cases "skip_ws b s < length b")
  case True
  then show ?thesis using skip_ws_stop by (subst skip_ws.simps) simp
qed (subst skip_ws.simps, simp)

lemma token_zero_iff: "token b s = 0 \<longleftrightarrow> char_at b (skip_ws b s) = 0"
  by (simp add: gettoken_def Let_def)

lemma peek_after:
  assumes "peek b s toks"
  shows "s < after b (skip_ws b s)" "s < length b"
proof -
  have "token b (skip_ws b s) \<noteq> 0" using assms by (simp add: token_zero_iff peek_def)
  from after_gt [OF this] skip_ws_ge [of s b] show "s < after b (skip_ws b s)" "s < length b" by simp_all
qed

lemma after_ge: "s \<le> after b s"
proof (cases "token b s = 0")
  case True
  then have "after b s = skip_ws b s" by (simp add: token_zero_iff) (simp add: gettoken_def Let_def)
  then show ?thesis by (simp add: skip_ws_ge)
qed (use after_gt(1) [of b s] in simp)

section \<open>The parser\<close>

text \<open>A part of the parser returns what it has parsed with the new \<^verbatim>\<open>*ps\<close>, or it calls \<^verbatim>\<open>panic\<close>: then the result is
  what the shell has written to its error output.\<close>

datatype 'a presult = Parsed 'a nat | Syntax "byte list"

definition shell_panic :: "string \<Rightarrow> 'a presult" where
  "shell_panic msg = Syntax (ascii msg @ [10])"

text \<open>The redirections \<open>parseredirs\<close> finds, each the file name, the mode and the descriptor of one \<^verbatim>\<open>redircmd\<close>. They
  are kept apart from the command they apply to, because \<^verbatim>\<open>parseexec\<close> goes on to fill in the arguments of the
  \<^verbatim>\<open>execcmd\<close> that they enclose.\<close>

type_synonym redir = "nat \<times> nat \<times> uint \<times> nat"

definition O_RDONLY :: uint where [layout_defs]: "O_RDONLY = 0"

definition redircmd :: "cmd \<Rightarrow> redir \<Rightarrow> cmd" where
  "redircmd c r = (case r of (q, eq, mode, fd) \<Rightarrow> REDIR c q eq mode fd)"

definition redir_of :: "byte \<Rightarrow> nat \<Rightarrow> nat \<Rightarrow> redir" where
  "redir_of tok q eq =
     (if tok = of_char CHR ''<'' then (q, eq, O_RDONLY, 0)
      else if tok = of_char CHR ''>'' then (q, eq, O_WRONLY OR O_CREATE OR O_TRUNC, 1)
      else (q, eq, O_WRONLY OR O_CREATE, 1))"

function parseredirs :: "byte list \<Rightarrow> nat \<Rightarrow> redir list presult" where
  "parseredirs b s =
     (if peek b s (ascii ''<>'')
      then let s1 = skip_ws b s; s2 = after b s1
        in if token b s2 \<noteq> of_char CHR ''a'' then shell_panic ''missing file for redirection''
           else (case parseredirs b (after b s2) of
               Syntax e \<Rightarrow> Syntax e
             | Parsed rs s3 \<Rightarrow> Parsed (redir_of (token b s1) (tok_q b s2) (tok_eq b s2) # rs) s3)
      else Parsed [] (skip_ws b s))"
  by pat_completeness auto
termination
proof (relation "measure (\<lambda>(b, s). length b - s)")
  fix b s s1 s2
  assume p: "peek b s (ascii ''<>'')" and s1: "s1 = skip_ws b s" and s2: "s2 = after b s1"
    and t: "\<not> token b s2 \<noteq> of_char CHR ''a''"
  have "token b s2 \<noteq> 0" using t by (simp add: of_char_def)
  from after_gt [OF this] peek_after [OF p]
  show "((b, after b s2), b, s) \<in> measure (\<lambda>(b, s). length b - s)" by (simp add: s1 s2)
qed simp

declare parseredirs.simps [simp del]

lemma parseredirs_ge: "parseredirs b s = Parsed rs s' \<Longrightarrow> s \<le> s'"
proof (induction b s arbitrary: rs s' rule: parseredirs.induct)
  case (1 b s)
  show ?case
  proof (cases "peek b s (ascii ''<>'')")
    case False
    with 1(2) show ?thesis using skip_ws_ge [of s b] by (auto simp: parseredirs.simps [of b s])
  next
    case True
    let ?s2 = "after b (skip_ws b s)"
    have t: "token b ?s2 = of_char CHR ''a''"
      using 1(2) True by (auto simp: parseredirs.simps [of b s] shell_panic_def Let_def split: if_splits)
    then have "token b ?s2 \<noteq> 0" by (simp add: of_char_def)
    note a = after_gt [OF this]
    obtain rs' where "parseredirs b (after b ?s2) = Parsed rs' s'"
      using 1(2) True t by (auto simp: parseredirs.simps [of b s] Let_def split: presult.splits)
    then have "after b ?s2 \<le> s'" using 1(1) [OF True refl refl] t by simp
    then show ?thesis using a peek_after(1) [OF True] by linarith
  qed
qed

text \<open>The loop of \<open>parseexec\<close>: the arguments and the redirections so far.\<close>

function parseexec_loop :: "byte list \<Rightarrow> nat \<Rightarrow> (nat \<times> nat) list \<Rightarrow> redir list \<Rightarrow> ((nat \<times> nat) list \<times> redir list) presult" where
  "parseexec_loop b s argv rs =
     (if peek b s (ascii ''|)&;'') then Parsed (argv, rs) (skip_ws b s)
      else let s1 = skip_ws b s
        in if token b s1 = 0 then Parsed (argv, rs) (after b s1)
           else if token b s1 \<noteq> of_char CHR ''a'' then shell_panic ''syntax''
           else if Suc (length argv) \<ge> MAXARGS then shell_panic ''too many args''
           else (case parseredirs b (after b s1) of
               Syntax e \<Rightarrow> Syntax e
             | Parsed rs' s2 \<Rightarrow> parseexec_loop b s2 (argv @ [(tok_q b s1, tok_eq b s1)]) (rs @ rs')))"
  by pat_completeness auto
termination
proof (relation "measure (\<lambda>(b, s, argv, rs). length b - s)")
  fix b s argv rs s1 rs' s2
  assume s1: "s1 = skip_ws b s" and t: "token b s1 \<noteq> 0" and r: "parseredirs b (after b s1) = Parsed rs' s2"
  have "s < s2" "s < length b" using after_gt [OF t] parseredirs_ge [OF r] skip_ws_ge [of s b] by (simp_all add: s1)
  then show "((b, s2, argv @ [(tok_q b s1, tok_eq b s1)], rs @ rs'), b, s, argv, rs) \<in> measure (\<lambda>(b, s, argv, rs). length b - s)"
    by simp
qed simp

declare parseexec_loop.simps [simp del]

text \<open>The loop of \<open>parseline\<close> over ampersands.\<close>

function parse_backs :: "byte list \<Rightarrow> nat \<Rightarrow> cmd \<Rightarrow> cmd \<times> nat" where
  "parse_backs b s c =
     (if peek b s (ascii ''&'') then parse_backs b (after b (skip_ws b s)) (BACK c) else (c, skip_ws b s))"
  by pat_completeness auto
termination by (relation "measure (\<lambda>(b, s, c). length b - s)") (auto dest: peek_after intro!: diff_less_mono2)

declare parse_backs.simps [simp del]

function parseline :: "byte list \<Rightarrow> nat \<Rightarrow> cmd presult"
  and parsepipe :: "byte list \<Rightarrow> nat \<Rightarrow> cmd presult"
  and parseexec :: "byte list \<Rightarrow> nat \<Rightarrow> cmd presult"
  and parseblock :: "byte list \<Rightarrow> nat \<Rightarrow> cmd presult"
where
  "parseline b s =
     (case parsepipe b s of
       Syntax e \<Rightarrow> Syntax e
     | Parsed c s1 \<Rightarrow>
         let c' = fst (parse_backs b s1 c); s2 = snd (parse_backs b s1 c)
         in if peek b s2 (ascii '';'')
            then (case parseline b (after b (skip_ws b s2)) of
                Syntax e \<Rightarrow> Syntax e
              | Parsed d s3 \<Rightarrow> Parsed (LIST c' d) s3)
            else Parsed c' (skip_ws b s2))"
| "parsepipe b s =
     (case parseexec b s of
       Syntax e \<Rightarrow> Syntax e
     | Parsed c s1 \<Rightarrow>
         if peek b s1 (ascii ''|'')
         then (case parsepipe b (after b (skip_ws b s1)) of
             Syntax e \<Rightarrow> Syntax e
           | Parsed d s2 \<Rightarrow> Parsed (PIPE c d) s2)
         else Parsed c (skip_ws b s1))"
| "parseexec b s =
     (if peek b s (ascii ''('') then parseblock b (skip_ws b s)
      else case parseredirs b (skip_ws b s) of
          Syntax e \<Rightarrow> Syntax e
        | Parsed rs s1 \<Rightarrow>
            (case parseexec_loop b s1 [] rs of
              Syntax e \<Rightarrow> Syntax e
            | Parsed (argv, rs') s2 \<Rightarrow> Parsed (foldl redircmd (EXEC argv) rs') s2))"
| "parseblock b s =
     (if \<not> peek b s (ascii ''('') then shell_panic ''parseblock''
      else case parseline b (after b (skip_ws b s)) of
          Syntax e \<Rightarrow> Syntax e
        | Parsed c s1 \<Rightarrow>
            if \<not> peek b s1 (ascii '')'') then shell_panic ''syntax - missing )''
            else (case parseredirs b (after b (skip_ws b s1)) of
                Syntax e \<Rightarrow> Syntax e
              | Parsed rs s2 \<Rightarrow> Parsed (foldl redircmd c rs) s2))"
  by pat_completeness auto

lemma parse_backs_ge: "s \<le> snd (parse_backs b s c)"
proof (induction b s c rule: parse_backs.induct)
  case (1 b s c)
  then show ?case using peek_after(1) [of b s] skip_ws_ge [of s b]
    by (subst parse_backs.simps) (auto dest: less_imp_le intro: order_trans)
qed

lemma parseexec_loop_ge: "parseexec_loop b s argv rs = Parsed r s' \<Longrightarrow> s \<le> s'"
proof (induction b s argv rs rule: parseexec_loop.induct)
  case (1 b s argv rs)
  let ?s1 = "skip_ws b s"
  show ?case
  proof (cases "peek b s (ascii ''|)&;'') \<or> token b ?s1 = 0")
    case True
    have "?s1 \<le> after b ?s1" by (rule after_ge)
    with True 1(2) show ?thesis using skip_ws_ge [of s b] by (auto simp: parseexec_loop.simps [of b s] Let_def split: if_splits)
  next
    case False
    then obtain rs' s2 where r: "parseredirs b (after b ?s1) = Parsed rs' s2"
      and l: "parseexec_loop b s2 (argv @ [(tok_q b ?s1, tok_eq b ?s1)]) (rs @ rs') = Parsed r s'"
      and c: "token b ?s1 = of_char CHR ''a''" "\<not> Suc (length argv) \<ge> MAXARGS"
      using 1(2) by (auto simp: parseexec_loop.simps [of b s] Let_def shell_panic_def split: if_splits presult.splits)
    then have "s2 \<le> s'" using 1(1) False by simp
    then show ?thesis using after_gt [of b ?s1] False parseredirs_ge [OF r] skip_ws_ge [of s b] by linarith
  qed
qed

abbreviation (input) "parse_dom \<equiv> parseline_parsepipe_parseexec_parseblock_dom"

lemma parse_ge:
  "parse_dom (Inl (Inl (b, s))) \<Longrightarrow> \<forall>c s'. parseline b s = Parsed c s' \<longrightarrow> s \<le> s'"
  "parse_dom (Inl (Inr (b, s))) \<Longrightarrow> \<forall>c s'. parsepipe b s = Parsed c s' \<longrightarrow> s \<le> s'"
  "parse_dom (Inr (Inl (b, s))) \<Longrightarrow> \<forall>c s'. parseexec b s = Parsed c s' \<longrightarrow> s \<le> s'"
  "parse_dom (Inr (Inr (b, s))) \<Longrightarrow> \<forall>c s'. parseblock b s = Parsed c s' \<longrightarrow> s \<le> s'"
proof (induction b s and b s and b s and b s rule: parseline_parsepipe_parseexec_parseblock.pinduct)
  case (1 b s)
  show ?case
  proof (intro allI impI)
    fix c s'
    assume p: "parseline b s = Parsed c s'"
    then obtain d s1 where d: "parsepipe b s = Parsed d s1" by (auto simp: parseline.psimps [OF 1(1)] split: presult.splits)
    let ?s2 = "snd (parse_backs b s1 d)"
    have "s \<le> s1" using 1(2) d by blast
    then have 2: "s \<le> ?s2" using parse_backs_ge [of s1 b d] by simp
    show "s \<le> s'"
    proof (cases "peek b ?s2 (ascii '';'')")
      case True
      then obtain e where "parseline b (after b (skip_ws b ?s2)) = Parsed e s'"
        using p d by (auto simp: parseline.psimps [OF 1(1)] Let_def split: presult.splits)
      then have "after b (skip_ws b ?s2) \<le> s'" using 1(3) [OF d refl refl True] by blast
      then show ?thesis using peek_after(1) [OF True] 2 by linarith
    next
      case False
      then show ?thesis using p d 2 skip_ws_ge [of ?s2 b] by (auto simp: parseline.psimps [OF 1(1)] Let_def)
    qed
  qed
next
  case (2 b s)
  show ?case
  proof (intro allI impI)
    fix c s'
    assume p: "parsepipe b s = Parsed c s'"
    then obtain d s1 where d: "parseexec b s = Parsed d s1" by (auto simp: parsepipe.psimps [OF 2(1)] split: presult.splits)
    have 3: "s \<le> s1" using 2(2) d by blast
    show "s \<le> s'"
    proof (cases "peek b s1 (ascii ''|'')")
      case True
      then obtain e where "parsepipe b (after b (skip_ws b s1)) = Parsed e s'"
        using p d by (auto simp: parsepipe.psimps [OF 2(1)] split: presult.splits)
      then have "after b (skip_ws b s1) \<le> s'" using 2(3) [OF d True] by blast
      then show ?thesis using peek_after(1) [OF True] 3 by linarith
    next
      case False
      then show ?thesis using p d 3 skip_ws_ge [of s1 b] by (auto simp: parsepipe.psimps [OF 2(1)])
    qed
  qed
next
  case (3 b s)
  show ?case
  proof (intro allI impI)
    fix c s'
    assume p: "parseexec b s = Parsed c s'"
    have "skip_ws b s \<le> s'"
    proof (cases "peek b s (ascii ''('')")
      case True
      then show ?thesis using 3(2) p by (simp add: parseexec.psimps [OF 3(1)])
    next
      case False
      then obtain rs s1 r where "parseredirs b (skip_ws b s) = Parsed rs s1" "parseexec_loop b s1 [] rs = Parsed r s'"
        using p by (auto simp: parseexec.psimps [OF 3(1)] split: presult.splits)
      then show ?thesis using parseredirs_ge parseexec_loop_ge by (blast intro: order_trans)
    qed
    then show "s \<le> s'" using skip_ws_ge [of s b] by simp
  qed
next
  case (4 b s)
  show ?case
  proof (intro allI impI)
    fix c s'
    assume p: "parseblock b s = Parsed c s'"
    then have k: "\<not> \<not> peek b s (ascii ''('')" by (auto simp: parseblock.psimps [OF 4(1)] shell_panic_def split: if_splits)
    then obtain d s1 where d: "parseline b (after b (skip_ws b s)) = Parsed d s1"
      using p by (auto simp: parseblock.psimps [OF 4(1)] split: presult.splits)
    have l: "after b (skip_ws b s) \<le> s1" using 4(2) [OF k] d by blast
    have k2: "peek b s1 (ascii '')'')" using p k d by (auto simp: parseblock.psimps [OF 4(1)] shell_panic_def split: if_splits)
    then obtain rs where "parseredirs b (after b (skip_ws b s1)) = Parsed rs s'"
      using p k d by (auto simp: parseblock.psimps [OF 4(1)] split: presult.splits)
    then have "after b (skip_ws b s1) \<le> s'" by (rule parseredirs_ge)
    then show "s \<le> s'" using l peek_after(1) [of b s "ascii ''(''"] k peek_after(1) [OF k2] by simp
  qed
qed

termination parseline
proof (relation "measures [\<lambda>x. case x of Inl (Inl (b, s)) \<Rightarrow> length b - s | Inl (Inr (b, s)) \<Rightarrow> length b - s
      | Inr (Inl (b, s)) \<Rightarrow> length b - s | Inr (Inr (b, s)) \<Rightarrow> length b - s,
    \<lambda>x. case x of Inl (Inl _) \<Rightarrow> 3 | Inl (Inr _) \<Rightarrow> 2 | Inr (Inl _) \<Rightarrow> 1 | Inr (Inr _) \<Rightarrow> 0]", goal_cases)
  case (3 b s c s1 c' s2)
  then have "s \<le> s2" using parse_ge(2) [of b s] parse_backs_ge [of s1 b c] by auto
  with 3 peek_after [of b s2 "ascii '';''"] show ?case by auto
next
  case (5 b s c s1)
  then have "s \<le> s1" using parse_ge(3) [of b s] by auto
  with 5 peek_after [of b s1 "ascii ''|''"] show ?case by auto
next
  case (6 b s)
  then show ?case using skip_ws_ge [of s b] by auto
next
  case (7 b s)
  then show ?case using peek_after [of b s "ascii ''(''"] by auto
qed simp_all

declare parseline.simps [simp del] parsepipe.simps [simp del] parseexec.simps [simp del] parseblock.simps [simp del]

text \<open>The buffer \<open>m\<close> holds the line and its NUL; \<open>zero_at\<close> is \<^verbatim>\<open>*p = 0\<close>.\<close>

definition zero_at :: "nat \<Rightarrow> byte list \<Rightarrow> byte list" where
  "zero_at k m = m[k := 0]"

fun nulterminate :: "cmd \<Rightarrow> byte list \<Rightarrow> byte list" where
  "nulterminate (EXEC argv) m = fold (\<lambda>a. zero_at (snd a)) argv m"
| "nulterminate (REDIR c q eq mode fd) m = zero_at eq (nulterminate c m)"
| "nulterminate (PIPE l r) m = nulterminate r (nulterminate l m)"
| "nulterminate (LIST l r) m = nulterminate r (nulterminate l m)"
| "nulterminate (BACK c) m = nulterminate c m"

text \<open>The result is the command and the buffer.\<close>

definition parsecmd :: "byte list \<Rightarrow> byte list + cmd \<times> byte list" where
  "parsecmd b =
     (case parseline b 0 of
       Syntax e \<Rightarrow> Inl e
     | Parsed c s \<Rightarrow>
         let s' = skip_ws b s
         in if s' \<noteq> length b then Inl (ascii ''leftovers: '' @ drop s' b @ [10] @ ascii ''syntax'' @ [10])
            else Inr (c, nulterminate c (b @ [0])))"

section \<open>Running commands\<close>

text \<open>What a process does, as a tree of system calls. A call whose result the shell looks at has one subtree per result;
  \<open>Fork\<close> has the child and, for each result, the parent; \<open>Exec\<close> has what is done when it fails.\<close>

datatype prog =
    Exit int
  | Exec "byte list" "byte list list" prog
  | Open "byte list" uint "int \<Rightarrow> prog"
  | Close nat prog
  | Dup nat prog
  | Pipe "int \<Rightarrow> nat \<Rightarrow> nat \<Rightarrow> prog"
  | Fork prog "int \<Rightarrow> prog"
  | Wait prog
  | Write nat "byte list" prog
  | Chdir "byte list" "int \<Rightarrow> prog"

definition panic_sh :: "string \<Rightarrow> prog" where
  "panic_sh msg = Write 2 (ascii msg @ [10]) (Exit 1)"

definition fork1 :: "prog \<Rightarrow> prog \<Rightarrow> prog" where
  "fork1 child rest = Fork child (\<lambda>pid. if pid = -1 then panic_sh ''fork'' else rest)"

definition cstring :: "byte list \<Rightarrow> nat \<Rightarrow> byte list" where
  "cstring m q = takeWhile (\<lambda>c. c \<noteq> 0) (drop q m)"

primrec runcmd :: "byte list \<Rightarrow> cmd \<Rightarrow> prog" where
  "runcmd m (EXEC argv) =
     (if argv = [] then Exit 1
      else let name = cstring m (fst (hd argv))
        in Exec name (map (\<lambda>a. cstring m (fst a)) argv) (Write 2 (ascii ''exec '' @ name @ ascii '' failed'' @ [10]) (Exit 0)))"
| "runcmd m (REDIR c q eq mode fd) =
     Close fd (Open (cstring m q) mode (\<lambda>r. if r < 0 then Write 2 (ascii ''open '' @ cstring m q @ ascii '' failed'' @ [10]) (Exit 1) else runcmd m c))"
| "runcmd m (LIST l r) = fork1 (runcmd m l) (Wait (runcmd m r))"
| "runcmd m (PIPE l r) =
     Pipe (\<lambda>res p0 p1. if res < 0 then panic_sh ''pipe''
       else fork1 (Close 1 (Dup p1 (Close p0 (Close p1 (runcmd m l)))))
           (fork1 (Close 0 (Dup p0 (Close p0 (Close p1 (runcmd m r)))))
             (Close p0 (Close p1 (Wait (Wait (Exit 0)))))))"
| "runcmd m (BACK c) = fork1 (runcmd m c) (Exit 0)"

text \<open>The line that \<open>getcmd\<close> leaves in the buffer, as a C string; the shell ends when it is empty.\<close>

definition getcmd :: "nat \<Rightarrow> stream_in \<Rightarrow> byte list \<times> stream_in" where
  "getcmd nbuf st = (let r = gets (int nbuf) st in (takeWhile (\<lambda>c. c \<noteq> 0) (fst r), snd r))"

lemma gets_loop_consumes:
  "gets_loop mx buf (xs, ks) = (r, (ys, ls)) \<Longrightarrow> length buf + length xs = length r + length ys"
proof (induction mx buf "(xs, ks)" arbitrary: xs ks rule: gets_loop.induct)
  case (1 mx buf xs ks)
  obtain bs zs ms where c: "read_call 1 (xs, ks) = (bs, (zs, ms))" by (metis prod.collapse)
  note sp = read_call_split [OF c]
  show ?case
  proof (cases "int (length buf) + 1 < mx")
    case False
    then show ?thesis using 1(2) by (simp add: gets_loop.simps [of mx buf])
  next
    case True
    show ?thesis
    proof (cases bs)
      case Nil
      then show ?thesis using 1(2) True c sp(1) by (simp add: gets_loop.simps [of mx buf])
    next
      case (Cons a as)
      then have as: "as = []" "xs = a # zs" using sp(1,2) by auto
      show ?thesis
      proof (cases "a = 10 \<or> a = 13")
        case a: True
        then show ?thesis using 1(2) True c Cons as by (auto simp: gets_loop.simps [of mx buf])
      next
        case False
        then have "gets_loop mx (buf @ [a]) (zs, ms) = (r, (ys, ls))" using 1(2) True c Cons as by (simp add: gets_loop.simps [of mx buf])
        then show ?thesis using 1(1) [OF True c [symmetric], of a as] Cons False as by auto
      qed
    qed
  qed
qed

lemma getcmd_consumes: "fst (getcmd n st) \<noteq> [] \<Longrightarrow> length (fst (snd (getcmd n st))) < length (fst st)"
proof -
  assume n: "fst (getcmd n st) \<noteq> []"
  obtain xs ks where st: "st = (xs, ks)" by (cases st)
  obtain r ys ls where g: "gets (int n) (xs, ks) = (r, (ys, ls))" by (metis prod.collapse)
  have "length xs = length r + length ys" using gets_loop_consumes [of "int n" "[]" xs ks r ys ls] g by (simp add: gets_def)
  moreover have "r \<noteq> []" using n g by (auto simp: getcmd_def st Let_def)
  ultimately show ?thesis by (simp add: getcmd_def st g Let_def)
qed

text \<open>What the child does with a line.\<close>

definition run_line :: "byte list \<Rightarrow> prog" where
  "run_line buf = (case parsecmd buf of Inl e \<Rightarrow> Write 2 e (Exit 1) | Inr (c, m) \<Rightarrow> runcmd m c)"

text \<open>The loop of \<open>main\<close> over the lines of its input, with its buffer of 100 bytes.\<close>

function main_loop :: "stream_in \<Rightarrow> prog" where
  "main_loop st = Write 2 (ascii ''$ '')
     (let buf = fst (getcmd 100 st); st' = snd (getcmd 100 st)
      in if buf = [] then Exit 0
         else if take 3 buf = ascii ''cd ''
         then (let dir = drop 3 (butlast buf)
               in Chdir dir (\<lambda>r. if r < 0 then Write 2 (ascii ''cannot cd '' @ dir @ [10]) (main_loop st') else main_loop st'))
         else fork1 (run_line buf) (Wait (main_loop st')))"
  by pat_completeness auto
termination by (relation "measure (\<lambda>st. length (fst st))") (auto dest: getcmd_consumes)

declare main_loop.simps [simp del]

text \<open>Opening the console until descriptors 0 to 2 are in use. Descriptors that are not closed are distinct, so that the
  fourth call at the latest returns a number above 2 or fails: four turns are enough.\<close>

primrec open_console :: "nat \<Rightarrow> prog \<Rightarrow> prog" where
  "open_console 0 rest = rest"
| "open_console (Suc n) rest =
     Open (ascii ''console'') O_RDWR (\<lambda>fd. if fd \<ge> 0 then if fd \<ge> 3 then Close (nat fd) rest else open_console n rest else rest)"

definition sh_main :: "stream_in \<Rightarrow> prog" where
  "sh_main st = open_console 4 (main_loop st)"

end
