(* ===== verification/Xv6_ShSpec.thy ===== *)
theory Xv6_ShSpec
  imports Xv6_Sh
begin

text \<open>
  The shell does what a command means. A command is printed as a list of tokens, separated by any white space; reading the
  text gives the command back, with its words cut out of the buffer by \<open>nulterminate\<close>. A second part follows the file
  descriptors through the system calls of \<open>runcmd\<close>.
\<close>

section \<open>Commands and their text\<close>

text \<open>A command as its user sees it: words instead of pointers.\<close>

datatype scmd =
    Run "byte list list"
  | Redirect scmd "byte list" uint nat
  | Pipeline scmd scmd
  | Sequence scmd scmd
  | Background scmd

datatype tok = Word "byte list" | Sym byte | Append_to

definition word_ok :: "byte list \<Rightarrow> bool" where
  "word_ok w \<longleftrightarrow> w \<noteq> [] \<and> (\<forall>c \<in> set w. c \<noteq> 0 \<and> c \<notin> set whitespace \<and> c \<notin> set symbols)"

definition redir_ok :: "uint \<Rightarrow> nat \<Rightarrow> bool" where
  "redir_ok mode fd \<longleftrightarrow> (mode, fd) \<in> {(O_RDONLY, 0), (O_WRONLY OR O_CREATE OR O_TRUNC, 1), (O_WRONLY OR O_CREATE, 1)}"

fun scmd_ok :: "scmd \<Rightarrow> bool" where
  "scmd_ok (Run ws) \<longleftrightarrow> length ws < MAXARGS \<and> (\<forall>w \<in> set ws. word_ok w)"
| "scmd_ok (Redirect c p mode fd) \<longleftrightarrow> scmd_ok c \<and> word_ok p \<and> redir_ok mode fd"
| "scmd_ok (Pipeline a b) \<longleftrightarrow> scmd_ok a \<and> scmd_ok b"
| "scmd_ok (Sequence a b) \<longleftrightarrow> scmd_ok a \<and> scmd_ok b"
| "scmd_ok (Background a) \<longleftrightarrow> scmd_ok a"

definition redir_sym :: "uint \<Rightarrow> nat \<Rightarrow> tok" where
  "redir_sym mode fd = (if fd = 0 then Sym (of_char CHR ''<'') else if mode AND O_TRUNC \<noteq> 0 then Sym (of_char CHR ''>'') else Append_to)"

fun prec :: "scmd \<Rightarrow> nat" where
  "prec (Run _) = 0"
| "prec (Redirect _ _ _ _) = 0"
| "prec (Pipeline _ _) = 1"
| "prec (Background _) = 2"
| "prec (Sequence _ _) = 3"

definition paren :: "bool \<Rightarrow> tok list \<Rightarrow> tok list" where
  "paren p ts = (if p then Sym (of_char CHR ''('') # ts @ [Sym (of_char CHR '')'')] else ts)"

primrec show_cmd :: "scmd \<Rightarrow> tok list" where
  "show_cmd (Run ws) = map Word ws"
| "show_cmd (Redirect c p mode fd) = paren (prec c > 0) (show_cmd c) @ [redir_sym mode fd, Word p]"
| "show_cmd (Pipeline a b) = paren (prec a > 0) (show_cmd a) @ Sym (of_char CHR ''|'') # paren (prec b > 1) (show_cmd b)"
| "show_cmd (Background a) = paren (prec a > 2) (show_cmd a) @ [Sym (of_char CHR ''&'')]"
| "show_cmd (Sequence a b) = paren (prec a > 2) (show_cmd a) @ Sym (of_char CHR '';'') # show_cmd b"

abbreviation show_at :: "nat \<Rightarrow> scmd \<Rightarrow> tok list" where
  "show_at k c \<equiv> paren (prec c > k) (show_cmd c)"

fun tok_bytes :: "tok \<Rightarrow> byte list" where
  "tok_bytes (Word w) = w"
| "tok_bytes (Sym c) = [c]"
| "tok_bytes Append_to = ascii ''>>''"

text \<open>The tokens with a gap of white space before each of them.\<close>

fun weave :: "byte list list \<Rightarrow> tok list \<Rightarrow> byte list" where
  "weave (g # gs) (t # ts) = g @ tok_bytes t @ weave gs ts"
| "weave gs ts = concat gs"

text \<open>Two tokens that would be read as one without a gap.\<close>

definition needs_gap :: "tok \<Rightarrow> tok \<Rightarrow> bool" where
  "needs_gap t u \<longleftrightarrow> (\<exists>v w. t = Word v \<and> u = Word w) \<or> t = Sym (of_char CHR ''>'') \<and> (u = Sym (of_char CHR ''>'') \<or> u = Append_to)"

fun spaced :: "byte list list \<Rightarrow> tok list \<Rightarrow> bool" where
  "spaced (g # gs) (t # ts) \<longleftrightarrow> set g \<subseteq> set whitespace \<and> spaced gs ts \<and> (ts \<noteq> [] \<longrightarrow> needs_gap t (hd ts) \<longrightarrow> hd gs \<noteq> [])"
| "spaced gs ts \<longleftrightarrow> ts = [] \<and> set (concat gs) \<subseteq> set whitespace"

text \<open>The command that a parsed command stands for, with its strings read from the buffer.\<close>

primrec abs_cmd :: "(nat \<Rightarrow> nat \<Rightarrow> byte list) \<Rightarrow> cmd \<Rightarrow> scmd" where
  "abs_cmd str (EXEC argv) = Run (map (\<lambda>(q, eq). str q eq) argv)"
| "abs_cmd str (REDIR c q eq mode fd) = Redirect (abs_cmd str c) (str q eq) mode fd"
| "abs_cmd str (PIPE l r) = Pipeline (abs_cmd str l) (abs_cmd str r)"
| "abs_cmd str (LIST l r) = Sequence (abs_cmd str l) (abs_cmd str r)"
| "abs_cmd str (BACK c) = Background (abs_cmd str c)"

definition slice :: "byte list \<Rightarrow> nat \<Rightarrow> nat \<Rightarrow> byte list" where
  "slice b q eq = take (eq - q) (drop q b)"

section \<open>The lexer\<close>

fun tok_code :: "tok \<Rightarrow> byte" where
  "tok_code (Word _) = of_char CHR ''a''"
| "tok_code (Sym c) = c"
| "tok_code Append_to = of_char CHR ''+''"

text \<open>The line has the tokens \<open>ts\<close> from \<open>s\<close> on.\<close>

definition tok_ok :: "tok \<Rightarrow> bool" where
  "tok_ok t = (case t of Word w \<Rightarrow> word_ok w | Sym c \<Rightarrow> c \<in> set symbols | Append_to \<Rightarrow> True)"

fun lexes :: "byte list \<Rightarrow> nat \<Rightarrow> tok list \<Rightarrow> bool" where
  "lexes b s [] \<longleftrightarrow> skip_ws b s = length b"
| "lexes b s (t # ts) \<longleftrightarrow> tok_ok t \<and> token b s = tok_code t \<and> slice b (tok_q b s) (tok_eq b s) = tok_bytes t \<and> lexes b (after b s) ts"

lemma gettoken_skip_ws [simp]: "gettoken b (skip_ws b s) = gettoken b s"
  by (simp add: gettoken_def)

lemma after_eq: "after b s = skip_ws b (tok_eq b s)"
  by (simp add: gettoken_def Let_def)

lemma lexes_skip_ws [simp]: "lexes b (skip_ws b s) ts = lexes b s ts"
  by (cases ts) simp_all

lemma token_char:
  "char_at b (skip_ws b s) = (if token b s = of_char CHR ''+'' then of_char CHR ''>'' else token b s) \<and> char_at b (skip_ws b s) \<in> insert 0 (set symbols)
   \<or> token b s = of_char CHR ''a'' \<and> char_at b (skip_ws b s) \<notin> insert 0 (set symbols)"
  unfolding gettoken_def Let_def symbols_cases by (auto simp: ascii_def symbols_def)

definition starts_with :: "tok list \<Rightarrow> byte list \<Rightarrow> bool" where
  "starts_with ts toks = (case ts of Sym c # _ \<Rightarrow> c \<in> set toks | Append_to # _ \<Rightarrow> of_char CHR ''>'' \<in> set toks | _ \<Rightarrow> False)"

lemma peek_lexes:
  assumes "lexes b s ts" "set toks \<subseteq> set symbols"
  shows "peek b s toks \<longleftrightarrow> starts_with ts toks"
proof (cases ts)
  case Nil
  then show ?thesis using assms by (simp add: peek_def char_at_def starts_with_def)
next
  case (Cons t ts')
  show ?thesis using assms token_char [of b s] Cons
    by (cases t) (auto simp: peek_def starts_with_def tok_ok_def symbols_def ascii_def)
qed

lemma skip_ws_prefix:
  assumes "set g \<subseteq> set whitespace" "r = [] \<or> hd r \<notin> set whitespace"
  shows "skip_ws (pre @ g @ r) (length pre) = length pre + length g"
  using assms
proof (induction g arbitrary: pre)
  case Nil
  then show ?case by (subst skip_ws.simps) (auto simp: char_at_def nth_append hd_conv_nth)
next
  case (Cons x g)
  have "skip_ws (pre @ (x # g) @ r) (length pre) = skip_ws ((pre @ [x]) @ g @ r) (length (pre @ [x]))"
    using Cons.prems by (subst skip_ws.simps) (simp add: char_at_def)
  then show ?case using Cons.IH [of "pre @ [x]"] Cons.prems by simp
qed

lemma skip_word_prefix:
  assumes "\<forall>c \<in> set w. c \<notin> set whitespace \<and> c \<notin> set symbols" "r = [] \<or> hd r \<in> set whitespace \<or> hd r \<in> set symbols"
  shows "skip_word (pre @ w @ r) (length pre) = length pre + length w"
  using assms
proof (induction w arbitrary: pre)
  case Nil
  then show ?case by (subst skip_word.simps) (auto simp: char_at_def nth_append hd_conv_nth)
next
  case (Cons x w)
  have "skip_word (pre @ (x # w) @ r) (length pre) = skip_word ((pre @ [x]) @ w @ r) (length (pre @ [x]))"
    using Cons.prems by (subst skip_word.simps) (simp add: char_at_def)
  then show ?case using Cons.IH [of "pre @ [x]"] Cons.prems by simp
qed

lemma gettoken_text:
  fixes pre g r :: "byte list"
  assumes t: "tok_ok t" and g: "set g \<subseteq> set whitespace"
    and w: "\<And>v. t = Word v \<Longrightarrow> r = [] \<or> hd r \<in> set whitespace \<or> hd r \<in> set symbols"
    and a: "t = Sym (of_char CHR ''>'') \<Longrightarrow> r = [] \<or> hd r \<noteq> of_char CHR ''>''"
  defines "b \<equiv> pre @ g @ tok_bytes t @ r"
  shows "token b (length pre) = tok_code t" "tok_q b (length pre) = length pre + length g"
    "tok_eq b (length pre) = length pre + length g + length (tok_bytes t)"
proof -
  let ?q = "length pre + length g"
  have ne: "tok_bytes t \<noteq> []" using t by (auto simp: tok_ok_def word_ok_def ascii_def split: tok.splits)
  have h: "hd (tok_bytes t) \<notin> set whitespace" "hd (tok_bytes t) \<noteq> 0"
    using t by (auto simp: tok_ok_def word_ok_def ascii_def symbols_def whitespace_def split: tok.splits)
  have q: "skip_ws b (length pre) = ?q" unfolding b_def using g h(1) ne by (intro skip_ws_prefix) (auto simp: hd_append)
  have c: "char_at b ?q = hd (tok_bytes t)" using ne by (simp add: b_def char_at_def nth_append hd_conv_nth)
  have d: "char_at b (Suc ?q) = hd (r @ [0])" if "length (tok_bytes t) = 1"
    using that by (auto simp: b_def char_at_def nth_append hd_conv_nth)
  have "token b (length pre) = tok_code t \<and> tok_eq b (length pre) = ?q + length (tok_bytes t)"
  proof (cases t)
    case (Word v)
    have v: "\<forall>c \<in> set v. c \<notin> set whitespace \<and> c \<notin> set symbols" using t Word by (simp add: tok_ok_def word_ok_def)
    have "skip_word b ?q = ?q + length v"
      using skip_word_prefix [OF v w [OF Word], of "pre @ g"] Word by (simp add: b_def)
    moreover have "hd v \<notin> set symbols" using v ne Word by simp
    ultimately show ?thesis using q c h Word by (simp add: gettoken_def symbols_cases Let_def)
  next
    case (Sym x)
    then show ?thesis using q c h t d a by (cases r) (auto simp: gettoken_def tok_ok_def symbols_cases Let_def)
  next
    case Append_to
    have "char_at b (Suc ?q) = of_char CHR ''>''" using Append_to by (simp add: b_def char_at_def nth_append ascii_def)
    then show ?thesis using q c h Append_to by (simp add: gettoken_def ascii_def Let_def)
  qed
  then show "token b (length pre) = tok_code t" "tok_q b (length pre) = ?q" "tok_eq b (length pre) = ?q + length (tok_bytes t)"
    using q by (simp_all add: gettoken_def Let_def)
qed

lemma weave_hd:
  assumes "spaced gs ts" "\<forall>t \<in> set ts. tok_ok t"
  shows "weave gs ts = [] \<or> hd (weave gs ts) \<in> set whitespace \<or> ts \<noteq> [] \<and> hd gs = [] \<and> hd (weave gs ts) = hd (tok_bytes (hd ts))"
proof (cases ts)
  case Nil
  have "weave gs [] = concat gs" "set (concat gs) \<subseteq> set whitespace" using assms(1) Nil by (cases gs; simp)+
  then have "weave gs [] \<noteq> [] \<longrightarrow> hd (weave gs []) \<in> set whitespace" using hd_in_set [of "concat gs"] by (metis subsetD)
  then show ?thesis unfolding Nil by blast
next
  case (Cons t us)
  then obtain g hs where gs: "gs = g # hs" using assms(1) by (cases gs) auto
  have "tok_bytes t \<noteq> []" using assms(2) Cons by (auto simp: tok_ok_def word_ok_def ascii_def split: tok.splits)
  then show ?thesis using assms(1) Cons gs by (cases g) auto
qed

lemma lexes_weave:
  assumes "spaced gs ts" "\<forall>t \<in> set ts. tok_ok t"
  shows "lexes (pre @ weave gs ts) (length pre) ts"
  using assms
proof (induction ts arbitrary: gs pre)
  case Nil
  then show ?case using skip_ws_prefix [of "concat gs" "[]" pre] by (cases gs) auto
next
  case (Cons t ts)
  then obtain g hs where gs: "gs = g # hs" by (cases gs) auto
  let ?r = "weave hs ts" and ?b = "pre @ weave gs (t # ts)"
  have b: "?b = pre @ g @ tok_bytes t @ ?r" by (simp add: gs)
  have sp: "spaced hs ts" "set g \<subseteq> set whitespace" "ts \<noteq> [] \<Longrightarrow> needs_gap t (hd ts) \<Longrightarrow> hd hs \<noteq> []"
    and ok: "tok_ok t" "\<forall>t \<in> set ts. tok_ok t" using Cons.prems by (auto simp: gs)
  note h = weave_hd [OF sp(1) ok(2)]
  have hok: "tok_ok (hd ts)" if "ts \<noteq> []" using ok(2) that by simp
  have w: "?r = [] \<or> hd ?r \<in> set whitespace \<or> hd ?r \<in> set symbols" if "t = Word v" for v
    using h sp(3) hok that by (cases "hd ts") (auto simp: needs_gap_def tok_ok_def symbols_def ascii_def)
  have a: "?r = [] \<or> hd ?r \<noteq> of_char CHR ''>''" if "t = Sym (of_char CHR ''>'')"
  proof (rule ccontr)
    assume "\<not> ?thesis"
    then have r: "?r \<noteq> []" "hd ?r = of_char CHR ''>''" by auto
    have "of_char CHR ''>'' \<notin> set whitespace" by (simp add: whitespace_def)
    then have n: "ts \<noteq> []" "hd hs = []" "hd (tok_bytes (hd ts)) = of_char CHR ''>''" using h r by auto
    then have ng: "\<not> needs_gap t (hd ts)" using sp(3) by blast
    show False
    proof (cases "hd ts")
      case (Word v)
      then have "of_char CHR ''>'' \<in> set v" using hok n by (auto simp: tok_ok_def word_ok_def dest: hd_in_set)
      then show False using hok n(1) Word by (auto simp: tok_ok_def word_ok_def symbols_cases)
    next
      case (Sym c)
      then show False using n ng that by (simp add: needs_gap_def)
    qed (use ng that in \<open>simp add: needs_gap_def\<close>)
  qed
  note g = gettoken_text [OF ok(1) sp(2) w a, where pre = pre, folded b]
  have "after ?b (length pre) = skip_ws ?b (length (pre @ g @ tok_bytes t))" by (simp add: after_eq g(3) add.assoc del: weave.simps)
  moreover have "lexes ?b (length (pre @ g @ tok_bytes t)) ts" using Cons.IH [OF sp(1) ok(2), of "pre @ g @ tok_bytes t"] by (simp add: b)
  moreover have "slice ?b (tok_q ?b (length pre)) (tok_eq ?b (length pre)) = tok_bytes t"
    by (simp only: g(2,3)) (simp add: slice_def b del: weave.simps)
  ultimately show ?case using g(1) ok(1) by simp
qed

section \<open>The parser\<close>

definition abs_redir :: "byte list \<Rightarrow> redir \<Rightarrow> byte list \<times> uint \<times> nat" where
  "abs_redir b r = (case r of (q, eq, mode, fd) \<Rightarrow> (slice b q eq, mode, fd))"

definition redirect :: "scmd \<Rightarrow> byte list \<times> uint \<times> nat \<Rightarrow> scmd" where
  "redirect c r = (case r of (p, mode, fd) \<Rightarrow> Redirect c p mode fd)"

fun redir_toks :: "(byte list \<times> uint \<times> nat) list \<Rightarrow> tok list" where
  "redir_toks [] = []"
| "redir_toks ((p, mode, fd) # rs) = redir_sym mode fd # Word p # redir_toks rs"

lemma abs_redircmds: "abs_cmd (slice b) (foldl redircmd c rs) = foldl redirect (abs_cmd (slice b) c) (map (abs_redir b) rs)"
  by (induction rs arbitrary: c) (auto simp: redircmd_def redirect_def abs_redir_def)

lemma redir_sym_of:
  assumes "redir_ok mode fd"
  shows "redir_of (tok_code (redir_sym mode fd)) q eq = (q, eq, mode, fd)" "tok_ok (redir_sym mode fd)"
    "starts_with (redir_sym mode fd # ts) (ascii ''<>'')"
  using assms by (auto simp: redir_ok_def redir_sym_def redir_of_def tok_ok_def symbols_def ascii_def starts_with_def layout_defs)

lemma redirs_subset: "set (ascii ''<>'') \<subseteq> set symbols"
  by (auto simp: ascii_def symbols_def)

lemma parseredirs_lexes:
  assumes "\<forall>(p, mode, fd) \<in> set rs. word_ok p \<and> redir_ok mode fd" "lexes b s (redir_toks rs @ ts)" "\<not> starts_with ts (ascii ''<>'')"
  shows "\<exists>rs' s'. parseredirs b s = Parsed rs' s' \<and> map (abs_redir b) rs' = rs \<and> lexes b s' ts"
  using assms
proof (induction rs arbitrary: s)
  case Nil
  then show ?case using peek_lexes [OF Nil.prems(2) redirs_subset] by (subst parseredirs.simps) simp
next
  case (Cons r rs)
  obtain p mode fd where r: "r = (p, mode, fd)" by (cases r)
  let ?s2 = "after b s"
  have k: "redir_ok mode fd" "word_ok p" using Cons.prems(1) r by auto
  note l = Cons.prems(2) [unfolded r, simplified]
  have pk: "peek b s (ascii ''<>'')" using peek_lexes [OF Cons.prems(2) redirs_subset] redir_sym_of(3) [OF k(1)] by (simp add: r)
  have "lexes b (after b ?s2) (redir_toks rs @ ts)" using l by simp
  from Cons.IH [OF _ this Cons.prems(3)] Cons.prems(1)
  obtain rs' s' where ih: "parseredirs b (after b ?s2) = Parsed rs' s'" "map (abs_redir b) rs' = rs" "lexes b s' ts" by auto
  have "parseredirs b s = Parsed (redir_of (token b s) (tok_q b ?s2) (tok_eq b ?s2) # rs') s'"
    using pk l ih(1) by (subst parseredirs.simps) (simp add: Let_def)
  then show ?case using ih(2,3) l redir_sym_of(1) [OF k(1)] by (auto simp: abs_redir_def r)
qed

text \<open>The tokens end, or go on with one of the symbols in \<open>fol\<close>.\<close>

definition ends :: "tok list \<Rightarrow> byte list \<Rightarrow> bool" where
  "ends ts fol \<longleftrightarrow> ts = [] \<or> (\<exists>c us. ts = Sym c # us \<and> c \<in> set fol)"

lemma skip_ws_end [simp]: "skip_ws b (length b) = length b"
  by (subst skip_ws.simps) simp

lemma gettoken_end [simp]: "gettoken b (length b) = (0, length b, length b, length b)"
  by (simp add: gettoken_def char_at_def Let_def)

lemma parseexec_loop_lexes:
  assumes "\<forall>w \<in> set ws. word_ok w" "length argv + length ws < MAXARGS" "\<forall>(p, mode, fd) \<in> set rs. word_ok p \<and> redir_ok mode fd"
    and "lexes b s (map Word ws @ redir_toks rs @ ts)" "ends ts (ascii ''|)&;'')" "ws = [] \<Longrightarrow> rs = []"
  shows "\<exists>argv' rs' s'. parseexec_loop b s argv rs0 = Parsed (argv @ argv', rs0 @ rs') s'
    \<and> map (\<lambda>(q, eq). slice b q eq) argv' = ws \<and> map (abs_redir b) rs' = rs \<and> lexes b s' ts"
  using assms
proof (induction ws arbitrary: s argv rs rs0)
  case Nil
  have rs: "rs = []" using Nil.prems(6) by simp
  note l = Nil.prems(4) [unfolded rs, simplified]
  have pk: "peek b s (ascii ''|)&;'') \<longleftrightarrow> ts \<noteq> []"
    using peek_lexes [OF l, of "ascii ''|)&;''"] Nil.prems(5) by (auto simp: ends_def starts_with_def ascii_def symbols_def)
  show ?case
  proof (cases "ts = []")
    case True
    then show ?thesis using l pk by (subst parseexec_loop.simps) (simp add: rs Let_def)
  next
    case False
    then show ?thesis using l pk by (subst parseexec_loop.simps) (simp add: rs)
  qed
next
  case (Cons w ws)
  note l = Cons.prems(4) [simplified]
  have pk: "\<not> peek b s (ascii ''|)&;'')"
    using peek_lexes [OF Cons.prems(4), of "ascii ''|)&;''"] by (simp add: starts_with_def ascii_def symbols_def)
  define us where "us = (if ws = [] then rs else [])"
  define vs where "vs = (if ws = [] then [] else rs)"
  have ns: "\<not> starts_with (map Word ws @ redir_toks vs @ ts) (ascii ''<>'')"
    using Cons.prems(5) by (cases ws) (auto simp: vs_def starts_with_def ends_def ascii_def)
  have "lexes b (after b s) (redir_toks us @ map Word ws @ redir_toks vs @ ts)" using l by (auto simp: us_def vs_def)
  moreover have "\<forall>(p, mode, fd) \<in> set us. word_ok p \<and> redir_ok mode fd" using Cons.prems(3) by (auto simp: us_def)
  ultimately obtain rs' s' where r: "parseredirs b (after b s) = Parsed rs' s'"
    "map (abs_redir b) rs' = us" "lexes b s' (map Word ws @ redir_toks vs @ ts)" using parseredirs_lexes [OF _ _ ns] by blast
  have "\<exists>argv' rs'' s''. parseexec_loop b s' (argv @ [(tok_q b s, tok_eq b s)]) (rs0 @ rs')
      = Parsed ((argv @ [(tok_q b s, tok_eq b s)]) @ argv', (rs0 @ rs') @ rs'') s''
    \<and> map (\<lambda>(q, eq). slice b q eq) argv' = ws \<and> map (abs_redir b) rs'' = vs \<and> lexes b s'' ts"
    by (rule Cons.IH) (use Cons.prems r(3) in \<open>auto simp: vs_def\<close>)
  then obtain argv' rs'' s'' where e: "parseexec_loop b s' (argv @ [(tok_q b s, tok_eq b s)]) (rs0 @ rs')
      = Parsed (argv @ (tok_q b s, tok_eq b s) # argv', rs0 @ rs' @ rs'') s''"
    "map (\<lambda>(q, eq). slice b q eq) argv' = ws" "map (abs_redir b) rs'' = vs" "lexes b s'' ts" by auto
  have "parseexec_loop b s argv rs0 = Parsed (argv @ (tok_q b s, tok_eq b s) # argv', rs0 @ rs' @ rs'') s''"
    using pk l r(1) e(1) Cons.prems(2) by (subst parseexec_loop.simps) (simp add: Let_def)
  moreover have "map (abs_redir b) (rs' @ rs'') = rs" using r(2) e(3) by (simp add: us_def vs_def)
  ultimately show ?case using e(2,4) l by (intro exI [of _ "(tok_q b s, tok_eq b s) # argv'"] exI [of _ "rs' @ rs''"]) auto
qed

text \<open>A part of the parser reads the tokens \<open>us\<close> as the command \<open>c\<close>, when they are followed by the end or a symbol in \<open>fol\<close>.\<close>

definition parses :: "(byte list \<Rightarrow> nat \<Rightarrow> cmd presult) \<Rightarrow> string \<Rightarrow> byte list \<Rightarrow> tok list \<Rightarrow> scmd \<Rightarrow> bool" where
  "parses f fol b us c \<longleftrightarrow> (\<forall>s ts. lexes b s (us @ ts) \<longrightarrow> ends ts (ascii fol) \<longrightarrow>
     (\<exists>d s'. f b s = Parsed d s' \<and> abs_cmd (slice b) d = c \<and> lexes b s' ts))"

definition parses_exec :: "byte list \<Rightarrow> tok list \<Rightarrow> scmd \<Rightarrow> bool" where
  "parses_exec b us c \<longleftrightarrow> (\<forall>rs. (\<forall>(p, mode, fd) \<in> set rs. word_ok p \<and> redir_ok mode fd) \<longrightarrow>
     parses parseexec ''|)&;'' b (us @ redir_toks rs) (foldl redirect c rs))"

lemma parsesI:
  assumes "\<And>s ts. lexes b s (us @ ts) \<Longrightarrow> ends ts (ascii fol) \<Longrightarrow> \<exists>d s'. f b s = Parsed d s' \<and> abs_cmd (slice b) d = c \<and> lexes b s' ts"
  shows "parses f fol b us c"
  using assms by (simp add: parses_def)

lemma parsesE:
  assumes "parses f fol b us c" "lexes b s (us @ ts)" "ends ts (ascii fol)"
  obtains d s' where "f b s = Parsed d s'" "abs_cmd (slice b) d = c" "lexes b s' ts"
  using assms unfolding parses_def by blast

lemma peek_sym:
  assumes "lexes b s ts" "c \<in> set symbols"
  shows "peek b s [c] \<longleftrightarrow> (\<exists>us. ts = Sym c # us) \<or> c = of_char CHR ''>'' \<and> (\<exists>us. ts = Append_to # us)"
  using peek_lexes [OF assms(1), of "[c]"] assms(2) by (auto simp: starts_with_def split: list.splits tok.splits)

lemma exec_run:
  assumes "scmd_ok (Run ws)"
  shows "parses_exec b (map Word ws) (Run ws)"
  unfolding parses_exec_def
proof (intro allI impI parsesI)
  fix rs s ts
  assume rs: "\<forall>(p, mode, fd) \<in> set rs. word_ok p \<and> redir_ok mode fd" and l: "lexes b s ((map Word ws @ redir_toks rs) @ ts)"
    and e: "ends ts (ascii ''|)&;'')"
  define us where "us = (if ws = [] then rs else [])"
  define vs where "vs = (if ws = [] then [] else rs)"
  have rs_eq: "us @ vs = rs" by (simp add: us_def vs_def)
  have oks: "\<forall>(p, mode, fd) \<in> set us. word_ok p \<and> redir_ok mode fd" "\<forall>(p, mode, fd) \<in> set vs. word_ok p \<and> redir_ok mode fd"
    using rs by (auto simp: us_def vs_def)
  have ns: "\<not> starts_with (map Word ws @ redir_toks vs @ ts) (ascii ''<>'')"
    using e by (cases ws) (auto simp: vs_def starts_with_def ends_def ascii_def)
  have np: "\<not> peek b s (ascii ''('')"
  proof -
    have "\<not> starts_with ((map Word ws @ redir_toks rs) @ ts) (ascii ''('')"
    proof (cases rs)
      case (Cons r rs')
      then show ?thesis by (cases ws; cases r) (auto simp: starts_with_def redir_sym_def ascii_def)
    qed (use e in \<open>cases ws; auto simp: starts_with_def ends_def ascii_def\<close>)
    then show ?thesis using peek_lexes [OF l, of "ascii ''(''"] by (simp add: ascii_def symbols_def)
  qed
  have "lexes b (skip_ws b s) (redir_toks us @ map Word ws @ redir_toks vs @ ts)" using l by (auto simp: us_def vs_def)
  from parseredirs_lexes [OF oks(1) this ns] obtain rs1 s1 where 1: "parseredirs b (skip_ws b s) = Parsed rs1 s1"
    "map (abs_redir b) rs1 = us" "lexes b s1 (map Word ws @ redir_toks vs @ ts)" by blast
  have w: "\<forall>w \<in> set ws. word_ok w" "length [] + length ws < MAXARGS" "ws = [] \<Longrightarrow> vs = []"
    using assms by (auto simp: vs_def)
  from parseexec_loop_lexes [OF w(1,2) oks(2) 1(3) e w(3), of rs1] obtain argv rs2 s2
    where 2: "parseexec_loop b s1 [] rs1 = Parsed (argv, rs1 @ rs2) s2" "map (\<lambda>(q, eq). slice b q eq) argv = ws"
      "map (abs_redir b) rs2 = vs" "lexes b s2 ts" by auto
  have "parseexec b s = Parsed (foldl redircmd (EXEC argv) (rs1 @ rs2)) s2"
    using np 1(1) 2(1) by (subst parseexec.simps) simp
  then show "\<exists>d s'. parseexec b s = Parsed d s' \<and> abs_cmd (slice b) d = foldl redirect (Run ws) rs \<and> lexes b s' ts"
    using 1(2) 2 rs_eq by (intro exI [of _ "foldl redircmd (EXEC argv) (rs1 @ rs2)"] exI [of _ s2])
      (simp only: abs_redircmds map_append, simp)
qed

lemma exec_redirect:
  assumes "parses_exec b us c" "word_ok p" "redir_ok mode fd"
  shows "parses_exec b (us @ [redir_sym mode fd, Word p]) (Redirect c p mode fd)"
  unfolding parses_exec_def
proof (intro allI impI)
  fix rs
  assume "\<forall>(p, mode, fd) \<in> set rs. word_ok p \<and> redir_ok mode fd"
  then have "parses parseexec ''|)&;'' b (us @ redir_toks ((p, mode, fd) # rs)) (foldl redirect c ((p, mode, fd) # rs))"
    using assms unfolding parses_exec_def by (metis (no_types, lifting) case_prod_conv set_ConsD)
  then show "parses parseexec ''|)&;'' b ((us @ [redir_sym mode fd, Word p]) @ redir_toks rs) (foldl redirect (Redirect c p mode fd) rs)"
    by (simp add: redirect_def)
qed

lemma exec_paren:
  assumes "parses parseline '')'' b us c"
  shows "parses_exec b (paren True us) c"
  unfolding parses_exec_def
proof (intro allI impI parsesI)
  fix rs s ts
  assume rs: "\<forall>(p, mode, fd) \<in> set rs. word_ok p \<and> redir_ok mode fd" and l: "lexes b s ((paren True us @ redir_toks rs) @ ts)"
    and e: "ends ts (ascii ''|)&;'')"
  have l1: "lexes b s (Sym (of_char CHR ''('') # us @ Sym (of_char CHR '')'') # redir_toks rs @ ts)" using l by (simp add: paren_def)
  have p: "peek b s (ascii ''('')" using peek_lexes [OF l1, of "ascii ''(''"] by (simp add: starts_with_def ascii_def symbols_def)
  then have p': "peek b (skip_ws b s) (ascii ''('')" by (simp add: peek_def)
  have "lexes b (after b s) (us @ Sym (of_char CHR '')'') # redir_toks rs @ ts)" using l1 by simp
  then obtain d s1 where 1: "parseline b (after b s) = Parsed d s1" "abs_cmd (slice b) d = c"
    "lexes b s1 (Sym (of_char CHR '')'') # redir_toks rs @ ts)"
    by (rule parsesE [OF assms]) (auto simp: ends_def ascii_def)
  have q: "peek b s1 (ascii '')'')" using peek_lexes [OF 1(3), of "ascii '')''"] by (simp add: starts_with_def ascii_def symbols_def)
  have "lexes b (after b s1) (redir_toks rs @ ts)" "\<not> starts_with ts (ascii ''<>'')"
    using 1(3) e by (auto simp: ends_def starts_with_def ascii_def)
  from parseredirs_lexes [OF rs this] obtain rs' s' where 2: "parseredirs b (after b s1) = Parsed rs' s'"
    "map (abs_redir b) rs' = rs" "lexes b s' ts" by blast
  have "parseexec b s = Parsed (foldl redircmd d rs') s'"
    using p p' q 1(1) 2(1) by (subst parseexec.simps, subst parseblock.simps) simp
  then show "\<exists>d s'. parseexec b s = Parsed d s' \<and> abs_cmd (slice b) d = foldl redirect c rs \<and> lexes b s' ts"
    using 1(2) 2(2,3) by (simp add: abs_redircmds)
qed

lemma pipe_exec:
  assumes "parses_exec b us c"
  shows "parses parsepipe '')&;'' b us c"
proof (rule parsesI)
  fix s ts
  assume l: "lexes b s (us @ ts)" and e: "ends ts (ascii '')&;'')"
  have "parses parseexec ''|)&;'' b us c" using assms [unfolded parses_exec_def, rule_format, of "[]"] by simp
  from this l obtain d s1 where 1: "parseexec b s = Parsed d s1" "abs_cmd (slice b) d = c" "lexes b s1 ts"
    by (rule parsesE) (use e in \<open>auto simp: ends_def ascii_def\<close>)
  have "\<not> peek b s1 (ascii ''|'')"
    using peek_lexes [OF 1(3), of "ascii ''|''"] e by (auto simp: ends_def starts_with_def ascii_def symbols_def)
  with 1 show "\<exists>d s'. parsepipe b s = Parsed d s' \<and> abs_cmd (slice b) d = c \<and> lexes b s' ts" by (subst parsepipe.simps) simp
qed

lemma pipe_pipe:
  assumes "parses_exec b us c" "parses parsepipe '')&;'' b vs d"
  shows "parses parsepipe '')&;'' b (us @ Sym (of_char CHR ''|'') # vs) (Pipeline c d)"
proof (rule parsesI)
  fix s ts
  assume l: "lexes b s ((us @ Sym (of_char CHR ''|'') # vs) @ ts)" and e: "ends ts (ascii '')&;'')"
  have x: "parses parseexec ''|)&;'' b us c" using assms(1) [unfolded parses_exec_def, rule_format, of "[]"] by simp
  from l have "lexes b s (us @ Sym (of_char CHR ''|'') # vs @ ts)" by simp
  with x obtain f s1 where 1: "parseexec b s = Parsed f s1" "abs_cmd (slice b) f = c" "lexes b s1 (Sym (of_char CHR ''|'') # vs @ ts)"
    by (rule parsesE) (auto simp: ends_def ascii_def)
  have p: "peek b s1 (ascii ''|'')" using peek_lexes [OF 1(3), of "ascii ''|''"] by (simp add: starts_with_def ascii_def symbols_def)
  from 1(3) have "lexes b (after b s1) (vs @ ts)" by simp
  with assms(2) obtain g s2 where "parsepipe b (after b s1) = Parsed g s2" "abs_cmd (slice b) g = d" "lexes b s2 ts"
    using e by (rule parsesE)
  with 1 p show "\<exists>d' s'. parsepipe b s = Parsed d' s' \<and> abs_cmd (slice b) d' = Pipeline c d \<and> lexes b s' ts"
    by (subst parsepipe.simps) simp
qed

text \<open>The first half of \<open>parseline\<close>: a pipeline and its ampersands.\<close>

definition parse_bg :: "byte list \<Rightarrow> nat \<Rightarrow> cmd presult" where
  "parse_bg b s = (case parsepipe b s of Syntax e \<Rightarrow> Syntax e
     | Parsed c s1 \<Rightarrow> Parsed (fst (parse_backs b s1 c)) (snd (parse_backs b s1 c)))"

definition parses_bg :: "byte list \<Rightarrow> tok list \<Rightarrow> scmd \<Rightarrow> bool" where
  "parses_bg b us c \<longleftrightarrow> (\<forall>n. parses parse_bg '');'' b (us @ replicate n (Sym (of_char CHR ''&''))) ((Background ^^ n) c))"

lemma parse_backs_lexes:
  assumes "lexes b s (replicate n (Sym (of_char CHR ''&'')) @ ts)" "ends ts (ascii '');'')"
  shows "\<exists>s'. parse_backs b s c = ((BACK ^^ n) c, s') \<and> lexes b s' ts"
  using assms
proof (induction n arbitrary: s c)
  case 0
  then have "\<not> peek b s (ascii ''&'')"
    using peek_lexes [of b s ts "ascii ''&''"] by (auto simp: ends_def starts_with_def ascii_def symbols_def)
  with 0 show ?case by (subst parse_backs.simps) simp
next
  case (Suc n)
  have "peek b s (ascii ''&'')" using peek_lexes [OF Suc.prems(1), of "ascii ''&''"] by (simp add: starts_with_def ascii_def symbols_def)
  moreover obtain s' where "parse_backs b (after b s) (BACK c) = ((BACK ^^ n) (BACK c), s')" "lexes b s' ts"
    using Suc.IH [of "after b s" "BACK c"] Suc.prems by auto
  ultimately show ?case by (subst parse_backs.simps) (simp add: funpow_swap1)
qed

lemma abs_backs: "abs_cmd str ((BACK ^^ n) c) = (Background ^^ n) (abs_cmd str c)"
  by (induction n) simp_all

lemma bg_pipe:
  assumes "parses parsepipe '')&;'' b us c"
  shows "parses_bg b us c"
  unfolding parses_bg_def
proof (intro allI parsesI)
  fix n s ts
  let ?r = "replicate n (Sym (of_char CHR ''&''))"
  assume l: "lexes b s ((us @ ?r) @ ts)" and e: "ends ts (ascii '');'')"
  have "ends (?r @ ts) (ascii '')&;'')" using e by (cases n) (auto simp: ends_def ascii_def)
  with assms l obtain d s1 where 1: "parsepipe b s = Parsed d s1" "abs_cmd (slice b) d = c" "lexes b s1 (?r @ ts)"
    by (auto elim: parsesE)
  obtain s' where "parse_backs b s1 d = ((BACK ^^ n) d, s')" "lexes b s' ts" using parse_backs_lexes [OF 1(3) e] by blast
  with 1 show "\<exists>d s'. parse_bg b s = Parsed d s' \<and> abs_cmd (slice b) d = (Background ^^ n) c \<and> lexes b s' ts"
    by (simp add: parse_bg_def abs_backs)
qed

lemma bg_bg:
  assumes "parses_bg b us c"
  shows "parses_bg b (us @ [Sym (of_char CHR ''&'')]) (Background c)"
  unfolding parses_bg_def
proof
  fix n
  show "parses parse_bg '');'' b ((us @ [Sym (of_char CHR ''&'')]) @ replicate n (Sym (of_char CHR ''&''))) ((Background ^^ n) (Background c))"
    using assms [unfolded parses_bg_def, rule_format, of "Suc n"] by (simp add: funpow_swap1)
qed

lemma line_bg:
  assumes "parses_bg b us c"
  shows "parses parseline '')'' b us c"
proof (rule parsesI)
  fix s ts
  assume l: "lexes b s (us @ ts)" and e: "ends ts (ascii '')'')"
  have "parses parse_bg '');'' b us c" using assms [unfolded parses_bg_def, rule_format, of 0] by simp
  from this l obtain d s1 where 1: "parse_bg b s = Parsed d s1" "abs_cmd (slice b) d = c" "lexes b s1 ts"
    by (rule parsesE) (use e in \<open>auto simp: ends_def ascii_def\<close>)
  have "\<not> peek b s1 (ascii '';'')"
    using peek_lexes [OF 1(3), of "ascii '';''"] e by (auto simp: ends_def starts_with_def ascii_def symbols_def)
  with 1 show "\<exists>d s'. parseline b s = Parsed d s' \<and> abs_cmd (slice b) d = c \<and> lexes b s' ts"
    by (subst parseline.simps) (auto simp: parse_bg_def Let_def split: presult.splits)
qed

lemma line_seq:
  assumes "parses_bg b us c" "parses parseline '')'' b vs d"
  shows "parses parseline '')'' b (us @ Sym (of_char CHR '';'') # vs) (Sequence c d)"
proof (rule parsesI)
  fix s ts
  assume l: "lexes b s ((us @ Sym (of_char CHR '';'') # vs) @ ts)" and e: "ends ts (ascii '')'')"
  have x: "parses parse_bg '');'' b us c" using assms(1) [unfolded parses_bg_def, rule_format, of 0] by simp
  from l have "lexes b s (us @ Sym (of_char CHR '';'') # vs @ ts)" by simp
  with x obtain f s1 where 1: "parse_bg b s = Parsed f s1" "abs_cmd (slice b) f = c" "lexes b s1 (Sym (of_char CHR '';'') # vs @ ts)"
    by (rule parsesE) (auto simp: ends_def ascii_def)
  have p: "peek b s1 (ascii '';'')" using peek_lexes [OF 1(3), of "ascii '';''"] by (simp add: starts_with_def ascii_def symbols_def)
  from 1(3) have "lexes b (after b s1) (vs @ ts)" by simp
  with assms(2) obtain g s2 where "parseline b (after b s1) = Parsed g s2" "abs_cmd (slice b) g = d" "lexes b s2 ts"
    using e by (rule parsesE)
  with 1 p show "\<exists>d' s'. parseline b s = Parsed d' s' \<and> abs_cmd (slice b) d' = Sequence c d \<and> lexes b s' ts"
    by (subst parseline.simps) (auto simp: parse_bg_def Let_def split: presult.splits)
qed

lemma paren_False: "paren False ts = ts"
  by (simp add: paren_def)

lemma parses_show:
  assumes "scmd_ok c"
  shows "parses_exec b (show_at 0 c) c \<and> parses parsepipe '')&;'' b (show_at 1 c) c \<and> parses_bg b (show_at 2 c) c
    \<and> parses parseline '')'' b (show_cmd c) c"
  using assms
proof (induction c)
  case (Run ws)
  have "parses_exec b (map Word ws) (Run ws)" using Run by (rule exec_run)
  then show ?case using pipe_exec bg_pipe line_bg by (simp add: paren_def)
next
  case (Redirect c p mode fd)
  then have "parses_exec b (show_cmd (Redirect c p mode fd)) (Redirect c p mode fd)" by (simp add: exec_redirect)
  then show ?case using pipe_exec bg_pipe line_bg by (simp add: paren_def)
next
  case (Pipeline c d)
  then have "parses parsepipe '')&;'' b (show_cmd (Pipeline c d)) (Pipeline c d)"
    unfolding show_cmd.simps scmd_ok.simps by (intro pipe_pipe) auto
  note this bg_pipe [OF this]
  then show ?case using exec_paren [OF line_bg] line_bg by (simp add: paren_False del: show_cmd.simps)
next
  case (Sequence c d)
  then have "parses parseline '')'' b (show_cmd (Sequence c d)) (Sequence c d)"
    unfolding show_cmd.simps scmd_ok.simps by (intro line_seq) auto
  note this pipe_exec [OF exec_paren [OF this]]
  then show ?case using exec_paren bg_pipe by (simp add: paren_False del: show_cmd.simps)
next
  case (Background c)
  then have "parses_bg b (show_cmd (Background c)) (Background c)"
    unfolding show_cmd.simps scmd_ok.simps by (intro bg_bg) auto
  note this line_bg [OF this]
  then show ?case using exec_paren pipe_exec by (simp add: paren_False del: show_cmd.simps)
qed

section \<open>The strings\<close>

text \<open>A pair of pointers that \<open>gettoken\<close> sets for a word.\<close>

definition word_at :: "byte list \<Rightarrow> nat \<Rightarrow> nat \<Rightarrow> bool" where
  "word_at b q eq \<longleftrightarrow> q < eq \<and> eq \<le> length b \<and> word_ok (slice b q eq) \<and> (eq < length b \<longrightarrow> b ! eq \<in> set whitespace \<union> set symbols)"

fun cmd_ok :: "byte list \<Rightarrow> cmd \<Rightarrow> bool" where
  "cmd_ok b (EXEC argv) \<longleftrightarrow> length argv < MAXARGS \<and> (\<forall>a \<in> set argv. word_at b (fst a) (snd a))"
| "cmd_ok b (REDIR c q eq mode fd) \<longleftrightarrow> cmd_ok b c \<and> word_at b q eq \<and> redir_ok mode fd"
| "cmd_ok b (PIPE l r) \<longleftrightarrow> cmd_ok b l \<and> cmd_ok b r"
| "cmd_ok b (LIST l r) \<longleftrightarrow> cmd_ok b l \<and> cmd_ok b r"
| "cmd_ok b (BACK c) \<longleftrightarrow> cmd_ok b c"

lemma skip_word_le: "s \<le> length b \<Longrightarrow> skip_word b s \<le> length b"
proof (induction b s rule: skip_word.induct)
  case (1 b s)
  then show ?case by (subst skip_word.simps) auto
qed

lemma skip_word_stop:
  "skip_word b s < length b \<Longrightarrow> b ! skip_word b s \<in> set whitespace \<union> set symbols"
proof (induction b s rule: skip_word.induct)
  case (1 b s)
  then show ?case
    by (cases "s < length b \<and> char_at b s \<notin> set whitespace \<and> char_at b s \<notin> set symbols")
      (auto simp: skip_word.simps [of b s] char_at_def split: if_splits)
qed

lemma skip_word_word:
  "s \<le> k \<Longrightarrow> k < skip_word b s \<Longrightarrow> b ! k \<notin> set whitespace \<and> b ! k \<notin> set symbols"
proof (induction b s rule: skip_word.induct)
  case (1 b s)
  show ?case
  proof (cases "s < length b \<and> char_at b s \<notin> set whitespace \<and> char_at b s \<notin> set symbols")
    case True
    then show ?thesis using 1 by (cases "s = k") (auto simp: skip_word.simps [of b s] char_at_def)
  next
    case False
    then show ?thesis using 1(2,3) by (auto simp: skip_word.simps [of b s] split: if_splits)
  qed
qed

lemma in_slice: "x \<in> set (slice b q eq) \<Longrightarrow> \<exists>k. q \<le> k \<and> k < eq \<and> k < length b \<and> x = b ! k"
proof -
  assume "x \<in> set (slice b q eq)"
  then obtain i where "i < length (slice b q eq)" "x = slice b q eq ! i" by (auto simp: in_set_conv_nth)
  then show ?thesis by (intro exI [of _ "q + i"]) (auto simp: slice_def)
qed

lemma token_word_at:
  assumes "0 \<notin> set b" "token b s = of_char CHR ''a''"
  shows "word_at b (tok_q b s) (tok_eq b s)"
proof -
  let ?q = "skip_ws b s" and ?e = "skip_word b (skip_ws b s)"
  have c: "char_at b ?q \<notin> insert 0 (set symbols)" using assms(2) token_char [of b s] by (auto simp: symbols_def ascii_def)
  then have l: "?q < length b" using char_at_nonzero [of b ?q] by simp
  have eq: "tok_q b s = ?q" "tok_eq b s = ?e" using c by (auto simp: gettoken_def Let_def symbols_cases)
  have w: "char_at b ?q \<notin> set whitespace" using l by (rule skip_ws_stop)
  have lt: "?q < ?e" using c w l skip_word_ge [of "Suc ?q" b] by (subst skip_word.simps) simp
  have le: "?e \<le> length b" using l by (intro skip_word_le) simp
  have "word_ok (slice b ?q ?e)" unfolding word_ok_def
  proof (intro conjI ballI)
    show "slice b ?q ?e \<noteq> []" using lt le by (simp add: slice_def)
    fix x
    assume "x \<in> set (slice b ?q ?e)"
    then obtain k where "?q \<le> k" "k < ?e" "k < length b" "x = b ! k" using in_slice by blast
    then show "x \<noteq> 0" "x \<notin> set whitespace" "x \<notin> set symbols" using skip_word_word assms(1) nth_mem by metis+
  qed
  then show ?thesis unfolding eq word_at_def using lt le skip_word_stop by blast
qed

definition redirs_at :: "byte list \<Rightarrow> redir list \<Rightarrow> bool" where
  "redirs_at b rs \<longleftrightarrow> (\<forall>q eq mode fd. (q, eq, mode, fd) \<in> set rs \<longrightarrow> word_at b q eq \<and> redir_ok mode fd)"

lemma cmd_ok_redircmds: "cmd_ok b (foldl redircmd c rs) \<longleftrightarrow> cmd_ok b c \<and> redirs_at b rs"
  by (induction rs arbitrary: c) (auto simp: redirs_at_def redircmd_def split: prod.splits)

lemma redir_of_ok: "redir_of t q eq = (q', eq', mode, fd) \<Longrightarrow> q' = q \<and> eq' = eq \<and> redir_ok mode fd"
  by (auto simp: redir_of_def redir_ok_def split: if_splits)

lemma parseredirs_ok:
  assumes "0 \<notin> set b"
  shows "parseredirs b s = Parsed rs s' \<Longrightarrow> redirs_at b rs"
  using assms
proof (induction b s arbitrary: rs s' rule: parseredirs.induct)
  case (1 b s)
  let ?s1 = "skip_ws b s"
  let ?s2 = "after b ?s1"
  show ?case
  proof (cases "peek b s (ascii ''<>'')")
    case False
    with 1(2) show ?thesis by (auto simp: parseredirs.simps [of b s] redirs_at_def)
  next
    case True
    then have t: "\<not> token b ?s2 \<noteq> of_char CHR ''a''"
      using 1(2) by (auto simp: parseredirs.simps [of b s] shell_panic_def Let_def split: if_splits)
    then obtain rs1 where r: "parseredirs b (after b ?s2) = Parsed rs1 s'" "rs = redir_of (token b ?s1) (tok_q b ?s2) (tok_eq b ?s2) # rs1"
      using 1(2) True by (auto simp: parseredirs.simps [of b s] Let_def split: presult.splits)
    have "redirs_at b rs1" using 1(1) [OF True refl refl t r(1)] 1(3) by simp
    moreover have "word_at b (tok_q b ?s2) (tok_eq b ?s2)" using t 1(3) by (intro token_word_at) simp_all
    ultimately show ?thesis by (auto simp: r(2) redirs_at_def dest: sym [THEN redir_of_ok])
  qed
qed

lemma parseexec_loop_ok:
  assumes "0 \<notin> set b" "\<forall>a \<in> set argv. word_at b (fst a) (snd a)" "length argv < MAXARGS" "redirs_at b rs"
  shows "parseexec_loop b s argv rs = Parsed (argv', rs') s' \<Longrightarrow>
    length argv' < MAXARGS \<and> (\<forall>a \<in> set argv'. word_at b (fst a) (snd a)) \<and> redirs_at b rs'"
  using assms
proof (induction b s argv rs rule: parseexec_loop.induct)
  case (1 b s argv rs)
  let ?s1 = "skip_ws b s"
  show ?case
  proof (cases "peek b s (ascii ''|)&;'') \<or> token b ?s1 = 0")
    case True
    then show ?thesis using 1(2-) by (auto simp: parseexec_loop.simps [of b s] Let_def split: if_splits)
  next
    case False
    then obtain rs1 s2 where r: "parseredirs b (after b ?s1) = Parsed rs1 s2"
      and l: "parseexec_loop b s2 (argv @ [(tok_q b ?s1, tok_eq b ?s1)]) (rs @ rs1) = Parsed (argv', rs') s'"
      and c: "token b ?s1 = of_char CHR ''a''" "\<not> Suc (length argv) \<ge> MAXARGS"
      using 1(2) by (auto simp: parseexec_loop.simps [of b s] Let_def shell_panic_def split: if_splits presult.splits)
    have "redirs_at b (rs @ rs1)" using 1(6) parseredirs_ok [OF 1(3) r] by (auto simp: redirs_at_def)
    then show ?thesis using 1(1) [of ?s1] False r l c 1(3-) token_word_at [OF 1(3) c(1)] by auto
  qed
qed

lemma parse_backs_ok: "cmd_ok b (fst (parse_backs b s c)) = cmd_ok b c"
proof (induction b s c rule: parse_backs.induct)
  case (1 b s c)
  then show ?case by (subst parse_backs.simps) simp
qed

lemma parse_ok:
  assumes "0 \<notin> set b"
  shows "\<forall>c s'. parseline b s = Parsed c s' \<longrightarrow> cmd_ok b c"
    and "\<forall>c s'. parsepipe b s = Parsed c s' \<longrightarrow> cmd_ok b c"
    and "\<forall>c s'. parseexec b s = Parsed c s' \<longrightarrow> cmd_ok b c"
    and "\<forall>c s'. parseblock b s = Parsed c s' \<longrightarrow> cmd_ok b c"
  using assms
proof (induction b s and b s and b s and b s rule: parseline_parsepipe_parseexec_parseblock.induct)
  case (1 b s)
  show ?case
  proof (intro allI impI)
    fix c s'
    assume p: "parseline b s = Parsed c s'"
    then obtain d s1 where d: "parsepipe b s = Parsed d s1" by (auto simp: parseline.simps [of b s] split: presult.splits)
    then have ok: "cmd_ok b (fst (parse_backs b s1 d))" using 1(1,3) by (simp add: parse_backs_ok)
    show "cmd_ok b c"
    proof (cases "peek b (snd (parse_backs b s1 d)) (ascii '';'')")
      case True
      with 1(2) [OF d refl refl True] 1(3) p d ok show ?thesis by (auto simp: parseline.simps [of b s] Let_def split: presult.splits)
    next
      case False
      with p d ok show ?thesis by (auto simp: parseline.simps [of b s] Let_def)
    qed
  qed
next
  case (2 b s)
  show ?case
  proof (intro allI impI)
    fix c s'
    assume p: "parsepipe b s = Parsed c s'"
    then obtain d s1 where d: "parseexec b s = Parsed d s1" by (auto simp: parsepipe.simps [of b s] split: presult.splits)
    then show "cmd_ok b c" using 2 p by (cases "peek b s1 (ascii ''|'')") (auto simp: parsepipe.simps [of b s] split: presult.splits)
  qed
next
  case (3 b s)
  show ?case
  proof (intro allI impI)
    fix c s'
    assume p: "parseexec b s = Parsed c s'"
    show "cmd_ok b c"
    proof (cases "peek b s (ascii ''('')")
      case True
      then show ?thesis using 3 p by (auto simp: parseexec.simps [of b s])
    next
      case False
      then obtain rs s1 argv rs' where "parseredirs b (skip_ws b s) = Parsed rs s1" "parseexec_loop b s1 [] rs = Parsed (argv, rs') s'"
        "c = foldl redircmd (EXEC argv) rs'" using p by (auto simp: parseexec.simps [of b s] split: presult.splits)
      then show ?thesis using parseredirs_ok [OF 3(2)] parseexec_loop_ok [OF 3(2), of "[]" rs s1 argv rs' s']
        by (simp add: cmd_ok_redircmds MAXARGS_def)
    qed
  qed
next
  case (4 b s)
  show ?case
  proof (intro allI impI)
    fix c s'
    assume p: "parseblock b s = Parsed c s'"
    then have k: "\<not> \<not> peek b s (ascii ''('')" by (auto simp: parseblock.simps [of b s] shell_panic_def split: if_splits)
    then obtain d s1 where d: "parseline b (after b (skip_ws b s)) = Parsed d s1"
      using p by (auto simp: parseblock.simps [of b s] split: presult.splits)
    then obtain rs s2 where "parseredirs b (after b (skip_ws b s1)) = Parsed rs s2" "c = foldl redircmd d rs"
      using p k by (auto simp: parseblock.simps [of b s] shell_panic_def split: presult.splits if_splits)
    then show "cmd_ok b c" using 4(1) [OF k 4(2)] d parseredirs_ok [OF 4(2)] by (auto simp: cmd_ok_redircmds)
  qed
qed

text \<open>The positions \<open>nulterminate\<close> overwrites, and what it leaves.\<close>

primrec cmd_ends :: "cmd \<Rightarrow> nat set" where
  "cmd_ends (EXEC argv) = snd ` set argv"
| "cmd_ends (REDIR c q eq mode fd) = insert eq (cmd_ends c)"
| "cmd_ends (PIPE l r) = cmd_ends l \<union> cmd_ends r"
| "cmd_ends (LIST l r) = cmd_ends l \<union> cmd_ends r"
| "cmd_ends (BACK c) = cmd_ends c"

lemma fold_zero_at:
  "length (fold (\<lambda>a. zero_at (snd a)) argv m) = length m \<and>
   (\<forall>k < length m. fold (\<lambda>a. zero_at (snd a)) argv m ! k = (if k \<in> snd ` set argv then 0 else m ! k))"
  by (induction argv arbitrary: m) (auto simp: zero_at_def nth_list_update)

lemma nulterminate_nth:
  "length (nulterminate c m) = length m \<and> (\<forall>k < length m. nulterminate c m ! k = (if k \<in> cmd_ends c then 0 else m ! k))"
proof (induction c arbitrary: m)
  case (EXEC argv)
  then show ?case using fold_zero_at [of argv m] by (simp del: fold_simps)
next
  case (REDIR c q eq mode fd)
  then show ?case by (cases "eq < length m") (auto simp: zero_at_def nth_list_update)
qed auto

lemma cmd_ends_ok: "cmd_ok b c \<Longrightarrow> e \<in> cmd_ends c \<Longrightarrow> e \<le> length b \<and> (e < length b \<longrightarrow> b ! e \<in> set whitespace \<union> set symbols)"
  by (induction c) (auto simp: word_at_def)

lemma cstring_word:
  assumes "word_at b q eq" "length m = Suc (length b)" "m ! eq = 0" "\<And>k. q \<le> k \<Longrightarrow> k < eq \<Longrightarrow> m ! k = b ! k"
  shows "cstring m q = slice b q eq"
proof -
  have w: "q < eq" "eq \<le> length b" "word_ok (slice b q eq)" using assms(1) by (auto simp: word_at_def)
  have s: "slice b q eq = take (eq - q) (drop q m)"
    using w assms(2,4) by (intro nth_equalityI) (auto simp: slice_def)
  have d: "drop q m = slice b q eq @ 0 # drop (Suc eq) m"
    using w assms(2,3) id_take_nth_drop [of "eq - q" "drop q m"] by (simp add: s)
  have "\<forall>c \<in> set (slice b q eq). c \<noteq> 0" using w(3) by (simp add: word_ok_def)
  then show ?thesis by (simp add: cstring_def d takeWhile_append2)
qed

lemma nulterminate_word:
  assumes "cmd_ok b c" "word_at b q eq" "eq \<in> cmd_ends c"
  shows "cstring (nulterminate c (b @ [0])) q = slice b q eq"
proof (rule cstring_word [OF assms(2)])
  note n = nulterminate_nth [of c "b @ [0]"]
  show "length (nulterminate c (b @ [0])) = Suc (length b)" using n by simp
  show "nulterminate c (b @ [0]) ! eq = 0" using n assms by (auto simp: word_at_def)
  fix k
  assume k: "q \<le> k" "k < eq"
  then have l: "k < length b" and "b ! k \<in> set (slice b q eq)"
    using assms(2) by (auto simp: word_at_def slice_def in_set_conv_nth intro!: exI [of _ "k - q"])
  then have "b ! k \<notin> set whitespace \<union> set symbols" using assms(2) by (auto simp: word_at_def word_ok_def)
  then have "k \<notin> cmd_ends c" using cmd_ends_ok [OF assms(1)] l by blast
  then show "nulterminate c (b @ [0]) ! k = b ! k" using n l by (simp add: nth_append)
qed

lemma abs_cmd_cong:
  "cmd_ok b c \<Longrightarrow> (\<And>q eq. word_at b q eq \<Longrightarrow> eq \<in> cmd_ends c \<Longrightarrow> f q eq = g q eq) \<Longrightarrow> abs_cmd f c = abs_cmd g c"
proof (induction c)
  case (EXEC argv)
  have "f q eq = g q eq" if m: "(q, eq) \<in> set argv" for q eq
  proof (rule EXEC.prems(2))
    show "word_at b q eq" using EXEC.prems(1) m by fastforce
    show "eq \<in> cmd_ends (EXEC argv)" using m by (simp add: rev_image_eqI)
  qed
  then show ?case by auto
qed auto

abbreviation strings :: "byte list \<Rightarrow> cmd \<Rightarrow> scmd" where
  "strings m c \<equiv> abs_cmd (\<lambda>q _. cstring m q) c"

lemma strings_nulterminate: "cmd_ok b c \<Longrightarrow> strings (nulterminate c (b @ [0])) c = abs_cmd (slice b) c"
  by (rule abs_cmd_cong) (auto intro: nulterminate_word)

lemma scmd_ok_abs: "cmd_ok b c \<Longrightarrow> scmd_ok (abs_cmd (slice b) c)"
  by (induction c) (auto simp: word_at_def)

lemma redir_toks_ok: "redir_ok mode fd \<Longrightarrow> word_ok p \<Longrightarrow> tok_ok (redir_sym mode fd) \<and> tok_ok (Word p)"
  using redir_sym_of(2) by (simp add: tok_ok_def)

lemma show_toks_ok: "scmd_ok c \<Longrightarrow> \<forall>t \<in> set (show_cmd c). tok_ok t"
proof (induction c)
  case (Redirect c p mode fd)
  then show ?case using redir_toks_ok [of mode fd p] by (auto simp: paren_def tok_ok_def symbols_def ascii_def)
qed (auto simp: paren_def tok_ok_def symbols_def ascii_def)

lemma weave_nonzero:
  assumes "spaced gs ts" "\<forall>t \<in> set ts. tok_ok t"
  shows "0 \<notin> set (weave gs ts)"
  using assms
proof (induction gs ts rule: weave.induct)
  case (1 g gs t ts)
  have "0 \<notin> set (tok_bytes t)" using 1(3) by (cases t) (auto simp: tok_ok_def word_ok_def symbols_def ascii_def)
  then show ?case using 1 by (auto simp: whitespace_def)
qed (auto simp: whitespace_def)

lemma parsecmd_show:
  assumes "scmd_ok c" "spaced gs (show_cmd c)"
  shows "\<exists>d m. parsecmd (weave gs (show_cmd c)) = Inr (d, m) \<and> strings m d = c"
proof -
  let ?b = "weave gs (show_cmd c)"
  note t = show_toks_ok [OF assms(1)]
  have l: "lexes ?b 0 (show_cmd c @ [])" using lexes_weave [OF assms(2) t, of "[]"] by simp
  obtain d s where 1: "parseline ?b 0 = Parsed d s" "abs_cmd (slice ?b) d = c" "lexes ?b s []"
  proof (rule parsesE)
    show "parses parseline '')'' ?b (show_cmd c) c" using parses_show [OF assms(1)] by blast
  qed (use l in \<open>auto simp: ends_def\<close>)
  have ok: "cmd_ok ?b d" using parse_ok(1) [OF weave_nonzero [OF assms(2) t]] 1(1) by blast
  have "parsecmd ?b = Inr (d, nulterminate d (?b @ [0]))" using 1(1,3) by (simp add: parsecmd_def)
  then show ?thesis using strings_nulterminate [OF ok] 1(2) by simp
qed

text \<open>C37. Printing and parsing a command line. A command built from programs with at most nine arguments, redirections,
  pipelines, sequences and background commands, written with parentheses only where they are needed and with any white
  space between its tokens, is parsed by \<^verbatim>\<open>parsecmd\<close> to exactly that command: the strings that the nodes point to in the
  buffer after \<^verbatim>\<open>nulterminate\<close> are the words of the command.\<close>

theorem parse_print_roundtrip:
  assumes "scmd_ok c" "spaced gs (show_cmd c)"
  shows "\<exists>d m. parsecmd (weave gs (show_cmd c)) = Inr (d, m) \<and> strings m d = c"
  using assms by (rule parsecmd_show)

definition demo_line :: scmd where
  "demo_line = Sequence (Pipeline (Run [ascii ''cat'', ascii ''a'']) (Redirect (Run [ascii ''wc'']) (ascii ''b'') (O_WRONLY OR O_CREATE OR O_TRUNC) 1))
     (Background (Redirect (Sequence (Run [ascii ''ls'']) (Run [ascii ''ps''])) (ascii ''c'') (O_WRONLY OR O_CREATE) 1))"

definition demo_gaps :: "byte list list" where
  "demo_gaps = [[], [32], [], [9, 32], [], [], [], [32], [], [], [32], [], [], [], [], [10]]"

lemma demo_text: "weave demo_gaps (show_cmd demo_line) = ascii ''cat a|'' @ [9] @ ascii '' wc>b; (ls; ps)>>c&'' @ [10]"
  by (simp add: demo_line_def demo_gaps_def paren_def redir_sym_def ascii_def layout_defs)

lemma demo_line_ok: "scmd_ok demo_line"
  by (simp add: demo_line_def word_ok_def redir_ok_def MAXARGS_def ascii_def whitespace_def symbols_def)

lemma demo_gaps_ok: "spaced demo_gaps (show_cmd demo_line)"
  by (simp add: demo_line_def demo_gaps_def paren_def redir_sym_def ascii_def layout_defs needs_gap_def whitespace_def)

theorem parse_print_roundtrip_witness:
  "\<exists>d m. parsecmd (ascii ''cat a|'' @ [9] @ ascii '' wc>b; (ls; ps)>>c&'' @ [10]) = Inr (d, m) \<and> strings m d = demo_line"
  using parse_print_roundtrip [OF demo_line_ok demo_gaps_ok] unfolding demo_text .

definition parse_errors :: "byte list set" where
  "parse_errors = (\<lambda>msg. ascii msg @ [10]) ` {''missing file for redirection'', ''syntax'', ''too many args'', ''syntax - missing )''}"

lemma parseredirs_error: "parseredirs b s = Syntax e \<Longrightarrow> e \<in> parse_errors"
proof (induction b s rule: parseredirs.induct)
  case (1 b s)
  then show ?case
    by (auto simp: parseredirs.simps [of b s] Let_def shell_panic_def parse_errors_def split: if_splits presult.splits)
qed

lemma parseexec_loop_error: "parseexec_loop b s argv rs = Syntax e \<Longrightarrow> e \<in> parse_errors"
proof (induction b s argv rs rule: parseexec_loop.induct)
  case (1 b s argv rs)
  show ?case
  proof (cases "token b (skip_ws b s) = of_char CHR ''a'' \<and> \<not> Suc (length argv) \<ge> MAXARGS \<and> \<not> peek b s (ascii ''|)&;'')")
    case True
    then show ?thesis using 1 parseredirs_error
      by (auto simp: parseexec_loop.simps [of b s] Let_def split: presult.splits)
  next
    case False
    then show ?thesis using 1(2)
      by (auto simp: parseexec_loop.simps [of b s] Let_def shell_panic_def parse_errors_def split: if_splits)
  qed
qed

lemma parse_error:
  "\<forall>e. parseline b s = Syntax e \<longrightarrow> e \<in> parse_errors"
  "\<forall>e. parsepipe b s = Syntax e \<longrightarrow> e \<in> parse_errors"
  "\<forall>e. parseexec b s = Syntax e \<longrightarrow> e \<in> parse_errors"
  "\<forall>e. peek b s (ascii ''('') \<longrightarrow> parseblock b s = Syntax e \<longrightarrow> e \<in> parse_errors"
proof (induction b s and b s and b s and b s rule: parseline_parsepipe_parseexec_parseblock.induct)
  case (1 b s)
  then show ?case by (subst parseline.simps) (auto simp: Let_def split: presult.splits if_splits)
next
  case (2 b s)
  then show ?case by (subst parsepipe.simps) (auto split: presult.splits if_splits)
next
  case (3 b s)
  have "peek b (skip_ws b s) (ascii ''('') = peek b s (ascii ''('')" by (simp add: peek_def)
  then show ?case using 3 parseredirs_error parseexec_loop_error
    by (subst parseexec.simps) (auto split: presult.splits if_splits)
next
  case (4 b s)
  then show ?case using parseredirs_error
    by (subst parseblock.simps) (auto simp: shell_panic_def parse_errors_def split: presult.splits if_splits)
qed

text \<open>C38. What the parser may return. For every line in the buffer \<^verbatim>\<open>parsecmd\<close> returns. It gives a command in which every
  program has at most nine arguments, every argument and file name is a non-empty word without white space or symbols,
  and every redirection has one of the three modes with its descriptor; or it ends the shell's child with one of four
  messages, or with a report of the text it could not read. The message of \<^verbatim>\<open>parseblock\<close> is never printed.\<close>

theorem parsed_commands_well_typed:
  "case parsecmd (takeWhile (\<lambda>c. c \<noteq> 0) buf) of
     Inl e \<Rightarrow> e \<in> parse_errors \<or> take 11 e = ascii ''leftovers: ''
   | Inr (d, m) \<Rightarrow> scmd_ok (strings m d) \<and> length m = Suc (length (takeWhile (\<lambda>c. c \<noteq> 0) buf))"
proof -
  let ?b = "takeWhile (\<lambda>c. c \<noteq> 0) buf"
  have z: "0 \<notin> set ?b" using set_takeWhileD by fastforce
  show ?thesis
  proof (cases "parseline ?b 0")
    case (Parsed c s)
    then have ok: "cmd_ok ?b c" using parse_ok(1) [OF z] by blast
    then show ?thesis using scmd_ok_abs [OF ok] strings_nulterminate [OF ok] nulterminate_nth [of c "?b @ [0]"] Parsed
      by (simp add: parsecmd_def Let_def ascii_def)
  next
    case (Syntax e)
    then show ?thesis using parse_error(1) by (simp add: parsecmd_def)
  qed
qed

end
