(* ===== verification/Xv6_ShRun.thy ===== *)
theory Xv6_ShRun
  imports Xv6_ShSpec
begin

text \<open>
  What the shell's child processes run, and with which file descriptors. The descriptors of a process are a partial
  function; \<^verbatim>\<open>open\<close>, \<^verbatim>\<open>dup\<close> and \<^verbatim>\<open>pipe\<close> take the lowest free one, as \<^verbatim>\<open>fdalloc\<close> of the kernel does.
\<close>

section \<open>Descriptors\<close>

text \<open>What a descriptor refers to: what the shell had open, an end of the pipe that the process with that path in the tree
  of forks made, or a file opened by a redirection.\<close>

datatype endpoint = Inherited nat | ReadEnd "nat list" | WriteEnd "nat list" | Opened "byte list" uint

type_synonym fds = "nat \<Rightarrow> endpoint option"

definition lowest_fd :: "fds \<Rightarrow> nat option" where
  "lowest_fd T = find (\<lambda>fd. T fd = None) [0..<NOFILE]"

lemma fdalloc_lowest_fd:
  assumes "fdalloc f s = Ok r t" "curproc s = Some p"
  shows "r = lowest_fd (\<lambda>fd. map_option Inherited (ofile (procs s p) ! fd))"
  using assms by (auto simp: fdalloc_def lowest_fd_def myproc_def split: option.splits)

text \<open>The programs that a process and its children start, with their arguments and descriptors, when no system call
  fails but for want of a free descriptor. \<open>i\<close> is the path to the process in the tree of forks.\<close>

primrec started :: "prog \<Rightarrow> nat list \<Rightarrow> fds \<Rightarrow> (byte list list \<times> fds) list" where
  "started (Exit n) i T = []"
| "started (Exec p argv k) i T = [(argv, T)]"
| "started (Open p mode k) i T =
     (case lowest_fd T of None \<Rightarrow> started (k (-1)) i T | Some fd \<Rightarrow> started (k (int fd)) i (T(fd := Some (Opened p mode))))"
| "started (Close fd k) i T = started k i (T(fd := None))"
| "started (Dup fd k) i T = (case lowest_fd T of None \<Rightarrow> started k i T | Some fd' \<Rightarrow> started k i (T(fd' := T fd)))"
| "started (Pipe k) i T =
     (case lowest_fd T of None \<Rightarrow> started (k (-1) 0 0) i T | Some p0 \<Rightarrow>
        (case lowest_fd (T(p0 := Some (ReadEnd i))) of None \<Rightarrow> started (k (-1) 0 0) i T | Some p1 \<Rightarrow>
           started (k 0 p0 p1) i (T(p0 := Some (ReadEnd i), p1 := Some (WriteEnd i)))))"
| "started (Fork child k) i T = started child (0 # i) T @ started (k 1) (1 # i) T"
| "started (Wait k) i T = started k i T"
| "started (Write fd bs k) i T = started k i T"
| "started (Chdir p k) i T = started (k 0) i T"

text \<open>What a command should start.\<close>

primrec starts :: "scmd \<Rightarrow> nat list \<Rightarrow> fds \<Rightarrow> (byte list list \<times> fds) list" where
  "starts (Run ws) i T = (if ws = [] then [] else [(ws, T)])"
| "starts (Redirect c p mode fd) i T = starts c i (T(fd := Some (Opened p mode)))"
| "starts (Pipeline a b) i T = starts a (0 # i) (T(1 := Some (WriteEnd i))) @ starts b (0 # 1 # i) (T(0 := Some (ReadEnd i)))"
| "starts (Sequence a b) i T = starts a (0 # i) T @ starts b (1 # i) T"
| "starts (Background a) i T = starts a (0 # i) T"

text \<open>The standard input and output are open and two more descriptors are free.\<close>

definition fds_ok :: "fds \<Rightarrow> bool" where
  "fds_ok T \<longleftrightarrow> T 0 \<noteq> None \<and> T 1 \<noteq> None \<and> (\<exists>p0 p1. p0 < p1 \<and> p1 < NOFILE \<and> T p0 = None \<and> T p1 = None)"

lemma lowest_fd_Some_iff:
  "lowest_fd T = Some fd \<longleftrightarrow> fd < NOFILE \<and> T fd = None \<and> (\<forall>k < fd. T k \<noteq> None)"
  unfolding lowest_fd_def find_Some_iff by (auto intro!: exI [of _ fd])

lemma fds_ok_pipe:
  assumes "fds_ok T"
  obtains p0 p1 where "lowest_fd T = Some p0" "lowest_fd (T(p0 := Some e)) = Some p1" "1 < p0" "p0 < p1" "T p0 = None" "T p1 = None"
proof -
  obtain a c where ac: "T 0 \<noteq> None" "T 1 \<noteq> None" "a < c" "c < NOFILE" "T a = None" "T c = None" using assms by (auto simp: fds_ok_def)
  define p0 where "p0 = (LEAST k. T k = None)"
  define p1 where "p1 = (LEAST k. p0 < k \<and> T k = None)"
  have 0: "T p0 = None" "p0 \<le> a" unfolding p0_def by (rule LeastI [of _ a], rule ac(5)) (rule Least_le, rule ac(5))
  have z0: "T k \<noteq> None" if "k < p0" for k using not_less_Least [OF that [unfolded p0_def]] .
  have c: "p0 < c \<and> T c = None" using 0 ac by simp
  have 1: "p0 < p1 \<and> T p1 = None" "p1 \<le> c" unfolding p1_def by (rule LeastI [of _ c], rule c) (rule Least_le, rule c)
  have z1: "T k \<noteq> None" if "k < p1" "p0 < k" for k using not_less_Least [OF that(1) [unfolded p1_def]] that(2) by simp
  have "p0 \<noteq> 0" "p0 \<noteq> 1" using ac(1,2) 0(1) by metis+
  then have "1 < p0" by simp
  moreover have "lowest_fd T = Some p0" using 0 z0 ac by (simp add: lowest_fd_Some_iff)
  moreover have "lowest_fd (T(p0 := Some e)) = Some p1" 
    unfolding lowest_fd_Some_iff
  proof (intro conjI allI impI)
    fix k
    assume "k < p1"
    then show "(T(p0 := Some e)) k \<noteq> None" using z0 [of k] z1 [of k] by (cases rule: linorder_cases [of k p0]) auto
  qed (use 1 ac(4) in auto)
  ultimately show ?thesis using that 0 1 by blast
qed

lemma lowest_fd_closed: "T 0 \<noteq> None \<Longrightarrow> fd < 2 \<Longrightarrow> lowest_fd (T(fd := None)) = Some fd"
  by (auto simp: lowest_fd_Some_iff NOFILE_def less_2_cases_iff)

lemma fds_ok_upd: "fds_ok T \<Longrightarrow> fd < 2 \<Longrightarrow> fds_ok (T(fd := Some e))"
proof -
  assume T: "fds_ok T" and fd: "fd < 2"
  obtain a c where ac: "T 0 \<noteq> None" "T 1 \<noteq> None" "a < c" "c < NOFILE" "T a = None" "T c = None" using T by (auto simp: fds_ok_def)
  have "fd = 0 \<or> fd = 1" using fd by auto
  then have "fd \<noteq> a" "fd \<noteq> c" using ac by auto
  then show ?thesis unfolding fds_ok_def using ac by (intro conjI exI [of _ a] exI [of _ c]) auto
qed

lemma started_runcmd:
  assumes "scmd_ok (strings m d)" "fds_ok T"
  shows "started (runcmd m d) i T = starts (strings m d) i T"
  using assms
proof (induction d arbitrary: i T)
  case (EXEC argv)
  then show ?case by (auto simp: Let_def case_prod_beta)
next
  case (REDIR c q eq mode fd)
  have fd: "fd < 2" using REDIR.prems(1) by (auto simp: redir_ok_def)
  have "lowest_fd (T(fd := None)) = Some fd" using REDIR.prems(2) fd by (intro lowest_fd_closed) (auto simp: fds_ok_def)
  then show ?case using REDIR fds_ok_upd [OF REDIR.prems(2) fd] by simp
next
  case (PIPE l r)
  obtain p0 p1 where p: "lowest_fd T = Some p0" "lowest_fd (T(p0 := Some (ReadEnd i))) = Some p1" "1 < p0" "p0 < p1" "T p0 = None" "T p1 = None"
    by (rule fds_ok_pipe [OF PIPE.prems(2)])
  let ?T = "T(p0 := Some (ReadEnd i), p1 := Some (WriteEnd i))"
  have 0: "?T 0 \<noteq> None" using PIPE.prems(2) p(3,4) by (auto simp: fds_ok_def)
  have "(?T(1 := Some (WriteEnd i)))(p0 := None, p1 := None) = T(1 := Some (WriteEnd i))"
    "(?T(0 := Some (ReadEnd i)))(p0 := None, p1 := None) = T(0 := Some (ReadEnd i))"
    using p(3-6) by (auto simp: fun_eq_iff)
  moreover have "lowest_fd (?T(1 := None)) = Some 1" "lowest_fd (?T(0 := None)) = Some 0" using lowest_fd_closed [of ?T] 0 by simp_all
  moreover have "fds_ok (T(1 := Some (WriteEnd i)))" "fds_ok (T(0 := Some (ReadEnd i)))" using fds_ok_upd [OF PIPE.prems(2)] by simp_all
  ultimately show ?case using PIPE p(1-4) by (simp add: fork1_def)
next
  case (LIST l r)
  then show ?case by (simp add: fork1_def)
next
  case (BACK c)
  then show ?case by (simp add: fork1_def)
qed

text \<open>The shell leaves its first loop with descriptors 0 to 2 in use.\<close>

lemma lowest_fd_small:
  assumes "T 3 = None"
  shows "lowest_fd T = Some (if T 0 = None then 0 else if T 1 = None then 1 else if T 2 = None then 2 else 3)"
proof -
  have "[0..<NOFILE] = [0, 1, 2, 3] @ [4..<NOFILE]" by (simp add: NOFILE_def upt_rec)
  then show ?thesis using assms by (simp add: lowest_fd_def)
qed

lemma started_open_console:
  assumes "\<forall>fd \<ge> 3. T fd = None"
  shows "\<exists>T'. started (open_console 4 k) i T = started k i T' \<and> fds_ok T' \<and> T' 2 \<noteq> None"
proof -
  have four: "(4::nat) = Suc (Suc (Suc (Suc 0)))" by simp
  have T: "T 3 = None" "T 4 = None" using assms by auto
  have ok: "fds_ok T'" if "T' 0 \<noteq> None" "T' 1 \<noteq> None" "T' 3 = None" "T' 4 = None" for T'
    unfolding fds_ok_def using that by (intro conjI exI [of _ 3] exI [of _ 4]) (simp_all add: NOFILE_def)
  show ?thesis
    by (cases "T 0"; cases "T 1"; cases "T 2") (auto simp: four lowest_fd_small T T(2) [unfolded four] intro!: exI conjI ok)
qed

section \<open>From the line to the programs\<close>


definition demo_fds :: fds where
  "demo_fds fd = (if fd < 3 then Some (Inherited fd) else None)"


end
