(* ===== verification/Xv6_Mkfs.thy ===== *)
theory Xv6_Mkfs
  imports Xv6_FsSpec Xv6_Ulib
begin

text \<open>
  \<^verbatim>\<open>mkfs/mkfs.c\<close>: the program that makes the initial file system on the host. The image is the list of the sectors of the
  file \<^verbatim>\<open>fsfd\<close>; a write past its end extends it with zeros and a read past its end is short, as on a POSIX file. The host is
  little-endian. A failed assertion and an exit with an error are outcomes \<open>Panic\<close>. Functions that have a namesake in
  the kernel end in \<open>_mk\<close>.
\<close>

section \<open>State and layout\<close>

definition NINODES :: nat where [layout_defs]: "NINODES = 200"
definition nbitmap :: nat where [layout_defs]: "nbitmap = FSSIZE div (BSIZE * 8) + 1"
definition ninodeblocks :: nat where [layout_defs]: "ninodeblocks = NINODES div IPB + 1"
definition nlog :: nat where [layout_defs]: "nlog = LOGSIZE"
definition nmeta :: nat where [layout_defs]: "nmeta = 2 + nlog + ninodeblocks + nbitmap"
definition nblocks :: nat where [layout_defs]: "nblocks = FSSIZE - nmeta"

text \<open>\<open>writable\<close> says which sectors the host can write.\<close>

record mkfs =
  image :: "block list"
  writable :: "nat \<Rightarrow> bool"
  msb :: superblock
  freeinode :: uint
  freeblock :: uint

type_synonym 'r mk = "mkfs \<Rightarrow> ('r, mkfs) outcome"

definition xshort :: "uint16 \<Rightarrow> uint16" where
  "xshort x = word_of_bytes [ucast x, ucast (drop_bit 8 x)]"

definition xint :: "uint \<Rightarrow> uint" where
  "xint x = word_of_bytes [ucast x, ucast (drop_bit 8 x), ucast (drop_bit 16 x), ucast (drop_bit 24 x)]"

section \<open>Sectors and inodes\<close>

definition zeroes :: block where
  "zeroes = replicate BSIZE 0"

definition sector :: "uint \<Rightarrow> nat" where
  "sector sec = unat (sec * of_nat BSIZE) div BSIZE"

definition wsect :: "uint \<Rightarrow> block \<Rightarrow> unit mk" where
  "wsect sec buf s =
     (let k = sector sec; im = image s
      in if \<not> writable s k then Panic ''write''
         else Ok () (s\<lparr>image := (im @ replicate (Suc k - length im) zeroes)[k := buf]\<rparr>))"

definition rsect :: "uint \<Rightarrow> block mk" where
  "rsect sec s = (if sector sec < length (image s) then Ok (image s ! sector sec) s else Panic ''read'')"

definition winode :: "uint \<Rightarrow> dinode \<Rightarrow> unit mk" where
  "winode inum ip s =
     (let bn = IBLOCK inum (msb s)
      in bindK (rsect bn s) (\<lambda>buf. wsect bn (put_dinode (unat inum mod IPB) ip buf)))"

definition rinode :: "uint \<Rightarrow> dinode mk" where
  "rinode inum s = bindK (rsect (IBLOCK inum (msb s)) s) (\<lambda>buf. Ok (get_dinode buf (unat inum mod IPB)))"

definition ialloc_mk :: "uint16 \<Rightarrow> uint mk" where
  "ialloc_mk type s =
     (let inum = freeinode s;
          din = \<lparr>di_type = xshort type, di_major = 0, di_minor = 0, di_nlink = xshort 1, di_size = xint 0, di_addrs = replicate (NDIRECT + 1) 0\<rparr>
      in bindK (winode inum din (s\<lparr>freeinode := inum + 1\<rparr>)) (\<lambda>_. Ok inum))"

definition balloc_mk :: "uint \<Rightarrow> unit mk" where
  "balloc_mk used s =
     (if \<not> sint used < int (BSIZE * 8) then Panic ''assert''
      else wsect (sb_bmapstart (msb s)) (fold (\<lambda>i d. bit_set d i) [0..<nat (sint used)] (replicate BSIZE 0)) s)"

section \<open>Appending to a file\<close>

text \<open>The block that holds block \<open>fbn\<close> of the file, allocated if it is missing, with the inode in memory as it is then.\<close>

definition iappend_block :: "nat \<Rightarrow> dinode \<Rightarrow> (dinode \<times> uint) mk" where
  "iappend_block fbn din s =
     (if fbn < NDIRECT
      then let (din', s') = (if xint (di_addrs din ! fbn) = 0
             then (din\<lparr>di_addrs := (di_addrs din)[fbn := xint (freeblock s)]\<rparr>, s\<lparr>freeblock := freeblock s + 1\<rparr>) else (din, s))
        in Ok (din', xint (di_addrs din' ! fbn)) s'
      else let (din', s') = (if xint (di_addrs din ! NDIRECT) = 0
             then (din\<lparr>di_addrs := (di_addrs din)[NDIRECT := xint (freeblock s)]\<rparr>, s\<lparr>freeblock := freeblock s + 1\<rparr>) else (din, s));
             a = xint (di_addrs din' ! NDIRECT); k = 4 * (fbn - NDIRECT)
        in bindK (rsect a s') (\<lambda>ind s1.
           if get32 ind k = 0
           then let ind' = put32 k (xint (freeblock s1)) ind
             in bindK (wsect a ind' (s1\<lparr>freeblock := freeblock s1 + 1\<rparr>)) (\<lambda>_. Ok (din', xint (get32 ind' k)))
           else Ok (din', xint (get32 ind k)) s1))"

text \<open>\<^verbatim>\<open>off\<close> is a number: the assertion keeps it below \<^verbatim>\<open>MAXFILE * BSIZE\<close>, far from wrapping around.\<close>

function iappend_loop :: "dinode \<Rightarrow> nat \<Rightarrow> byte list \<Rightarrow> (dinode \<times> nat) mk" where
  "iappend_loop din off p s =
     (if p = [] then Ok (din, off) s
      else let fbn = off div BSIZE
        in if \<not> fbn < MAXFILE then Panic ''assert''
           else bindK (iappend_block fbn din s) (\<lambda>(din', x) s1.
             let n1 = min (length p) ((fbn + 1) * BSIZE - off)
             in bindK (rsect x s1) (\<lambda>buf s2.
                bindK (wsect x (put_at buf (off - fbn * BSIZE) (take n1 p)) s2) (\<lambda>_.
                iappend_loop din' (off + n1) (drop n1 p)))))"
  by pat_completeness auto
termination
proof (relation "measure (\<lambda>(din, off, p, s). length p)", goal_cases)
  case (2 din off p s)
  have "off < (off div BSIZE + 1) * BSIZE" by (simp add: BSIZE_def dividend_less_div_times)
  with 2 show ?case by simp
qed simp

declare iappend_loop.simps [simp del]

definition iappend :: "uint \<Rightarrow> byte list \<Rightarrow> unit mk" where
  "iappend inum p s =
     bindK (rinode inum s) (\<lambda>din s1.
     bindK (iappend_loop din (unat (xint (di_size din))) p s1) (\<lambda>(din', off). 
       winode inum (din'\<lparr>di_size := xint (of_nat off)\<rparr>)))"

section \<open>The program\<close>

definition superblock_bytes :: "superblock \<Rightarrow> byte list" where
  "superblock_bytes b = concat (map (bytes_of_word 4) [sb_magic b, sb_size b, sb_nblocks b, sb_ninodes b, sb_nlog b,
     sb_logstart b, sb_inodestart b, sb_bmapstart b])"

definition mkfs_sb :: superblock where
  "mkfs_sb = \<lparr>sb_magic = FSMAGIC, sb_size = xint (of_nat FSSIZE), sb_nblocks = xint (of_nat nblocks), sb_ninodes = xint (of_nat NINODES),
     sb_nlog = xint (of_nat nlog), sb_logstart = xint 2, sb_inodestart = xint (of_nat (2 + nlog)),
     sb_bmapstart = xint (of_nat (2 + nlog + ninodeblocks))\<rparr>"

definition mk_dirent :: "uint \<Rightarrow> byte list \<Rightarrow> byte list" where
  "mk_dirent inum name = dirent_bytes \<lparr>de_inum = xshort (ucast inum), de_name = strncpy_bytes DIRSIZ name\<rparr>"

text \<open>The loop that copies a file of the host.\<close>

function copy_file :: "uint \<Rightarrow> stream_in \<Rightarrow> unit mk" where
  "copy_file inum st s =
     (let (buf, st') = read_call BSIZE st
      in if buf = [] then Ok () s else bindK (iappend inum buf s) (\<lambda>_. copy_file inum st'))"
  by pat_completeness auto
termination
proof (relation "measure (\<lambda>(inum, st, s). length (fst st))", goal_cases)
  case (2 inum st s x buf st' u s')
  obtain xs ks ys ls where st: "st = (xs, ks)" "st' = (ys, ls)" by (cases st; cases st')
  then have "read_call BSIZE (xs, ks) = (buf, (ys, ls))" using 2 by simp
  from read_call_split(1) [OF this] 2 show ?case by (simp add: st)
qed simp

declare copy_file.simps [simp del]

definition short_name :: "byte list \<Rightarrow> byte list" where
  "short_name arg = (if take 5 arg = ascii ''user/'' then drop 5 arg else arg)"

definition skip_underscore :: "byte list \<Rightarrow> byte list" where
  "skip_underscore name = (if take 1 name = ascii ''_'' then drop 1 name else name)"

definition add_file :: "(byte list \<Rightarrow> stream_in option) \<Rightarrow> uint \<Rightarrow> byte list \<Rightarrow> unit mk" where
  "add_file files rootino arg s =
     (if of_char CHR ''/'' \<in> set (short_name arg) then Panic ''assert''
      else case files arg of
        None \<Rightarrow> Panic ''open''
      | Some st \<Rightarrow>
          bindK (ialloc_mk T_FILE s) (\<lambda>inum s1.
          bindK (iappend rootino (mk_dirent inum (skip_underscore (short_name arg))) s1) (\<lambda>_.
          copy_file inum st)))"

definition fix_root_size :: "uint \<Rightarrow> unit mk" where
  "fix_root_size rootino s =
     bindK (rinode rootino s) (\<lambda>din s1.
       let off = (xint (di_size din) div of_nat BSIZE + 1) * of_nat BSIZE
       in winode rootino (din\<lparr>di_size := xint off\<rparr>) s1)"

text \<open>\<open>files\<close> are the files of the host, \<open>creates\<close> the files it can create and \<open>can\<close> the sectors of the image it can write.\<close>

definition mkfs_main :: "(byte list \<Rightarrow> stream_in option) \<Rightarrow> (byte list \<Rightarrow> bool) \<Rightarrow> (nat \<Rightarrow> bool) \<Rightarrow> byte list list \<Rightarrow> (unit, mkfs) outcome" where
  "mkfs_main files creates can argv =
     (if length argv < 2 then Panic ''usage''
      else if \<not> creates (argv ! 1) then Panic ''open''
      else let s = \<lparr>image = [], writable = can, msb = mkfs_sb, freeinode = 1, freeblock = of_nat nmeta\<rparr>
        in bindK (for_each (\<lambda>i. wsect (of_nat i) zeroes) [0..<FSSIZE] s) (\<lambda>_ s1.
           bindK (wsect 1 (put_at zeroes 0 (superblock_bytes (msb s1))) s1) (\<lambda>_ s2.
           bindK (ialloc_mk T_DIR s2) (\<lambda>rootino s3.
           if rootino \<noteq> ROOTINO then Panic ''assert''
           else bindK (iappend rootino (mk_dirent rootino (ascii ''.'')) s3) (\<lambda>_ s4.
           bindK (iappend rootino (mk_dirent rootino (ascii ''..'')) s4) (\<lambda>_ s5.
           bindK (for_each (add_file files rootino) (drop 2 argv) s5) (\<lambda>_ s6.
           bindK (fix_root_size rootino s6) (\<lambda>_ s7.
           balloc_mk (freeblock s7) s7))))))))"

end
