(* ===== verification/Xv6_DirSpec.thy ===== *)
theory Xv6_DirSpec
  imports Xv6_FsSpec
begin

text \<open>
  Directories of \<^verbatim>\<open>kernel/fs.c\<close>: \<open>dirlookup\<close> finds the first entry with the name, compared as C strings of at most \<^verbatim>\<open>DIRSIZ\<close>
  bytes, and \<open>iget\<close> of an inode that is not cached takes an unused slot.
\<close>

section \<open>Entries\<close>

definition dir_entry :: "block_view \<Rightarrow> inode \<Rightarrow> nat \<Rightarrow> dirent" where
  "dir_entry v x off = get_dirent (map (file_byte v x) [off..<off + 16])"

text \<open>A name as the bytes before its NUL, cut to \<^verbatim>\<open>DIRSIZ\<close>.\<close>

definition dir_name :: "byte list \<Rightarrow> byte list" where
  "dir_name name = take DIRSIZ (takeWhile (\<lambda>b. b \<noteq> 0) name)"

definition entry_named :: "byte list \<Rightarrow> dirent \<Rightarrow> bool" where
  "entry_named name de \<longleftrightarrow> de_inum de \<noteq> 0 \<and> dir_name (de_name de) = dir_name name"

definition dir_find :: "block_view \<Rightarrow> inode \<Rightarrow> byte list \<Rightarrow> nat option" where
  "dir_find v x name = find (\<lambda>off. entry_named name (dir_entry v x off)) (dir_offsets (unat (i_size x)))"

text \<open>The sixteen bytes at \<open>off\<close> are in the file.\<close>

definition entry_ok :: "block_view \<Rightarrow> inode \<Rightarrow> nat \<Rightarrow> bool" where
  "entry_ok v x off \<longleftrightarrow> off + 16 \<le> unat (i_size x) \<and> (\<forall>q < 16. block_ok v x ((off + q) div BSIZE))"

lemma namecmp_0_iff: "namecmp name t = 0 \<longleftrightarrow> dir_name t = dir_name name"
  by (auto simp: namecmp_def strncmp_bytes_0_iff dir_name_def)

lemma get_dirent_bytes [simp]: "length (de_name de) = DIRSIZ \<Longrightarrow> get_dirent (dirent_bytes de) = de"
  by (simp add: get_dirent_def dirent_bytes_def)

lemma length_dirent_bytes [simp]: "length (de_name de) = DIRSIZ \<Longrightarrow> length (dirent_bytes de) = 16"
  by (simp add: dirent_bytes_def DIRSIZ_def)

lemma dir_entry_bytes:
  assumes "\<forall>q < n. file_byte v x q = bs ! q" "off + 16 \<le> n" "n \<le> length bs"
  shows "dir_entry v x off = get_dirent (take 16 (drop off bs))"
proof -
  have "map (file_byte v x) [off..<off + 16] = take 16 (drop off bs)" by (rule nth_equalityI) (use assms in auto)
  then show ?thesis by (simp only: dir_entry_def)
qed

lemma takeWhile_strncpy: "take n (takeWhile (\<lambda>b. b \<noteq> 0) (strncpy_bytes n xs)) = take n (takeWhile (\<lambda>b. b \<noteq> 0) xs)"
proof (induction xs arbitrary: n)
  case Nil
  then show ?case by (cases n) (simp_all add: strncpy_bytes_def)
next
  case (Cons x xs)
  then show ?case by (cases n) (simp_all add: strncpy_bytes_def)
qed

lemma dir_name_strncpy [simp]: "dir_name (strncpy_bytes DIRSIZ name) = dir_name name"
  by (simp add: dir_name_def takeWhile_strncpy)

lemma readi_entry:
  fixes s :: "'a fs_state_scheme"
  assumes "binv s p" "i_dev (inodes s dp) = ROOTDEV" "entry_ok (view s) (inodes s dp) off"
  obtains t where "readi dp LocalDst (of_nat off) 16 s = Ok (16, map (file_byte (view s) (inodes s dp)) [off..<off + 16]) t"
    "binv t p" "bio_frame s t" "view t = view s"
proof -
  let ?z = "i_size (inodes s dp)"
  have z: "off + 16 \<le> unat ?z" "unat ?z < 2 ^ 32" using assms(3) unsigned_less [of ?z] by (simp_all add: entry_ok_def)
  then have o: "unat (of_nat off :: uint) = off" "unat (of_nat off + 16 :: uint) = off + 16"
    by (simp_all add: unat_of_nat take_bit_nat_eq_self unat_plus_if')
  have "\<exists>t. readi_loop dp LocalDst 0 off 16 s = Ok (16, map (file_byte (view s) (inodes s dp)) [off..<off + (16 - 0)]) t
      \<and> binv t p \<and> bio_frame s t \<and> view t = view s"
    by (rule readi_loop_view [OF assms(1,2)]) (use assms(3) in \<open>simp_all add: entry_ok_def\<close>)
  moreover have "readi dp LocalDst (of_nat off) 16 s = readi_loop dp LocalDst 0 off 16 s"
    using z o by (simp add: readi_def Let_def word_less_nat_alt)
  ultimately show ?thesis using that by auto
qed

section \<open>Looking up a name\<close>

lemma dirlookup_skip:
  fixes s :: "'a fs_state_scheme"
  assumes "binv s p" "i_dev (inodes s dp) = ROOTDEV"
    and "\<forall>off \<in> set pre. entry_ok (view s) (inodes s dp) off \<and> \<not> entry_named name (dir_entry (view s) (inodes s dp) off)"
  shows "\<exists>t. dirlookup_loop dp name (pre @ post) s = dirlookup_loop dp name post t \<and> binv t p \<and> bio_frame s t \<and> view t = view s"
  using assms
proof (induction pre arbitrary: s)
  case Nil
  then show ?case by auto
next
  case (Cons off pre)
  have ok: "entry_ok (view s) (inodes s dp) off" using Cons.prems(3) by simp
  obtain t where t: "readi dp LocalDst (of_nat off) 16 s = Ok (16, map (file_byte (view s) (inodes s dp)) [off..<off + 16]) t"
    "binv t p" "bio_frame s t" "view t = view s" by (rule readi_entry [OF Cons.prems(1,2) ok])
  note f = bio_frame_fs [OF t(3)]
  have e: "dirlookup_loop dp name ((off # pre) @ post) s = dirlookup_loop dp name (pre @ post) t"
    using t(1) Cons.prems(3) by (auto simp: Let_def entry_named_def dir_entry_def namecmp_0_iff)
  have "\<exists>u. dirlookup_loop dp name (pre @ post) t = dirlookup_loop dp name post u \<and> binv u p \<and> bio_frame t u \<and> view u = view t"
    by (rule Cons.IH [OF t(2)]) (use Cons.prems(2,3) in \<open>simp_all add: f t(4)\<close>)
  then show ?case unfolding e using t(3,4) bio_frame_trans by fastforce
qed

lemma dirlookup_hit:
  fixes s :: "'a fs_state_scheme"
  assumes "binv s p" "i_dev (inodes s dp) = ROOTDEV" "entry_ok (view s) (inodes s dp) off"
    "entry_named name (dir_entry (view s) (inodes s dp) off)"
  obtains t where "dirlookup_loop dp name (off # post) s
      = bindK (iget ROOTDEV (ucast (de_inum (dir_entry (view s) (inodes s dp) off))) t) (\<lambda>ip s2. Ok (Some (ip, off)) s2)"
    "binv t p" "bio_frame s t" "view t = view s"
proof -
  obtain t where t: "readi dp LocalDst (of_nat off) 16 s = Ok (16, map (file_byte (view s) (inodes s dp)) [off..<off + 16]) t"
    "binv t p" "bio_frame s t" "view t = view s" by (rule readi_entry [OF assms(1-3)])
  have "inodes t dp = inodes s dp" by (simp add: bio_frame_fs [OF t(3)])
  then show ?thesis using that [OF _ t(2-4)] t(1) assms(2,4) by (simp add: Let_def entry_named_def dir_entry_def namecmp_0_iff)
qed

text \<open>The entries before the first with the name.\<close>

lemma find_split:
  assumes "find P xs = Some x"
  obtains pre post where "xs = pre @ x # post" "\<forall>y \<in> set pre. \<not> P y" "P x"
  using assms
proof (induction xs arbitrary: thesis)
  case (Cons y ys)
  show ?case
  proof (cases "P y")
    case True
    then show ?thesis using Cons.prems(1) [of "[]" ys] Cons.prems(2) by simp
  next
    case False
    then obtain pre post where "ys = pre @ x # post" "\<forall>y \<in> set pre. \<not> P y" "P x" using Cons.IH Cons.prems(2) by auto
    with False show ?thesis using Cons.prems(1) [of "y # pre" post] by simp
  qed
qed simp

lemma dir_offsets_ok:
  assumes "16 dvd unat (i_size x)" "\<forall>q < unat (i_size x). block_ok v x (q div BSIZE)" "off \<in> set (dir_offsets (unat (i_size x)))"
  shows "entry_ok v x off"
proof -
  obtain k where k: "unat (i_size x) = 16 * k" using assms(1) by (auto simp: dvd_def)
  have "off \<in> (\<lambda>j. 16 * j) ` {0..<(16 * k + 15) div 16}" using assms(3) by (simp add: dir_offsets_def k)
  then obtain j where j: "off = 16 * j" "j < k" by auto
  then have "off + 16 \<le> unat (i_size x)" using k by simp
  then show ?thesis using assms(2) by (auto simp: entry_ok_def)
qed

lemma dirlookup_view:
  fixes s :: "'a fs_state_scheme"
  assumes b: "binv s p" "i_dev (inodes s dp) = ROOTDEV" and d: "i_type (inodes s dp) = T_DIR" "16 dvd unat (i_size (inodes s dp))"
    "\<forall>q < unat (i_size (inodes s dp)). block_ok (view s) (inodes s dp) (q div BSIZE)"
  shows "\<exists>t. binv t p \<and> bio_frame s t \<and> view t = view s \<and> dirlookup dp name s =
    (case dir_find (view s) (inodes s dp) name of None \<Rightarrow> Ok None t
     | Some off \<Rightarrow> bindK (iget ROOTDEV (ucast (de_inum (dir_entry (view s) (inodes s dp) off))) t) (\<lambda>ip s2. Ok (Some (ip, off)) s2))"
proof (cases "dir_find (view s) (inodes s dp) name")
  case None
  let ?o = "dir_offsets (unat (i_size (inodes s dp)))"
  have "\<forall>off \<in> set ?o. entry_ok (view s) (inodes s dp) off \<and> \<not> entry_named name (dir_entry (view s) (inodes s dp) off)"
    using None dir_offsets_ok [OF d(2,3)] by (auto simp: dir_find_def find_None_iff)
  from dirlookup_skip [OF b this, of "[]"] show ?thesis using None d(1) by (auto simp: dirlookup_def)
next
  case (Some off)
  let ?o = "dir_offsets (unat (i_size (inodes s dp)))"
  obtain pre post where o: "?o = pre @ off # post" "\<forall>q \<in> set pre. \<not> entry_named name (dir_entry (view s) (inodes s dp) q)"
    "entry_named name (dir_entry (view s) (inodes s dp) off)"
    using Some [unfolded dir_find_def] by (rule find_split)
  then have ok: "entry_ok (view s) (inodes s dp) off" "\<forall>q \<in> set pre. entry_ok (view s) (inodes s dp) q \<and> \<not> entry_named name (dir_entry (view s) (inodes s dp) q)"
    using dir_offsets_ok [OF d(2,3)] by auto
  obtain t where t: "dirlookup_loop dp name (pre @ off # post) s = dirlookup_loop dp name (off # post) t" "binv t p" "bio_frame s t" "view t = view s"
    using dirlookup_skip [OF b ok(2), of "off # post"] by blast
  note f = bio_frame_fs [OF t(3)]
  obtain u where u: "dirlookup_loop dp name (off # post) t
      = bindK (iget ROOTDEV (ucast (de_inum (dir_entry (view t) (inodes t dp) off))) u) (\<lambda>ip s2. Ok (Some (ip, off)) s2)"
    "binv u p" "bio_frame t u" "view u = view t"
    by (rule dirlookup_hit [OF t(2), of dp off name post]) (use b ok(1) o(3) in \<open>simp_all add: f t(4)\<close>)
  show ?thesis
    using u(2,4) t(4) bio_frame_trans [OF t(3) u(3)] d(1) by (intro exI [of _ u]) (simp add: Some dirlookup_def o(1) t(1) u(1) f t(4) del: dirlookup_loop.simps)
qed

text \<open>An inode that is not cached gets an unused slot.\<close>

lemma iget_fresh:
  fixes s :: "'a fs_state_scheme"
  assumes h: "IcacheLock \<notin> held s" and n: "\<forall>i < NINODE. \<not> (0 < i_ref (inodes s i) \<and> i_dev (inodes s i) = d \<and> i_inum (inodes s i) = n)"
    and j: "j < NINODE" "i_ref (inodes s j) = 0"
  obtains i where "i < NINODE" "i_ref (inodes s i) = 0"
    "iget d n s = Ok i (s\<lparr>inodes := (inodes s)(i := (inodes s i)\<lparr>i_dev := d, i_inum := n, i_ref := 1, i_valid := False\<rparr>)\<rparr>)"
proof -
  obtain r sp where sc: "iget_scan d n [0..<NINODE] None (inodes s) = (r, sp)" by fastforce
  have r: "r = None" using sc n iget_scan_found [of d n "[0..<NINODE]" None "inodes s"] by (cases r) auto
  note spare = iget_scan_spare [OF sc [unfolded r]]
  then obtain i where i: "sp = Some i" "i < NINODE" "i_ref (inodes s i) = 0" using j by (cases sp) auto
  show ?thesis by (rule that [OF i(2,3)]) (use h sc r i in \<open>simp add: iget_def lock_free upd_inode_def unlock_held\<close>)
qed

text \<open>C25. \<^verbatim>\<open>dirlookup\<close> returns the first entry of a directory that is in use and has the name, where names are C strings of which
  \<^verbatim>\<open>DIRSIZ\<close> bytes count, with a reference to its inode from \<^verbatim>\<open>iget\<close>; when there is none it returns null. No block is changed and no
  buffer stays referenced.\<close>

theorem dirlookup_finds_first_entry:
  fixes s :: "'a fs_state_scheme"
  assumes "binv s p" "i_dev (inodes s dp) = ROOTDEV" "i_type (inodes s dp) = T_DIR" "16 dvd unat (i_size (inodes s dp))"
    "\<forall>q < unat (i_size (inodes s dp)). block_ok (view s) (inodes s dp) (q div BSIZE)"
  shows "\<exists>t. binv t p \<and> bio_frame s t \<and> view t = view s \<and> dirlookup dp name s =
    (case dir_find (view s) (inodes s dp) name of None \<Rightarrow> Ok None t
     | Some off \<Rightarrow> bindK (iget ROOTDEV (ucast (de_inum (dir_entry (view s) (inodes s dp) off))) t) (\<lambda>ip s2. Ok (Some (ip, off)) s2))"
  using assms by (rule dirlookup_view)

definition demo_dir :: block where
  "demo_dir = dirent_bytes \<lparr>de_inum = 1, de_name = strncpy_bytes DIRSIZ [46]\<rparr> @ dirent_bytes \<lparr>de_inum = 9, de_name = strncpy_bytes DIRSIZ [108, 115]\<rparr>
     @ replicate (BSIZE - 32) 0"

lemma length_demo_dir: "length demo_dir = BSIZE"
  by (simp add: demo_dir_def dirent_bytes_def DIRSIZ_def BSIZE_def)

lemma demo_dir_entries:
  assumes "\<forall>q < 32. file_byte v x q = demo_dir ! q"
  shows "dir_entry v x 0 = \<lparr>de_inum = 1, de_name = strncpy_bytes DIRSIZ [46]\<rparr>"
    "dir_entry v x 16 = \<lparr>de_inum = 9, de_name = strncpy_bytes DIRSIZ [108, 115]\<rparr>"
  using dir_entry_bytes [of 32 v x demo_dir 0] dir_entry_bytes [of 32 v x demo_dir 16] assms length_demo_dir
  by (simp_all add: BSIZE_def) (simp_all add: demo_dir_def)

theorem dirlookup_finds_first_entry_witness:
  "\<exists>s t. binit (demo_fs (\<lambda>_. demo_dir) ((demo_inode 32 (100 # replicate 12 0))\<lparr>i_type := T_DIR\<rparr>)) = Ok () s
     \<and> dirlookup 0 [108, 115] (upd_inode 1 (\<lambda>x. x\<lparr>i_ref := 0\<rparr>) s) = Ok (Some (1, 16)) t \<and> i_inum (inodes t 1) = 9"
proof -
  let ?x = "(demo_inode 32 (100 # replicate 12 0))\<lparr>i_type := T_DIR\<rparr>"
  obtain s where s: "binit (demo_fs (\<lambda>_. demo_dir) ?x) = Ok () s" "binv s 3" "view s = \<lparr>vk = \<lambda>_. demo_dir, vd = \<lambda>_. demo_dir, vr = (\<lambda>_. 0), vl = (\<lambda>_. False)\<rparr>"
    "sb s = demo_sb" "inodes s = (\<lambda>_. ?x)" "outstanding s = 1" "lh_n s = 0" "log_size s = 30" by (rule demo_fs_boot)
  let ?u = "upd_inode 1 (\<lambda>x. x\<lparr>i_ref := 0\<rparr>) s"
  have u: "binv ?u 3" "view ?u = view s" "inodes ?u 0 = ?x" using s(2,5) by simp_all
  have fb: "file_byte (view s) ?x q = demo_dir ! q" if "q < 32" for q
    using that by (simp add: file_byte_def s(3) BSIZE_def)
  note e = demo_dir_entries [of "view s" ?x]
  have bk: "block_ok (view s) ?x (q div BSIZE)" if "q < 32" for q
    using that by (simp add: s(3) demo_inode_def block_ok_def file_block_def room_def layout_defs length_demo_dir)
  have sz: "unat (i_size ?x) = 32" by (simp add: demo_inode_def)
  have f: "dir_find (view s) ?x [108, 115] = Some 16"
    unfolding dir_find_def sz using e fb by (simp add: dir_offsets_def upt_rec entry_named_def dir_name_def strncpy_bytes_def DIRSIZ_def)
  obtain t where t: "binv t 3" "bio_frame ?u t"
    "dirlookup 0 [108, 115] ?u = bindK (iget ROOTDEV 9 t) (\<lambda>ip s2. Ok (Some (ip, 16)) s2)"
    using dirlookup_finds_first_entry [OF u(1), of 0 "[108, 115]", unfolded u(2,3) f] bk e(2) fb sz by (auto simp: demo_inode_def)
  have it: "inodes t = (\<lambda>_. ?x)(1 := ?x\<lparr>i_ref := 0\<rparr>)" using bio_frame_fs(2) [OF t(2)] by (simp add: s(5) upd_inode_def)
  obtain i where i: "i < NINODE" "i_ref (inodes t i) = 0"
    "iget ROOTDEV 9 t = Ok i (t\<lparr>inodes := (inodes t)(i := (inodes t i)\<lparr>i_dev := ROOTDEV, i_inum := 9, i_ref := 1, i_valid := False\<rparr>)\<rparr>)"
    by (rule iget_fresh [of t ROOTDEV 9 1]) (use t(1) in \<open>simp_all add: it binv_def demo_inode_def NINODE_def\<close>)
  have "i = 1" using i(2) by (simp add: it demo_inode_def split: if_splits)
  then show ?thesis using s(1) t(3) i(3) by auto
qed

end
