(* ===== verification/Xv6_MkfsSpec.thy ===== *)
theory Xv6_MkfsSpec
  imports Xv6_Mkfs Xv6_DirSpec
begin

text \<open>
  The image that \<open>mkfs\<close> builds. The blocks behind the metadata belong to files: \<open>file_rel\<close> relates the inode of a file and the
  blocks of the image to its contents, with a ghost function from the slots of the file (its blocks and the indirect
  block) to the blocks of the image; \<open>store\<close> says that the blocks of the files are distinct and allocated in order, and that the rest is
  zero. Appending to a file, allocating an inode and writing the bitmap are described on these.
\<close>

section \<open>Words and sectors\<close>

lemma xshort_id [simp]: "xshort x = x"
proof -
  have "xshort x = word_of_bytes (bytes_of_word 2 x)" by (simp add: xshort_def bytes_of_word_def upt_rec)
  then show ?thesis by simp
qed

lemma xint_id [simp]: "xint x = x"
proof -
  have "xint x = word_of_bytes (bytes_of_word 4 x)" by (simp add: xint_def bytes_of_word_def upt_rec)
  then show ?thesis by simp
qed

lemma unat_small: "k < 2 ^ 32 \<Longrightarrow> unat (of_nat k :: uint) = k"
  by (simp add: unsigned_of_nat take_bit_nat_eq_self)

lemma unat_small16: "k < 2 ^ 16 \<Longrightarrow> unat (of_nat k :: uint16) = k"
  by (simp add: unsigned_of_nat take_bit_nat_eq_self)

lemma sector_of_nat [simp]: "k < FSSIZE \<Longrightarrow> sector (of_nat k) = k"
proof -
  assume k: "k < FSSIZE"
  have "(of_nat k :: uint) * of_nat BSIZE = of_nat (k * BSIZE)" by simp
  moreover have "k * BSIZE < 2 ^ 32" using k by (simp add: FSSIZE_def BSIZE_def)
  ultimately have "unat ((of_nat k :: uint) * of_nat BSIZE) = k * BSIZE" using unat_small by metis
  then show ?thesis by (simp add: sector_def BSIZE_def)
qed

lemma mkfs_layout:
  "nmeta = 46" "mkfs_sb = \<lparr>sb_magic = FSMAGIC, sb_size = 1000, sb_nblocks = 954, sb_ninodes = 200, sb_nlog = 30, sb_logstart = 2,
     sb_inodestart = 32, sb_bmapstart = 45\<rparr>"
  by (simp_all add: mkfs_sb_def layout_defs)

lemma get32_zeroes: "k + 4 \<le> BSIZE \<Longrightarrow> get32 zeroes k = 0"
proof -
  assume "k + 4 \<le> BSIZE"
  then have "sub_bytes zeroes k 4 = [0, 0, 0, 0]" by (simp add: sub_bytes_def zeroes_def min_def numeral_eq_Suc)
  then show ?thesis by (simp add: get32_def)
qed

lemma length_zeroes [simp]: "length zeroes = BSIZE"
  by (simp add: zeroes_def)

section \<open>Files in the image\<close>

text \<open>How many blocks \<open>n\<close> bytes take, and how many with the indirect block.\<close>

definition nblk :: "nat \<Rightarrow> nat" where
  "nblk n = (n + BSIZE - 1) div BSIZE"

definition need :: "nat \<Rightarrow> nat" where
  "need k = k + (if k > NDIRECT then 1 else 0)"

definition slots :: "nat \<Rightarrow> nat option set" where
  "slots k = Some ` {..<k} \<union> (if k > NDIRECT then {None} else {})"

definition fblock :: "block list \<Rightarrow> dinode \<Rightarrow> nat \<Rightarrow> uint" where
  "fblock im d k = (if k < NDIRECT then di_addrs d ! k else get32 (im ! unat (di_addrs d ! NDIRECT)) (4 * (k - NDIRECT)))"

definition file_rel :: "block list \<Rightarrow> (nat option \<Rightarrow> nat) \<Rightarrow> dinode \<Rightarrow> byte list \<Rightarrow> nat \<Rightarrow> bool" where
  "file_rel im a d c k \<longleftrightarrow> length (di_addrs d) = NDIRECT + 1 \<and> k \<le> MAXFILE \<and> length c \<le> k * BSIZE
     \<and> (\<forall>j < k. fblock im d j = of_nat (a (Some j)))
     \<and> (\<forall>j. k \<le> j \<longrightarrow> j < NDIRECT \<longrightarrow> di_addrs d ! j = 0)
     \<and> di_addrs d ! NDIRECT = (if k > NDIRECT then of_nat (a None) else 0)
     \<and> (k > NDIRECT \<longrightarrow> (\<forall>j. k \<le> j \<longrightarrow> j < MAXFILE \<longrightarrow> fblock im d j = 0))
     \<and> (\<forall>q < k * BSIZE. im ! a (Some (q div BSIZE)) ! (q mod BSIZE) = (if q < length c then c ! q else 0))"

text \<open>The image has \<open>FSSIZE\<close> blocks, and those from \<open>fb\<close> on are zero.\<close>

definition blank_from :: "block list \<Rightarrow> nat \<Rightarrow> bool" where
  "blank_from im fb \<longleftrightarrow> length im = FSSIZE \<and> (\<forall>b \<in> set im. length b = BSIZE) \<and> nmeta \<le> fb \<and> fb \<le> FSSIZE
     \<and> (\<forall>k. fb \<le> k \<longrightarrow> k < FSSIZE \<longrightarrow> im ! k = zeroes)"

definition placed :: "nat \<Rightarrow> (nat option \<Rightarrow> nat) \<Rightarrow> nat \<Rightarrow> bool" where
  "placed fb a k \<longleftrightarrow> inj_on a (slots k) \<and> a ` slots k \<subseteq> {nmeta..<fb}"

text \<open>A file depends on its own blocks only.\<close>

lemma file_rel_frame:
  assumes f: "file_rel im a d c k" and p: "placed fb a k" "fb \<le> FSSIZE" and e: "\<forall>x \<in> a ` slots k. im' ! x = im ! x"
  shows "file_rel im' a d c k"
proof -
  have b: "im' ! a (Some (q div BSIZE)) = im ! a (Some (q div BSIZE))" if "q < k * BSIZE" for q
  proof -
    have "q div BSIZE < k" using that by (simp add: BSIZE_def less_mult_imp_div_less)
    then show ?thesis using e by (simp add: slots_def)
  qed
  have i: "im' ! unat (di_addrs d ! NDIRECT) = im ! unat (di_addrs d ! NDIRECT)" if "k > NDIRECT"
  proof -
    have "a None < FSSIZE" using p that by (auto simp: placed_def slots_def)
    then have "unat (di_addrs d ! NDIRECT) = a None" using f that by (simp add: file_rel_def unat_small FSSIZE_def)
    then show ?thesis using e that by (simp add: slots_def)
  qed
  have fb: "fblock im' d j = fblock im d j" if "k > NDIRECT \<or> j < NDIRECT" for j using that i by (auto simp: fblock_def)
  show ?thesis using f unfolding file_rel_def
  proof (elim conjE, intro conjI)
    assume "\<forall>j < k. fblock im d j = of_nat (a (Some j))"
    then show "\<forall>j < k. fblock im' d j = of_nat (a (Some j))" using fb by (metis less_trans not_less_iff_gr_or_eq)
  qed (use b fb in auto)
qed

lemma blank_fresh: "blank_from im fb \<Longrightarrow> fb \<le> k \<Longrightarrow> k < FSSIZE \<Longrightarrow> im ! k = zeroes"
  by (simp add: blank_from_def)

lemma of_nat_block [simp]: "0 < k \<Longrightarrow> k < FSSIZE \<Longrightarrow> (of_nat k :: uint) \<noteq> 0"
  using unat_small [of k] by (auto simp: FSSIZE_def)

lemma unat_block [simp]: "k < FSSIZE \<Longrightarrow> unat (of_nat k :: uint) = k"
  by (rule unat_small) (simp add: FSSIZE_def)

lemma placedD: "placed fb a k \<Longrightarrow> x \<in> slots k \<Longrightarrow> nmeta \<le> a x \<and> a x < fb"
  by (auto simp: placed_def)

lemma rsect_block: "length (image s) = FSSIZE \<Longrightarrow> k < FSSIZE \<Longrightarrow> rsect (of_nat k) s = Ok (image s ! k) s"
  by (simp add: rsect_def)

lemma wsect_block:
  "length (image s) = FSSIZE \<Longrightarrow> k < FSSIZE \<Longrightarrow> \<forall>i. writable s i \<Longrightarrow> wsect (of_nat k) b s = Ok () (s\<lparr>image := (image s)[k := b]\<rparr>)"
  by (simp add: wsect_def)

lemma iappend_block_old:
  assumes f: "file_rel (image s) a d c k" "placed fb a k" "fb \<le> FSSIZE" and l: "length (image s) = FSSIZE" and j: "j < k"
  shows "iappend_block j d s = Ok (d, of_nat (a (Some j))) s"
proof -
  have aj: "nmeta \<le> a (Some j)" "a (Some j) < fb" using placedD [OF f(2), of "Some j"] j by (auto simp: slots_def)
  then have nz: "(of_nat (a (Some j)) :: uint) \<noteq> 0" using f(3) by (intro of_nat_block) (auto simp: mkfs_layout)
  have fj: "fblock (image s) d j = of_nat (a (Some j))" using f(1) j by (simp add: file_rel_def)
  show ?thesis
  proof (cases "j < NDIRECT")
    case True
    then show ?thesis using fj nz by (simp add: iappend_block_def fblock_def)
  next
    case False
    then have k: "k > NDIRECT" using j by simp
    then have an: "nmeta \<le> a None" "a None < FSSIZE" using placedD [OF f(2), of None] f(3) by (auto simp: slots_def)
    have ad: "di_addrs d ! NDIRECT = of_nat (a None)" using f(1) k by (simp add: file_rel_def)
    have nz2: "(of_nat (a None) :: uint) \<noteq> 0" using an by (intro of_nat_block) (auto simp: mkfs_layout)
    show ?thesis using False fj nz nz2 an ad rsect_block [OF l an(2)] by (simp add: iappend_block_def fblock_def Let_def)
  qed
qed

lemma slots_Suc: "slots (Suc k) = insert (Some k) (slots k) \<union> (if k = NDIRECT then {None} else {})"
  by (auto simp: slots_def lessThan_Suc)

lemma blank_from_mono: "blank_from im fb \<Longrightarrow> fb \<le> fb' \<Longrightarrow> fb' \<le> FSSIZE \<Longrightarrow> blank_from im fb'"
  by (auto simp: blank_from_def)

lemma alloc_direct:
  assumes f: "file_rel im a d c k" "placed fb a k" "blank_from im fb" and k: "k < NDIRECT" and fb: "fb < FSSIZE"
  shows "file_rel im (a(Some k := fb)) (d\<lparr>di_addrs := (di_addrs d)[k := of_nat fb]\<rparr>) c (Suc k)"
    "placed (Suc fb) (a(Some k := fb)) (Suc k)"
proof -
  have z: "im ! fb = zeroes" using blank_fresh [OF f(3)] fb by simp
  have l: "length (di_addrs d) = NDIRECT + 1" "length c \<le> k * BSIZE" using f(1) by (auto simp: file_rel_def)
  have con: "im ! (a(Some k := fb)) (Some (q div BSIZE)) ! (q mod BSIZE) = (if q < length c then c ! q else 0)" if q: "q < Suc k * BSIZE" for q
  proof (cases "q < k * BSIZE")
    case True
    then have "q div BSIZE < k" by (simp add: less_mult_imp_div_less)
    then show ?thesis using f(1) True by (simp add: file_rel_def)
  next
    case False
    then have "q div BSIZE = k" using q by (simp add: BSIZE_def)
    then show ?thesis using False z l(2) by (simp add: zeroes_def BSIZE_def)
  qed
  show "file_rel im (a(Some k := fb)) (d\<lparr>di_addrs := (di_addrs d)[k := of_nat fb]\<rparr>) c (Suc k)"
    using f(1) k l con unfolding file_rel_def
    by (auto simp: fblock_def nth_list_update less_Suc_eq MAXFILE_def)
  show "placed (Suc fb) (a(Some k := fb)) (Suc k)"
    using f(2,3) k unfolding placed_def slots_Suc
    by (auto simp: inj_on_def blank_from_def slots_def less_Suc_eq image_subset_iff)
qed

lemma inj_on_insertI: "inj_on f A \<Longrightarrow> f x \<notin> f ` A \<Longrightarrow> inj_on f (insert x A)"
  by (simp add: inj_on_insert) blast

lemma alloc_indirect:
  fixes a :: "nat option \<Rightarrow> nat" and d :: dinode
  assumes f: "file_rel im a d c k" "placed fb a k" "blank_from im fb" and k: "NDIRECT \<le> k" "k < MAXFILE"
  defines "ib \<equiv> if k = NDIRECT then fb else a None" and "nb \<equiv> if k = NDIRECT then Suc fb else fb"
  defines "d' \<equiv> if k = NDIRECT then d\<lparr>di_addrs := (di_addrs d)[NDIRECT := of_nat fb]\<rparr> else d"
    and "im' \<equiv> im[ib := put32 (4 * (k - NDIRECT)) (of_nat nb) (im ! ib)]" and "a' \<equiv> a(None := ib, Some k := nb)"
  assumes nb: "nb < FSSIZE"
  shows "file_rel im' a' d' c (Suc k)" "placed (Suc nb) a' (Suc k)" "blank_from im' (Suc nb)" "get32 (im ! ib) (4 * (k - NDIRECT)) = 0"
    "nmeta \<le> ib" "ib < FSSIZE" "di_addrs d' ! NDIRECT = of_nat ib" "get32 (im' ! ib) (4 * (k - NDIRECT)) = of_nat nb"
proof -
  have l: "length im = FSSIZE" "length (di_addrs d) = NDIRECT + 1" "length c \<le> k * BSIZE" "nmeta \<le> fb"
    using f by (auto simp: file_rel_def blank_from_def)
  have an: "nmeta \<le> a None \<and> a None < fb" if "k \<noteq> NDIRECT"
    using that k placedD [OF f(2), of None] by (simp add: slots_def)
  then show ib: "nmeta \<le> ib" "ib < FSSIZE" using l(4) nb by (auto simp: ib_def nb_def split: if_splits)
  have ibnb: "ib < nb" using an by (auto simp: ib_def nb_def)
  have lb: "length (im ! ib) = BSIZE" using f(3) ib l(1) by (simp add: blank_from_def)
  have z: "im ! nb = zeroes" using blank_fresh [OF f(3)] nb by (auto simp: nb_def split: if_splits)
  have kk: "4 * (j - NDIRECT) + 4 \<le> BSIZE" if "j < MAXFILE" for j using that by (simp add: layout_defs)
  show da: "di_addrs d' ! NDIRECT = of_nat ib" using f(1) k l(2) by (auto simp: d'_def ib_def file_rel_def)
  have g0: "get32 (im ! ib) (4 * (j - NDIRECT)) = 0" if j: "k \<le> j" "j < MAXFILE" for j
  proof (cases "k = NDIRECT")
    case True
    then have "im ! ib = zeroes" using blank_fresh [OF f(3), of fb] nb by (simp add: ib_def nb_def)
    then show ?thesis using get32_zeroes [OF kk [OF j(2)]] by simp
  next
    case False
    then have "unat (di_addrs d ! NDIRECT) = ib" using da ib by (simp add: d'_def)
    moreover have "fblock im d j = 0" using f(1) j k False by (simp add: file_rel_def)
    ultimately show ?thesis using k j by (simp add: fblock_def)
  qed
  show "get32 (im ! ib) (4 * (k - NDIRECT)) = 0" using g0 [of k] k by simp
  show gk: "get32 (im' ! ib) (4 * (k - NDIRECT)) = of_nat nb" using kk [OF k(2)] lb ib(2) l(1) by (simp add: im'_def)
  have go: "get32 (im' ! ib) (4 * (j - NDIRECT)) = get32 (im ! ib) (4 * (j - NDIRECT))" if "j \<noteq> k" "NDIRECT \<le> j" "j < MAXFILE" for j
  proof -
    have "4 * (j - NDIRECT) + 4 \<le> 4 * (k - NDIRECT) \<or> 4 * (k - NDIRECT) + 4 \<le> 4 * (j - NDIRECT)" using that k by arith
    then show ?thesis using kk that(3) kk [OF k(2)] lb ib(2) l(1) by (simp add: im'_def get32_put32_other)
  qed
  have fb1: "fblock im' d' j = of_nat (a' (Some j))" if j: "j < Suc k" for j
  proof (cases "j < NDIRECT")
    case True
    then have "fblock im' d' j = fblock im d j" by (simp add: fblock_def d'_def)
    then show ?thesis using True f(1) k by (simp add: file_rel_def a'_def)
  next
    case False
    then have e: "fblock im' d' j = get32 (im' ! ib) (4 * (j - NDIRECT))" using da ib(2) by (simp add: fblock_def)
    show ?thesis
    proof (cases "j = k")
      case True
      then show ?thesis using e gk by (simp add: a'_def)
    next
      case jk: False
      then have kn: "k \<noteq> NDIRECT" "j < k" using j False by auto
      have "fblock im d j = of_nat (a (Some j))" using f(1) kn by (simp add: file_rel_def)
      moreover have "unat (di_addrs d ! NDIRECT) = ib" using da ib(2) kn by (simp add: d'_def)
      ultimately show ?thesis using e go [OF jk] False kn k by (simp add: fblock_def a'_def)
    qed
  qed
  have fb2: "fblock im' d' j = 0" if j: "Suc k \<le> j" "j < MAXFILE" for j
    using da ib(2) go [of j] g0 [of j] j k by (simp add: fblock_def)
  have old: "a (Some j) \<noteq> ib" if "j < k" for j
    using that f(2) placedD [OF f(2), of "Some j"] k by (auto simp: ib_def placed_def slots_def inj_on_def)
  have con: "im' ! a' (Some (q div BSIZE)) ! (q mod BSIZE) = (if q < length c then c ! q else 0)" if q: "q < Suc k * BSIZE" for q
  proof (cases "q < k * BSIZE")
    case True
    then have j: "q div BSIZE < k" by (simp add: less_mult_imp_div_less)
    then show ?thesis using f(1) True old [OF j] by (simp add: file_rel_def a'_def im'_def)
  next
    case False
    then have "q div BSIZE = k" using q by (simp add: BSIZE_def)
    then show ?thesis using False z l(3) ibnb by (simp add: a'_def im'_def) (simp add: zeroes_def BSIZE_def)
  qed
  have dl: "length (di_addrs d') = NDIRECT + 1" using l(2) by (simp add: d'_def)
  have lc: "length c \<le> Suc k * BSIZE" using l(3) by simp
  have an': "a' None = ib" by (simp add: a'_def)
  show "file_rel im' a' d' c (Suc k)"
    unfolding file_rel_def using dl lc fb1 fb2 con da an' k by simp
  show "blank_from im' (Suc nb)"
    using f(3) nb ibnb lb kk [OF k(2)] ib(2) by (auto simp: blank_from_def im'_def nb_def dest!: set_update_subset_insert [THEN subsetD])
  have sl: "slots (Suc k) = insert None (insert (Some k) (Some ` {..<k}))" using k by (auto simp: slots_def lessThan_Suc)
  have av: "nmeta \<le> a (Some j)" "a (Some j) < fb" if "j < k" for j using placedD [OF f(2), of "Some j"] that by (auto simp: slots_def)
  have nbfb: "fb \<le> nb" by (simp add: nb_def)
  have im_a: "a' ` Some ` {..<k} = a ` Some ` {..<k}" by (auto simp: a'_def)
  have "inj_on a (Some ` {..<k})" using f(2) by (auto simp: placed_def slots_def intro: inj_on_subset)
  then have "inj_on a' (Some ` {..<k})" by (rule inj_on_cong [THEN iffD1, rotated]) (auto simp: a'_def)
  moreover have "nb \<noteq> a (Some j)" if "j < k" for j using av(2) [OF that] nbfb by simp
  then have "a' (Some k) \<notin> a ` Some ` {..<k}" "a' None \<notin> a ` Some ` {..<k}" "a' None \<noteq> a' (Some k)"
    using old ibnb by (auto simp: a'_def)
  ultimately have "inj_on a' (slots (Suc k))" unfolding sl by (intro inj_on_insertI) (simp_all add: im_a)
  moreover have "a' x \<in> {nmeta..<Suc nb}" if "x \<in> slots (Suc k)" for x
    using that ib(1) ibnb nbfb l(4) av by (auto simp: sl a'_def intro: less_SucI less_le_trans)
  ultimately show "placed (Suc nb) a' (Suc k)" by (auto simp: placed_def)
qed

text \<open>Storing bytes at the end of the contents, within the last block.\<close>

lemma file_rel_write:
  assumes f: "file_rel im a d c k" "placed fb a k" "blank_from im fb" and j: "length c div BSIZE < k"
    and bs: "length c mod BSIZE + length bs \<le> BSIZE"
  defines "x \<equiv> a (Some (length c div BSIZE))"
  defines "im' \<equiv> im[x := put_at (im ! x) (length c mod BSIZE) bs]"
  shows "file_rel im' a d (c @ bs) k" "blank_from im' fb" "nmeta \<le> x" "x < fb"
proof -
  let ?j = "length c div BSIZE" and ?o = "length c mod BSIZE"
  have c: "length c = ?j * BSIZE + ?o" by simp
  show x: "nmeta \<le> x" "x < fb" using placedD [OF f(2), of "Some ?j"] j by (auto simp: x_def slots_def)
  have l: "length im = FSSIZE" "fb \<le> FSSIZE" using f(3) by (auto simp: blank_from_def)
  have lb: "length (im ! x) = BSIZE" using f(3) x l by (simp add: blank_from_def)
  have other: "a y \<noteq> x" if "y \<in> slots k" "y \<noteq> Some ?j" for y
  proof
    assume "a y = x"
    moreover have "Some ?j \<in> slots k" using j by (simp add: slots_def)
    ultimately show False using that f(2) inj_onD [of a "slots k" y "Some ?j"] by (simp add: x_def placed_def)
  qed
  have step: "u * BSIZE + BSIZE \<le> v * BSIZE" if "u < v" for u v :: nat using mult_le_mono1 [of "Suc u" v BSIZE] that by simp
  have len: "length (c @ bs) \<le> k * BSIZE" using step [OF j] bs c unfolding length_append by linarith
  have con: "im' ! a (Some (q div BSIZE)) ! (q mod BSIZE) = (if q < length (c @ bs) then (c @ bs) ! q else 0)" if q: "q < k * BSIZE" for q
  proof -
    have o: "im ! a (Some (q div BSIZE)) ! (q mod BSIZE) = (if q < length c then c ! q else 0)" using f(1) q by (simp add: file_rel_def)
    have qk: "q div BSIZE < k" using q by (simp add: less_mult_imp_div_less)
    have qm: "q = q div BSIZE * BSIZE + q mod BSIZE" "q mod BSIZE < BSIZE" by (simp_all add: BSIZE_def)
    show ?thesis
    proof (cases "q div BSIZE = ?j")
      case True
      have q1: "q = ?j * BSIZE + q mod BSIZE" using qm(1) True by metis
      have e: "q < length c \<longleftrightarrow> q mod BSIZE < ?o" "q < length c + length bs \<longleftrightarrow> q mod BSIZE < ?o + length bs"
        "q - length c = q mod BSIZE - ?o" by (use q1 c in linarith)+
      have "im' ! a (Some (q div BSIZE)) = put_at (im ! x) ?o bs" using True x l by (simp add: im'_def x_def)
      then show ?thesis using o e True lb bs qm(2) by (auto simp: nth_put_at nth_append x_def)
    next
      case False
      have "q < length c \<longleftrightarrow> q < length (c @ bs)"
      proof (cases "q div BSIZE < ?j")
        case True
        from step [OF this] show ?thesis using qm c unfolding length_append by linarith
      next
        case f: False
        then have "?j < q div BSIZE" using False by simp
        from step [OF this] show ?thesis using qm(1) c bs unfolding length_append by linarith
      qed
      moreover have "im' ! a (Some (q div BSIZE)) = im ! a (Some (q div BSIZE))"
        using other [of "Some (q div BSIZE)"] False qk by (simp add: im'_def slots_def)
      ultimately show ?thesis using o by (simp add: nth_append)
    qed
  qed
  have ind: "im' ! unat (di_addrs d ! NDIRECT) = im ! unat (di_addrs d ! NDIRECT)" if "k > NDIRECT"
  proof -
    have "a None < FSSIZE" "a None \<noteq> x" using placedD [OF f(2), of None] other [of None] that l(2) by (auto simp: slots_def)
    then show ?thesis using f(1) that by (simp add: file_rel_def im'_def)
  qed
  then have f1: "fblock im' d j = fblock im d j" if "k > NDIRECT \<or> j < NDIRECT" for j using that by (auto simp: fblock_def)
  then have f2: "fblock im' d j = fblock im d j" if "j < k" for j using that by (cases "k > NDIRECT") auto
  show "file_rel im' a d (c @ bs) k" using f(1) con len f1 f2 unfolding file_rel_def by auto
  show "blank_from im' fb"
    using f(3) x lb bs by (auto simp: blank_from_def im'_def length_put_at dest!: set_update_subset_insert [THEN subsetD])
qed

section \<open>All files together\<close>

definition store :: "block list \<Rightarrow> nat \<Rightarrow> nat \<Rightarrow> (nat \<Rightarrow> dinode) \<Rightarrow> (nat \<Rightarrow> byte list) \<Rightarrow> (nat \<Rightarrow> nat) \<Rightarrow> (nat \<Rightarrow> nat option \<Rightarrow> nat) \<Rightarrow> bool" where
  "store im fb N d c k a \<longleftrightarrow> blank_from im fb \<and> (\<forall>i < N. file_rel im (a i) (d i) (c i) (k i) \<and> placed fb (a i) (k i))
     \<and> (\<forall>i < N. \<forall>j < N. i \<noteq> j \<longrightarrow> a i ` slots (k i) \<inter> a j ` slots (k j) = {}) \<and> fb = nmeta + (\<Sum>i < N. need (k i))"

lemma storeD:
  assumes "store im fb N d c k a"
  shows "blank_from im fb" "i < N \<Longrightarrow> file_rel im (a i) (d i) (c i) (k i)" "i < N \<Longrightarrow> placed fb (a i) (k i)"
    "i < N \<Longrightarrow> j < N \<Longrightarrow> i \<noteq> j \<Longrightarrow> a i ` slots (k i) \<inter> a j ` slots (k j) = {}" "fb = nmeta + (\<Sum>i < N. need (k i))"
  using assms unfolding store_def by blast+

lemma need_mono: "k \<le> l \<Longrightarrow> need k \<le> need l"
  by (auto simp: need_def)

lemma store_upd:
  assumes s: "store im fb N d c k a" and i: "i < N"
    and n: "file_rel im' a' d' c' k'" "placed fb' a' k'" "blank_from im' fb'" "k i \<le> k'" "fb' = fb + (need k' - need (k i))"
    and e: "\<forall>x < fb. x \<notin> a i ` slots (k i) \<longrightarrow> im' ! x = im ! x" and sub: "a' ` slots k' \<subseteq> a i ` slots (k i) \<union> {fb..<fb'}"
  shows "store im' fb' N (d(i := d')) (c(i := c')) (k(i := k')) (a(i := a'))"
proof -
  have pl: "placed fb (a j) (k j)" if "j < N" for j using storeD(3) [OF s that] .
  have below: "a j ` slots (k j) \<subseteq> {nmeta..<fb}" if "j < N" for j using pl [OF that] by (simp add: placed_def)
  have dis: "a j ` slots (k j) \<inter> a l ` slots (k l) = {}" if "j < N" "l < N" "j \<noteq> l" for j l using storeD(4) [OF s that] .
  have le: "fb \<le> fb'" "fb' \<le> FSSIZE" "fb \<le> FSSIZE" using n storeD(1) [OF s] by (auto simp: blank_from_def)
  have other: "file_rel im' (a j) (d j) (c j) (k j)" if j: "j < N" "j \<noteq> i" for j
  proof (rule file_rel_frame [where fb = fb])
    show "file_rel im (a j) (d j) (c j) (k j)" using storeD(2) [OF s j(1)] .
    show "\<forall>x \<in> a j ` slots (k j). im' ! x = im ! x"
    proof
      fix x
      assume x: "x \<in> a j ` slots (k j)"
      have "x < fb" using subsetD [OF below [OF j(1)] x] by simp
      moreover have "x \<notin> a i ` slots (k i)" using dis [OF j(1) i j(2)] x by blast
      ultimately show "im' ! x = im ! x" using e by blast
    qed
  qed (use pl [OF j(1)] le in auto)
  have pl': "placed fb' (a j) (k j)" if "j < N" for j using pl [OF that] le(1) by (auto simp: placed_def)
  have dj: "a' ` slots k' \<inter> a j ` slots (k j) = {}" if "j < N" "j \<noteq> i" for j
  proof -
    have "{fb..<fb'} \<inter> a j ` slots (k j) = {}" using below [OF that(1)] by (auto dest: subsetD)
    then show ?thesis using sub dis [OF that(1) i that(2)] by blast
  qed
  have "(\<Sum>j < N. need ((k(i := k')) j)) = (\<Sum>j \<in> {..<N} - {i}. need (k j)) + need k'"
    using i by (simp add: sum.remove [of _ i])
  moreover have "(\<Sum>j < N. need (k j)) = (\<Sum>j \<in> {..<N} - {i}. need (k j)) + need (k i)" using i by (simp add: sum.remove [of _ i])
  ultimately have "fb' = nmeta + (\<Sum>j < N. need ((k(i := k')) j))" using n(5) need_mono [OF n(4)] storeD(5) [OF s] by simp
  then show ?thesis unfolding store_def using n(1-3) other pl' dj dis by (intro conjI allI impI) (auto simp: Int_commute)
qed

lemma store_frame:
  assumes "store im fb N d c k a" "length im' = length im" "\<forall>b \<in> set im'. length b = BSIZE" "\<forall>x. nmeta \<le> x \<longrightarrow> x < FSSIZE \<longrightarrow> im' ! x = im ! x"
  shows "store im' fb N d c k a"
proof -
  have b: "blank_from im fb" using storeD(1) [OF assms(1)] .
  then have "blank_from im' fb" using assms by (simp add: blank_from_def)
  moreover have "file_rel im' (a i) (d i) (c i) (k i)" if "i < N" for i
  proof (rule file_rel_frame)
    show "file_rel im (a i) (d i) (c i) (k i)" "placed fb (a i) (k i)" "fb \<le> FSSIZE"
      using storeD(2,3) [OF assms(1) that] b by (auto simp: blank_from_def)
    then show "\<forall>x \<in> a i ` slots (k i). im' ! x = im ! x" using assms(4) by (fastforce simp: placed_def)
  qed
  ultimately show ?thesis using assms(1) unfolding store_def by blast
qed

section \<open>Appending\<close>

lemma nblk_parts:
  assumes "r \<le> BSIZE"
  shows "nblk (j * BSIZE + r) = j + (if r = 0 then 0 else 1)"
proof -
  have e: "(r + BSIZE - 1) div BSIZE = (if r = 0 then 0 else 1)"
  proof (cases "r = 0")
    case False
    then have "(r + BSIZE - 1) div BSIZE = 1" using assms by (intro div_nat_eqI) (auto simp: BSIZE_def)
    then show ?thesis using False by simp
  qed (simp add: BSIZE_def)
  have "j * BSIZE + r + BSIZE - 1 = (r + BSIZE - 1) + j * BSIZE" by (simp add: BSIZE_def)
  then have "nblk (j * BSIZE + r) = j + (r + BSIZE - 1) div BSIZE" by (simp add: nblk_def BSIZE_def)
  then show ?thesis by (simp only: e)
qed

lemma nblk_append:
  "nblk n = n div BSIZE + (if n mod BSIZE = 0 then 0 else 1)"
  "0 < m \<Longrightarrow> n mod BSIZE + m \<le> BSIZE \<Longrightarrow> nblk (n + m) = Suc (n div BSIZE)"
proof -
  have "n mod BSIZE \<le> BSIZE" by (simp add: BSIZE_def)
  from nblk_parts [OF this, of "n div BSIZE"] show "nblk n = n div BSIZE + (if n mod BSIZE = 0 then 0 else 1)" by simp
  show "nblk (n + m) = Suc (n div BSIZE)" if "0 < m" "n mod BSIZE + m \<le> BSIZE"
  proof -
    have "n + m = n div BSIZE * BSIZE + (n mod BSIZE + m)" by simp
    then show ?thesis using nblk_parts [OF that(2), of "n div BSIZE"] that(1) by simp
  qed
qed

text \<open>What a change of the image by \<open>iappend\<close> leaves alone.\<close>

definition mk_frame :: "mkfs \<Rightarrow> mkfs \<Rightarrow> bool" where
  "mk_frame s t \<longleftrightarrow> writable t = writable s \<and> msb t = msb s \<and> freeinode t = freeinode s \<and> length (image t) = length (image s)
     \<and> (\<forall>x < nmeta. image t ! x = image s ! x)"

lemma mk_frame_trans: "mk_frame s t \<Longrightarrow> mk_frame t u \<Longrightarrow> mk_frame s u"
  by (simp add: mk_frame_def)

definition stored :: "mkfs \<Rightarrow> nat \<Rightarrow> (nat \<Rightarrow> dinode) \<Rightarrow> (nat \<Rightarrow> byte list) \<Rightarrow> (nat \<Rightarrow> nat) \<Rightarrow> (nat \<Rightarrow> nat option \<Rightarrow> nat) \<Rightarrow> bool" where
  "stored s N d c k a \<longleftrightarrow> (\<forall>i. writable s i) \<and> store (image s) (unat (freeblock s)) N d c k a"

text \<open>Allocating the next block of a file.\<close>

lemma iappend_block_new:
  fixes s :: mkfs
  assumes f: "file_rel (image s) a d c k" "placed fb a k" "blank_from (image s) fb" and w: "\<forall>i. writable s i"
    and fb: "freeblock s = of_nat fb" "fb' = fb + (need (Suc k) - need k)" "fb' \<le> FSSIZE" and k: "k < MAXFILE"
  obtains d' a' im' where "iappend_block k d s = Ok (d', of_nat (a' (Some k))) (s\<lparr>image := im', freeblock := of_nat fb'\<rparr>)"
    "file_rel im' a' d' c (Suc k)" "placed fb' a' (Suc k)" "blank_from im' fb'"
    "\<forall>x < fb. x \<notin> a ` slots k \<longrightarrow> im' ! x = image s ! x" "a' ` slots (Suc k) \<subseteq> a ` slots k \<union> {fb..<fb'}"
    "d' = d\<lparr>di_addrs := di_addrs d'\<rparr>"
proof (cases "k < NDIRECT")
  case True
  have fb': "fb' = Suc fb" "fb < FSSIZE" using True fb by (simp_all add: need_def)
  have z: "di_addrs d ! k = 0" "length (di_addrs d) = NDIRECT + 1" using f(1) True by (auto simp: file_rel_def)
  show ?thesis
  proof (rule that [where a' = "a(Some k := fb)"])
    show "iappend_block k d s = Ok (d\<lparr>di_addrs := (di_addrs d)[k := of_nat fb]\<rparr>, of_nat ((a(Some k := fb)) (Some k)))
        (s\<lparr>image := image s, freeblock := of_nat fb'\<rparr>)"
      using True z fb by (simp add: iappend_block_def fb'(1) add.commute)
  qed (use alloc_direct [OF f True fb'(2)] blank_from_mono [OF f(3)] fb' fb(3) True in \<open>auto simp: slots_Suc\<close>)
next
  case False
  define ib where "ib = (if k = NDIRECT then fb else a None)"
  define nb where "nb = (if k = NDIRECT then Suc fb else fb)"
  have nb: "fb' = Suc nb" "nb < FSSIZE" using False fb by (auto simp: need_def nb_def)
  have kn: "NDIRECT \<le> k" using False by simp
  note a = alloc_indirect [OF f kn k, folded ib_def nb_def, OF nb(2)]
  have l: "length (image s) = FSSIZE" using f(3) by (simp add: blank_from_def)
  have z: "di_addrs d ! NDIRECT = (if k = NDIRECT then 0 else of_nat ib)" using f(1) kn by (auto simp: file_rel_def ib_def)
  have nz: "(of_nat ib :: uint) \<noteq> 0" using a(5,6) by (intro of_nat_block) (auto simp: mkfs_layout)
  have sl: "slots (Suc k) = insert None (insert (Some k) (Some ` {..<k}))" "Some ` {..<k} \<subseteq> slots k" "k \<noteq> NDIRECT \<Longrightarrow> None \<in> slots k"
    using kn by (auto simp: slots_def lessThan_Suc)
  let ?a = "a(None := ib, Some k := nb)" and ?k = "4 * (k - NDIRECT)"
    and ?d = "if k = NDIRECT then d\<lparr>di_addrs := (di_addrs d)[NDIRECT := of_nat fb]\<rparr> else d"
  let ?im = "(image s)[ib := put32 ?k (of_nat nb) (image s ! ib)]"
  have la: "length (di_addrs d) = NDIRECT + 1" using f(1) by (simp add: file_rel_def)
  have "iappend_block k d s = Ok (?d, of_nat nb) (s\<lparr>image := ?im, freeblock := of_nat fb'\<rparr>)"
  proof (cases "k = NDIRECT")
    case True
    then have e: "ib = fb" "nb = Suc fb" by (simp_all add: ib_def nb_def)
    show ?thesis using a(4,6,8) z la l w fb(1) nz kn
      by (simp add: iappend_block_def True e Let_def rsect_def wsect_def nb(1); simp add: algebra_simps)
  next
    case kk: False
    then have e: "nb = fb" by (simp add: nb_def)
    show ?thesis using a(4,6,8) z la l w fb(1) nz kn kk
      by (simp add: iappend_block_def e Let_def rsect_def wsect_def nb(1); simp add: algebra_simps)
  qed
  moreover have "\<forall>x < fb. x \<notin> a ` slots k \<longrightarrow> ?im ! x = image s ! x"
  proof (intro allI impI)
    fix x
    assume "x < fb" "x \<notin> a ` slots k"
    then have "x \<noteq> ib" using sl(3) by (auto simp: ib_def)
    then show "?im ! x = image s ! x" by simp
  qed
  moreover have "?a ` slots (Suc k) \<subseteq> a ` slots k \<union> {fb..<fb'}" using sl by (auto simp: ib_def nb nb_def)
  ultimately show ?thesis using a(1-3) nb(1) by (intro that [where a' = ?a and im' = ?im and d' = ?d]) simp_all
qed

text \<open>One turn of the loop of \<open>iappend\<close>: the block for the end of the file is found or allocated, and \<open>bs\<close> is stored in it.\<close>

lemma iappend_step:
  fixes s :: mkfs
  assumes st: "stored s N d c k a" and i: "i < N" and ki: "k i = nblk (length (c i))" and m: "length (c i) div BSIZE < MAXFILE"
    and bs: "0 < length bs" "length (c i) mod BSIZE + length bs \<le> BSIZE"
    and r: "unat (freeblock s) + (need (nblk (length (c i) + length bs)) - need (k i)) \<le> FSSIZE"
  obtains d' x s1 t a' where "iappend_block (length (c i) div BSIZE) (d i) s = Ok (d', x) s1" "rsect x s1 = Ok (image s1 ! unat x) s1"
    "wsect x (put_at (image s1 ! unat x) (length (c i) mod BSIZE) bs) s1 = Ok () t" "mk_frame s t"
    "stored t N (d(i := d')) (c(i := c i @ bs)) (k(i := nblk (length (c i @ bs)))) a'"
    "d' = (d i)\<lparr>di_addrs := di_addrs d'\<rparr>"
proof -
  let ?n = "length (c i)" and ?fb = "unat (freeblock s)"
  let ?j = "?n div BSIZE"
  note sD = storeD [OF st [unfolded stored_def, THEN conjunct2]]
  have w: "\<forall>i. writable s i" using st by (simp add: stored_def)
  have nk: "nblk (?n + length bs) = Suc ?j" using nblk_append(2) [OF bs] .
  obtain d' a' im fb' where 1: "iappend_block ?j (d i) s = Ok (d', of_nat (a' (Some ?j))) (s\<lparr>image := im, freeblock := of_nat fb'\<rparr>)"
    "file_rel im a' d' (c i) (Suc ?j)" "placed fb' a' (Suc ?j)" "blank_from im fb'"
    "\<forall>x < ?fb. x \<notin> a i ` slots (k i) \<longrightarrow> im ! x = image s ! x" "a' ` slots (Suc ?j) \<subseteq> a i ` slots (k i) \<union> {?fb..<fb'}"
    "fb' = ?fb + (need (Suc ?j) - need (k i))" "k i \<le> Suc ?j" "d' = (d i)\<lparr>di_addrs := di_addrs d'\<rparr>"
  proof (cases "?n mod BSIZE = 0")
    case True
    then have k: "k i = ?j" using ki nblk_append(1) [of ?n] by simp
    note f = sD(2) [OF i, unfolded k] sD(3) [OF i, unfolded k] sD(1)
    obtain d' a' im' where "iappend_block ?j (d i) s = Ok (d', of_nat (a' (Some ?j))) (s\<lparr>image := im', freeblock := of_nat (?fb + (need (Suc ?j) - need ?j))\<rparr>)"
      "file_rel im' a' d' (c i) (Suc ?j)" "placed (?fb + (need (Suc ?j) - need ?j)) a' (Suc ?j)" "blank_from im' (?fb + (need (Suc ?j) - need ?j))"
      "\<forall>x < ?fb. x \<notin> a i ` slots ?j \<longrightarrow> im' ! x = image s ! x" "a' ` slots (Suc ?j) \<subseteq> a i ` slots ?j \<union> {?fb..<?fb + (need (Suc ?j) - need ?j)}"
      "d' = (d i)\<lparr>di_addrs := di_addrs d'\<rparr>" by (rule iappend_block_new [OF f w _ refl _ m]) (use r nk k in simp_all)
    then show ?thesis using k by (intro that [where d' = d' and a' = a' and im = im']) simp_all
  next
    case False
    then have k: "k i = Suc ?j" using ki nblk_append(1) [of ?n] by simp
    have l: "length (image s) = FSSIZE" "?fb \<le> FSSIZE" using sD(1) by (auto simp: blank_from_def)
    have "iappend_block ?j (d i) s = Ok (d i, of_nat (a i (Some ?j))) s"
      using iappend_block_old [OF sD(2) [OF i] sD(3) [OF i] l(2,1)] k by simp
    then show ?thesis using sD(1) sD(2) [OF i] sD(3) [OF i] k by (intro that [where d' = "d i" and a' = "a i" and im = "image s" and fb' = ?fb]) simp_all
  qed
  let ?s1 = "s\<lparr>image := im, freeblock := of_nat fb'\<rparr>" and ?x = "a' (Some ?j)"
  have jj: "?j < Suc ?j" by simp
  note wr = file_rel_write [OF 1(2-4) jj bs(2)]
  let ?im = "im[?x := put_at (im ! ?x) (?n mod BSIZE) bs]"
  have l: "length im = FSSIZE" "fb' \<le> FSSIZE" "length (image s) = FSSIZE" using 1(4) sD(1) by (auto simp: blank_from_def)
  have x: "?x < FSSIZE" "nmeta \<le> ?x" using wr(3,4) l(2) by simp_all
  have fbx: "unat (of_nat fb' :: uint) = fb'" using l(2) by (intro unat_small) (simp add: FSSIZE_def)
  have e: "\<forall>x < ?fb. x \<notin> a i ` slots (k i) \<longrightarrow> ?im ! x = image s ! x"
  proof (intro allI impI)
    fix y
    assume y: "y < ?fb" "y \<notin> a i ` slots (k i)"
    have "?x \<in> a' ` slots (Suc ?j)" by (simp add: slots_def)
    then have "y \<noteq> ?x" using subsetD [OF 1(6)] y by fastforce
    then show "?im ! y = image s ! y" using 1(5) y by simp
  qed
  let ?t = "?s1\<lparr>image := ?im\<rparr>"
  have sto: "stored ?t N (d(i := d')) (c(i := c i @ bs)) (k(i := nblk (length (c i @ bs)))) (a(i := a'))"
    unfolding stored_def using store_upd [OF st [unfolded stored_def, THEN conjunct2] i wr(1) 1(3) wr(2) 1(8,7) e 1(6)] w by (simp add: nk fbx)
  have fr: "mk_frame s ?t"
  proof -
    have "y \<notin> a i ` slots (k i) \<and> y < ?fb" if "y < nmeta" for y
      using that sD(3) [OF i] sD(1) by (auto simp: placed_def blank_from_def)
    then show ?thesis using e l by (simp add: mk_frame_def)
  qed
  have rd: "rsect (of_nat ?x) ?s1 = Ok (image ?s1 ! unat (of_nat ?x :: uint)) ?s1" using rsect_block [of ?s1 ?x] l x by simp
  have wt: "wsect (of_nat ?x) (put_at (image ?s1 ! unat (of_nat ?x :: uint)) (?n mod BSIZE) bs) ?s1 = Ok () ?t"
    using wsect_block [of ?s1 ?x] l x w by simp
  show ?thesis by (rule that [OF 1(1) rd wt fr sto 1(9)])
qed

lemma nblk_le: "n \<le> m \<Longrightarrow> nblk n \<le> nblk m"
  by (simp add: nblk_def div_le_mono)

lemma stored_fb:
  assumes "stored s N d c k a" "i < N"
  shows "unat (freeblock s) = nmeta + (\<Sum>j \<in> {..<N} - {i}. need (k j)) + need (k i)"
  using storeD(5) [OF assms(1) [unfolded stored_def, THEN conjunct2]] assms(2) by (simp add: sum.remove [of _ i])

lemma iappend_loop_stored:
  assumes "stored s N d c k a" "i < N" "k i = nblk (length (c i))" "length (c i) + length p \<le> MAXFILE * BSIZE"
    and "unat (freeblock s) + (need (nblk (length (c i) + length p)) - need (k i)) \<le> FSSIZE"
  shows "\<exists>d' t a'. iappend_loop (d i) (length (c i)) p s = Ok (d', length (c i) + length p) t \<and> mk_frame s t
    \<and> stored t N (d(i := d')) (c(i := c i @ p)) (k(i := nblk (length (c i @ p)))) a' \<and> d' = (d i)\<lparr>di_addrs := di_addrs d'\<rparr>"
  using assms
proof (induction "length p" arbitrary: p d c k a s rule: less_induct)
  case less
  let ?n = "length (c i)"
  show ?case
  proof (cases "p = []")
    case True
    have "k(i := nblk ?n) = k" using less.prems(3) by (simp add: fun_upd_idem)
    then show ?thesis using True less.prems(1) by (subst iappend_loop.simps) (auto simp: mk_frame_def)
  next
    case False
    let ?j = "?n div BSIZE"
    define n1 where "n1 = min (length p) ((?j + 1) * BSIZE - ?n)"
    define bs where "bs = take n1 p"
    have nm: "?n = ?j * BSIZE + ?n mod BSIZE" "?n mod BSIZE < BSIZE" by (simp_all add: BSIZE_def)
    have sub: "(?j + 1) * BSIZE - ?n = BSIZE - ?n mod BSIZE" using nm(1) by (metis add_diff_cancel_left add_mult_distrib mult_1)
    have n1: "0 < n1" "n1 \<le> length p" "?n mod BSIZE + n1 \<le> BSIZE" using False nm(2) unfolding n1_def sub by auto
    have lbs: "length bs = n1" using n1 by (simp add: bs_def)
    have "?n < MAXFILE * BSIZE" using less.prems(4) False by (cases p) auto
    then have m: "?j < MAXFILE" by (simp add: less_mult_imp_div_less)
    have b: "0 < length bs" "?n mod BSIZE + length bs \<le> BSIZE" using n1 lbs by auto
    have "need (nblk (?n + length bs)) \<le> need (nblk (?n + length p))" using n1 lbs by (intro need_mono nblk_le) simp
    then have r: "unat (freeblock s) + (need (nblk (?n + length bs)) - need (k i)) \<le> FSSIZE" using less.prems(5) by linarith
    obtain d1 x s1 t a1 where 1: "iappend_block ?j (d i) s = Ok (d1, x) s1" "rsect x s1 = Ok (image s1 ! unat x) s1"
      "wsect x (put_at (image s1 ! unat x) (?n mod BSIZE) bs) s1 = Ok () t" "mk_frame s t"
      "stored t N (d(i := d1)) (c(i := c i @ bs)) (k(i := nblk (length (c i @ bs)))) a1" "d1 = (d i)\<lparr>di_addrs := di_addrs d1\<rparr>"
      by (rule iappend_step [OF less.prems(1-3) m b r])
    have lp: "length bs + length (drop n1 p) = length p" "bs @ drop n1 p = p" using n1 by (simp_all add: lbs) (simp add: bs_def)
    let ?d = "d(i := d1)" and ?c = "c(i := c i @ bs)" and ?k = "k(i := nblk (length (c i @ bs)))"
    have tot: "length (?c i) + length (drop n1 p) = ?n + length p" using lp(1) by simp
    have "need (k i) \<le> need (?k i)" "need (?k i) \<le> need (nblk (?n + length p))"
      using less.prems(3) n1 lbs by (auto intro!: need_mono nblk_le)
    moreover have "(\<Sum>j \<in> {..<N} - {i}. need (?k j)) = (\<Sum>j \<in> {..<N} - {i}. need (k j))" by (intro sum.cong) auto
    ultimately have r': "unat (freeblock t) + (need (nblk (length (?c i) + length (drop n1 p))) - need (?k i)) \<le> FSSIZE"
      using less.prems(5) stored_fb [OF less.prems(1,2)] stored_fb [OF 1(5) less.prems(2)] unfolding tot by linarith
    have "length (drop n1 p) < length p" using n1 False by simp
    moreover have "?k i = nblk (length (?c i))" by simp
    moreover have "length (?c i) + length (drop n1 p) \<le> MAXFILE * BSIZE" using tot less.prems(4) by metis
    ultimately obtain d2 u a2
      where 2: "iappend_loop (?d i) (length (?c i)) (drop n1 p) t = Ok (d2, length (?c i) + length (drop n1 p)) u" "mk_frame t u"
        "stored u N (?d(i := d2)) (?c(i := ?c i @ drop n1 p)) (?k(i := nblk (length (?c i @ drop n1 p)))) a2" "d2 = (?d i)\<lparr>di_addrs := di_addrs d2\<rparr>"
      using less.hyps [OF _ 1(5) less.prems(2) _ _ r'] by blast
    have n1_eq: "n1 = min (length p) (BSIZE + ?j * BSIZE - ?n)" by (simp add: n1_def)
    have o: "?n - ?j * BSIZE = ?n mod BSIZE" using nm(1) by (metis add_diff_cancel_left')
    have "iappend_loop (d i) ?n p s = iappend_loop d1 (?n + n1) (drop n1 p) t"
      using False m 1(1-3) by (subst iappend_loop.simps) (simp add: Let_def o bs_def flip: n1_eq)
    then have "iappend_loop (d i) ?n p s = Ok (d2, ?n + length p) u" using 2(1) lbs tot by simp
    moreover have "stored u N (d(i := d2)) (c(i := c i @ p)) (k(i := nblk (length (c i @ p)))) a2" using 2(3) lp(2) by simp
    moreover have "d2 = (d i)\<lparr>di_addrs := di_addrs d2\<rparr>" using 2(4) 1(6) by (metis dinode.surjective dinode.update_convs(6) fun_upd_same)
    ultimately show ?thesis using mk_frame_trans [OF 1(4) 2(2)] by blast
  qed
qed

section \<open>Inodes\<close>

text \<open>The inode blocks of the image hold the inodes \<open>d\<close> of the first \<open>N\<close> files; file \<open>i\<close> has inode number \<open>i + 1\<close>.\<close>

definition iblock :: "nat \<Rightarrow> nat" where
  "iblock i = 32 + Suc i div IPB"

definition on_disk :: "block list \<Rightarrow> nat \<Rightarrow> (nat \<Rightarrow> dinode) \<Rightarrow> bool" where
  "on_disk im N d \<longleftrightarrow> (\<forall>i < N. get_dinode (im ! iblock i) (Suc i mod IPB) = d i)"

definition mk_inv :: "mkfs \<Rightarrow> nat \<Rightarrow> (nat \<Rightarrow> dinode) \<Rightarrow> (nat \<Rightarrow> byte list) \<Rightarrow> (nat \<Rightarrow> nat option \<Rightarrow> nat) \<Rightarrow> bool" where
  "mk_inv s N d c a \<longleftrightarrow> stored s N d c (\<lambda>i. nblk (length (c i))) a \<and> on_disk (image s) N d \<and> msb s = mkfs_sb
     \<and> freeinode s = of_nat (Suc N) \<and> N < NINODES \<and> (\<forall>i < N. di_size (d i) = of_nat (length (c i)))"

lemma iblock_bounds: "i < NINODES \<Longrightarrow> 32 \<le> iblock i \<and> iblock i < 45"
proof -
  assume "i < NINODES"
  then have "Suc i div IPB \<le> 200 div IPB" by (intro div_le_mono) (simp add: NINODES_def)
  then show ?thesis by (simp add: iblock_def layout_defs)
qed

lemma IBLOCK_mkfs: "i < NINODES \<Longrightarrow> IBLOCK (of_nat (Suc i)) mkfs_sb = of_nat (iblock i)"
proof -
  assume i: "i < NINODES"
  have "(of_nat (Suc i) :: uint) div of_nat IPB = of_nat (Suc i div IPB)"
    using i by (intro word_unat_eq_iff [THEN iffD2]) (simp add: unat_div unat_small layout_defs del: of_nat_Suc)
  then show ?thesis by (simp add: IBLOCK_def mkfs_layout iblock_def del: of_nat_Suc)
qed

lemma rinode_mkfs:
  assumes "on_disk (image s) N d" "msb s = mkfs_sb" "i < N" "N \<le> NINODES" "length (image s) = FSSIZE"
  shows "rinode (of_nat (Suc i)) s = Ok (d i) s"
proof -
  have b: "iblock i < FSSIZE" using iblock_bounds [of i] assms by (simp add: FSSIZE_def)
  have u: "unat (of_nat (Suc i) :: uint) = Suc i" using assms by (intro unat_small) (simp add: NINODES_def)
  show ?thesis using rsect_block [OF assms(5) b] assms IBLOCK_mkfs [of i] u by (simp add: rinode_def on_disk_def del: of_nat_Suc)
qed

text \<open>Writing inode \<open>i\<close> changes nothing but that inode.\<close>

lemma winode_mkfs:
  assumes i: "i < NINODES" and d: "length (di_addrs x) = NDIRECT + 1" and s: "msb s = mkfs_sb" "\<forall>i. writable s i"
    "length (image s) = FSSIZE" "\<forall>b \<in> set (image s). length b = BSIZE"
  obtains t where "winode (of_nat (Suc i)) x s = Ok () t" "t = s\<lparr>image := image t\<rparr>" "length (image t) = FSSIZE" "\<forall>b \<in> set (image t). length b = BSIZE"
    "\<forall>k. k \<noteq> iblock i \<longrightarrow> image t ! k = image s ! k" "get_dinode (image t ! iblock i) (Suc i mod IPB) = x"
    "\<forall>j. j \<noteq> Suc i mod IPB \<longrightarrow> j < IPB \<longrightarrow> get_dinode (image t ! iblock i) j = get_dinode (image s ! iblock i) j"
proof -
  have b: "iblock i < FSSIZE" using iblock_bounds [OF i] by (simp add: FSSIZE_def)
  have u: "unat (of_nat (Suc i) :: uint) = Suc i" using i by (intro unat_small) (simp add: NINODES_def)
  have l: "length (image s ! iblock i) = BSIZE" using b s by simp
  let ?b = "put_dinode (Suc i mod IPB) x (image s ! iblock i)"
  let ?t = "s\<lparr>image := (image s)[iblock i := ?b]\<rparr>"
  have k: "64 * (Suc i mod IPB) + 64 \<le> length (image s ! iblock i)" using inode_slot l by simp
  note gp = get_put_dinode [OF d k]
  have lb: "length ?b = BSIZE" using k l by (simp add: put_dinode_def length_put_at length_dinode_bytes [OF d])
  have "winode (of_nat (Suc i)) x s = Ok () ?t"
    using rsect_block [OF s(3) b] wsect_block [OF s(3) b s(2)] s(1) IBLOCK_mkfs [OF i] u by (simp add: winode_def del: of_nat_Suc)
  then show ?thesis
  proof (rule that)
    show "\<forall>b \<in> set (image ?t). length b = BSIZE" using s(4) lb by (auto dest!: set_update_subset_insert [THEN subsetD])
    show "\<forall>j. j \<noteq> Suc i mod IPB \<longrightarrow> j < IPB \<longrightarrow> get_dinode (image ?t ! iblock i) j = get_dinode (image s ! iblock i) j"
      using gp(2) inode_slot(2) l b s(3) by simp
  qed (use gp(1) b s(3) in simp_all)
qed

lemma on_disk_put:
  assumes w: "\<forall>k. k \<noteq> iblock i \<longrightarrow> im' ! k = im ! k" "get_dinode (im' ! iblock i) (Suc i mod IPB) = x"
    "\<forall>j. j \<noteq> Suc i mod IPB \<longrightarrow> j < IPB \<longrightarrow> get_dinode (im' ! iblock i) j = get_dinode (im ! iblock i) j"
    and d: "\<forall>j < N. j \<noteq> i \<longrightarrow> get_dinode (im ! iblock j) (Suc j mod IPB) = d j"
  shows "on_disk im' N (d(i := x))"
  unfolding on_disk_def
proof (intro allI impI)
  fix j
  assume j: "j < N"
  show "get_dinode (im' ! iblock j) (Suc j mod IPB) = (d(i := x)) j"
  proof (cases "j = i")
    case False
    show ?thesis
    proof (cases "iblock j = iblock i")
      case True
      then have "Suc j div IPB = Suc i div IPB" by (simp add: iblock_def)
      then have "Suc j mod IPB \<noteq> Suc i mod IPB" using False by (metis div_mult_mod_eq nat.inject)
      moreover have "get_dinode (im ! iblock j) (Suc j mod IPB) = d j" using d j False by blast
      ultimately show ?thesis using w(3) False True inode_slot(1) by simp
    next
      case b: False
      then show ?thesis using w(1) d j False by simp
    qed
  qed (use w(2) in simp)
qed

definition blocks_needed :: "nat \<Rightarrow> (nat \<Rightarrow> byte list) \<Rightarrow> nat" where
  "blocks_needed N c = nmeta + (\<Sum>i < N. need (nblk (length (c i))))"

lemma blocks_needed_mono:
  assumes "N \<le> M" "\<forall>i < N. length (c i) \<le> length (c' i)"
  shows "blocks_needed N c \<le> blocks_needed M c'"
proof -
  have "(\<Sum>i < N. need (nblk (length (c i)))) \<le> (\<Sum>i < N. need (nblk (length (c' i))))"
    using assms(2) by (intro sum_mono need_mono nblk_le) simp
  also have "\<dots> \<le> (\<Sum>i < M. need (nblk (length (c' i))))" using assms(1) by (intro sum_mono2) auto
  finally show ?thesis by (simp add: blocks_needed_def)
qed

lemma mk_invD:
  assumes "mk_inv s N d c a"
  shows "blank_from (image s) (unat (freeblock s))" "unat (freeblock s) = blocks_needed N c" "\<forall>i. writable s i"
    "length (image s) = FSSIZE" "\<forall>b \<in> set (image s). length b = BSIZE" "i < N \<Longrightarrow> length (di_addrs (d i)) = NDIRECT + 1"
proof -
  have st: "store (image s) (unat (freeblock s)) N d c (\<lambda>i. nblk (length (c i))) a" using assms by (simp add: mk_inv_def stored_def)
  note sD = storeD [OF st]
  show "blank_from (image s) (unat (freeblock s))" using sD(1) .
  then show "length (image s) = FSSIZE" "\<forall>b \<in> set (image s). length b = BSIZE" by (auto simp: blank_from_def)
  show "unat (freeblock s) = blocks_needed N c" using sD(5) by (simp add: blocks_needed_def)
  show "\<forall>i. writable s i" using assms by (simp add: mk_inv_def stored_def)
  show "i < N \<Longrightarrow> length (di_addrs (d i)) = NDIRECT + 1" using sD(2) by (simp add: file_rel_def)
qed

text \<open>The image changes in an inode block only.\<close>

lemma stored_inode:
  assumes "stored s N d c k a" "t = s\<lparr>image := image t\<rparr>" "length (image t) = FSSIZE" "\<forall>b \<in> set (image t). length b = BSIZE"
    "\<forall>k. k \<noteq> iblock i \<longrightarrow> image t ! k = image s ! k" "i < NINODES"
  shows "stored t N d c k a"
proof -
  have e: "writable t = writable s" "freeblock t = freeblock s" using assms(2) by (metis mkfs.select_convs mkfs.surjective mkfs.update_convs(1))+
  have st: "store (image s) (unat (freeblock s)) N d c k a" using assms(1) by (simp add: stored_def)
  have "store (image t) (unat (freeblock s)) N d c k a"
  proof (rule store_frame [OF st _ assms(4)])
    show "length (image t) = length (image s)" using storeD(1) [OF st] assms(3) by (simp add: blank_from_def)
    show "\<forall>x. nmeta \<le> x \<longrightarrow> x < FSSIZE \<longrightarrow> image t ! x = image s ! x" using assms(5) iblock_bounds [OF assms(6)] by (auto simp: mkfs_layout)
  qed
  then show ?thesis using assms(1) by (simp add: stored_def e)
qed

definition fresh_dinode :: "uint16 \<Rightarrow> dinode" where
  "fresh_dinode type = \<lparr>di_type = type, di_major = 0, di_minor = 0, di_nlink = 1, di_size = 0, di_addrs = replicate (NDIRECT + 1) 0\<rparr>"

lemma store_new:
  assumes "store im fb N d c k a"
  shows "store im fb (Suc N) (d(N := fresh_dinode type)) (c(N := [])) (k(N := 0)) a"
proof -
  have e: "slots 0 = {}" by (simp add: slots_def)
  have "file_rel im (a N) (fresh_dinode type) [] 0" "placed fb (a N) 0"
    by (simp_all add: file_rel_def fresh_dinode_def placed_def e del: replicate_Suc)
  moreover have "(\<Sum>i < N. need ((k(N := 0)) i)) = (\<Sum>i < N. need (k i))" by (intro sum.cong) auto
  ultimately show ?thesis using assms unfolding store_def by (auto simp: less_Suc_eq e need_def)
qed

lemma ialloc_mk_inv:
  assumes i: "mk_inv s N d c a" "Suc N < NINODES"
  shows "\<exists>t. ialloc_mk type s = Ok (of_nat (Suc N)) t \<and> mk_inv t (Suc N) (d(N := fresh_dinode type)) (c(N := [])) a \<and> image t ! 1 = image s ! 1"
proof -
  note D = mk_invD [OF i(1)]
  let ?s = "s\<lparr>freeinode := freeinode s + 1\<rparr>"
  have f: "freeinode s = of_nat (Suc N)" "msb s = mkfs_sb" using i(1) by (simp_all add: mk_inv_def)
  have N: "N < NINODES" using i(2) by simp
  obtain t where t: "winode (of_nat (Suc N)) (fresh_dinode type) ?s = Ok () t" "t = ?s\<lparr>image := image t\<rparr>" "length (image t) = FSSIZE"
    "\<forall>b \<in> set (image t). length b = BSIZE" "\<forall>k. k \<noteq> iblock N \<longrightarrow> image t ! k = image ?s ! k" "get_dinode (image t ! iblock N) (Suc N mod IPB) = fresh_dinode type"
    "\<forall>j. j \<noteq> Suc N mod IPB \<longrightarrow> j < IPB \<longrightarrow> get_dinode (image t ! iblock N) j = get_dinode (image ?s ! iblock N) j"
    by (rule winode_mkfs [OF N, of "fresh_dinode type" ?s]) (use D f in \<open>simp_all add: fresh_dinode_def del: replicate_Suc\<close>)
  have "stored ?s N d c (\<lambda>i. nblk (length (c i))) a" using i(1) by (simp add: mk_inv_def stored_def)
  from stored_inode [OF this t(2-5) N] have st: "stored t N d c (\<lambda>i. nblk (length (c i))) a" .
  have fi: "freeinode t = of_nat (Suc (Suc N))" "msb t = mkfs_sb" by (subst t(2), simp add: f)+
  have "on_disk (image t) (Suc N) (d(N := fresh_dinode type))"
    by (rule on_disk_put [OF t(5-7)]) (use i(1) in \<open>auto simp: mk_inv_def on_disk_def\<close>)
  moreover have "(\<lambda>i. nblk (length ((c(N := [])) i))) = (\<lambda>i. nblk (length (c i)))(N := 0)" by (auto simp: nblk_def fun_eq_iff BSIZE_def)
  then have "stored t (Suc N) (d(N := fresh_dinode type)) (c(N := [])) (\<lambda>i. nblk (length ((c(N := [])) i))) a"
    using store_new st unfolding stored_def by presburger
  moreover have "\<forall>j < Suc N. di_size ((d(N := fresh_dinode type)) j) = of_nat (length ((c(N := [])) j))"
    using i(1) by (auto simp: mk_inv_def fresh_dinode_def less_Suc_eq)
  ultimately have "mk_inv t (Suc N) (d(N := fresh_dinode type)) (c(N := [])) a" using fi i(2) by (simp add: mk_inv_def)
  moreover have "image t ! 1 = image s ! 1" using t(5) iblock_bounds [OF N] by auto
  moreover have "ialloc_mk type s = Ok (of_nat (Suc N)) t" using t(1) f by (simp add: ialloc_mk_def fresh_dinode_def Let_def)
  ultimately show ?thesis by blast
qed

lemma stored_addrs:
  assumes "stored s N (d(i := y)) c k a" "di_addrs x = di_addrs y"
  shows "stored s N (d(i := x)) c k a"
proof -
  have e: "file_rel im b ((d(i := x)) j) c' k' = file_rel im b ((d(i := y)) j) c' k'" for im b j c' k'
    using assms(2) by (simp add: file_rel_def fblock_def)
  show ?thesis using assms(1) unfolding stored_def store_def e .
qed

text \<open>The parts of an inode that appending leaves alone.\<close>

definition same_kind :: "nat \<Rightarrow> (nat \<Rightarrow> dinode) \<Rightarrow> (nat \<Rightarrow> dinode) \<Rightarrow> bool" where
  "same_kind N d d' \<longleftrightarrow> (\<forall>j < N. di_type (d' j) = di_type (d j) \<and> di_nlink (d' j) = di_nlink (d j))"

lemma iappend_mk_inv:
  assumes i: "mk_inv s N d c a" "i < N" and l: "length (c i) + length p \<le> MAXFILE * BSIZE"
    and r: "blocks_needed N (c(i := c i @ p)) \<le> FSSIZE"
  shows "\<exists>t d' a'. iappend (of_nat (Suc i)) p s = Ok () t \<and> mk_inv t N d' (c(i := c i @ p)) a' \<and> same_kind N d d' \<and> image t ! 1 = image s ! 1"
proof -
  note D = mk_invD [OF i(1)]
  have st: "stored s N d c (\<lambda>i. nblk (length (c i))) a" "on_disk (image s) N d" "msb s = mkfs_sb" "N < NINODES"
    "freeinode s = of_nat (Suc N)" "di_size (d i) = of_nat (length (c i))" using i by (simp_all add: mk_inv_def)
  have lt: "length (c i) + length p < 2 ^ 32" using l by (simp add: layout_defs)
  have rd: "rinode (of_nat (Suc i)) s = Ok (d i) s" using rinode_mkfs [OF st(2,3) i(2) _ D(4)] st(4) by simp
  have off: "unat (di_size (d i)) = length (c i)" using st(6) lt by (simp add: unat_small)
  have "(\<Sum>j \<in> {..<N} - {i}. need (nblk (length ((c(i := c i @ p)) j)))) = (\<Sum>j \<in> {..<N} - {i}. need (nblk (length (c j))))"
    by (intro sum.cong) auto
  then have "blocks_needed N (c(i := c i @ p)) = nmeta + (\<Sum>j \<in> {..<N} - {i}. need (nblk (length (c j)))) + need (nblk (length (c i) + length p))"
    using i(2) by (simp add: blocks_needed_def sum.remove [of _ i])
  moreover have "need (nblk (length (c i))) \<le> need (nblk (length (c i) + length p))" by (intro need_mono nblk_le) simp
  ultimately have r': "unat (freeblock s) + (need (nblk (length (c i) + length p)) - need (nblk (length (c i)))) \<le> FSSIZE"
    using r stored_fb [OF st(1) i(2)] by simp
  obtain d1 u a' where 1: "iappend_loop (d i) (length (c i)) p s = Ok (d1, length (c i) + length p) u" "mk_frame s u"
    "stored u N (d(i := d1)) (c(i := c i @ p)) ((\<lambda>i. nblk (length (c i)))(i := nblk (length (c i @ p)))) a'" "d1 = (d i)\<lparr>di_addrs := di_addrs d1\<rparr>"
    using iappend_loop_stored [OF st(1) i(2) refl l r'] by blast
  let ?x = "d1\<lparr>di_size := of_nat (length (c i) + length p)\<rparr>"
  have u: "\<forall>i. writable u i" "length (image u) = FSSIZE" "msb u = mkfs_sb" "freeinode u = of_nat (Suc N)" "\<forall>x < nmeta. image u ! x = image s ! x"
    using 1(2) D(3,4) st(3,5) by (simp_all add: mk_frame_def)
  note S = storeD [OF 1(3) [unfolded stored_def, THEN conjunct2]]
  have ub: "\<forall>b \<in> set (image u). length b = BSIZE" using S(1) by (simp add: blank_from_def)
  have la: "length (di_addrs ?x) = NDIRECT + 1" using S(2) [OF i(2)] by (simp add: file_rel_def)
  have iN: "i < NINODES" using i(2) st(4) by simp
  obtain t where t: "winode (of_nat (Suc i)) ?x u = Ok () t" "t = u\<lparr>image := image t\<rparr>" "length (image t) = FSSIZE"
    "\<forall>b \<in> set (image t). length b = BSIZE" "\<forall>k. k \<noteq> iblock i \<longrightarrow> image t ! k = image u ! k" "get_dinode (image t ! iblock i) (Suc i mod IPB) = ?x"
    "\<forall>j. j \<noteq> Suc i mod IPB \<longrightarrow> j < IPB \<longrightarrow> get_dinode (image t ! iblock i) j = get_dinode (image u ! iblock i) j"
    by (rule winode_mkfs [OF iN la u(3,1,2) ub])
  have k: "(\<lambda>i. nblk (length (c i)))(i := nblk (length (c i @ p))) = (\<lambda>j. nblk (length ((c(i := c i @ p)) j)))" by (simp add: fun_eq_iff)
  have "stored u N (d(i := ?x)) (c(i := c i @ p)) (\<lambda>j. nblk (length ((c(i := c i @ p)) j))) a'"
    using stored_addrs [OF 1(3), of ?x] unfolding k by simp
  then have "stored t N (d(i := ?x)) (c(i := c i @ p)) (\<lambda>j. nblk (length ((c(i := c i @ p)) j))) a'" by (rule stored_inode [OF _ t(2-5) iN])
  moreover have "on_disk (image t) N (d(i := ?x))"
  proof (rule on_disk_put [OF t(5-7)], intro allI impI)
    fix j
    assume j: "j < N" "j \<noteq> i"
    then have "iblock j < nmeta" using iblock_bounds [of j] st(4) by (simp add: mkfs_layout)
    then show "get_dinode (image u ! iblock j) (Suc j mod IPB) = d j" using u(5) st(2) j by (simp add: on_disk_def)
  qed
  moreover have "msb t = mkfs_sb" "freeinode t = of_nat (Suc N)" by (subst t(2), simp add: u)+
  moreover have "\<forall>j < N. di_size ((d(i := ?x)) j) = of_nat (length ((c(i := c i @ p)) j))" using i(1) by (simp add: mk_inv_def)
  ultimately have "mk_inv t N (d(i := ?x)) (c(i := c i @ p)) a'" using st(4) by (simp add: mk_inv_def)
  moreover have "same_kind N d (d(i := ?x))"
    using 1(4) by (auto simp: same_kind_def) (metis dinode.select_convs dinode.surjective dinode.update_convs(6))+
  moreover have "image t ! 1 = image s ! 1" using t(5) u(5) iblock_bounds [OF iN] by (simp add: mkfs_layout)
  moreover have "iappend (of_nat (Suc i)) p s = Ok () t" using rd 1(1) t(1) by (simp add: iappend_def off del: of_nat_Suc of_nat_add)
  ultimately show ?thesis by blast
qed

lemma same_kind_trans: "same_kind N d d' \<Longrightarrow> same_kind N d' d'' \<Longrightarrow> same_kind N d d''"
  by (simp add: same_kind_def)

text \<open>Copying a file of the host, however its bytes arrive.\<close>

lemma copy_file_mk_inv:
  assumes "mk_inv s N d c a" "i < N" "length (c i) + length (fst st) \<le> MAXFILE * BSIZE" "blocks_needed N (c(i := c i @ fst st)) \<le> FSSIZE"
  shows "\<exists>t d' a'. copy_file (of_nat (Suc i)) st s = Ok () t \<and> mk_inv t N d' (c(i := c i @ fst st)) a' \<and> same_kind N d d' \<and> image t ! 1 = image s ! 1"
  using assms
proof (induction "length (fst st)" arbitrary: st s d c a rule: less_induct)
  case less
  obtain xs ks where st: "st = (xs, ks)" by (cases st)
  obtain bs ys ls where rc: "read_call BSIZE (xs, ks) = (bs, (ys, ls))" by (metis prod.collapse)
  note sp = read_call_split [OF rc]
  show ?case
  proof (cases "bs = []")
    case True
    then have "xs = []" using sp(3) by (simp add: BSIZE_def)
    then show ?thesis using True rc less.prems(1) by (subst copy_file.simps) (auto simp: st same_kind_def)
  next
    case False
    have le: "blocks_needed N (c(i := c i @ bs)) \<le> FSSIZE"
      by (rule order_trans [OF blocks_needed_mono less.prems(4)]) (auto simp: st sp(1))
    obtain u d1 a1 where 1: "iappend (of_nat (Suc i)) bs s = Ok () u" "mk_inv u N d1 (c(i := c i @ bs)) a1" "same_kind N d d1" "image u ! 1 = image s ! 1"
      using iappend_mk_inv [OF less.prems(1,2) _ le] less.prems(3) by (auto simp: st sp(1))
    have "length (fst (ys, ls)) < length (fst st)" using False by (simp add: st sp(1))
    from less.hyps [OF this 1(2) less.prems(2)] less.prems(3,4) obtain t d' a'
      where 2: "copy_file (of_nat (Suc i)) (ys, ls) u = Ok () t" "mk_inv t N d' (c(i := c i @ fst st)) a'" "same_kind N d1 d'" "image t ! 1 = image u ! 1"
      by (auto simp: st sp(1))
    have "copy_file (of_nat (Suc i)) st s = Ok () t" using rc False 1(1) 2(1) by (subst copy_file.simps) (simp add: st del: of_nat_Suc)
    then show ?thesis using 1(4) 2(2,4) same_kind_trans [OF 1(3) 2(3)] by auto
  qed
qed

section \<open>The files of the image\<close>

definition file_name :: "byte list \<Rightarrow> byte list" where
  "file_name arg = skip_underscore (short_name arg)"

text \<open>What the root directory and the files should contain, for the arguments after the name of the image.\<close>

definition root_dir :: "byte list list \<Rightarrow> byte list" where
  "root_dir args = mk_dirent 1 (ascii ''.'') @ mk_dirent 1 (ascii ''..'')
     @ concat (map (\<lambda>j. mk_dirent (of_nat (j + 2)) (file_name (args ! j))) [0..<length args])"

definition contents :: "(byte list \<Rightarrow> stream_in option) \<Rightarrow> byte list list \<Rightarrow> nat \<Rightarrow> byte list" where
  "contents files args i = (if i = 0 then root_dir args else fst (the (files (args ! (i - 1)))))"

definition arg_ok :: "(byte list \<Rightarrow> stream_in option) \<Rightarrow> byte list \<Rightarrow> bool" where
  "arg_ok files arg \<longleftrightarrow> of_char CHR ''/'' \<notin> set (short_name arg) \<and> (\<exists>st. files arg = Some st \<and> length (fst st) \<le> MAXFILE * BSIZE)"

text \<open>The arguments can be opened, there are inodes for them, and the image has room for their blocks.\<close>

definition args_ok :: "(byte list \<Rightarrow> stream_in option) \<Rightarrow> byte list list \<Rightarrow> bool" where
  "args_ok files args \<longleftrightarrow> (\<forall>arg \<in> set args. arg_ok files arg) \<and> Suc (length args) < NINODES
     \<and> blocks_needed (Suc (length args)) (contents files args) \<le> FSSIZE"

lemma length_mk_dirent [simp]: "length (mk_dirent inum name) = 16"
  by (simp add: mk_dirent_def dirent_bytes_def DIRSIZ_def)

lemma root_dir_snoc: "root_dir (args @ [arg]) = root_dir args @ mk_dirent (of_nat (length args + 2)) (file_name arg)"
proof -
  have "map (\<lambda>j. mk_dirent (of_nat (j + 2)) (file_name ((args @ [arg]) ! j))) [0..<length args]
      = map (\<lambda>j. mk_dirent (of_nat (j + 2)) (file_name (args ! j))) [0..<length args]" by (simp add: nth_append)
  then show ?thesis by (simp add: root_dir_def del: of_nat_add of_nat_Suc map_eq_conv)
qed

lemma length_root_dir: "length (root_dir args) = 16 * (length args + 2)"
proof (induction args rule: rev_induct)
  case (snoc arg args)
  then show ?case by (simp add: root_dir_snoc)
qed (simp add: root_dir_def)

lemma mk_inv_cong:
  assumes "mk_inv s N d c a" "\<forall>i < N. c i = c' i"
  shows "mk_inv s N d c' a"
proof -
  have k: "(\<Sum>i < N. need (nblk (length (c' i)))) = (\<Sum>i < N. need (nblk (length (c i))))" using assms(2) by (intro sum.cong) auto
  have "store (image s) (unat (freeblock s)) N d c (\<lambda>i. nblk (length (c i))) a" using assms(1) by (simp add: mk_inv_def stored_def)
  then have "store (image s) (unat (freeblock s)) N d c' (\<lambda>i. nblk (length (c' i))) a" unfolding store_def k using assms(2) by metis
  then show ?thesis using assms by (simp add: mk_inv_def stored_def)
qed

text \<open>The state after some of the arguments have been processed.\<close>

definition kinds :: "nat \<Rightarrow> (nat \<Rightarrow> dinode) \<Rightarrow> bool" where
  "kinds N d \<longleftrightarrow> (\<forall>i < N. di_type (d i) = (if i = 0 then T_DIR else T_FILE) \<and> di_nlink (d i) = 1)"

definition built :: "(byte list \<Rightarrow> stream_in option) \<Rightarrow> byte list list \<Rightarrow> block \<Rightarrow> mkfs \<Rightarrow> bool" where
  "built files args sbk s \<longleftrightarrow> (\<exists>d a. mk_inv s (Suc (length args)) d (contents files args) a \<and> kinds (Suc (length args)) d \<and> image s ! 1 = sbk)"

lemma kinds_same: "kinds N d \<Longrightarrow> same_kind N d d' \<Longrightarrow> kinds N d'"
  by (simp add: kinds_def same_kind_def)

lemma contents_le:
  assumes "i < Suc (Suc (length pre))"
  shows "length (contents files (pre @ [arg]) i) \<le> length (contents files (pre @ arg # post) i)"
  using assms by (auto simp: contents_def length_root_dir nth_append)

lemma add_file_built:
  assumes b: "built files pre sbk s" and ok: "args_ok files (pre @ arg # post)"
  shows "\<exists>t. add_file files ROOTINO arg s = Ok () t \<and> built files (pre @ [arg]) sbk t"
proof -
  let ?N = "Suc (length pre)"
  let ?c = "contents files pre" and ?c' = "contents files (pre @ [arg])"
  obtain d a where 0: "mk_inv s ?N d ?c a" "kinds ?N d" "image s ! 1 = sbk" using b by (auto simp: built_def)
  obtain st where st: "files arg = Some st" "length (fst st) \<le> MAXFILE * BSIZE" "of_char CHR ''/'' \<notin> set (short_name arg)"
    using ok by (auto simp: args_ok_def arg_ok_def)
  have N: "Suc ?N < NINODES" using ok by (simp add: args_ok_def)
  have tot: "blocks_needed (Suc ?N) ?c' \<le> FSSIZE"
    by (rule order_trans [OF blocks_needed_mono [of _ "Suc (length (pre @ arg # post))" _ "contents files (pre @ arg # post)"]])
      (use ok contents_le in \<open>auto simp: args_ok_def\<close>)
  have c'0: "?c' 0 = ?c 0 @ mk_dirent (of_nat (Suc ?N)) (file_name arg)" by (simp add: contents_def root_dir_snoc)
  have c'N: "?c' ?N = fst st" by (simp add: contents_def st)
  have c'i: "?c' i = ?c i" if "0 < i" "i < ?N" for i
  proof -
    have "i - 1 < length pre" using that by linarith
    then show ?thesis using that by (simp add: contents_def nth_append)
  qed
  obtain t1 where 1: "ialloc_mk T_FILE s = Ok (of_nat (Suc ?N)) t1" "mk_inv t1 (Suc ?N) (d(?N := fresh_dinode T_FILE)) (?c(?N := [])) a" "image t1 ! 1 = image s ! 1"
    using ialloc_mk_inv [OF 0(1) N] by blast
  let ?c1 = "?c(?N := [])" and ?de = "mk_dirent (of_nat (Suc ?N)) (file_name arg)"
  let ?c2 = "?c1(0 := ?c1 0 @ ?de)"
  have root: "length (?c1 0) + length ?de \<le> MAXFILE * BSIZE"
    using N by (simp add: contents_def length_root_dir) (simp add: layout_defs)
  have c2: "length (?c2 i) \<le> length (?c' i)" if "i < Suc ?N" for i
  proof (cases "i = 0")
    case True
    then show ?thesis using c'0 by simp
  next
    case False
    then show ?thesis using that c'i [of i] by (cases "i = ?N") auto
  qed
  have le2: "blocks_needed (Suc ?N) ?c2 \<le> FSSIZE" by (rule order_trans [OF blocks_needed_mono tot]) (use c2 in auto)
  obtain t2 d2 a2 where 2: "iappend (of_nat (Suc 0)) ?de t1 = Ok () t2" "mk_inv t2 (Suc ?N) d2 ?c2 a2"
    "same_kind (Suc ?N) (d(?N := fresh_dinode T_FILE)) d2" "image t2 ! 1 = image t1 ! 1"
    using iappend_mk_inv [OF 1(2) _ root le2] by auto
  have cN: "?c2 ?N = []" by simp
  have c3: "\<forall>i < Suc ?N. (?c2(?N := ?c2 ?N @ fst st)) i = ?c' i"
  proof (intro allI impI)
    fix i
    assume "i < Suc ?N"
    then show "(?c2(?N := ?c2 ?N @ fst st)) i = ?c' i" using c'0 c'N c'i [of i] by (cases "i = 0"; cases "i = ?N") auto
  qed
  have le3: "blocks_needed (Suc ?N) (?c2(?N := ?c2 ?N @ fst st)) \<le> FSSIZE"
    by (rule order_trans [OF blocks_needed_mono tot]) (use c3 in auto)
  obtain t3 d3 a3 where 3: "copy_file (of_nat (Suc ?N)) st t2 = Ok () t3" "mk_inv t3 (Suc ?N) d3 (?c2(?N := ?c2 ?N @ fst st)) a3"
    "same_kind (Suc ?N) d2 d3" "image t3 ! 1 = image t2 ! 1"
    using copy_file_mk_inv [OF 2(2) _ _ le3] cN st(2) by auto
  have "kinds (Suc ?N) (d(?N := fresh_dinode T_FILE))" using 0(2) by (auto simp: kinds_def fresh_dinode_def less_Suc_eq)
  then have "kinds (Suc ?N) d3" using kinds_same 2(3) 3(3) by blast
  moreover have "mk_inv t3 (Suc ?N) d3 ?c' a3" using mk_inv_cong [OF 3(2) c3] .
  moreover have "image t3 ! 1 = sbk" using 0(3) 1(3) 2(4) 3(4) by simp
  ultimately have "built files (pre @ [arg]) sbk t3" by (auto simp: built_def)
  moreover have "add_file files ROOTINO arg s = Ok () t3"
    using 1(1) 2(1) 3(1) st by (simp add: add_file_def ROOTINO_def file_name_def)
  ultimately show ?thesis by blast
qed

lemma add_files_built:
  assumes "built files pre sbk s" "args_ok files (pre @ post)"
  shows "\<exists>t. for_each (add_file files ROOTINO) post s = Ok () t \<and> built files (pre @ post) sbk t"
  using assms
proof (induction post arbitrary: pre s)
  case (Cons arg post)
  obtain u where u: "add_file files ROOTINO arg s = Ok () u" "built files (pre @ [arg]) sbk u"
    using add_file_built [OF Cons.prems] by blast
  then show ?case using Cons.IH [of "pre @ [arg]" u] Cons.prems(2) by simp
qed simp

section \<open>The beginning and the end of mkfs\<close>

lemma for_each_snoc: "for_each f (xs @ [x]) s = bindK (for_each f xs s) (\<lambda>_. f x)"
proof (induction xs arbitrary: s)
  case Nil
  then show ?case by (cases "f x s") auto
next
  case (Cons y ys)
  then show ?case by (cases "f y s") auto
qed

lemma zero_image:
  assumes "\<forall>i. writable s i" "image s = []"
  shows "n \<le> FSSIZE \<Longrightarrow> for_each (\<lambda>i. wsect (of_nat i) zeroes) [0..<n] s = Ok () (s\<lparr>image := replicate n zeroes\<rparr>)"
proof (induction n)
  case 0
  then show ?case using assms by simp
next
  case (Suc n)
  have "(replicate n zeroes @ replicate (Suc 0) zeroes)[n := zeroes] = replicate (Suc n) zeroes"
    by (rule nth_equalityI) (auto simp: nth_list_update nth_append simp del: replicate_Suc)
  then show ?case using Suc assms by (simp add: for_each_snoc wsect_def del: replicate_Suc)
qed

definition sb_block :: block where
  "sb_block = put_at zeroes 0 (superblock_bytes mkfs_sb)"

definition mk_start :: "(nat \<Rightarrow> bool) \<Rightarrow> mkfs" where
  "mk_start can = \<lparr>image = (replicate FSSIZE zeroes)[1 := sb_block], writable = can, msb = mkfs_sb, freeinode = 1, freeblock = of_nat nmeta\<rparr>"

lemma length_sb_block: "length sb_block = BSIZE"
  by (simp add: sb_block_def put_at_def superblock_bytes_def BSIZE_def)

lemma get_sb_block: "get_superblock sb_block = mkfs_sb"
proof -
  let ?ws = "[sb_magic mkfs_sb, sb_size mkfs_sb, sb_nblocks mkfs_sb, sb_ninodes mkfs_sb, sb_nlog mkfs_sb, sb_logstart mkfs_sb, sb_inodestart mkfs_sb, sb_bmapstart mkfs_sb]"
  have l: "length (superblock_bytes mkfs_sb) = 32" by (simp add: superblock_bytes_def)
  have g: "get32 sb_block (4 * i) = ?ws ! i" if "i < 8" for i
  proof -
    have "sub_bytes sb_block (0 + 4 * i) 4 = sub_bytes (superblock_bytes mkfs_sb) (4 * i) 4"
      unfolding sb_block_def using that l by (intro sub_put_inside) (auto simp: BSIZE_def)
    also have "\<dots> = bytes_of_word 4 (?ws ! i)" unfolding superblock_bytes_def using that by (intro sub_bytes_words) simp
    finally show ?thesis by (simp add: get32_def)
  qed
  show ?thesis using g [of 0] g [of 1] g [of 2] g [of 3] g [of 4] g [of 5] g [of 6] g [of 7]
    by (simp add: get_superblock_def)
qed

lemma mk_start_inv:
  assumes "\<forall>i. can i"
  shows "mk_inv (mk_start can) 0 d c a"
proof -
  have "blank_from ((replicate FSSIZE zeroes)[1 := sb_block]) nmeta"
    unfolding blank_from_def by (auto simp: mkfs_layout FSSIZE_def length_sb_block nth_list_update dest!: set_update_subset_insert [THEN subsetD])
  then show ?thesis using assms by (simp add: mk_inv_def mk_start_def stored_def store_def on_disk_def NINODES_def mkfs_layout)
qed

lemma built_root:
  assumes "\<forall>i. can i"
  shows "\<exists>s1 s2 t. ialloc_mk T_DIR (mk_start can) = Ok ROOTINO s1 \<and> iappend ROOTINO (mk_dirent ROOTINO (ascii ''.'')) s1 = Ok () s2
    \<and> iappend ROOTINO (mk_dirent ROOTINO (ascii ''..'')) s2 = Ok () t \<and> built files [] sb_block t"
proof -
  let ?d = "\<lambda>_. fresh_dinode T_DIR" and ?a = "\<lambda>_ _. 0" and ?c = "\<lambda>_. []"
  have r: "ROOTINO = of_nat (Suc 0)" by (simp add: ROOTINO_def)
  have N: "Suc 0 < NINODES" by (simp add: NINODES_def)
  have im: "image (mk_start can) ! 1 = sb_block" by (simp add: mk_start_def FSSIZE_def)
  obtain s1 where 1: "ialloc_mk T_DIR (mk_start can) = Ok (of_nat (Suc 0)) s1" "mk_inv s1 (Suc 0) (?d(0 := fresh_dinode T_DIR)) (?c(0 := [])) ?a" "image s1 ! 1 = sb_block"
    using ialloc_mk_inv [OF mk_start_inv [OF assms] N] im by metis
  have bl: "blocks_needed (Suc 0) (?c(0 := xs)) \<le> FSSIZE" if "length xs \<le> BSIZE" for xs :: "byte list"
  proof -
    have "nblk (length xs) \<le> nblk (1 * BSIZE + 0)" using that by (intro nblk_le) simp
    also have "\<dots> = 1" using nblk_parts [of 0 1] by simp
    finally have "need (nblk (length xs)) \<le> need 1" by (rule need_mono)
    then show ?thesis by (simp add: blocks_needed_def need_def layout_defs)
  qed
  have lim: "32 \<le> BSIZE" "16 \<le> MAXFILE * BSIZE" "32 \<le> MAXFILE * BSIZE" by (simp_all add: layout_defs)
  let ?x = "mk_dirent ROOTINO (ascii ''.'')" and ?y = "mk_dirent ROOTINO (ascii ''..'')"
  obtain s2 d2 a2 where 2: "iappend (of_nat (Suc 0)) ?x s1 = Ok () s2" "mk_inv s2 (Suc 0) d2 (?c(0 := ?x)) a2"
    "same_kind (Suc 0) (?d(0 := fresh_dinode T_DIR)) d2" "image s2 ! 1 = sb_block"
    using iappend_mk_inv [OF 1(2), of 0 ?x] bl [of ?x] 1(3) lim by auto
  obtain t d3 a3 where 3: "iappend (of_nat (Suc 0)) ?y s2 = Ok () t" "mk_inv t (Suc 0) d3 (?c(0 := ?x @ ?y)) a3"
    "same_kind (Suc 0) d2 d3" "image t ! 1 = sb_block"
    using iappend_mk_inv [OF 2(2), of 0 ?y] bl [of "?x @ ?y"] 2(4) lim by auto
  have "mk_inv t (Suc 0) d3 (contents files []) a3"
    by (rule mk_inv_cong [OF 3(2)]) (simp add: contents_def root_dir_def ROOTINO_def)
  moreover have "kinds (Suc 0) d3" using 2(3) 3(3) by (simp add: kinds_def same_kind_def fresh_dinode_def)
  ultimately have "built files [] sb_block t" using 3(4) by (auto simp: built_def)
  then show ?thesis using 1(1) 2(1) 3(1) unfolding r by blast
qed

text \<open>The bitmap: exactly the first \<open>n\<close> bits are set.\<close>

lemma fold_bit_set:
  assumes "n \<le> 8 * BSIZE"
  shows "length (fold (\<lambda>i d. bit_set d i) [0..<n] zeroes) = BSIZE \<and>
    (\<forall>b < 8 * BSIZE. bit_free (fold (\<lambda>i d. bit_set d i) [0..<n] zeroes) b \<longleftrightarrow> n \<le> b)"
  using assms
proof (induction n)
  case 0
  then show ?case by (simp add: bit_free_def zeroes_def)
next
  case (Suc n)
  let ?f = "fold (\<lambda>i d. bit_set d i) [0..<n] zeroes"
  have ih: "length ?f = BSIZE" "\<And>b. b < 8 * BSIZE \<Longrightarrow> bit_free ?f b \<longleftrightarrow> n \<le> b" using Suc by auto
  have "bit_free (bit_set ?f n) b \<longleftrightarrow> Suc n \<le> b" if "b < 8 * BSIZE" for b
    using ih(2) [OF that] bit_free_set_clear(1) [of n ?f b] Suc.prems that ih(1) by auto
  then show ?case using ih(1) by (simp add: bit_set_def)
qed

lemma sint_of_small: "n < 2 ^ 31 \<Longrightarrow> sint (of_nat n :: uint) = int n"
  by (simp add: signed_of_nat signed_take_bit_int_eq_self)

text \<open>What the end of \<open>mkfs\<close> does to the image: the size of the root directory is rounded up and the bitmap is written.\<close>

lemma mkfs_end:
  assumes b: "built files args sbk s"
  shows "\<exists>u t d a. fix_root_size ROOTINO s = Ok () u \<and> balloc_mk (freeblock u) u = Ok () t \<and> kinds (Suc (length args)) d
    \<and> stored t (Suc (length args)) d (contents files args) (\<lambda>i. nblk (length (contents files args i))) a \<and> on_disk (image t) (Suc (length args)) d
    \<and> image t ! 1 = sbk \<and> unat (freeblock t) = blocks_needed (Suc (length args)) (contents files args)
    \<and> (\<forall>k < FSSIZE. bit_free (image t ! 45) k \<longleftrightarrow> unat (freeblock t) \<le> k)
    \<and> (\<forall>i < Suc (length args). di_size (d i) = of_nat (if i = 0 then (length (root_dir args) div BSIZE + 1) * BSIZE else length (contents files args i)))"
proof -
  let ?N = "Suc (length args)" and ?c = "contents files args"
  obtain d a where 0: "mk_inv s ?N d ?c a" "kinds ?N d" "image s ! 1 = sbk" using b by (auto simp: built_def)
  note D = mk_invD [OF 0(1)]
  have st: "stored s ?N d ?c (\<lambda>i. nblk (length (?c i))) a" "on_disk (image s) ?N d" "msb s = mkfs_sb" "?N < NINODES"
    "\<forall>i < ?N. di_size (d i) = of_nat (length (?c i))" using 0(1) by (simp_all add: mk_inv_def)
  have r: "ROOTINO = of_nat (Suc 0)" by (simp add: ROOTINO_def)
  have rd: "rinode ROOTINO s = Ok (d 0) s" unfolding r using rinode_mkfs [OF st(2,3), of 0] st(4) D(4) by simp
  let ?z = "(length (root_dir args) div BSIZE + 1) * BSIZE"
  have lr: "length (root_dir args) < 2 ^ 32" using st(4) by (simp add: length_root_dir NINODES_def)
  have dv: "(of_nat (length (root_dir args)) :: uint) div of_nat BSIZE = of_nat (length (root_dir args) div BSIZE)"
    using lr by (intro word_unat_eq_iff [THEN iffD2]) (simp add: unat_div unat_small BSIZE_def div_le_dividend le_less_trans)
  let ?x = "(d 0)\<lparr>di_size := of_nat ?z\<rparr>"
  have la: "length (di_addrs ?x) = NDIRECT + 1" using D(6) [of 0] by simp
  have z: "0 < NINODES" by (simp add: NINODES_def)
  obtain u where u: "winode (of_nat (Suc 0)) ?x s = Ok () u" "u = s\<lparr>image := image u\<rparr>" "length (image u) = FSSIZE"
    "\<forall>b \<in> set (image u). length b = BSIZE" "\<forall>k. k \<noteq> iblock 0 \<longrightarrow> image u ! k = image s ! k" "get_dinode (image u ! iblock 0) (Suc 0 mod IPB) = ?x"
    "\<forall>j. j \<noteq> Suc 0 mod IPB \<longrightarrow> j < IPB \<longrightarrow> get_dinode (image u ! iblock 0) j = get_dinode (image s ! iblock 0) j"
    by (rule winode_mkfs [OF z la st(3) D(3,4,5)])
  have ue: "writable u = writable s" "freeblock u = freeblock s" "msb u = mkfs_sb" by (subst u(2), simp add: st(3))+
  have fx: "fix_root_size ROOTINO s = Ok () u"
    using rd u(1) st(5) dv r by (simp add: fix_root_size_def contents_def algebra_simps)
  have su: "stored u ?N (d(0 := ?x)) ?c (\<lambda>i. nblk (length (?c i))) a"
    by (rule stored_addrs [of _ _ _ _ "d 0"]) (use stored_inode [OF st(1) u(2-5) z] in simp_all)
  have od: "on_disk (image u) ?N (d(0 := ?x))" by (rule on_disk_put [OF u(5-7)]) (use st(2) in \<open>auto simp: on_disk_def\<close>)
  have fb: "unat (freeblock u) = blocks_needed ?N ?c" "unat (freeblock u) \<le> FSSIZE" using D(1,2) by (auto simp: ue blank_from_def)
  have si: "sint (freeblock u) = int (unat (freeblock u))" using sint_of_small [of "unat (freeblock u)"] fb(2) by (simp add: FSSIZE_def)
  let ?n = "unat (freeblock u)"
  let ?bm = "fold (\<lambda>i d. bit_set d i) [0..<?n] zeroes"
  let ?t = "u\<lparr>image := (image u)[45 := ?bm]\<rparr>"
  have bm: "length ?bm = BSIZE" "\<forall>b < 8 * BSIZE. bit_free ?bm b \<longleftrightarrow> ?n \<le> b" using fold_bit_set [of ?n] fb(2) by (simp_all add: layout_defs)
  have k45: "45 < FSSIZE" "sb_bmapstart mkfs_sb = of_nat 45" by (simp_all add: FSSIZE_def mkfs_layout)
  have wu: "\<forall>i. writable u i" using D(3) by (simp add: ue(1))
  have ba: "balloc_mk (freeblock u) u = Ok () ?t"
  proof -
    have "?n < BSIZE * 8" using fb(2) by (simp add: layout_defs)
    then have "sint (freeblock u) < int (BSIZE * 8)" unfolding si by (simp only: of_nat_less_iff)
    moreover have "nat (sint (freeblock u)) = ?n" unfolding si by (simp only: nat_int)
    ultimately show ?thesis using wsect_block [OF u(3) k45(1) wu] by (simp only: balloc_mk_def ue(3) k45(2) not_True_eq_False if_False zeroes_def)
  qed
  have "store (image ?t) ?n ?N (d(0 := ?x)) ?c (\<lambda>i. nblk (length (?c i))) a"
  proof (rule store_frame)
    show "\<forall>b \<in> set (image ?t). length b = BSIZE" using u(4) bm(1) by (auto dest!: set_update_subset_insert [THEN subsetD])
  qed (use su in \<open>auto simp: stored_def mkfs_layout\<close>)
  then have "stored ?t ?N (d(0 := ?x)) ?c (\<lambda>i. nblk (length (?c i))) a" using wu by (simp add: stored_def)
  moreover have "on_disk (image ?t) ?N (d(0 := ?x))"
    unfolding on_disk_def
  proof (intro allI impI)
    fix i
    assume i: "i < ?N"
    then have "iblock i \<noteq> 45" using iblock_bounds [of i] st(4) by simp
    then show "get_dinode (image ?t ! iblock i) (Suc i mod IPB) = (d(0 := ?x)) i" using od i by (simp add: on_disk_def)
  qed
  moreover have "image ?t ! 1 = sbk" using 0(3) u(5) iblock_bounds [OF z] by simp
  moreover have "\<forall>k < FSSIZE. bit_free (image ?t ! 45) k \<longleftrightarrow> ?n \<le> k" using bm(2) u(3) by (simp add: layout_defs)
  moreover have "kinds ?N (d(0 := ?x))" using 0(2) by (simp add: kinds_def)
  moreover have "\<forall>i < ?N. di_size ((d(0 := ?x)) i) = of_nat (if i = 0 then ?z else length (?c i))" using st(5) by simp
  ultimately show ?thesis using fx ba fb(1) by (intro exI [of _ u] exI [of _ ?t] exI [of _ "d(0 := ?x)"] exI [of _ a] conjI) simp_all
qed

lemma mkfs_main_image:
  assumes ok: "args_ok files args" and h: "\<forall>k. can k" "creates img"
  shows "\<exists>t d a. mkfs_main files creates can (prog # img # args) = Ok () t \<and> kinds (Suc (length args)) d
    \<and> stored t (Suc (length args)) d (contents files args) (\<lambda>i. nblk (length (contents files args i))) a \<and> on_disk (image t) (Suc (length args)) d
    \<and> image t ! 1 = sb_block \<and> unat (freeblock t) = blocks_needed (Suc (length args)) (contents files args)
    \<and> (\<forall>k < FSSIZE. bit_free (image t ! 45) k \<longleftrightarrow> unat (freeblock t) \<le> k)
    \<and> (\<forall>i < Suc (length args). di_size (d i) = of_nat (if i = 0 then (length (root_dir args) div BSIZE + 1) * BSIZE else length (contents files args i)))"
proof -
  let ?s = "\<lparr>image = [], writable = can, msb = mkfs_sb, freeinode = 1, freeblock = of_nat nmeta\<rparr>"
  have z: "for_each (\<lambda>i. wsect (of_nat i) zeroes) [0..<FSSIZE] ?s = Ok () (?s\<lparr>image := replicate FSSIZE zeroes\<rparr>)"
    by (rule zero_image) (use h in simp_all)
  have w: "wsect 1 (put_at zeroes 0 (superblock_bytes mkfs_sb)) (?s\<lparr>image := replicate FSSIZE zeroes\<rparr>) = Ok () (mk_start can)"
    using wsect_block [of "?s\<lparr>image := replicate FSSIZE zeroes\<rparr>" 1] h(1) by (simp add: FSSIZE_def) (simp add: mk_start_def sb_block_def FSSIZE_def)
  obtain s1 s2 s3 where 1: "ialloc_mk T_DIR (mk_start can) = Ok ROOTINO s1" "iappend ROOTINO (mk_dirent ROOTINO (ascii ''.'')) s1 = Ok () s2"
    "iappend ROOTINO (mk_dirent ROOTINO (ascii ''..'')) s2 = Ok () s3" "built files [] sb_block s3"
    using built_root [OF h(1)] by blast
  obtain s4 where 2: "for_each (add_file files ROOTINO) args s3 = Ok () s4" "built files args sb_block s4"
    using add_files_built [OF 1(4), of args] ok by auto
  obtain u t d a where 3: "fix_root_size ROOTINO s4 = Ok () u" "balloc_mk (freeblock u) u = Ok () t" and R: "kinds (Suc (length args)) d"
    "stored t (Suc (length args)) d (contents files args) (\<lambda>i. nblk (length (contents files args i))) a" "on_disk (image t) (Suc (length args)) d"
    "image t ! 1 = sb_block" "unat (freeblock t) = blocks_needed (Suc (length args)) (contents files args)"
    "\<forall>k < FSSIZE. bit_free (image t ! 45) k \<longleftrightarrow> unat (freeblock t) \<le> k"
    "\<forall>i < Suc (length args). di_size (d i) = of_nat (if i = 0 then (length (root_dir args) div BSIZE + 1) * BSIZE else length (contents files args i))"
    using mkfs_end [OF 2(2)] by blast
  have "mkfs_main files creates can (prog # img # args) = Ok () t"
    using z w 1(1-3) 2(1) 3 h(2) by (simp add: mkfs_main_def)
  with R show ?thesis by blast
qed

section \<open>The image as the kernel sees it\<close>

definition image_view :: "block list \<Rightarrow> block_view" where
  "image_view im = \<lparr>vk = (\<lambda>n. im ! unat n), vd = (\<lambda>n. im ! unat n), vr = (\<lambda>_. 0), vl = (\<lambda>_. False)\<rparr>"

definition image_inode :: "block list \<Rightarrow> nat \<Rightarrow> dinode" where
  "image_inode im inum = get_dinode (im ! unat (IBLOCK (of_nat inum) mkfs_sb)) (inum mod IPB)"

text \<open>A file of the image has its blocks where the kernel looks for them.\<close>

lemma file_rel_kernel:
  assumes f: "file_rel im a d c k" "placed fb a k" "blank_from im fb" and x: "i_addrs x = di_addrs d" and q: "q < k * BSIZE"
  shows "file_byte (image_view im) x q = (if q < length c then c ! q else 0)" "block_ok (image_view im) x (q div BSIZE)"
proof -
  have j: "q div BSIZE < k" using q by (simp add: less_mult_imp_div_less)
  have k: "k \<le> MAXFILE" using f(1) by (simp add: file_rel_def)
  have F: "fb \<le> FSSIZE" "length im = FSSIZE" using f(3) by (auto simp: blank_from_def)
  have aj: "nmeta \<le> a (Some (q div BSIZE))" "a (Some (q div BSIZE)) < FSSIZE" using placedD [OF f(2), of "Some (q div BSIZE)"] j F by (auto simp: slots_def)
  have fb: "file_block (image_view im) x (q div BSIZE) = of_nat (a (Some (q div BSIZE)))"
  proof -
    have "file_block (image_view im) x (q div BSIZE) = fblock im d (q div BSIZE)" by (simp add: file_block_def fblock_def image_view_def x)
    then show ?thesis using f(1) j by (simp add: file_rel_def)
  qed
  then show "file_byte (image_view im) x q = (if q < length c then c ! q else 0)"
    using f(1) q aj by (simp add: file_byte_def file_rel_def image_view_def)
  have rm: "room (image_view im) n" for n by (simp add: room_def image_view_def NBUF_def MAXOPBLOCKS_def)
  have ind: "i_addrs x ! NDIRECT \<noteq> 0" if "NDIRECT \<le> q div BSIZE"
  proof -
    have "k > NDIRECT" using that j by simp
    then show ?thesis using f(1) placedD [OF f(2), of None] F by (simp add: file_rel_def x slots_def) (simp add: mkfs_layout)
  qed
  have "length (im ! a (Some (q div BSIZE))) = BSIZE" using f(3) aj F by (simp add: blank_from_def)
  then show "block_ok (image_view im) x (q div BSIZE)"
    unfolding block_ok_def fb using j k aj rm ind by (auto simp: image_view_def mkfs_layout)
qed

lemma nblk_ge: "n \<le> nblk n * BSIZE"
  by (simp add: nblk_def BSIZE_def)

lemma image_inode_on_disk:
  assumes "on_disk im N d" "i < N" "N < NINODES"
  shows "image_inode im (Suc i) = d i" "unat (IBLOCK (of_nat (Suc i)) mkfs_sb) = iblock i"
proof -
  have "iblock i < FSSIZE" using iblock_bounds [of i] assms by (simp add: FSSIZE_def)
  then show u: "unat (IBLOCK (of_nat (Suc i)) mkfs_sb) = iblock i" using IBLOCK_mkfs [of i] assms by (simp del: of_nat_Suc)
  show "image_inode im (Suc i) = d i" unfolding image_inode_def u using assms by (simp add: on_disk_def)
qed

text \<open>C40. The image \<^verbatim>\<open>mkfs\<close> builds is a file system for the kernel. When the arguments can be read, there are inodes and blocks enough and
  the host can write the image, \<^verbatim>\<open>mkfs\<close> succeeds. The superblock is the one the kernel expects; the bitmap marks as used exactly the
  metadata and the blocks of the files. The root directory is inode 1 and the files have the next inode numbers, in order,
  each with one link and its size; following direct and indirect blocks as the kernel does gives the contents: of
  a file the bytes read from the host, however they arrived, and of the root directory the entries for itself, its parent and the
  files, followed by empty entries.\<close>

theorem mkfs_builds_file_system:
  assumes "args_ok files args" "\<forall>k. can k" "creates img"
  shows "\<exists>t. mkfs_main files creates can (prog # img # args) = Ok () t \<and> length (image t) = FSSIZE
    \<and> get_superblock (image t ! 1) = mkfs_sb
    \<and> (\<forall>b < FSSIZE. block_free (image_view (image t)) mkfs_sb b \<longleftrightarrow> blocks_needed (Suc (length args)) (contents files args) \<le> b)
    \<and> (\<forall>i \<le> length args. di_nlink (image_inode (image t) (Suc i)) = 1
        \<and> di_type (image_inode (image t) (Suc i)) = (if i = 0 then T_DIR else T_FILE)
        \<and> di_size (image_inode (image t) (Suc i)) =
            of_nat (if i = 0 then (length (root_dir args) div BSIZE + 1) * BSIZE else length (contents files args i))
        \<and> (\<forall>x. i_addrs x = di_addrs (image_inode (image t) (Suc i)) \<longrightarrow>
            (\<forall>q < nblk (length (contents files args i)) * BSIZE.
               file_byte (image_view (image t)) x q = (if q < length (contents files args i) then contents files args i ! q else 0))))"
proof -
  let ?N = "Suc (length args)" and ?c = "contents files args"
  obtain t d a where t: "mkfs_main files creates can (prog # img # args) = Ok () t" "kinds ?N d"
    "stored t ?N d ?c (\<lambda>i. nblk (length (?c i))) a" "on_disk (image t) ?N d"
    "image t ! 1 = sb_block" "unat (freeblock t) = blocks_needed ?N ?c"
    "\<forall>k < FSSIZE. bit_free (image t ! 45) k \<longleftrightarrow> unat (freeblock t) \<le> k"
    "\<forall>i < ?N. di_size (d i) = of_nat (if i = 0 then (length (root_dir args) div BSIZE + 1) * BSIZE else length (?c i))"
    using mkfs_main_image [where files = files and can = can and creates = creates and img = img and prog = prog, OF assms] by blast
  have N: "?N < NINODES" using assms(1) by (simp add: args_ok_def)
  note S = storeD [OF t(3) [unfolded stored_def, THEN conjunct2]]
  have bm: "block_free (image_view (image t)) mkfs_sb b \<longleftrightarrow> blocks_needed ?N ?c \<le> b" if "b < FSSIZE" for b
  proof -
    have "b div BPB = 0" "b mod BPB = b" using that by (simp_all add: layout_defs)
    moreover from this have "BBLOCK (of_nat b) mkfs_sb = 45" using BBLOCK_nat [of b mkfs_sb] that by (simp add: FSSIZE_def mkfs_layout)
    ultimately show ?thesis using t(6,7) that by (simp add: block_free_def image_view_def)
  qed
  have ino: "image_inode (image t) (Suc i) = d i" if "i \<le> length args" for i
    using image_inode_on_disk(1) [OF t(4) _ N] that by simp
  have bytes: "file_byte (image_view (image t)) x q = (if q < length (?c i) then ?c i ! q else 0)"
    if "i \<le> length args" "i_addrs x = di_addrs (d i)" "q < nblk (length (?c i)) * BSIZE" for i x q
    using file_rel_kernel(1) [OF S(2) S(3) S(1) that(2,3)] that(1) by simp
  have "length (image t) = FSSIZE" using S(1) by (simp add: blank_from_def)
  then show ?thesis using t(1,2,5,8) get_sb_block bm ino bytes by (intro exI [of _ t] conjI) (simp_all add: kinds_def)
qed

lemma demo_args:
  defines "f \<equiv> \<lambda>_ :: byte list. Some ([7, 8, 9], [4, 3]) :: stream_in option" and "a \<equiv> [ascii ''user/_ls'']"
  shows "contents f a (Suc 0) = [7, 8, 9]" "length (contents f a 0) = 48"
    "blocks_needed (Suc (length a)) (contents f a) = 48" "args_ok f a"
proof -
  show c: "contents f a (Suc 0) = [7, 8, 9]" "length (contents f a 0) = 48"
    by (simp_all add: contents_def length_root_dir f_def a_def)
  show n: "blocks_needed (Suc (length a)) (contents f a) = 48"
    using c by (simp add: a_def blocks_needed_def nblk_def need_def mkfs_layout BSIZE_def NDIRECT_def)
  then show "args_ok f a"
    by (simp add: args_ok_def arg_ok_def short_name_def ascii_def layout_defs NINODES_def FSSIZE_def f_def a_def)
qed

theorem mkfs_builds_file_system_witness:
  "\<exists>t x. mkfs_main (\<lambda>_. Some ([7, 8, 9], [4, 3])) (\<lambda>_. True) (\<lambda>_. True) [[109], [105], ascii ''user/_ls''] = Ok () t
     \<and> i_addrs x = di_addrs (image_inode (image t) 2) \<and> di_size (image_inode (image t) 2) = 3
     \<and> map (file_byte (image_view (image t)) x) [0..<4] = [7, 8, 9, 0]
     \<and> \<not> block_free (image_view (image t)) mkfs_sb 47 \<and> block_free (image_view (image t)) mkfs_sb 48"
proof -
  let ?f = "\<lambda>_ :: byte list. Some ([7, 8, 9], [4, 3]) :: stream_in option" and ?a = "[ascii ''user/_ls'']"
  note c = demo_args(1,2) and n = demo_args(3)
  from mkfs_builds_file_system [OF demo_args(4), of "\<lambda>_. True" "\<lambda>_. True" "[105]" "[109]"] obtain t where
    m: "mkfs_main ?f (\<lambda>_. True) (\<lambda>_. True) [[109], [105], ascii ''user/_ls''] = Ok () t"
    and bf: "\<forall>b < FSSIZE. block_free (image_view (image t)) mkfs_sb b \<longleftrightarrow> 48 \<le> b"
    and fl: "\<forall>i \<le> length ?a. di_nlink (image_inode (image t) (Suc i)) = 1
        \<and> di_type (image_inode (image t) (Suc i)) = (if i = 0 then T_DIR else T_FILE)
        \<and> di_size (image_inode (image t) (Suc i)) =
            of_nat (if i = 0 then (length (root_dir ?a) div BSIZE + 1) * BSIZE else length (contents ?f ?a i))
        \<and> (\<forall>x. i_addrs x = di_addrs (image_inode (image t) (Suc i)) \<longrightarrow>
            (\<forall>q < nblk (length (contents ?f ?a i)) * BSIZE.
               file_byte (image_view (image t)) x q = (if q < length (contents ?f ?a i) then contents ?f ?a i ! q else 0)))"
    unfolding n by blast
  have g: "di_size (image_inode (image t) 2) = 3"
    "i_addrs x = di_addrs (image_inode (image t) 2) \<Longrightarrow> q < 4 \<Longrightarrow>
      file_byte (image_view (image t)) x q = (if q < 3 then [7, 8, 9] ! q else 0)" for x q
    using fl [THEN spec [of _ "Suc 0"]] by (simp_all add: c numeral_2_eq_2 nblk_def BSIZE_def)
  let ?x = "demo_inode 3 (di_addrs (image_inode (image t) 2))"
  have x: "i_addrs ?x = di_addrs (image_inode (image t) 2)" by (simp add: demo_inode_def)
  have "map (file_byte (image_view (image t)) ?x) [0..<4] = [7, 8, 9, 0]" using g(2) [OF x] by (simp add: upt_rec)
  then show ?thesis using m bf g(1) x by (intro exI [of _ t] exI [of _ ?x]) (simp add: FSSIZE_def)
qed

lemma room_image [simp]: "room (image_view im) n"
  by (simp add: room_def image_view_def NBUF_def MAXOPBLOCKS_def)

lemma take_drop_map_nth: "\<forall>q < length c. f q = c ! q \<Longrightarrow> k = min n (length c - off) \<Longrightarrow> map f [off..<off + k] = take n (drop off c)"
  by (rule nth_equalityI) auto

text \<open>An inode of the image read by the kernel, and the bytes of the file.\<close>

lemma kernel_reads_image:
  fixes s :: "'a fs_state_scheme"
  assumes a: "args_ok files args" "\<forall>k. can k" "creates img" and m: "mkfs_main files creates can (prog # img # args) = Ok () t"
    and b: "binv s p" "view s = image_view (image t)" "sb s = mkfs_sb"
    and y: "inodes s ip = y" "i_dev y = ROOTDEV" "1 \<le> i_ref y" "\<not> i_valid y" "\<not> sl_locked (i_lock y)"
      "i_inum y = of_nat (Suc i)" "i \<le> length args"
  obtains u where "ilock ip s = Ok () u" "binv u p" "view u = view s" "i_dev (inodes u ip) = ROOTDEV" "i_valid (inodes u ip)"
    "i_type (inodes u ip) = (if i = 0 then T_DIR else T_FILE)"
    "i_size (inodes u ip) = of_nat (if i = 0 then (length (root_dir args) div BSIZE + 1) * BSIZE else length (contents files args i))"
    "\<forall>q < nblk (length (contents files args i)) * BSIZE. block_ok (view u) (inodes u ip) (q div BSIZE)
       \<and> file_byte (view u) (inodes u ip) q = (if q < length (contents files args i) then contents files args i ! q else 0)"
    "sb u = sb s" "inodes u = (inodes s)(ip := inodes u ip)" "i_ref (inodes u ip) = i_ref y" "i_inum (inodes u ip) = i_inum y"
proof -
  let ?N = "Suc (length args)" and ?c = "contents files args"
  obtain d z where t: "kinds ?N d" "stored t ?N d ?c (\<lambda>i. nblk (length (?c i))) z" "on_disk (image t) ?N d"
    "\<forall>i < ?N. di_size (d i) = of_nat (if i = 0 then (length (root_dir args) div BSIZE + 1) * BSIZE else length (?c i))"
    using mkfs_main_image [where files = files and can = can and creates = creates and img = img and prog = prog, OF a] m by auto
  have N: "?N < NINODES" "i < ?N" using a(1) y(7) by (simp_all add: args_ok_def)
  then have si: "unat (of_nat (Suc i) :: uint) = Suc i" by (simp add: NINODES_def unat_of_nat del: of_nat_Suc)
  note S = storeD [OF t(2) [unfolded stored_def, THEN conjunct2]]
  have x: "d i = get_dinode (vk (view s) (IBLOCK (i_inum y) (sb s))) (unat (i_inum y) mod IPB)" "di_type (d i) \<noteq> 0"
    using image_inode_on_disk(1) [OF t(3) N(2,1)] t(1) N(2) unfolding b(2,3) y(6) si
    by (simp_all add: image_inode_def image_view_def kinds_def T_DIR_def T_FILE_def del: of_nat_Suc)
  have r: "room (view s) (IBLOCK (i_inum y) (sb s))" by (simp add: b(2))
  obtain u where u: "ilock ip s = Ok () u" "binv u p" "view u = view s" "inode_dinode (inodes u ip) = d i" "i_valid (inodes u ip)"
    "i_dev (inodes u ip) = ROOTDEV" "sb u = sb s" "inodes u = (inodes s)(ip := inodes u ip)" "i_ref (inodes u ip) = i_ref y" "i_inum (inodes u ip) = i_inum y"
    by (rule ilock_fills [OF b(1) y(1-5) r x])
  have f: "i_type (inodes u ip) = di_type (d i)" "i_size (inodes u ip) = di_size (d i)" "i_addrs (inodes u ip) = di_addrs (d i)"
    by (simp_all add: inode_dinode_def flip: u(4))
  have k: "block_ok (view u) (inodes u ip) (q div BSIZE) \<and> file_byte (view u) (inodes u ip) q = (if q < length (?c i) then ?c i ! q else 0)"
    if "q < nblk (length (?c i)) * BSIZE" for q
    using file_rel_kernel [OF S(2) S(3) S(1) f(3) that] N(2) by (simp add: u(3) b(2))
  show ?thesis by (rule that [OF u(1-3,6,5) _ _ _ u(7-10)]) (use f t(1,4) N(2) k in \<open>simp_all add: kinds_def\<close>)
qed

lemma kernel_reads_file:
  fixes s :: "'a fs_state_scheme"
  assumes a: "args_ok files args" "\<forall>k. can k" "creates img" and m: "mkfs_main files creates can (prog # img # args) = Ok () t"
    and b: "binv s p" "view s = image_view (image t)" "sb s = mkfs_sb"
    and y: "inodes s ip = y" "i_dev y = ROOTDEV" "1 \<le> i_ref y" "\<not> i_valid y" "\<not> sl_locked (i_lock y)"
      "i_inum y = of_nat (i + 2)" "i < length args" "files (args ! i) = Some (bs, ks)" and o: "off \<le> off + n"
  shows "\<exists>u v. ilock ip s = Ok () u \<and> view v = view s
    \<and> readi ip LocalDst off n u = Ok (min (unat n) (length bs - unat off), take (unat n) (drop (unat off) bs)) v"
proof -
  have c: "contents files args (Suc i) = bs" using y(8) by (simp add: contents_def)
  have "arg_ok files (args ! i)" using a(1) y(7) by (simp add: args_ok_def)
  then have l: "length bs \<le> MAXFILE * BSIZE" using y(8) by (simp add: arg_ok_def)
  have i: "i_inum y = of_nat (Suc (Suc i))" "Suc i \<le> length args" using y(6,7) by simp_all
  obtain u where u: "ilock ip s = Ok () u" "binv u p" "view u = view s" "i_dev (inodes u ip) = ROOTDEV" "i_size (inodes u ip) = of_nat (length bs)"
    "\<forall>q < nblk (length bs) * BSIZE. block_ok (view u) (inodes u ip) (q div BSIZE) \<and> file_byte (view u) (inodes u ip) q = (if q < length bs then bs ! q else 0)"
    by (rule kernel_reads_image [OF a m b y(1-5) i, unfolded c]) simp
  have sz: "unat (i_size (inodes u ip)) = length bs" using l by (simp add: u(5) unat_of_nat layout_defs)
  have q: "block_ok (view u) (inodes u ip) (q div BSIZE)" "file_byte (view u) (inodes u ip) q = bs ! q" if "q < length bs" for q
    using u(6) [THEN spec [of _ q]] nblk_ge [of "length bs"] that by simp_all
  have "read_count (inodes u ip) off n = min (unat n) (length bs - unat off)"
    using o by (auto simp: read_count_def sz word_less_nat_alt word_le_nat_alt)
  then show ?thesis
    using readi_view [OF u(2,4), of off n] q(1) u(1,3) take_drop_map_nth [of bs, OF _ refl] q(2) by (auto simp: sz)
qed

section \<open>Finding a file by its name\<close>

lemma upt_split: "k < n \<Longrightarrow> [0..<n] = [0..<k] @ k # [Suc k..<n]"
  using upt_conv_Cons [of k n] upt_add_eq_append [of 0 k "n - k"] by simp

lemma concat_16:
  assumes "\<forall>xs \<in> set xss. length xs = 16" "k < length xss"
  shows "take 16 (drop (16 * k) (concat xss)) = xss ! k"
  using assms
proof (induction xss arbitrary: k)
  case (Cons xs xss)
  then show ?case by (cases k) simp_all
qed simp

text \<open>The entries of the root directory.\<close>

definition root_entry :: "byte list list \<Rightarrow> nat \<Rightarrow> dirent" where
  "root_entry args k = \<lparr>de_inum = (if k < 2 then 1 else of_nat k),
     de_name = strncpy_bytes DIRSIZ (if k = 0 then ascii ''.'' else if k = 1 then ascii ''..'' else file_name (args ! (k - 2)))\<rparr>"

lemma root_dir_entry:
  assumes k: "k < length args + 2" and b: "\<forall>q < length (root_dir args). file_byte v x q = root_dir args ! q"
  shows "dir_entry v x (16 * k) = root_entry args k"
proof -
  let ?l = "mk_dirent 1 (ascii ''.'') # mk_dirent 1 (ascii ''..'') # map (\<lambda>j. mk_dirent (of_nat (j + 2)) (file_name (args ! j))) [0..<length args]"
  have uc: "ucast (of_nat n :: uint) = (of_nat n :: uint16)" for n
    by (simp add: word_unat_eq_iff unsigned_ucast_eq unsigned_of_nat take_bit_take_bit)
  have "take 16 (drop (16 * k) (concat ?l)) = ?l ! k" using k by (intro concat_16) auto
  then have "take 16 (drop (16 * k) (root_dir args)) = ?l ! k" by (simp add: root_dir_def)
  moreover have "?l ! k = dirent_bytes (root_entry args k)"
    using k by (auto simp: root_entry_def mk_dirent_def uc nth_Cons split: nat.splits simp del: of_nat_add of_nat_Suc)
  moreover have "dir_entry v x (16 * k) = get_dirent (take 16 (drop (16 * k) (root_dir args)))"
    using b k by (intro dir_entry_bytes) (auto simp: length_root_dir)
  ultimately show ?thesis by (simp add: root_entry_def)
qed

text \<open>The slots of the inode cache are as after \<^verbatim>\<open>iinit\<close>, apart from the inodes in use: there is one left, and unused ones are not locked.\<close>

definition slot_left :: "(nat \<Rightarrow> inode) \<Rightarrow> bool" where
  "slot_left ic \<longleftrightarrow> (\<exists>j < NINODE. i_ref (ic j) = 0) \<and> (\<forall>j < NINODE. i_ref (ic j) = 0 \<longrightarrow> \<not> sl_locked (i_lock (ic j)))"

lemma root_lookup:
  fixes s :: "'a fs_state_scheme"
  assumes a: "args_ok files args" "\<forall>k. can k" "creates img" and m: "mkfs_main files creates can (prog # img # args) = Ok () t"
    and b: "binv s p" "view s = image_view (image t)" "sb s = mkfs_sb"
    and y: "inodes s dp = y" "i_dev y = ROOTDEV" "1 \<le> i_ref y" "\<not> i_valid y" "\<not> sl_locked (i_lock y)" "i_inum y = ROOTINO"
    and i: "i < length args" "dir_name (file_name (args ! i)) = dir_name name"
    and f: "\<forall>j < i. dir_name (file_name (args ! j)) \<noteq> dir_name name" "dir_name name \<noteq> ascii ''.''" "dir_name name \<noteq> ascii ''..''"
  obtains u v where "ilock dp s = Ok () u" "dirlookup dp name u = bindK (iget ROOTDEV (of_nat (i + 2)) v) (\<lambda>ip s2. Ok (Some (ip, 16 * (i + 2))) s2)"
    "binv v p" "view v = view s" "sb v = sb s" "inodes v = (inodes s)(dp := inodes v dp)" "i_ref (inodes v dp) = i_ref y" "i_inum (inodes v dp) = i_inum y"
proof -
  let ?r = "root_dir args"
  have N: "Suc (length args) < NINODES" using a(1) by (simp add: args_ok_def)
  have y0: "i_inum y = of_nat (Suc 0)" "0 \<le> length args" using y(6) by (simp_all add: ROOTINO_def)
  have c: "contents files args 0 = ?r" by (simp add: contents_def)
  obtain u where u: "ilock dp s = Ok () u" "binv u p" "view u = view s" "i_dev (inodes u dp) = ROOTDEV" "i_type (inodes u dp) = T_DIR"
    "i_size (inodes u dp) = of_nat ((length ?r div BSIZE + 1) * BSIZE)"
    "\<forall>q < nblk (length ?r) * BSIZE. block_ok (view u) (inodes u dp) (q div BSIZE) \<and> file_byte (view u) (inodes u dp) q = (if q < length ?r then ?r ! q else 0)"
    "sb u = sb s" "inodes u = (inodes s)(dp := inodes u dp)" "i_ref (inodes u dp) = i_ref y" "i_inum (inodes u dp) = i_inum y"
    by (rule kernel_reads_image [OF a m b y(1-5) y0, unfolded c]) simp
  let ?x = "inodes u dp"
  define K where "K = i + 2"
  have K: "K < length args + 2" "2 \<le> K" "args ! (K - 2) = args ! i" using i(1) by (simp_all add: K_def)
  have bo: "block_ok (view u) ?x (q div BSIZE)" "file_byte (view u) ?x q = ?r ! q" if "q < length ?r" for q
    using u(7) [THEN spec [of _ q]] nblk_ge [of "length ?r"] that by simp_all
  have lr: "length ?r \<le> 3216" using N by (simp add: length_root_dir NINODES_def)
  have "length ?r < (length ?r div BSIZE + 1) * BSIZE" by (simp add: BSIZE_def dividend_less_div_times)
  moreover have "(length ?r div BSIZE + 1) * BSIZE < 2 ^ 32" using lr by (simp add: BSIZE_def div_le_mono)
  ultimately have sz: "length ?r < unat (i_size ?x)" unfolding u(6) by (simp only: unat_small)
  have eo: "entry_ok (view u) ?x (16 * k)" "dir_entry (view u) ?x (16 * k) = root_entry args k" if "k < length args + 2" for k
    using that sz bo by (auto simp: entry_ok_def length_root_dir intro!: root_dir_entry)
  have dn: "dir_name (ascii ''.'') = ascii ''.''" "dir_name (ascii ''..'') = ascii ''..''" by (simp_all add: dir_name_def ascii_def DIRSIZ_def)
  have nm: "\<not> entry_named name (root_entry args k)" if "k < K" for k
    using that f dn by (auto simp: entry_named_def root_entry_def K_def)
  have k16: "unat (of_nat K :: uint16) = K" using K N by (intro unat_small16) (simp add: NINODES_def)
  then have "(of_nat K :: uint16) \<noteq> 0" using K(2) by (metis not_numeral_le_zero unsigned_0)
  then have hit: "entry_named name (root_entry args K)" using i(2) K by (simp add: entry_named_def root_entry_def)
  define M where "M = (unat (i_size ?x) + 15) div 16"
  have "K < M" using sz K(1) by (simp add: M_def length_root_dir)
  then have "[0..<M] = [0..<K] @ K # [Suc K..<M]" by (rule upt_split)
  then have o: "dir_offsets (unat (i_size ?x)) = map (\<lambda>k. 16 * k) [0..<K] @ (16 * K) # map (\<lambda>k. 16 * k) [Suc K..<M]"
    by (simp only: dir_offsets_def M_def [symmetric] map_append list.map)
  have pre: "\<forall>off \<in> set (map (\<lambda>k. 16 * k) [0..<K]). entry_ok (view u) ?x off \<and> \<not> entry_named name (dir_entry (view u) ?x off)"
    using eo nm K(1) by simp
  obtain w where w: "dirlookup dp name u = dirlookup_loop dp name ((16 * K) # map (\<lambda>k. 16 * k) [Suc K..<M]) w" "binv w p" "bio_frame u w" "view w = view u"
    using dirlookup_skip [OF u(2,4) pre] u(5) unfolding dirlookup_def o by (auto simp del: dirlookup_loop.simps)
  note fw = bio_frame_fs [OF w(3)]
  obtain v where v: "dirlookup_loop dp name ((16 * K) # map (\<lambda>k. 16 * k) [Suc K..<M]) w
      = bindK (iget ROOTDEV (ucast (de_inum (dir_entry (view w) (inodes w dp) (16 * K)))) v) (\<lambda>ip s2. Ok (Some (ip, 16 * K)) s2)"
    "binv v p" "bio_frame w v" "view v = view w"
    by (rule dirlookup_hit [OF w(2), where dp = dp and off = "16 * K" and name = name])
      (use u(4) eo [OF K(1)] hit in \<open>simp_all only: fw w(4)\<close>)
  note fv = bio_frame_fs [OF v(3)]
  have "ucast (de_inum (root_entry args K)) = (of_nat K :: uint)"
    using unat_small [of K] K N k16 by (simp add: root_entry_def word_unat_eq_iff unsigned_ucast_eq take_bit_nat_eq_self NINODES_def)
  then have "dirlookup dp name u = bindK (iget ROOTDEV (of_nat K) v) (\<lambda>ip s2. Ok (Some (ip, 16 * K)) s2)"
    unfolding w(1) v(1) fw w(4) eo(2) [OF K(1)] by (simp only:)
  with u(1) show ?thesis unfolding K_def by (rule that) (use v(2,4) w(4) u(3,8-11) in \<open>simp_all add: fv fw\<close>)
qed

text \<open>C39. The kernel finds the files \<^verbatim>\<open>mkfs\<close> was given by their names and reads their bytes. On a disk that holds the image, \<^verbatim>\<open>ilock\<close> loads the
  root directory and \<^verbatim>\<open>dirlookup\<close> of a name returns the entry of the first file with that name, cut to \<^verbatim>\<open>DIRSIZ\<close> bytes and
  without the \<^verbatim>\<open>user/\<close> and the underscore in front; \<^verbatim>\<open>ilock\<close> of the inode it returns loads it, and \<^verbatim>\<open>readi\<close> then returns the bytes of the
  host's file from the offset on, as many as were asked for or as there are.\<close>

theorem kernel_reads_mkfs_files:
  fixes s :: "'a fs_state_scheme"
  assumes a: "args_ok files args" "\<forall>k. can k" "creates img" and m: "mkfs_main files creates can (prog # img # args) = Ok () t"
    and b: "binv s p" "view s = image_view (image t)" "sb s = mkfs_sb"
    and y: "inodes s dp = y" "i_dev y = ROOTDEV" "1 \<le> i_ref y" "\<not> i_valid y" "\<not> sl_locked (i_lock y)" "i_inum y = ROOTINO"
    and i: "i < length args" "files (args ! i) = Some (bs, ks)" "dir_name (file_name (args ! i)) = dir_name name"
    and f: "\<forall>j < i. dir_name (file_name (args ! j)) \<noteq> dir_name name" "dir_name name \<noteq> ascii ''.''" "dir_name name \<noteq> ascii ''..''"
    and c: "slot_left (inodes s)" "\<forall>j < NINODE. \<not> (0 < i_ref (inodes s j) \<and> i_dev (inodes s j) = ROOTDEV \<and> i_inum (inodes s j) = of_nat (i + 2))"
    and o: "off \<le> off + n"
  shows "\<exists>u v w z ip. ilock dp s = Ok () u \<and> dirlookup dp name u = Ok (Some (ip, 16 * (i + 2))) v \<and> ilock ip v = Ok () w
    \<and> readi ip LocalDst off n w = Ok (min (unat n) (length bs - unat off), take (unat n) (drop (unat off) bs)) z \<and> view z = view s"
proof -
  obtain u v where u: "ilock dp s = Ok () u" "dirlookup dp name u = bindK (iget ROOTDEV (of_nat (i + 2)) v) (\<lambda>ip s2. Ok (Some (ip, 16 * (i + 2))) s2)"
    "binv v p" "view v = view s" "sb v = sb s" "inodes v = (inodes s)(dp := inodes v dp)" "i_ref (inodes v dp) = i_ref y" "i_inum (inodes v dp) = i_inum y"
    by (rule root_lookup [OF a m b y i(1,3) f])
  obtain j where j: "j < NINODE" "i_ref (inodes s j) = 0" using c(1) by (auto simp: slot_left_def)
  have N: "Suc (length args) < NINODES" using a(1) by (simp add: args_ok_def)
  have ri: "ROOTINO \<noteq> of_nat (i + 2)"
  proof
    assume "ROOTINO = of_nat (i + 2)"
    moreover have "unat (of_nat (i + 2) :: uint) = i + 2" using i(1) N by (intro unat_small) (simp add: NINODES_def)
    ultimately have "unat ROOTINO = i + 2" by (simp only:)
    then show False by (simp add: ROOTINO_def)
  qed
  have iv: "k \<noteq> dp \<Longrightarrow> inodes v k = inodes s k" for k using fun_cong [OF u(6), of k] by simp
  have nc: "\<not> (0 < i_ref (inodes v k) \<and> i_dev (inodes v k) = ROOTDEV \<and> i_inum (inodes v k) = of_nat (i + 2))" if "k < NINODE" for k
    using c(2) that ri u(8) y(6) iv [of k] by (cases "k = dp") (simp_all del: of_nat_add)
  have "j \<noteq> dp" using j(2) y(1,3) by auto
  then have fr: "i_ref (inodes v j) = 0" using j(2) iv by simp
  have h: "IcacheLock \<notin> held v" using u(3) by (simp add: binv_def)
  obtain ip where ip: "ip < NINODE" "i_ref (inodes v ip) = 0"
    "iget ROOTDEV (of_nat (i + 2)) v = Ok ip (v\<lparr>inodes := (inodes v)(ip := (inodes v ip)\<lparr>i_dev := ROOTDEV, i_inum := of_nat (i + 2), i_ref := 1, i_valid := False\<rparr>)\<rparr>)"
    by (rule iget_fresh [OF h _ j(1) fr, of ROOTDEV "of_nat (i + 2)"]) (use nc in blast)
  let ?y = "(inodes v ip)\<lparr>i_dev := ROOTDEV, i_inum := of_nat (i + 2), i_ref := 1, i_valid := False\<rparr>"
  let ?w = "v\<lparr>inodes := (inodes v)(ip := ?y)\<rparr>"
  have "ip \<noteq> dp" using ip(2) u(7) y(3) by auto
  then have l: "\<not> sl_locked (i_lock (inodes v ip))" using c(1) ip(1,2) iv by (simp add: slot_left_def)
  have w: "?w = upd_inode ip (\<lambda>_. ?y) v" by (simp add: upd_inode_def)
  have bw: "binv ?w p" "view ?w = view v" unfolding w using u(3) by simp_all
  have "\<exists>w z. ilock ip ?w = Ok () w \<and> view z = view ?w
    \<and> readi ip LocalDst off n w = Ok (min (unat n) (length bs - unat off), take (unat n) (drop (unat off) bs)) z"
    by (rule kernel_reads_file [OF a m, of ?w p ip ?y i]) (use b u(4,5) bw l i o in simp_all)
  then obtain w z where wz: "ilock ip ?w = Ok () w" "view z = view s"
    "readi ip LocalDst off n w = Ok (min (unat n) (length bs - unat off), take (unat n) (drop (unat off) bs)) z"
    using bw(2) u(4) by auto
  have "dirlookup dp name u = Ok (Some (ip, 16 * (i + 2))) ?w" unfolding u(2) ip(3) by simp
  with u(1) wz show ?thesis by blast
qed

theorem kernel_reads_mkfs_files_witness:
  "\<exists>t s u v w z. mkfs_main (\<lambda>_. Some ([7, 8, 9], [4, 3])) (\<lambda>_. True) (\<lambda>_. True) [[109], [105], ascii ''user/_ls''] = Ok () t
     \<and> binit (demo_fs (\<lambda>n. image t ! unat n) ((demo_inode 0 [])\<lparr>i_inum := 1, i_valid := False, i_lock := \<lparr>sl_locked = False, sl_pid = 0\<rparr>\<rparr>)) = Ok () s
     \<and> ilock 5 (upd_inode 1 (\<lambda>x. x\<lparr>i_ref := 0\<rparr>) s) = Ok () u \<and> (\<exists>ip. dirlookup 5 (ascii ''ls'') u = Ok (Some (ip, 32)) v
     \<and> ilock ip v = Ok () w \<and> readi ip LocalDst 1 10 w = Ok (2, [8, 9]) z)"
proof -
  let ?f = "\<lambda>_ :: byte list. Some ([7, 8, 9], [4, 3]) :: stream_in option" and ?a = "[ascii ''user/_ls'']"
  let ?y = "(demo_inode 0 [])\<lparr>i_inum := 1, i_valid := False, i_lock := \<lparr>sl_locked = False, sl_pid = 0\<rparr>\<rparr>"
  obtain t where t: "mkfs_main ?f (\<lambda>_. True) (\<lambda>_. True) [[109], [105], ascii ''user/_ls''] = Ok () t"
    using mkfs_main_image [OF demo_args(4), of "\<lambda>_. True" "\<lambda>_. True" "[105]" "[109]"] by auto
  obtain s where s: "binit (demo_fs (\<lambda>n. image t ! unat n) ?y) = Ok () s" "binv s 3" "view s = image_view (image t)" "sb s = mkfs_sb" "inodes s = (\<lambda>_. ?y)"
    by (rule demo_fs_boot [of "\<lambda>n. image t ! unat n" ?y]) (simp add: image_view_def demo_sb_def mkfs_layout(2))
  let ?s = "upd_inode 1 (\<lambda>x. x\<lparr>i_ref := 0\<rparr>) s"
  have i: "inodes ?s = (\<lambda>_. ?y)(1 := ?y\<lparr>i_ref := 0\<rparr>)" by (simp add: s(5) upd_inode_def)
  have nm: "file_name (ascii ''user/_ls'') = ascii ''ls''" by (simp add: file_name_def short_name_def skip_underscore_def ascii_def)
  have dn: "dir_name (ascii ''ls'') \<noteq> ascii ''.''" "dir_name (ascii ''ls'') \<noteq> ascii ''..''" by (simp_all add: dir_name_def ascii_def DIRSIZ_def)
  have sl: "slot_left (inodes ?s)" unfolding i slot_left_def by (auto simp: demo_inode_def NINODE_def intro!: exI [of _ 1])
  have "\<exists>u v w z ip. ilock 5 ?s = Ok () u \<and> dirlookup 5 (ascii ''ls'') u = Ok (Some (ip, 16 * (0 + 2))) v \<and> ilock ip v = Ok () w
    \<and> readi ip LocalDst 1 10 w = Ok (min (unat (10 :: uint)) (length [7, 8, 9 :: byte] - unat (1 :: uint)), take (unat (10 :: uint)) (drop (unat (1 :: uint)) [7, 8, 9])) z
    \<and> view z = view ?s"
    by (rule kernel_reads_mkfs_files [OF demo_args(4) _ _ t, where ks = "[4, 3]" and y = ?y and p = 3])
      (use s(2-4) nm dn sl in \<open>simp_all add: s(5) demo_inode_def ROOTINO_def\<close>)
  then show ?thesis using t s(1) by fastforce
qed

end
