(* ===== verification/Spec2Isabelle.thy ===== *)
theory Spec2Isabelle
  imports Xv6_Trap Xv6_ConsoleSpec Xv6_Filters Xv6_Umalloc Xv6_ShRun Xv6_MkfsSpec
begin

text \<open>
  Verification of the xv6 kernel for RISC-V and of some of its user programs. Paths are relative to \<^verbatim>\<open>src/\<close>.

  \<^bold>\<open>The program.\<close> Machine-mode start-up (\<^verbatim>\<open>kernel/start.c\<close>) enters \<^verbatim>\<open>main\<close>, which initialises the page allocator
  (\<^verbatim>\<open>kalloc.c\<close>), page tables (\<^verbatim>\<open>vm.c\<close>), processes (\<^verbatim>\<open>proc.c\<close>), traps (\<^verbatim>\<open>trap.c\<close>, \<^verbatim>\<open>plic.c\<close>), the buffer cache
  (\<^verbatim>\<open>bio.c\<close>), the inode cache (\<^verbatim>\<open>fs.c\<close>), the file table (\<^verbatim>\<open>file.c\<close>) and the disk (\<^verbatim>\<open>virtio_disk.c\<close>). A user program traps into
  \<^verbatim>\<open>usertrap\<close>, \<^verbatim>\<open>syscall.c\<close> dispatches to \<^verbatim>\<open>sysproc.c\<close> or \<^verbatim>\<open>sysfile.c\<close>; these work on processes and on files, a file is an
  inode, a pipe (\<^verbatim>\<open>pipe.c\<close>) or the console (\<^verbatim>\<open>console.c\<close> on \<^verbatim>\<open>uart.c\<close>), an inode is blocks of the buffer cache changed under the
  log (\<^verbatim>\<open>log.c\<close>). User programs are linked with \<^verbatim>\<open>user/ulib.c\<close>, \<^verbatim>\<open>printf.c\<close> and \<^verbatim>\<open>umalloc.c\<close>;
  the shell \<^verbatim>\<open>user/sh.c\<close> starts the others. The first file system is made on the host by \<^verbatim>\<open>mkfs/mkfs.c\<close>.

  \<^bold>\<open>How the code is modelled.\<close> A C function is a HOL function of the same name from a state to an \<open>outcome\<close>: \<open>Ok\<close> with
  the result and the new state, \<open>Panic\<close> with the message, \<open>Sleep\<close> when the process gives up the cpu inside
  \<^verbatim>\<open>sched\<close> (with the state at that point; the loop it sleeps in is a definition of its own, run again after the wakeup), or \<open>Diverge\<close> for
  a loop without end. \<open>bindK\<close> sequences them. The state is a chain of extensible records, one per component, each
  extending the one below it, so that an operation is defined on any larger state: \<open>kthread\<close> (locks held), \<open>kmem_state\<close>
  (byte memory and free list), \<open>vm_state\<close>, \<open>proc_state\<close>, \<open>bio_state\<close>, \<open>log_state\<close>, \<open>fs_state\<close>, \<open>console_state\<close>,
  \<open>file_state\<close>, \<open>virtio_state\<close>, \<open>trap_state\<close>. Integers are words of their width. Free pages, page tables and trapframes
  live in the byte memory at their addresses; structures on disk are encoded in the bytes of their blocks; the entries
  of the kernel's static tables (processes, buffers, inodes, files) are records named by their index, and a
  pipe is a record named by the address of its page.

  \<^bold>\<open>The theories.\<close>
  \<^item> \<open>Xv6_Prelude\<close>: outcomes, byte memories, little-endian words. \<open>Xv6_Layout\<close>: \<^verbatim>\<open>param.h\<close>, \<^verbatim>\<open>memlayout.h\<close>, the address macros
    of \<^verbatim>\<open>riscv.h\<close>, and the facts about page rounding and page-table indices.
  \<^item> \<open>Xv6_String\<close>: \<^verbatim>\<open>string.c\<close>. Every routine is a change of a byte range; \<^verbatim>\<open>memmove\<close> is right on overlapping ranges.
  \<^item> \<open>Xv6_Spinlock\<close>: \<^verbatim>\<open>spinlock.c\<close> twice. With all cpus, where a step relation interleaves the atomic steps of \<^verbatim>\<open>acquire\<close> and
    \<^verbatim>\<open>release\<close> and mutual exclusion is an invariant of the reachable states; and as the set of locks one thread holds,
    which the rest of the kernel uses. Both interpret the locale \<open>spin_lock\<close>.
  \<^item> \<open>Xv6_Kalloc\<close>: \<^verbatim>\<open>kalloc.c\<close>. The list threaded through the free pages is read back by \<open>flist\<close>; \<open>kmem_inv\<close> is kept by every
    operation; the locale \<open>page_alloc\<close> is what the clients use.
  \<^item> \<open>Xv6_Vm\<close>, \<open>Xv6_VmSpec\<close>, \<open>Xv6_Uvm\<close>, \<open>Xv6_UvmCopy\<close>: \<^verbatim>\<open>vm.c\<close>. A page table refines a function from virtual pages to entries
    (\<open>vlookup\<close>), a user address space a partial function from addresses to bytes (\<open>uload\<close>); growing, shrinking, copying an
    address space and copying to and from it are described on these.
  \<^item> \<open>Xv6_Proc\<close>, \<open>Xv6_Process\<close>: \<^verbatim>\<open>proc.c\<close> and \<^verbatim>\<open>exec.c\<close>. What sleep, wakeup, the scheduler, kill and wait do to the process table.
  \<^item> \<open>Xv6_Bio\<close>: \<^verbatim>\<open>sleeplock.c\<close> and \<^verbatim>\<open>bio.c\<close>. The doubly linked list of buffers is in order of last release; the cache refines a
    store of blocks (\<open>block_view\<close>: contents in the cache, contents on disk, references, locks) on which the theories above rest.
  \<^item> \<open>Xv6_Log\<close>: \<^verbatim>\<open>log.c\<close>. A commit is atomic under a crash at any of its disk writes.
  \<^item> \<open>Xv6_Fs\<close>, \<open>Xv6_FsSpec\<close>, \<open>Xv6_DirSpec\<close>: \<^verbatim>\<open>fs.c\<close>. Block allocation, inodes on disk and in the cache, reading files through direct and
    indirect blocks, looking up names in directories, path names.
  \<^item> \<open>Xv6_Console\<close>, \<open>Xv6_File\<close>, \<open>Xv6_Ring\<close>, \<open>Xv6_ConsoleSpec\<close>: \<^verbatim>\<open>uart.c\<close>, \<^verbatim>\<open>console.c\<close>, \<^verbatim>\<open>printf.c\<close>, \<^verbatim>\<open>pipe.c\<close>, \<^verbatim>\<open>file.c\<close>. The
    rings are bounded queues (locale \<open>byte_queue\<close>), also when their counters wrap around; \<^verbatim>\<open>consoleintr\<close> refines a line editor.
  \<^item> \<open>Xv6_Syscall\<close>, \<open>Xv6_Virtio\<close>, \<open>Xv6_Trap\<close>: \<^verbatim>\<open>syscall.c\<close>, \<^verbatim>\<open>sysfile.c\<close>, \<^verbatim>\<open>sysproc.c\<close>, \<^verbatim>\<open>virtio_disk.c\<close>, \<^verbatim>\<open>trap.c\<close>, \<^verbatim>\<open>plic.c\<close>, \<^verbatim>\<open>main.c\<close>,
    \<^verbatim>\<open>start.c\<close>.
  \<^item> \<open>Xv6_Ulib\<close>, \<open>Xv6_Filters\<close>, \<open>Xv6_Umalloc\<close>: \<^verbatim>\<open>user/ulib.c\<close>, \<^verbatim>\<open>printf.c\<close>, \<^verbatim>\<open>grep.c\<close>, \<^verbatim>\<open>wc.c\<close>, \<^verbatim>\<open>umalloc.c\<close>. Input arrives in
    reads of any length, and the theorems hold for every such schedule.
  \<^item> \<open>Xv6_Sh\<close>, \<open>Xv6_ShSpec\<close>, \<open>Xv6_ShRun\<close>: \<^verbatim>\<open>user/sh.c\<close>. The parser works on the bytes of the line; what the shell and its children do is a
    tree of system calls. Commands printed with any white space are parsed back, every line gives a well-formed command
    or a listed error, and the programs a line starts have the arguments and the descriptors the command asks for. Allocation of the nodes of a
    command is taken to succeed.
  \<^item> \<open>Xv6_Mkfs\<close>, \<open>Xv6_MkfsSpec\<close>: \<^verbatim>\<open>mkfs/mkfs.c\<close> over the sectors of the image file, on a little-endian host. The image it
    builds is a file system for \<open>Xv6_Fs\<close>, and the kernel finds the files it was given by
    their names and reads them.

  \<^bold>\<open>Loops.\<close> A loop with a bound is a structural recursion or has a termination proof. A loop that may run forever is a partial
  function whose result None becomes \<open>Diverge\<close>. Fuel occurs where a list or ring in the state bounds the loop, and
  running out of it is again \<open>Diverge\<close>: the search for a buffer has one turn more than the buffers of the cache,
  \<^verbatim>\<open>uartstart\<close> one more than the transmit ring has bytes, \<^verbatim>\<open>uartintr\<close> one more than there are bytes waiting, \<^verbatim>\<open>freewalk\<close> the three
  levels of a page table, \<^verbatim>\<open>free_chain\<close> and the loop of \<^verbatim>\<open>virtio_disk_intr\<close> the descriptors of the ring,
  the loop in which the shell opens the console four turns. The properties of these
  operations state that they return, so the fuel is enough in every state that satisfies the invariants.

  \<^bold>\<open>Concurrency.\<close> Cpus are interleaved in \<open>Xv6_Spinlock\<close>. Elsewhere one thread runs from a point where it holds its locks to the
  next point where it returns or sleeps; what other processes do in between is a change of the state between two outcomes.

  \<^bold>\<open>Not modelled.\<close> The assembly (\<^verbatim>\<open>entry.S\<close>, \<^verbatim>\<open>kernelvec.S\<close>, \<^verbatim>\<open>swtch.S\<close>, \<^verbatim>\<open>trampoline.S\<close>, \<^verbatim>\<open>initcode.S\<close>): it has no counterpart in
  a model at the level of C, and the C code is modelled up to the jump into it. The register accessors of \<^verbatim>\<open>riscv.h\<close>, each one
  instruction, beyond the registers that are fields of the state. \<^verbatim>\<open>defs.h\<close> and \<^verbatim>\<open>user.h\<close>, which only declare. The
  generated stubs of the system calls. The test programs (\<^verbatim>\<open>usertests.c\<close>, \<^verbatim>\<open>grind.c\<close>, \<^verbatim>\<open>forktest.c\<close>, \<^verbatim>\<open>stressfs.c\<close> and others), which
  exercise the kernel and promise nothing themselves.
\<close>

end
